(* ===== verification/Ice_Prelude.thy ===== *)
theory Ice_Prelude
  imports Main "HOL-Library.Word" "HOL-Library.Multiset"
begin

unbundle bit_operations_syntax

text \<open>
  The shared vocabulary of the development: the platforms the build selects between
  (include/ice/config.h.cmake), machine integer types, the collections of simplification rules
  the component theories fill, and two generic notions used by every concurrent component:
  reachability of a transition system and the contract ``this predicate is an invariant of this
  system'' (locale \<open>invariant_system\<close>), extended to forward simulation
  (locale \<open>refinement\<close>). Machines given by an executable action function
  (\<open>'a \<Rightarrow> 's \<Rightarrow> 's option\<close>) are turned into transition systems by
  \<open>act_step\<close> and run on concrete schedules by \<open>run_acts\<close>.
\<close>

section \<open>Collections of rules\<close>

named_theorems ice_const \<open>values of the program's named constants\<close>

section \<open>Platforms and machine integers\<close>

text \<open>
  \<open>ICE_OS_WIN32\<close>, \<open>ICE_OS_LINUX\<close> and \<open>ICE_OS_FREEBSD\<close>: exactly one of them is 1 in a build.
  Code under \<open>#else\<close> of \<open>ICE_OS_WIN32\<close> is common to the two Unix platforms.
\<close>

datatype unix = Linux | FreeBSD

datatype os = Win32 | Unix unix

type_synonym i32 = "32 word"
type_synonym u32 = "32 word"
type_synonym byte = "8 word"

definition int_max :: int where
  "int_max = 2147483647"

declare int_max_def [ice_const]

section \<open>Lists of bytes in memory\<close>

text \<open>A region of \<open>n\<close> bytes at address \<open>p\<close>, and a memory with a region overwritten.\<close>

definition mem_bytes :: "(nat \<Rightarrow> byte) \<Rightarrow> nat \<Rightarrow> nat \<Rightarrow> byte list" where
  "mem_bytes m p n = map m [p..<p + n]"

definition mem_write :: "nat \<Rightarrow> byte list \<Rightarrow> (nat \<Rightarrow> byte) \<Rightarrow> (nat \<Rightarrow> byte)" where
  "mem_write p bs m = (\<lambda>a. if p \<le> a \<and> a < p + length bs then bs ! (a - p) else m a)"

lemma length_mem_bytes [simp]: "length (mem_bytes m p n) = n"
  by (simp add: mem_bytes_def)

lemma mem_bytes_0 [simp]: "mem_bytes m p 0 = []"
  by (simp add: mem_bytes_def)

lemma take_mem_bytes: "k \<le> n \<Longrightarrow> take k (mem_bytes m p n) = mem_bytes m p k"
  by (simp add: mem_bytes_def take_map min_def)

lemma mem_bytes_split: "k \<le> n \<Longrightarrow> mem_bytes m p n = mem_bytes m p k @ mem_bytes m (p + k) (n - k)"
proof -
  assume "k \<le> n"
  then have "[p..<p + n] = [p..<p + k] @ [p + k..<p + n]"
    by (metis add_le_mono1 group_cancel.add1 le_add1 le_add_diff_inverse upt_add_eq_append)
  with \<open>k \<le> n\<close> show ?thesis by (simp add: mem_bytes_def)
qed

lemma drop_mem_bytes: "k \<le> n \<Longrightarrow> drop k (mem_bytes m p n) = mem_bytes m (p + k) (n - k)"
  by (simp add: mem_bytes_def drop_map)

lemma mem_bytes_write_same: "mem_bytes (mem_write p bs m) p (length bs) = bs"
  by (rule nth_equalityI) (auto simp: mem_bytes_def mem_write_def)

lemma unat_of_nat_u32: "n < 2 ^ 32 \<Longrightarrow> unat (of_nat n :: u32) = n"
  by (simp add: unat_of_nat take_bit_nat_eq_self)

lemma unat_of_nat_u64: "n < 2 ^ 64 \<Longrightarrow> unat (of_nat n :: 64 word) = n"
  by (simp add: unat_of_nat take_bit_nat_eq_self)

lemma unat_ucast_64 [simp]: "unat (ucast (b :: u32) :: 64 word) = unat b"
proof -
  have "unat b < 2 ^ LENGTH(32)" by (rule unsigned_less)
  then show ?thesis by (simp add: unsigned_ucast_eq take_bit_nat_eq_self)
qed

lemma unat_ucast_32: "unat (n :: 64 word) < 2 ^ 32 \<Longrightarrow> unat (ucast n :: u32) = unat n"
  by (simp add: unsigned_ucast_eq take_bit_nat_eq_self)

section \<open>Transition systems\<close>

inductive reach :: "('s \<Rightarrow> bool) \<Rightarrow> ('s \<Rightarrow> 's \<Rightarrow> bool) \<Rightarrow> 's \<Rightarrow> bool"
  for init :: "'s \<Rightarrow> bool" and step :: "'s \<Rightarrow> 's \<Rightarrow> bool" where
  reach_init: "init s \<Longrightarrow> reach init step s"
| reach_step: "reach init step s \<Longrightarrow> step s t \<Longrightarrow> reach init step t"

text \<open>The contract of an inductive invariant, and what it gives.\<close>

locale invariant_system =
  fixes init :: "'s \<Rightarrow> bool"
    and step :: "'s \<Rightarrow> 's \<Rightarrow> bool"
    and inv :: "'s \<Rightarrow> bool"
  assumes inv_init: "init s \<Longrightarrow> inv s"
    and inv_step: "inv s \<Longrightarrow> step s t \<Longrightarrow> inv t"
begin

lemma reach_inv: "reach init step s \<Longrightarrow> inv s"
  by (induction rule: reach.induct) (auto intro: inv_init inv_step)

end

text \<open>A forward simulation of an abstract system, under an invariant of the concrete one.\<close>

locale refinement = invariant_system init step inv
  for init :: "'s \<Rightarrow> bool" and step :: "'s \<Rightarrow> 's \<Rightarrow> bool" and inv :: "'s \<Rightarrow> bool" +
  fixes ainit :: "'a \<Rightarrow> bool"
    and astep :: "'a \<Rightarrow> 'a \<Rightarrow> bool"
    and rel :: "'s \<Rightarrow> 'a \<Rightarrow> bool"
  assumes sim_init: "init s \<Longrightarrow> \<exists>a. ainit a \<and> rel s a"
    and sim_step: "inv s \<Longrightarrow> step s t \<Longrightarrow> rel s a \<Longrightarrow> \<exists>b. (a = b \<or> astep a b) \<and> rel t b"
begin

lemma reach_sim: "reach init step s \<Longrightarrow> \<exists>a. reach ainit astep a \<and> rel s a"
proof (induction rule: reach.induct)
  case (reach_init s)
  then show ?case using sim_init reach.reach_init by metis
next
  case (reach_step s t)
  from reach_step.IH obtain a where a: "reach ainit astep a" "rel s a" by blast
  from sim_step [OF reach_inv [OF reach_step.hyps(1)] reach_step.hyps(2) a(2)]
  obtain b where "a = b \<or> astep a b" "rel t b" by blast
  with a(1) show ?case using reach.reach_step by metis
qed

end

section \<open>Machines given by an action function\<close>

text \<open>
  \<open>exec a s = Some t\<close>: in state \<open>s\<close> the action \<open>a\<close> is enabled and leads to \<open>t\<close>. Executable, so
  a concrete schedule is evaluated by the simplifier.
\<close>

definition act_step :: "('a \<Rightarrow> 's \<Rightarrow> 's option) \<Rightarrow> 's \<Rightarrow> 's \<Rightarrow> bool" where
  "act_step exec s t \<longleftrightarrow> (\<exists>a. exec a s = Some t)"

fun run_acts :: "('a \<Rightarrow> 's \<Rightarrow> 's option) \<Rightarrow> 'a list \<Rightarrow> 's \<Rightarrow> 's option" where
  "run_acts exec [] s = Some s"
| "run_acts exec (a # as) s = (case exec a s of None \<Rightarrow> None | Some t \<Rightarrow> run_acts exec as t)"

lemma act_stepI [intro]: "exec a s = Some t \<Longrightarrow> act_step exec s t"
  by (auto simp: act_step_def)

lemma act_stepE [elim]: "act_step exec s t \<Longrightarrow> (\<And>a. exec a s = Some t \<Longrightarrow> P) \<Longrightarrow> P"
  by (auto simp: act_step_def)

lemma run_acts_reach:
  "run_acts exec as s = Some t \<Longrightarrow> reach init (act_step exec) s \<Longrightarrow> reach init (act_step exec) t"
proof (induction as arbitrary: s)
  case Nil
  then show ?case by simp
next
  case (Cons a as)
  then obtain u where "exec a s = Some u" "run_acts exec as u = Some t"
    by (auto split: option.splits)
  with Cons show ?case by (meson act_stepI reach_step)
qed

lemma run_acts_append:
  "run_acts exec (as @ bs) s = (case run_acts exec as s of None \<Rightarrow> None | Some t \<Rightarrow> run_acts exec bs t)"
  by (induction as arbitrary: s) (auto split: option.splits)

end
