(* ===== verification/Ice_Error.thy ===== *)
theory Ice_Error
  imports Ice_Prelude
begin

text \<open>
  Error codes and messages: include/ice/error.h and src/ice/error.cpp. An \<open>error_code\<close> is one
  32-bit integer that carries a value and, in bits 28 and 29, the category it belongs to. The
  enumerators of \<open>std::errc\<close> are given by name, their numbers a parameter (\<open>num\<close>) of the definitions
  that use them, because every platform has its own.
  \<open>strerror_r\<close>, \<open>FormatMessageW\<close> and \<open>WideCharToMultiByte\<close> are parameters too.
\<close>

section \<open>The combined representation\<close>

definition error_type_native :: i32 where
  "error_type_native = 0"

definition error_type_system :: i32 where
  "error_type_system = push_bit 29 1"

definition error_type_domain :: i32 where
  "error_type_domain = push_bit 29 1 OR push_bit 28 1"

definition error_category_mask :: i32 where
  "error_category_mask = error_type_native OR error_type_system OR error_type_domain"

lemma error_type_native_val [ice_const]: "error_type_native = 0"
  by (simp add: error_type_native_def)

lemma error_type_system_val [ice_const]: "error_type_system = 0x20000000"
  by (simp add: error_type_system_def push_bit_eq_mult)

lemma error_type_domain_val [ice_const]: "error_type_domain = 0x30000000"
  by (simp add: error_type_domain_def push_bit_eq_mult)

lemma error_category_mask_val [ice_const]: "error_category_mask = 0x30000000"
  by (simp add: error_category_mask_def ice_const)

text \<open>\<open>enum class errc : int\<close> of the library itself.\<close>

datatype ice_errc = Eof | Version

fun ice_errc_value :: "ice_errc \<Rightarrow> int" where
  "ice_errc_value Eof = 1"
| "ice_errc_value Version = 2"

datatype error_code = Error_code (combined: i32)

definition ec_none :: error_code where
  "ec_none = Error_code 0"

text \<open>
  The three converting constructors: the value is cast to \<open>int\<close> and the category bits are or-ed
  in. Each asserts that the category bits of the result are those of its own category; the
  assertion is a predicate of its own (\<open>native_assert\<close>, \<open>system_assert\<close>, \<open>domain_assert\<close>).
\<close>

definition ec_native :: "int \<Rightarrow> error_code" where
  "ec_native v = Error_code (word_of_int v)"

definition native_assert :: "int \<Rightarrow> bool" where
  "native_assert v \<longleftrightarrow> combined (ec_native v) AND error_category_mask = error_type_native"

definition ec_system :: "int \<Rightarrow> error_code" where
  "ec_system c = Error_code (word_of_int c OR error_type_system)"

definition system_assert :: "int \<Rightarrow> bool" where
  "system_assert c \<longleftrightarrow> combined (ec_system c) AND error_category_mask = error_type_system"

definition ec_domain :: "int \<Rightarrow> error_code" where
  "ec_domain c = Error_code (word_of_int c OR error_type_domain)"

definition domain_assert :: "int \<Rightarrow> bool" where
  "domain_assert c \<longleftrightarrow> combined (ec_domain c) AND error_category_mask = error_type_domain"

definition ec_bool :: "error_code \<Rightarrow> bool" where
  "ec_bool ec \<longleftrightarrow> combined ec \<noteq> 0"

definition ec_clear :: "error_code \<Rightarrow> error_code" where
  "ec_clear ec = Error_code 0"

definition ec_type :: "error_code \<Rightarrow> i32" where
  "ec_type ec = combined ec AND error_category_mask"

definition ec_value :: "error_code \<Rightarrow> i32" where
  "ec_value ec = combined ec AND NOT error_category_mask"

text \<open>
  The category singletons of the program (the ssh category is declared by
  src/ice/net/ssh/error.cpp) and the standard library's own.
\<close>

datatype error_category = Native_category | System_category | Domain_category
  | Ssh_category | Std_system_category

definition ec_category :: "error_code \<Rightarrow> error_category" where
  "ec_category ec =
     (if ec_type ec = error_type_native then Native_category
      else if ec_type ec = error_type_system then System_category
      else if ec_type ec = error_type_domain then Domain_category
      else Std_system_category)"

section \<open>Comparison operators\<close>

definition ec_eq :: "error_code \<Rightarrow> error_code \<Rightarrow> bool" where
  "ec_eq l r \<longleftrightarrow> combined l = combined r"

definition ec_eq_errc :: "error_code \<Rightarrow> ice_errc \<Rightarrow> bool" where
  "ec_eq_errc l r \<longleftrightarrow> ec_type l = error_type_domain \<and> ec_value l = word_of_int (ice_errc_value r)"

definition ec_eq_std :: "error_code \<Rightarrow> int \<Rightarrow> bool" where
  "ec_eq_std l r \<longleftrightarrow> ec_type l = error_type_system \<and> ec_value l = word_of_int r"

definition ec_eq_int :: "error_code \<Rightarrow> int \<Rightarrow> bool" where
  "ec_eq_int l r \<longleftrightarrow> ec_type l = error_type_native \<and> ec_value l = word_of_int r"

section \<open>Decimal numbers\<close>

text \<open>\<open>std::to_string\<close> of an \<open>int\<close>.\<close>

fun nat_digits :: "nat \<Rightarrow> string" where
  "nat_digits n = (if n < 10 then [char_of (48 + n)]
                   else nat_digits (n div 10) @ [char_of (48 + n mod 10)])"

declare nat_digits.simps [simp del]

definition to_string :: "int \<Rightarrow> string" where
  "to_string i = (if i < 0 then CHR ''-'' # nat_digits (nat (- i)) else nat_digits (nat i))"

section \<open>The native category\<close>

definition is_space :: "char \<Rightarrow> bool" where
  "is_space c \<longleftrightarrow> c = CHR 0x0D \<or> c = CHR 0x0A \<or> c = CHR '' ''"

definition tolower :: "char \<Rightarrow> char" where
  "tolower c = (if 65 \<le> (of_char c :: nat) \<and> (of_char c :: nat) \<le> 90
                then char_of ((of_char c :: nat) + 32) else c)"

definition is_ascii_print :: "char \<Rightarrow> bool" where
  "is_ascii_print c \<longleftrightarrow> 32 \<le> (of_char c :: nat) \<and> (of_char c :: nat) \<le> 126"

text \<open>The lambda of \<open>std::transform\<close> with its captured flag \<open>ascii\<close>.\<close>

fun lower_ascii :: "bool \<Rightarrow> string \<Rightarrow> string" where
  "lower_ascii ascii [] = []"
| "lower_ascii ascii (c # cs) =
     (if ascii \<and> is_ascii_print c then tolower c # lower_ascii ascii cs
      else c # lower_ascii False cs)"

definition erase_leading :: "string \<Rightarrow> string" where
  "erase_leading s = (if \<exists>c\<in>set s. \<not> is_space c then dropWhile is_space s else s)"

definition erase_from_dot :: "string \<Rightarrow> string" where
  "erase_from_dot s = (if CHR ''.'' \<in> set s then takeWhile (\<lambda>c. c \<noteq> CHR ''.'') s else s)"

definition erase_trailing :: "string \<Rightarrow> string" where
  "erase_trailing s = (if \<exists>c\<in>set s. \<not> is_space c then rev (dropWhile is_space (rev s)) else s)"

definition native_format :: "string \<Rightarrow> string" where
  "native_format s = lower_ascii True (erase_trailing (erase_from_dot (erase_leading s)))"

text \<open>\<open>strnlen\<close> over the whole buffer: the bytes before the first zero byte.\<close>

definition cstr :: "string \<Rightarrow> string" where
  "cstr s = takeWhile (\<lambda>c. c \<noteq> CHR 0x00) s"

text \<open>
  The Unix branch: \<open>strerror_r code size\<close> is the call's result and the buffer it leaves.
\<close>

definition native_message_unix :: "(i32 \<Rightarrow> nat \<Rightarrow> int \<times> string) \<Rightarrow> i32 \<Rightarrow> string" where
  "native_message_unix strerror_r code =
     (case strerror_r code 1024 of (rc, str) \<Rightarrow>
        if rc = 0 then native_format (cstr str) else ''unknown error'')"

text \<open>
  The Windows branch: \<open>format_message code\<close> is the UTF-16 text of \<open>FormatMessageW\<close> (empty where
  the call fails or the copy throws), \<open>to_utf8 w n\<close> the result of \<open>WideCharToMultiByte\<close> with a
  destination of \<open>n\<close> bytes and the destination's content; \<open>n = 0\<close> asks for the size only.
\<close>

definition native_message_win ::
  "(i32 \<Rightarrow> 16 word list) \<Rightarrow> (16 word list \<Rightarrow> int \<Rightarrow> int \<times> string) \<Rightarrow> i32 \<Rightarrow> string" where
  "native_message_win format_message to_utf8 code =
     (let wstr = takeWhile (\<lambda>w. w \<noteq> 0) (format_message code) in
      if wstr \<noteq> [] then
        let size = fst (to_utf8 wstr 0) + 1 in
        if size > 0 then
          (case to_utf8 wstr size of (size', str) \<Rightarrow>
             if size' > 0 then native_format (cstr (take (nat size') str)) else ''unknown error'')
        else ''unknown error''
      else ''unknown error'')"

section \<open>The system and domain categories\<close>

text \<open>An enumerator of \<open>std::errc\<close>, by its name.\<close>

type_synonym std_errc = string

text \<open>
  The chain of comparisons of \<open>system_category::message\<close> as the list of its enumerators and
  texts, in order (two lists, split at the same place as the source lines in the map).
\<close>

definition system_messages_1 :: "(std_errc \<times> string) list" where
  "system_messages_1 =
    [(''address_family_not_supported'', ''address family not supported''),
     (''address_in_use'', ''address in use''),
     (''address_not_available'', ''address not available''),
     (''already_connected'', ''already connected''),
     (''argument_list_too_long'', ''argument list too long''),
     (''argument_out_of_domain'', ''argument out of domain''),
     (''bad_address'', ''bad address''),
     (''bad_file_descriptor'', ''bad file descriptor''),
     (''bad_message'', ''bad message''),
     (''broken_pipe'', ''broken pipe''),
     (''connection_aborted'', ''connection aborted''),
     (''connection_already_in_progress'', ''connection already in progress''),
     (''connection_refused'', ''connection refused''),
     (''connection_reset'', ''connection reset''),
     (''cross_device_link'', ''cross device link''),
     (''destination_address_required'', ''destination address required''),
     (''device_or_resource_busy'', ''device or resource busy''),
     (''directory_not_empty'', ''directory not empty''),
     (''executable_format_error'', ''executable format error''),
     (''file_exists'', ''file exists''),
     (''file_too_large'', ''file too large''),
     (''filename_too_long'', ''filename too long''),
     (''function_not_supported'', ''function not supported''),
     (''host_unreachable'', ''host unreachable''),
     (''identifier_removed'', ''identifier removed''),
     (''illegal_byte_sequence'', ''illegal byte sequence''),
     (''inappropriate_io_control_operation'', ''inappropriate io control operation''),
     (''interrupted'', ''interrupted''),
     (''invalid_argument'', ''invalid argument''),
     (''invalid_seek'', ''invalid seek''),
     (''io_error'', ''io error''),
     (''is_a_directory'', ''is a directory''),
     (''message_size'', ''message size''),
     (''network_down'', ''network down''),
     (''network_reset'', ''network reset''),
     (''network_unreachable'', ''network unreachable''),
     (''no_buffer_space'', ''no buffer space''),
     (''no_child_process'', ''no child process''),
     (''no_link'', ''no link''),
     (''no_lock_available'', ''no lock available''),
     (''no_message_available'', ''no message available''),
     (''no_message'', ''no message''),
     (''no_protocol_option'', ''no protocol option''),
     (''no_space_on_device'', ''no space on device''),
     (''no_stream_resources'', ''no stream resources''),
     (''no_such_device_or_address'', ''no such device or address''),
     (''no_such_device'', ''no such device''),
     (''no_such_file_or_directory'', ''no such file or directory''),
     (''no_such_process'', ''no such process''),
     (''not_a_directory'', ''not a directory'')]"

definition system_messages_2 :: "(std_errc \<times> string) list" where
  "system_messages_2 =
    [(''not_a_socket'', ''not a socket''),
     (''not_a_stream'', ''not a stream''),
     (''not_connected'', ''not connected''),
     (''not_enough_memory'', ''not enough memory''),
     (''not_supported'', ''not supported''),
     (''operation_canceled'', ''operation canceled''),
     (''operation_in_progress'', ''operation in progress''),
     (''operation_not_permitted'', ''operation not permitted''),
     (''operation_not_supported'', ''operation not supported''),
     (''operation_would_block'', ''operation would block''),
     (''owner_dead'', ''owner dead''),
     (''permission_denied'', ''permission denied''),
     (''protocol_error'', ''protocol error''),
     (''protocol_not_supported'', ''protocol not supported''),
     (''read_only_file_system'', ''read only file system''),
     (''resource_deadlock_would_occur'', ''resource deadlock would occur''),
     (''resource_unavailable_try_again'', ''resource unavailable try again''),
     (''result_out_of_range'', ''result out of range''),
     (''state_not_recoverable'', ''state not recoverable''),
     (''stream_timeout'', ''stream timeout''),
     (''text_file_busy'', ''text file busy''),
     (''timed_out'', ''timed out''),
     (''too_many_files_open_in_system'', ''too many files open in system''),
     (''too_many_files_open'', ''too many files open''),
     (''too_many_links'', ''too many links''),
     (''too_many_symbolic_link_levels'', ''too many symbolic link levels''),
     (''value_too_large'', ''value too large''),
     (''wrong_protocol_type'', ''wrong protocol type'')]"

definition system_messages :: "(std_errc \<times> string) list" where
  "system_messages = system_messages_1 @ system_messages_2"

definition system_message :: "(std_errc \<Rightarrow> int) \<Rightarrow> i32 \<Rightarrow> string" where
  "system_message num code =
     (case find (\<lambda>(e, _). word_of_int (num e) = code) system_messages of
        Some (_, text) \<Rightarrow> text
      | None \<Rightarrow> ''unknown error'')"

definition domain_message :: "i32 \<Rightarrow> string" where
  "domain_message code =
     (if code = word_of_int (ice_errc_value Eof) then ''end of file''
      else if code = word_of_int (ice_errc_value Version) then ''version mismatch''
      else ''unknown error'')"

section \<open>Texts of error codes and exceptions\<close>

text \<open>
  \<open>error_code::message\<close> goes through the standard \<open>default_error_condition\<close>, which keeps value and
  category, to the category's \<open>message\<close>; \<open>msg\<close> is that dispatch.
\<close>

definition ec_message :: "(error_category \<Rightarrow> i32 \<Rightarrow> string) \<Rightarrow> error_code \<Rightarrow> string" where
  "ec_message msg ec = msg (ec_category ec) (ec_value ec)"

definition category_message ::
  "(i32 \<Rightarrow> string) \<Rightarrow> (std_errc \<Rightarrow> int) \<Rightarrow> (error_category \<Rightarrow> i32 \<Rightarrow> string) \<Rightarrow>
   error_category \<Rightarrow> i32 \<Rightarrow> string" where
  "category_message native num other cat code =
     (case cat of
        Native_category \<Rightarrow> native code
      | System_category \<Rightarrow> system_message num code
      | Domain_category \<Rightarrow> domain_message code
      | _ \<Rightarrow> other cat code)"

definition format_ec :: "(error_category \<Rightarrow> i32 \<Rightarrow> string) \<Rightarrow> string \<Rightarrow> error_code \<Rightarrow> string" where
  "format_ec msg what ec =
     (if ec_bool ec then
        what @ '': '' @ ec_message msg ec @
        (if ec_type ec = error_type_native then '' ('' @ to_string (sint (ec_value ec)) @ '')'' else [])
      else what)"

definition format_std ::
  "(error_category \<Rightarrow> i32 \<Rightarrow> string) \<Rightarrow> string \<Rightarrow> error_category \<Rightarrow> i32 \<Rightarrow> string" where
  "format_std msg what cat val =
     (if val \<noteq> 0 then what @ '': '' @ msg cat val @ '' ('' @ to_string (sint val) @ '')'' else what)"

text \<open>\<open>operator<<\<close> of an error code: the characters it appends.\<close>

definition print_ec :: "(error_category \<Rightarrow> i32 \<Rightarrow> string) \<Rightarrow> error_code \<Rightarrow> string" where
  "print_ec msg ec =
     ec_message msg ec @
     (if ec_type ec = error_type_native then '' ('' @ to_string (sint (ec_value ec)) @ '')'' else [])"

text \<open>
  The exceptions the program throws: \<open>system_error\<close> (value and category of its \<open>std::error_code\<close>
  and the text given to the constructor).
\<close>

datatype exn = Exn (exn_value: i32) (exn_category: error_category) (exn_what: string)

definition system_error :: "error_code \<Rightarrow> string \<Rightarrow> exn" where
  "system_error ec what = Exn (ec_value ec) (ec_category ec) what"

section \<open>Bits of the combined representation\<close>

lemma word_and_split: "(a AND m) OR (a AND NOT m) = (a :: 'a::len word)"
  by (rule bit_word_eqI) (auto simp: bit_simps)

lemma word_and_disjoint: "(a AND m) AND (a AND NOT m) = (0 :: 'a::len word)"
  by (rule bit_word_eqI) (auto simp: bit_simps)

lemma word_or_tag:
  fixes a m t :: "'a::len word"
  assumes "a AND m = 0" and "t AND m = t"
  shows "(a OR t) AND m = t" and "(a OR t) AND NOT m = a"
proof -
  have *: "(bit a n \<longrightarrow> \<not> bit m n) \<and> (bit t n \<longrightarrow> bit m n)" for n
    using arg_cong [OF assms(1), of "\<lambda>w. bit w n"] arg_cong [OF assms(2), of "\<lambda>w. bit w n"]
    by (auto simp: bit_simps)
  show "(a OR t) AND m = t" "(a OR t) AND NOT m = a"
    by (rule bit_word_eqI; use * in \<open>auto simp: bit_simps dest: bit_imp_le_length\<close>)+
qed

lemma small_word_mask:
  assumes "0 \<le> v" "v < 2 ^ 28"
  shows "(word_of_int v :: i32) AND error_category_mask = 0"
proof -
  have "v = v AND mask 28"
    using assms by (metis take_bit_eq_mask take_bit_int_eq_self_iff)
  then have v: "(word_of_int v :: i32) = word_of_int v AND word_of_int (mask 28)"
    by (metis word_wi_log_defs(2))
  have "word_of_int (mask 28) AND (0x30000000 :: i32) = 0"
    by (simp add: mask_eq_exp_minus_1)
  then show ?thesis
    by (subst v) (simp only: and.assoc error_category_mask_val and_zero_eq)
qed

lemma word_of_int_small_inj:
  assumes "0 \<le> v" "v < 2 ^ 28" "0 \<le> w" "w < 2 ^ 28" "(word_of_int v :: i32) = word_of_int w"
  shows "v = w"
proof -
  have "take_bit 32 v = take_bit 32 w"
    using assms(5) by (simp add: word_of_int_eq_iff)
  with assms(1-4) show ?thesis by (simp add: take_bit_int_eq_self)
qed

lemma type_masked:
  "error_type_native AND error_category_mask = error_type_native"
  "error_type_system AND error_category_mask = error_type_system"
  "error_type_domain AND error_category_mask = error_type_domain"
  by (simp_all add: ice_const)

lemma type_distinct [simp]:
  "error_type_system \<noteq> error_type_native" "error_type_native \<noteq> error_type_system"
  "error_type_domain \<noteq> error_type_native" "error_type_native \<noteq> error_type_domain"
  "error_type_domain \<noteq> error_type_system" "error_type_system \<noteq> error_type_domain"
  by (simp_all add: ice_const)

lemmas ec_defs = ec_native_def ec_system_def ec_domain_def ec_type_def ec_value_def

lemma ec_small [simp]:
  assumes "0 \<le> v" "v < 2 ^ 28"
  shows "ec_type (ec_native v) = error_type_native" "ec_value (ec_native v) = word_of_int v"
    and "ec_type (ec_system v) = error_type_system" "ec_value (ec_system v) = word_of_int v"
    and "ec_type (ec_domain v) = error_type_domain" "ec_value (ec_domain v) = word_of_int v"
proof -
  note m = small_word_mask [OF assms]
  note tags = word_or_tag [OF m type_masked(2)] word_or_tag [OF m type_masked(3)]
    word_or_tag [OF m type_masked(1)]
  show "ec_type (ec_native v) = error_type_native" "ec_value (ec_native v) = word_of_int v"
    using m tags(5,6) by (simp_all add: ec_defs error_type_native_def)
  show "ec_type (ec_system v) = error_type_system" "ec_value (ec_system v) = word_of_int v"
    "ec_type (ec_domain v) = error_type_domain" "ec_value (ec_domain v) = word_of_int v"
    using tags by (simp_all add: ec_defs)
qed

lemma ec_eqI: "ec_type a = ec_type b \<Longrightarrow> ec_value a = ec_value b \<Longrightarrow> a = b"
  unfolding ec_type_def ec_value_def by (metis error_code.expand word_and_split)

text \<open>
  C22: the packing of a category and a value into one integer loses nothing. For every value below
  two to the 28, each of the three constructors passes its assertion and the code it builds
  gives back exactly the category and the value.
\<close>

theorem ec_roundtrip:
  assumes "0 \<le> v" "v < 2 ^ 28"
  shows "native_assert v \<and> ec_category (ec_native v) = Native_category \<and> sint (ec_value (ec_native v)) = v
       \<and> system_assert v \<and> ec_category (ec_system v) = System_category \<and> sint (ec_value (ec_system v)) = v
       \<and> domain_assert v \<and> ec_category (ec_domain v) = Domain_category \<and> sint (ec_value (ec_domain v)) = v"
proof -
  have "sint (word_of_int v :: i32) = v"
    using assms by (subst signed_of_int) (simp add: signed_take_bit_int_eq_self)
  then show ?thesis
    using ec_small [OF assms]
    by (simp add: ec_category_def native_assert_def system_assert_def domain_assert_def ec_type_def)
qed

theorem ec_roundtrip_witness:
  "sint (ec_value (ec_system 110)) = 110 \<and> ec_category (ec_system 110) = System_category"
  using ec_roundtrip [of 110] by simp

text \<open>
  The comparison operators. Two codes are equal exactly when they are the same integer, and a
  code equals an integer, a \<open>std::errc\<close> or an \<open>errc\<close> exactly when it is the code the constructor
  builds from it: codes of different categories with the same value never compare equal.
\<close>

lemma ec_operators:
  assumes "0 \<le> v" "v < 2 ^ 28"
  shows "(ec_eq a b \<longleftrightarrow> a = b)
       \<and> (ec_eq_int a v \<longleftrightarrow> a = ec_native v)
       \<and> (ec_eq_std a v \<longleftrightarrow> a = ec_system v)
       \<and> (ec_eq_errc a e \<longleftrightarrow> a = ec_domain (ice_errc_value e))"
proof -
  have "0 \<le> ice_errc_value e" "ice_errc_value e < 2 ^ 28" by (cases e; simp)+
  note e = ec_small [OF this] 
  have "ec_eq a b \<longleftrightarrow> a = b" by (cases a; cases b) (simp add: ec_eq_def)
  moreover have "ec_eq_int a v \<longleftrightarrow> a = ec_native v" "ec_eq_std a v \<longleftrightarrow> a = ec_system v"
    using ec_small [OF assms] by (auto simp: ec_eq_int_def ec_eq_std_def intro!: ec_eqI)
  moreover have "ec_eq_errc a e \<longleftrightarrow> a = ec_domain (ice_errc_value e)"
    using e by (auto simp: ec_eq_errc_def intro!: ec_eqI)
  ultimately show ?thesis by blast
qed

theorem ec_operators_witness:
  "\<not> ec_eq_int (ec_domain 1) 1 \<and> ec_eq_errc (ec_domain 1) Eof"
proof -
  have "ec_domain 1 \<noteq> ec_native 1"
    by (simp add: ec_domain_def ec_native_def ice_const)
  with ec_operators [of 1 "ec_domain 1" "ec_domain 1" Eof] show ?thesis by simp
qed

section \<open>The message tables\<close>

definition spaced :: "string \<Rightarrow> string" where
  "spaced e = map (\<lambda>c. if c = CHR ''_'' then CHR '' '' else c) e"

lemma system_messages_spaced: "map snd system_messages = map (spaced \<circ> fst) system_messages"
  by (simp add: system_messages_def system_messages_1_def system_messages_2_def spaced_def)

lemma system_messages_text: "(e, t) \<in> set system_messages \<Longrightarrow> t = spaced e"
  using system_messages_spaced by (metis (mono_tags, lifting) comp_apply fst_conv map_eq_conv snd_conv)

lemma find_keyed:
  "(e, t0) \<in> set xs \<Longrightarrow> \<forall>y\<in>set xs. f (fst y) = f e \<longrightarrow> fst y = e \<Longrightarrow>
   \<exists>t. (e, t) \<in> set xs \<and> find (\<lambda>(e', _). f e' = f e) xs = Some (e, t)"
proof (induction xs)
  case Nil
  then show ?case by simp
next
  case (Cons x xs)
  then show ?case by (cases x; cases "f (fst x) = f e") auto
qed

text \<open>
  For any numbering of \<open>std::errc\<close> that gives different enumerators different numbers, the
  chain of comparisons gives every enumerator its own text (its name with spaces), and
  every other code the text \<open>unknown error\<close>.
\<close>

lemma system_message_complete:
  assumes inj: "inj_on (\<lambda>e. word_of_int (num e) :: i32) (fst ` set system_messages)"
  shows "(e \<in> fst ` set system_messages \<longrightarrow> system_message num (word_of_int (num e)) = spaced e)
       \<and> (c \<notin> (\<lambda>e. word_of_int (num e)) ` fst ` set system_messages \<longrightarrow>
          system_message num c = ''unknown error'')"
proof (intro conjI impI)
  assume "e \<in> fst ` set system_messages"
  then obtain t where x: "(e, t) \<in> set system_messages" by auto
  with inj have "\<forall>y\<in>set system_messages. (word_of_int (num (fst y)) :: i32) = word_of_int (num e) \<longrightarrow> fst y = e"
    by (force dest: inj_onD)
  from find_keyed [where f = "\<lambda>e. word_of_int (num e) :: i32", OF x this]
  obtain t' where "(e, t') \<in> set system_messages"
    "find (\<lambda>(e', _). (word_of_int (num e') :: i32) = word_of_int (num e)) system_messages = Some (e, t')"
    by auto
  then show "system_message num (word_of_int (num e)) = spaced e"
    by (simp add: system_message_def system_messages_text)
next
  assume "c \<notin> (\<lambda>e. word_of_int (num e)) ` fst ` set system_messages"
  then have "find (\<lambda>(e', _). (word_of_int (num e') :: i32) = c) system_messages = None"
    by (force simp: find_None_iff)
  then show "system_message num c = ''unknown error''"
    by (simp add: system_message_def)
qed

lemma length_system_messages: "length system_messages = 78"
  by (simp add: system_messages_def system_messages_1_def system_messages_2_def)

lemma takeWhile_index_inj:
  "x \<in> set xs \<Longrightarrow> y \<in> set xs \<Longrightarrow>
   length (takeWhile (\<lambda>z. z \<noteq> x) xs) = length (takeWhile (\<lambda>z. z \<noteq> y) xs) \<Longrightarrow> x = y"
  by (induction xs) (auto split: if_splits)

text \<open>A numbering by position, at which the hypothesis holds, and one enumerator of it.\<close>

definition position_errc :: "std_errc \<Rightarrow> int" where
  "position_errc e = int (length (takeWhile (\<lambda>z. z \<noteq> e) (map fst system_messages)))"

lemma position_errc_bound: "0 \<le> position_errc e \<and> position_errc e \<le> 78"
  using length_takeWhile_le [of "\<lambda>w. w \<noteq> e" "map fst system_messages"]
  by (simp add: position_errc_def length_system_messages del: takeWhile.simps)

lemma position_errc_inj: "inj_on (\<lambda>e. word_of_int (position_errc e) :: i32) (fst ` set system_messages)"
proof (rule inj_onI)
  fix x y
  assume xy: "x \<in> fst ` set system_messages" "y \<in> fst ` set system_messages"
    and eq: "(word_of_int (position_errc x) :: i32) = word_of_int (position_errc y)"
  have b: "0 \<le> position_errc z \<and> position_errc z < 2 ^ 28" for z
    using position_errc_bound [of z] by simp
  from word_of_int_small_inj [OF _ _ _ _ eq] b have "position_errc x = position_errc y" by blast
  then show "x = y" using takeWhile_index_inj [of x "map fst system_messages" y] xy
    by (simp add: position_errc_def)
qed

theorem system_message_complete_witness:
  "system_message position_errc (word_of_int (position_errc ''io_error'')) = ''io error''
   \<and> system_message position_errc 1000 = ''unknown error''"
proof -
  have "''io_error'' \<in> fst ` set system_messages"
    by (simp add: system_messages_def system_messages_1_def)
  moreover have "(1000 :: i32) \<notin> (\<lambda>e. word_of_int (position_errc e)) ` fst ` set system_messages"
  proof
    assume "(1000 :: i32) \<in> (\<lambda>e. word_of_int (position_errc e)) ` fst ` set system_messages"
    then obtain e where "(word_of_int 1000 :: i32) = word_of_int (position_errc e)" by auto
    from word_of_int_small_inj [OF _ _ _ _ this] position_errc_bound [of e] show False by simp
  qed
  ultimately show ?thesis
    using system_message_complete [OF position_errc_inj, of "''io_error''" 1000]
    by (simp add: spaced_def)
qed


section \<open>Normalisation of native messages\<close>

lemma lower_ascii_False [simp]: "lower_ascii False s = s"
  by (induction s) auto

lemma tolower_idem [simp]: "tolower (tolower c) = tolower c"
  by (auto simp: tolower_def of_char_of)

lemma of_char_tolower:
  "(of_char (tolower c) :: nat) = (if 65 \<le> (of_char c :: nat) \<and> (of_char c :: nat) \<le> 90 then of_char c + 32 else of_char c)"
  by (simp add: tolower_def of_char_of)

lemma is_ascii_print_tolower [simp]: "is_ascii_print (tolower c) = is_ascii_print c"
  by (auto simp: is_ascii_print_def of_char_tolower)

lemma is_space_of_char: "is_space c \<longleftrightarrow> (of_char c :: nat) \<in> {13, 10, 32}"
proof -
  have "c = d \<longleftrightarrow> (of_char c :: nat) = of_char d" for d by (metis of_char_eq_iff)
  from this [of "CHR 0x0D"] this [of "CHR 0x0A"] this [of "CHR '' ''"] show ?thesis
    by (simp add: is_space_def)
qed

lemma is_space_tolower [simp]: "is_space (tolower c) = is_space c"
  by (auto simp: is_space_of_char of_char_tolower)

lemma dot_tolower [simp]: "tolower c = CHR ''.'' \<longleftrightarrow> c = CHR ''.''"
proof -
  have "c = d \<longleftrightarrow> (of_char c :: nat) = of_char d" for c d :: char by (metis of_char_eq_iff)
  from this [of "tolower c" "CHR ''.''"] this [of c "CHR ''.''"] show ?thesis
    by (auto simp: of_char_tolower)
qed

lemma lower_ascii_idem [simp]: "lower_ascii b (lower_ascii b s) = lower_ascii b s"
  by (induction b s rule: lower_ascii.induct) auto

lemma map_is_space_lower: "map is_space (lower_ascii b s) = map is_space s"
  by (induction b s rule: lower_ascii.induct) auto

lemma lower_ascii_dot [simp]: "CHR ''.'' \<in> set (lower_ascii b s) \<longleftrightarrow> CHR ''.'' \<in> set s"
  by (induction b s rule: lower_ascii.induct) (auto simp: eq_commute [of "CHR ''.''"])

definition trimmed :: "string \<Rightarrow> bool" where
  "trimmed t \<longleftrightarrow> (\<forall>c\<in>set t. is_space c) \<or> (t \<noteq> [] \<and> \<not> is_space (hd t) \<and> \<not> is_space (last t))"

lemma trimmed_alt: "trimmed t \<longleftrightarrow> (let bs = map is_space t in
    (\<forall>b\<in>set bs. b) \<or> (bs \<noteq> [] \<and> \<not> hd bs \<and> \<not> last bs))"
  by (cases "t = []") (simp_all add: trimmed_def Let_def hd_map last_map)

lemma trimmed_lower [simp]: "trimmed (lower_ascii b s) = trimmed s"
  by (simp only: trimmed_alt map_is_space_lower)

lemma trimmed_fixed:
  assumes "trimmed t"
  shows "erase_leading t = t" "erase_trailing t = t"
proof -
  have "dropWhile is_space t = t \<and> dropWhile is_space (rev t) = rev t" if "\<not> (\<forall>c\<in>set t. is_space c)"
  proof -
    from that assms have "t \<noteq> []" "\<not> is_space (hd t)" "\<not> is_space (hd (rev t))"
      by (auto simp: trimmed_def hd_rev)
    then show ?thesis by (metis dropWhile.simps(2) hd_Cons_tl rev_is_Nil_conv)
  qed
  then show "erase_leading t = t" "erase_trailing t = t"
    by (auto simp: erase_leading_def erase_trailing_def)
qed

lemma erase_leading_hd: "(\<forall>c\<in>set (erase_leading s). is_space c) \<or> \<not> is_space (hd (erase_leading s))"
  by (metis erase_leading_def hd_dropWhile dropWhile_eq_Nil_conv)

lemma erase_from_dot_prefix: "erase_from_dot s = [] \<or> hd (erase_from_dot s) = hd s \<and> set (erase_from_dot s) \<subseteq> set s"
  by (cases s) (auto simp: erase_from_dot_def dest: set_takeWhileD)

lemma erase_from_dot_dot [simp]: "CHR ''.'' \<notin> set (erase_from_dot s)"
  by (auto simp: erase_from_dot_def dest: set_takeWhileD)

lemma erase_trailing_trimmed:
  assumes "(\<forall>c\<in>set s. is_space c) \<or> \<not> is_space (hd s)"
  shows "trimmed (erase_trailing s)" and "set (erase_trailing s) \<subseteq> set s"
proof -
  show "set (erase_trailing s) \<subseteq> set s"
    by (auto simp: erase_trailing_def dest: set_dropWhileD)
  show "trimmed (erase_trailing s)"
  proof (cases "\<forall>c\<in>set s. is_space c")
    case True
    then show ?thesis by (auto simp: erase_trailing_def trimmed_def)
  next
    case False
    let ?d = "dropWhile is_space (rev s)"
    from False have d: "?d \<noteq> []" by (auto simp: dropWhile_eq_Nil_conv)
    then have "\<not> is_space (hd ?d)" by (rule hd_dropWhile)
    moreover have "hd (rev ?d) = hd s"
      using d takeWhile_dropWhile_id [of is_space "rev s"]
      by (metis hd_append rev_append rev_is_Nil_conv rev_rev_ident)
    ultimately show ?thesis using False d assms
      by (auto simp: erase_trailing_def trimmed_def last_rev)
  qed
qed

text \<open>
  What \<open>native_category::message\<close> makes of the operating system's text: no full stop is left,
  nothing but white space or no white space at either end, and formatting again changes nothing.
\<close>

lemma native_format_normal:
  "CHR ''.'' \<notin> set (native_format s) \<and> trimmed (native_format s)
   \<and> native_format (native_format s) = native_format s"
proof -
  let ?w = "erase_trailing (erase_from_dot (erase_leading s))"
  have "(\<forall>c\<in>set (erase_from_dot (erase_leading s)). is_space c)
        \<or> \<not> is_space (hd (erase_from_dot (erase_leading s)))"
    using erase_leading_hd [of s] erase_from_dot_prefix [of "erase_leading s"] by auto
  from erase_trailing_trimmed [OF this]
  have w: "trimmed ?w" "CHR ''.'' \<notin> set ?w" by auto
  then have "erase_from_dot (lower_ascii True ?w) = lower_ascii True ?w"
    by (simp add: erase_from_dot_def)
  with w show ?thesis by (simp add: native_format_def trimmed_fixed)
qed

lemma word_and_exp: "(x :: 'a::len word) AND 2 ^ n = (if bit x n then 2 ^ n else 0)"
  by (rule bit_word_eqI) (auto simp: bit_simps)

lemma ec_type_cases:
  "ec_type ec = (if bit (combined ec) 29 then 0x20000000 else 0) OR (if bit (combined ec) 28 then 0x10000000 else 0)"
proof -
  have "ec_type ec = (combined ec AND 2 ^ 29) OR (combined ec AND 2 ^ 28)"
    unfolding ec_type_def error_category_mask_val and.left_commute
    by (simp flip: bit.conj_disj_distrib)
  then show ?thesis by (simp only: word_and_exp) simp
qed

text \<open>
  \<open>category()\<close> falls through its switch to \<open>std::system_category\<close> for exactly one pattern of
  the category bits, the one no constructor produces; and category bits and value are disjoint
  and make up the whole integer.
\<close>

lemma ec_category_total:
  "(ec_category ec = Std_system_category \<longleftrightarrow> bit (combined ec) 28 \<and> \<not> bit (combined ec) 29)
   \<and> combined ec = ec_type ec OR ec_value ec \<and> ec_type ec AND ec_value ec = 0"
proof (intro conjI)
  show "ec_category ec = Std_system_category \<longleftrightarrow> bit (combined ec) 28 \<and> \<not> bit (combined ec) 29"
    by (simp add: ec_category_def ec_type_cases ice_const)
  show "combined ec = ec_type ec OR ec_value ec" "ec_type ec AND ec_value ec = 0"
    by (simp_all add: ec_type_def ec_value_def word_and_split word_and_disjoint)
qed

end
