(* ===== verification/Ice_Owner.thy ===== *)
theory Ice_Owner
  imports Ice_Prelude
begin

text \<open>
  The interface of the program's move-only owners. Six classes hold one resource each and release
  it when they are destroyed: \<open>handle\<close> (include/ice/handle.h), \<open>scope_exit\<close> (include/ice/scope.h),
  and \<open>async\<close>, \<open>generator\<close>, \<open>async_generator\<close> and \<open>async_mutex_lock\<close> (include/ice/async.h).
  Each writes its move constructor, move assignment and destructor in its own way. The locale
  \<open>move_only\<close> states what those members promise about the objects of one class (\<open>slot s t\<close> is the
  resource held by the object at address \<open>t\<close>, \<open>nil\<close> when it holds none, \<open>closed s\<close> the log of the
  resources released so far), and derives from it that no program that only constructs,
  moves, assigns and destroys such objects leaks a resource or releases one twice.
\<close>

section \<open>Programs over the objects of one owner class\<close>

datatype 'v own_cmd =
    Make nat 'v
  | Move_ctor nat nat
  | Move_assign nat nat
  | Destroy nat

text \<open>
  One command, on the list of the addresses of live objects and the state; \<open>None\<close> for a command
  no C++ program can issue (constructing over a live object, using a dead one).
  A class without move assignment has \<open>ma = None\<close>.
\<close>

fun own_step ::
  "(nat \<Rightarrow> 'v \<Rightarrow> 's \<Rightarrow> 's) \<Rightarrow> (nat \<Rightarrow> nat \<Rightarrow> 's \<Rightarrow> 's) \<Rightarrow> (nat \<Rightarrow> nat \<Rightarrow> 's \<Rightarrow> 's) option \<Rightarrow>
   (nat \<Rightarrow> 's \<Rightarrow> 's) \<Rightarrow> 'v own_cmd \<Rightarrow> nat list \<times> 's \<Rightarrow> (nat list \<times> 's) option" where
  "own_step mk mc ma dt (Make t v) (live, s) =
     (if t \<in> set live then None else Some (t # live, mk t v s))"
| "own_step mk mc ma dt (Move_ctor t f) (live, s) =
     (if t \<in> set live \<or> f \<notin> set live then None else Some (t # live, mc t f s))"
| "own_step mk mc ma dt (Move_assign t f) (live, s) =
     (case ma of None \<Rightarrow> None
      | Some assign \<Rightarrow> if t \<in> set live \<and> f \<in> set live then Some (live, assign t f s) else None)"
| "own_step mk mc ma dt (Destroy t) (live, s) =
     (if t \<in> set live then Some (remove1 t live, dt t s) else None)"

text \<open>The resources a program brings in.\<close>

fun acquired :: "'v \<Rightarrow> 'v own_cmd list \<Rightarrow> 'v multiset" where
  "acquired nil [] = {#}"
| "acquired nil (Make t v # cs) = (if v = nil then {#} else {#v#}) + acquired nil cs"
| "acquired nil (_ # cs) = acquired nil cs"

text \<open>The resources held by the live objects.\<close>

definition owned :: "'v \<Rightarrow> (nat \<Rightarrow> 'v) \<Rightarrow> nat list \<Rightarrow> 'v multiset" where
  "owned nil f live = filter_mset (\<lambda>v. v \<noteq> nil) (image_mset f (mset live))"

definition keep :: "'v \<Rightarrow> 'v \<Rightarrow> 'v list" where
  "keep nil v = (if v = nil then [] else [v])"

lemma owned_Cons: "owned nil f (t # live) = mset (keep nil (f t)) + owned nil f live"
  by (simp add: owned_def keep_def)

lemma owned_Nil [simp]: "owned nil f [] = {#}"
  by (simp add: owned_def)

lemma owned_cong: "(\<And>t. t \<in> set live \<Longrightarrow> f t = g t) \<Longrightarrow> owned nil f live = owned nil g live"
  unfolding owned_def by (rule arg_cong [OF image_mset_cong]) simp

lemma owned_update_other [simp]: "t \<notin> set live \<Longrightarrow> owned nil (f(t := v)) live = owned nil f live"
  by (rule owned_cong) auto

lemma owned_remove1:
  "t \<in> set live \<Longrightarrow> owned nil f live = mset (keep nil (f t)) + owned nil f (remove1 t live)"
proof -
  assume "t \<in> set live"
  then have "mset live = add_mset t (mset (remove1 t live))" by simp
  then show ?thesis by (simp only: owned_def keep_def image_mset_add_mset) simp
qed

lemma owned_update:
  assumes "t \<in> set live" "distinct live"
  shows "owned nil (f(t := v)) live + mset (keep nil (f t)) = owned nil f live + mset (keep nil v)"
proof -
  have "t \<notin> set (remove1 t live)" using assms(2) by (simp add: set_remove1_eq)
  then show ?thesis
    by (simp add: owned_remove1 [OF assms(1), of nil f] owned_remove1 [OF assms(1), of nil "f(t := v)"])
qed

section \<open>The contract\<close>

locale move_only =
  fixes nil :: "'v"
    and slot :: "'s \<Rightarrow> nat \<Rightarrow> 'v"
    and closed :: "'s \<Rightarrow> 'v list"
    and mk :: "nat \<Rightarrow> 'v \<Rightarrow> 's \<Rightarrow> 's"
    and mc :: "nat \<Rightarrow> nat \<Rightarrow> 's \<Rightarrow> 's"
    and ma :: "(nat \<Rightarrow> nat \<Rightarrow> 's \<Rightarrow> 's) option"
    and dt :: "nat \<Rightarrow> 's \<Rightarrow> 's"
  assumes slot_mk: "slot (mk t v s) = (slot s)(t := v)"
    and closed_mk: "closed (mk t v s) = closed s"
    and slot_mc: "t \<noteq> f \<Longrightarrow> slot (mc t f s) = (slot s)(t := slot s f, f := nil)"
    and closed_mc: "t \<noteq> f \<Longrightarrow> closed (mc t f s) = closed s"
    and slot_ma: "ma = Some a \<Longrightarrow> t \<noteq> f \<Longrightarrow> slot (a t f s) = (slot s)(t := slot s f, f := nil)"
    and closed_ma: "ma = Some a \<Longrightarrow> t \<noteq> f \<Longrightarrow> closed (a t f s) = closed s @ keep nil (slot s t)"
    and slot_ma_self: "ma = Some a \<Longrightarrow> slot (a t t s) = slot s"
    and closed_ma_self: "ma = Some a \<Longrightarrow> closed (a t t s) = closed s"
    and slot_dt: "u \<noteq> t \<Longrightarrow> slot (dt t s) u = slot s u"
    and closed_dt: "closed (dt t s) = closed s @ keep nil (slot s t)"
begin

lemma step_live:
  "own_step mk mc ma dt c (live, s) = Some (live', s') \<Longrightarrow> distinct live \<Longrightarrow> distinct live'"
  by (cases c) (auto split: if_splits option.splits)

lemma step_conserves:
  assumes "own_step mk mc ma dt c (live, s) = Some (live', s')" "distinct live"
  shows "owned nil (slot s') live' + mset (closed s') =
         owned nil (slot s) live + mset (closed s) + acquired nil [c]"
proof (cases c)
  case (Make t v)
  with assms show ?thesis
    by (auto simp: slot_mk closed_mk owned_Cons keep_def split: if_splits)
next
  case (Move_ctor t f)
  with assms have tf: "t \<notin> set live" "f \<in> set live" "t \<noteq> f" "live' = t # live" "s' = mc t f s"
    by (auto split: if_splits)
  have "owned nil ((slot s)(t := slot s f, f := nil)) live + mset (keep nil (slot s f)) = owned nil (slot s) live"
    using owned_update [OF tf(2) assms(2), of nil "(slot s)(t := slot s f)" nil] tf(1,3)
    by (simp add: keep_def)
  with Move_ctor tf show ?thesis
    by (simp add: slot_mc closed_mc owned_Cons add_ac)
next
  case (Move_assign t f)
  with assms obtain a where a: "ma = Some a" "t \<in> set live" "f \<in> set live" "live' = live" "s' = a t f s"
    by (auto split: if_splits option.splits)
  show ?thesis
  proof (cases "t = f")
    case True
    with a Move_assign show ?thesis by (simp add: slot_ma_self closed_ma_self)
  next
    case False
    have "owned nil ((slot s)(t := slot s f, f := nil)) live + mset (keep nil (slot s t)) = owned nil (slot s) live"
    proof -
      have "owned nil ((slot s)(t := slot s f)) live + mset (keep nil (slot s t)) =
            owned nil (slot s) live + mset (keep nil (slot s f))"
        by (rule owned_update [OF a(2) assms(2)])
      moreover have "owned nil ((slot s)(t := slot s f, f := nil)) live + mset (keep nil (slot s f)) =
            owned nil ((slot s)(t := slot s f)) live"
        using owned_update [OF a(3) assms(2), of nil "(slot s)(t := slot s f)" nil] False
        by (simp add: keep_def)
      ultimately have "owned nil ((slot s)(t := slot s f, f := nil)) live + mset (keep nil (slot s t))
          + mset (keep nil (slot s f)) = owned nil (slot s) live + mset (keep nil (slot s f))"
        by (metis add.assoc add.commute)
      then show ?thesis by simp
    qed
    with a False Move_assign show ?thesis
      by (simp add: slot_ma [OF a(1)] closed_ma [OF a(1)] add_ac)
  qed
next
  case (Destroy t)
  with assms have t: "t \<in> set live" "live' = remove1 t live" "s' = dt t s"
    by (auto split: if_splits)
  have "owned nil (slot (dt t s)) (remove1 t live) = owned nil (slot s) (remove1 t live)"
    using assms(2) by (intro owned_cong slot_dt) (auto simp: set_remove1_eq)
  with t Destroy show ?thesis
    by (simp add: owned_remove1 [OF t(1), of nil "slot s"] closed_dt add_ac)
qed

lemma acquired_append: "acquired nil (cs @ ds) = acquired nil cs + acquired nil ds"
  by (induction nil cs rule: acquired.induct) (auto simp: add_ac)

lemma run_conserves:
  assumes "run_acts (own_step mk mc ma dt) cs (live, s) = Some (live', s')" "distinct live"
  shows "distinct live' \<and> owned nil (slot s') live' + mset (closed s') =
         owned nil (slot s) live + mset (closed s) + acquired nil cs"
  using assms
proof (induction cs arbitrary: live s)
  case Nil
  then show ?case by simp
next
  case (Cons c cs)
  from Cons.prems(1) obtain l u where c: "own_step mk mc ma dt c (live, s) = Some (l, u)"
    and cs: "run_acts (own_step mk mc ma dt) cs (l, u) = Some (live', s')"
    by (auto split: option.splits)
  from Cons.IH [OF cs step_live [OF c Cons.prems(2)]] step_conserves [OF c Cons.prems(2)]
  show ?case using acquired_append [of "[c]" cs] by (simp add: add_ac)
qed

text \<open>Nothing leaks and nothing is released twice.\<close>

lemma run_exactly_once:
  assumes "run_acts (own_step mk mc ma dt) cs ([], s) = Some (live', s')" "closed s = []"
  shows "owned nil (slot s') live' + mset (closed s') = acquired nil cs"
  using run_conserves [OF assms(1)] assms(2) by simp

end

end
