(* ===== verification/Ice_Handle.thy ===== *)
theory Ice_Handle
  imports Ice_Owner
begin

text \<open>
  Owning handles (include/ice/handle.h), scope guards (include/ice/scope.h) and thread local
  storage keys (include/ice/utility.h, src/ice/utility.cpp). The objects of one class live at
  addresses; \<open>hvalue\<close> is their member \<open>value_\<close> and \<open>hclosed\<close> the log of the calls of the close
  functor \<open>C\<close>. \<open>I\<close> is the class's invalid value: -1 for file descriptors, 0 or the maximum for
  Windows handles, null for libssh2 objects.
\<close>

section \<open>handle\<close>

record 'v handles =
  hvalue :: "nat \<Rightarrow> 'v"
  hclosed :: "'v list"

definition handle_view_valid :: "'v \<Rightarrow> 'v \<Rightarrow> bool" where
  "handle_view_valid I value \<longleftrightarrow> value \<noteq> I"

definition handle_view_eq :: "'v \<Rightarrow> 'v \<Rightarrow> bool" where
  "handle_view_eq lhs rhs \<longleftrightarrow> lhs = rhs"

definition handle_close :: "'v \<Rightarrow> 'v handles \<Rightarrow> 'v handles" where
  "handle_close v s = s\<lparr>hclosed := hclosed s @ [v]\<rparr>"

definition handle_default :: "'v \<Rightarrow> nat \<Rightarrow> 'v handles \<Rightarrow> 'v handles" where
  "handle_default I t s = s\<lparr>hvalue := (hvalue s)(t := I)\<rparr>"

definition handle_make :: "nat \<Rightarrow> 'v \<Rightarrow> 'v handles \<Rightarrow> 'v handles" where
  "handle_make t v s = s\<lparr>hvalue := (hvalue s)(t := v)\<rparr>"

definition handle_swap :: "nat \<Rightarrow> nat \<Rightarrow> 'v handles \<Rightarrow> 'v handles" where
  "handle_swap t other s =
     (let value = hvalue s other in
      s\<lparr>hvalue := (hvalue s)(other := hvalue s t, t := value)\<rparr>)"

definition handle_release :: "'v \<Rightarrow> nat \<Rightarrow> 'v handles \<Rightarrow> 'v \<times> 'v handles" where
  "handle_release I t s = (hvalue s t, s\<lparr>hvalue := (hvalue s)(t := I)\<rparr>)"

definition handle_reset :: "'v \<Rightarrow> 'v \<Rightarrow> nat \<Rightarrow> 'v handles \<Rightarrow> 'v handles" where
  "handle_reset I v t s =
     (let s1 = (if handle_view_valid I (hvalue s t) then handle_close (hvalue s t) s else s)
      in s1\<lparr>hvalue := (hvalue s1)(t := v)\<rparr>)"

definition handle_dtor :: "'v \<Rightarrow> nat \<Rightarrow> 'v handles \<Rightarrow> 'v handles" where
  "handle_dtor I t s = handle_reset I I t s"

definition handle_move_ctor :: "'v \<Rightarrow> nat \<Rightarrow> nat \<Rightarrow> 'v handles \<Rightarrow> 'v handles" where
  "handle_move_ctor I t other s =
     (case handle_release I other s of (v, s1) \<Rightarrow> handle_make t v s1)"

text \<open>
  \<open>handle(std::move(other)).swap(*this)\<close>: the temporary takes the value of \<open>other\<close>, the swap gives
  it to \<open>*this\<close> and the old value to the temporary, whose destructor closes it.
\<close>

definition handle_move_assign :: "'v \<Rightarrow> nat \<Rightarrow> nat \<Rightarrow> 'v handles \<Rightarrow> 'v handles" where
  "handle_move_assign I t other s =
     (case handle_release I other s of (tmp, s1) \<Rightarrow>
        let old = hvalue s1 t; s2 = s1\<lparr>hvalue := (hvalue s1)(t := tmp)\<rparr>
        in if handle_view_valid I old then handle_close old s2 else s2)"

lemmas handle_defs = handle_view_valid_def handle_close_def handle_make_def handle_default_def
  handle_swap_def handle_release_def handle_reset_def handle_dtor_def handle_move_ctor_def
  handle_move_assign_def

interpretation handle: move_only I hvalue hclosed handle_make "handle_move_ctor I"
    "Some (handle_move_assign I)" "handle_dtor I" for I
  by unfold_locales (auto simp: handle_defs keep_def Let_def fun_upd_def)

section \<open>scope_exit\<close>

record 'h scopes =
  sc_handler :: "nat \<Rightarrow> 'h"
  sc_invoke :: "nat \<Rightarrow> bool"
  sc_calls :: "'h list"

definition scope_ctor :: "nat \<Rightarrow> 'h \<Rightarrow> 'h scopes \<Rightarrow> 'h scopes" where
  "scope_ctor t handler s =
     s\<lparr>sc_handler := (sc_handler s)(t := handler), sc_invoke := (sc_invoke s)(t := True)\<rparr>"

definition scope_move_ctor :: "nat \<Rightarrow> nat \<Rightarrow> 'h scopes \<Rightarrow> 'h scopes" where
  "scope_move_ctor t other s =
     s\<lparr>sc_handler := (sc_handler s)(t := sc_handler s other),
       sc_invoke := (sc_invoke s)(t := sc_invoke s other, other := False)\<rparr>"

definition scope_dtor :: "nat \<Rightarrow> 'h scopes \<Rightarrow> 'h scopes" where
  "scope_dtor t s = (if sc_invoke s t then s\<lparr>sc_calls := sc_calls s @ [sc_handler s t]\<rparr> else s)"

text \<open>
  What a guard owns is the pending call of its handler; \<open>scope_make\<close> puts a guard, or one whose
  call has been moved away, at an address.
\<close>

definition scope_slot :: "'h scopes \<Rightarrow> nat \<Rightarrow> 'h option" where
  "scope_slot s t = (if sc_invoke s t then Some (sc_handler s t) else None)"

definition scope_make :: "nat \<Rightarrow> 'h option \<Rightarrow> 'h scopes \<Rightarrow> 'h scopes" where
  "scope_make t h s =
     (case h of Some f \<Rightarrow> scope_ctor t f s | None \<Rightarrow> s\<lparr>sc_invoke := (sc_invoke s)(t := False)\<rparr>)"

definition scope_called :: "'h scopes \<Rightarrow> 'h option list" where
  "scope_called s = map Some (sc_calls s)"

lemmas scope_defs = scope_ctor_def scope_move_ctor_def scope_dtor_def scope_slot_def scope_make_def
  scope_called_def

interpretation scope: move_only None scope_slot scope_called scope_make scope_move_ctor None scope_dtor
  by unfold_locales (auto simp: scope_defs keep_def split: option.splits)

section \<open>thread_local_storage\<close>

text \<open>
  The key is stored in a \<open>uintptr_t\<close> (64 bits). \<open>pthread_key_create\<close> gives a result code and a
  32-bit key, \<open>TlsAlloc\<close> a 32-bit index that is \<open>TLS_OUT_OF_INDEXES\<close> on failure.
\<close>

definition tls_invalid_unix :: "64 word" where
  "tls_invalid_unix = -1"

definition tls_invalid_win :: "64 word" where
  "tls_invalid_win = 0"

definition tls_out_of_indexes :: u32 where
  "tls_out_of_indexes = 0xFFFFFFFF"

definition tls_ctor_unix :: "int \<times> u32 \<Rightarrow> 64 word" where
  "tls_ctor_unix create = (case create of (rc, key) \<Rightarrow> if rc = 0 then ucast key else tls_invalid_unix)"

definition tls_ctor_win :: "u32 \<Rightarrow> 64 word" where
  "tls_ctor_win alloc = ucast alloc"

definition tls_bool_unix :: "64 word \<Rightarrow> bool" where
  "tls_bool_unix h = handle_view_valid tls_invalid_unix h"

definition tls_bool_win :: "64 word \<Rightarrow> bool" where
  "tls_bool_win h = handle_view_valid tls_invalid_win h"

text \<open>\<open>set\<close> and \<open>get\<close>, over the system's per-thread table of the current thread.\<close>

definition tls_set :: "(u32 \<Rightarrow> 'p \<Rightarrow> 'k \<Rightarrow> int \<times> 'k) \<Rightarrow> 64 word \<Rightarrow> 'p \<Rightarrow> 'k \<Rightarrow> 'k" where
  "tls_set setspecific h value k = snd (setspecific (ucast h) value k)"

definition tls_get :: "(u32 \<Rightarrow> 'k \<Rightarrow> 'p) \<Rightarrow> 64 word \<Rightarrow> 'k \<Rightarrow> 'p" where
  "tls_get getspecific h k = getspecific (ucast h) k"

definition tls_close :: "(u32 \<Rightarrow> 'k \<Rightarrow> int \<times> 'k) \<Rightarrow> 64 word \<Rightarrow> 'k \<Rightarrow> 'k" where
  "tls_close key_delete h k = snd (key_delete (ucast h) k)"

section \<open>Properties\<close>

text \<open>
  C21: resources held by handles are conserved. Whatever sequence of constructions, move
  constructions, move assignments (self-assignment included) and destructions runs, every resource
  that was put into a handle is either still held by exactly one live handle or has been closed
  exactly once.
\<close>

theorem handle_exactly_once:
  assumes "run_acts (own_step handle_make (handle_move_ctor I) (Some (handle_move_assign I)) (handle_dtor I))
             cs ([], s0) = Some (live, s)"
    and "hclosed s0 = []"
  shows "owned I (hvalue s) live + mset (hclosed s) = acquired I cs"
  using assms by (rule handle.run_exactly_once)

theorem handle_exactly_once_witness:
  "\<exists>live s. run_acts (own_step handle_make (handle_move_ctor (-1)) (Some (handle_move_assign (-1))) (handle_dtor (-1)))
      [Make 1 7, Make 2 8, Move_ctor 3 1, Move_assign 2 3, Move_assign 2 2, Destroy 2]
      ([], \<lparr>hvalue = \<lambda>_. -1, hclosed = []\<rparr>) = Some (live, s)
    \<and> hclosed s = [8, 7 :: int]
    \<and> owned (-1) (hvalue s) live + mset (hclosed s) = {#7, 8#}"
proof -
  let ?cs = "[Make 1 7, Make 2 8, Move_ctor 3 1, Move_assign 2 3, Move_assign 2 2, Destroy 2] :: int own_cmd list"
  let ?s0 = "\<lparr>hvalue = \<lambda>_. -1, hclosed = []\<rparr> :: int handles"
  obtain live s where r: "run_acts (own_step handle_make (handle_move_ctor (-1))
      (Some (handle_move_assign (-1))) (handle_dtor (-1))) ?cs ([], ?s0) = Some (live, s)"
    and c: "hclosed s = [8, 7]"
    by (simp add: handle_defs Let_def)
  from handle_exactly_once [OF r] r c show ?thesis by auto
qed

text \<open>
  A scope guard's handler runs exactly once. Constructing, moving and destroying guards in any
  order, every handler has either been called once or is still pending in exactly one live guard.
\<close>

lemma scope_exactly_once:
  assumes "run_acts (own_step scope_make scope_move_ctor None scope_dtor) cs ([], s0) = Some (live, s)"
    and "sc_calls s0 = []"
  shows "owned None (scope_slot s) live + image_mset Some (mset (sc_calls s)) = acquired None cs"
  using scope.run_exactly_once [OF assms(1)] assms(2) by (simp add: scope_called_def)

lemma scope_exactly_once_witness:
  "\<exists>s. run_acts (own_step scope_make scope_move_ctor None scope_dtor)
      [Make 1 (Some ''stop''), Move_ctor 2 1, Destroy 1, Destroy 2]
      ([], \<lparr>sc_handler = \<lambda>_. [], sc_invoke = \<lambda>_. False, sc_calls = []\<rparr>) = Some ([], s)
    \<and> owned None (scope_slot s) [] + image_mset Some (mset (sc_calls s)) = {#Some ''stop''#}"
proof -
  let ?cs = "[Make 1 (Some ''stop''), Move_ctor 2 1, Destroy 1, Destroy 2] :: string option own_cmd list"
  let ?s0 = "\<lparr>sc_handler = \<lambda>_. [], sc_invoke = \<lambda>_. False, sc_calls = []\<rparr> :: string scopes"
  obtain s where r: "run_acts (own_step scope_make scope_move_ctor None scope_dtor) ?cs ([], ?s0) = Some ([], s)"
    by (simp add: scope_defs)
  from scope_exactly_once [OF r] r show ?thesis by auto
qed

text \<open>
  The members that end or replace ownership. \<open>reset\<close> closes the old resource if there is one and
  holds the new value; \<open>release\<close> hands the resource over and closes nothing; \<open>swap\<close> exchanges;
  no other object is touched.
\<close>

lemma handle_members:
  "(let r = handle_reset I v t s in
      hvalue r = (hvalue s)(t := v) \<and> hclosed r = hclosed s @ keep I (hvalue s t))
   \<and> (case handle_release I t s of (w, r) \<Rightarrow>
      w = hvalue s t \<and> hvalue r = (hvalue s)(t := I) \<and> hclosed r = hclosed s)
   \<and> (let r = handle_swap t u s in
      hvalue r t = hvalue s u \<and> hvalue r u = hvalue s t \<and> hclosed r = hclosed s
      \<and> handle_swap t u r = s)"
  by (auto simp: handle_defs Let_def keep_def)

lemma ucast_not_max: "(ucast (key :: u32) :: 64 word) \<noteq> -1"
proof
  assume "(ucast key :: 64 word) = -1"
  then have "bit (ucast key :: 64 word) 63 = bit (-1 :: 64 word) 63" by simp
  then show False using bit_imp_le_length [of key 63] by (auto simp: bit_simps)
qed

lemma ucast_key_back: "ucast (ucast (key :: u32) :: 64 word) = key"
  by (rule bit_word_eqI) (simp add: bit_simps)

text \<open>
  On Unix a storage object tests as valid exactly when \<open>pthread_key_create\<close> succeeded, and the
  key read back for \<open>pthread_setspecific\<close> is the one created: no 32-bit key is the invalid value.
\<close>

lemma tls_unix_valid:
  "(tls_bool_unix (tls_ctor_unix (rc, key)) \<longleftrightarrow> rc = 0)
   \<and> ucast (tls_ctor_unix (0, key)) = key"
  by (simp add: tls_bool_unix_def tls_ctor_unix_def handle_view_valid_def tls_invalid_unix_def
      ucast_not_max ucast_key_back)

text \<open>
  On Windows the test is wrong at both ends: the failure value of \<open>TlsAlloc\<close> tests as a valid
  handle, and index 0, which \<open>TlsAlloc\<close> may return on success, tests as invalid.
\<close>

lemma tls_win_misjudged:
  "tls_bool_win (tls_ctor_win tls_out_of_indexes) \<and> \<not> tls_bool_win (tls_ctor_win 0)"
  by (simp add: tls_bool_win_def tls_ctor_win_def handle_view_valid_def tls_invalid_win_def
      tls_out_of_indexes_def)

section \<open>The conversions of handle_view\<close>

text \<open>
  The types a handle can have and be made from: an integer type other than \<open>bool\<close>, signed or not, of some width, or a pointer of 64 bits. A
  pointer is made from a signed integer by sign extension, as the compilers of the three platforms do. \<open>None\<close> is
  a program that does not compile: \<open>reinterpret_cast\<close> does not make a narrower integer of a pointer.
\<close>

datatype scalar = Integer bool nat | Pointer

fun scalar_width :: "scalar \<Rightarrow> nat" where
  "scalar_width (Integer sg w) = w"
| "scalar_width Pointer = 64"

fun scalar_wrap :: "scalar \<Rightarrow> int \<Rightarrow> int" where
  "scalar_wrap (Integer sg w) v = (if sg then signed_take_bit (w - 1) v else take_bit w v)"
| "scalar_wrap Pointer v = take_bit 64 v"

text \<open>\<open>static_cast\<close> between integers, \<open>reinterpret_cast\<close> if one of the types is a pointer.\<close>

fun scalar_cast :: "scalar \<Rightarrow> scalar \<Rightarrow> int \<Rightarrow> int option" where
  "scalar_cast (Integer sg w) to v = Some (scalar_wrap to v)"
| "scalar_cast Pointer Pointer v = Some v"
| "scalar_cast Pointer (Integer sg w) v = (if w < 64 then None else Some (scalar_wrap (Integer sg w) v))"

datatype template_value = Nullptr | Constant scalar int

definition handle_invalid_value :: "scalar \<Rightarrow> template_value \<Rightarrow> int option" where
  "handle_invalid_value T I =
     (case I of
        Nullptr \<Rightarrow> (if T = Pointer then Some 0 else None)
      | Constant V v \<Rightarrow> scalar_cast V T v)"

definition handle_view_default :: "scalar \<Rightarrow> template_value \<Rightarrow> int option" where
  "handle_view_default T I = handle_invalid_value T I"

definition handle_view_make :: "scalar \<Rightarrow> scalar \<Rightarrow> int \<Rightarrow> int option" where
  "handle_view_make T V value = scalar_cast V T value"

definition handle_view_as :: "scalar \<Rightarrow> scalar \<Rightarrow> int \<Rightarrow> int option" where
  "handle_view_as T V value = scalar_cast T V value"

text \<open>Without a usable template of its own, \<open>!=\<close> compares the values that \<open>operator value_type\<close> gives.\<close>

definition handle_view_neq :: "'v \<Rightarrow> 'v \<Rightarrow> bool" where
  "handle_view_neq lhs rhs \<longleftrightarrow> lhs \<noteq> rhs"

text \<open>The instances of the library: descriptors; sockets, completion ports and thread local storage; libssh2 objects.\<close>

definition uintptr :: scalar where
  "uintptr = Integer False 64"

definition c_int :: scalar where
  "c_int = Integer True 32"

lemma scalar_wrap_wrap:
  assumes "0 < scalar_width V" "scalar_width V \<le> scalar_width T"
  shows "scalar_wrap V (scalar_wrap T v) = scalar_wrap V v"
  using assms by (cases V; cases T) (auto simp: signed_take_bit_take_bit take_bit_signed_take_bit signed_take_bit_signed_take_bit min_def)

text \<open>
  A value that goes into a handle with a type at least as wide comes out of \<open>as\<close> unchanged, negative ones included; and the
  views of two such values are equal only if the values are.
\<close>

lemma handle_as_back:
  assumes "0 < scalar_width V" "scalar_width V \<le> scalar_width T" "T = Pointer \<longrightarrow> scalar_width V = 64"
    and "scalar_wrap V v = v"
  shows "\<exists>x. handle_view_make T V v = Some x \<and> handle_view_as T V x = Some v \<and> scalar_wrap T x = x"
proof -
  have "scalar_wrap T (scalar_wrap T v) = scalar_wrap T v"
    using assms(1,2) scalar_wrap_wrap [of T T v] by simp
  moreover have "scalar_wrap V (scalar_wrap T v) = v" using scalar_wrap_wrap [OF assms(1,2)] assms(4) by simp
  ultimately show ?thesis
    using assms by (cases V; cases T) (auto simp: handle_view_make_def handle_view_as_def)
qed

lemma handle_make_inj:
  assumes "0 < scalar_width V" "scalar_width V \<le> scalar_width T" "T = Pointer \<longrightarrow> scalar_width V = 64"
    and "scalar_wrap V v = v" "scalar_wrap V w = w"
  shows "handle_view_make T V v = handle_view_make T V w \<longleftrightarrow> v = w"
  using handle_as_back [OF assms(1-3) assms(4)] handle_as_back [OF assms(1-3) assms(5)] by force

text \<open>
  The invalid values: -1 for descriptors, \<open>INVALID_SOCKET\<close>, 0 for a completion port, null. A descriptor is
  narrowed silently: the handle of a 64-bit value may be the invalid one.
\<close>

lemma handle_invalid_values:
  "handle_view_default c_int (Constant c_int (-1)) = Some (-1)"
  "handle_view_default uintptr (Constant uintptr (2 ^ 64 - 1)) = Some (2 ^ 64 - 1)"
  "handle_view_default uintptr (Constant c_int (-1)) = Some (2 ^ 64 - 1)"
  "handle_view_default uintptr (Constant c_int 0) = Some 0"
  "handle_view_default Pointer Nullptr = Some 0"
  "handle_view_default c_int Nullptr = None"
  "handle_view_as Pointer c_int 5 = None"
  "handle_view_make c_int uintptr (2 ^ 32 - 1) = handle_view_default c_int (Constant c_int (-1))"
  by (simp_all add: handle_view_default_def handle_invalid_value_def handle_view_as_def handle_view_make_def uintptr_def c_int_def
      signed_take_bit_eq_if_positive signed_take_bit_eq_if_negative mask_eq_exp_minus_1)

end
