(* ===== verification/Ice_Mutex.thy ===== *)
theory Ice_Mutex
  imports Ice_Owner
begin

text \<open>
  \<open>async_mutex\<close> of include/ice/async.h. The mutex is one atomic word, \<open>m_state\<close>: \<open>not_locked\<close> (1),
  \<open>locked_no_waiters\<close> (0) or the address of the lock operation pushed last, whose \<open>m_next\<close> leads to
  the earlier ones; and \<open>m_waiters\<close>, the list of waiters already taken off that stack, in order of
  arrival, which only the holder touches.

  An agent is the caller of \<open>try_lock\<close>, of a lock operation's \<open>await_suspend\<close> or of \<open>unlock\<close>; it is named
  by the address of its lock operation, and its coroutine by the same address. \<open>mx_pc\<close> says between
  which two memory accesses an agent stands, with the values of its local variables.
  One action is one atomic access, so every interleaving of the agents is a sequence of actions.
  \<open>compare_exchange_weak\<close> may fail spuriously: the action carries the choice. A failed assertion
  moves the agent to \<open>Aborted\<close>.
\<close>

type_synonym addr = "64 word"

definition not_locked :: addr where
  "not_locked = 1"

definition locked_no_waiters :: addr where
  "locked_no_waiters = 0"

lemma not_locked_val [ice_const]: "not_locked = 1"
  by (simp add: not_locked_def)

lemma locked_no_waiters_val [ice_const]: "locked_no_waiters = 0"
  by (simp add: locked_no_waiters_def)

text \<open>An object's address is not null and, by its alignment, not 1.\<close>

definition valid_addr :: "addr \<Rightarrow> bool" where
  "valid_addr a \<longleftrightarrow> a \<noteq> 0 \<and> a \<noteq> 1"

datatype mpc =
    Out
  | Trying addr
  | Linked addr
  | Parked
  | Holding
  | Unlock_head
  | Unlock_cas
  | Unlock_xchg
  | Unlock_rev addr addr
  | Unlock_pop addr
  | Aborted

record mutex =
  mx_state :: addr
  mx_waiters :: addr
  mx_next :: "addr \<Rightarrow> addr"
  mx_awaiter :: "addr \<Rightarrow> addr"
  mx_pc :: "addr \<Rightarrow> mpc"

definition mutex_init :: "mutex \<Rightarrow> bool" where
  "mutex_init s \<longleftrightarrow> mx_state s = not_locked \<and> mx_waiters s = 0 \<and> (\<forall>a. mx_pc s a = Out)"

definition set_pc :: "addr \<Rightarrow> mpc \<Rightarrow> mutex \<Rightarrow> mutex" where
  "set_pc a p s = s\<lparr>mx_pc := (mx_pc s)(a := p)\<rparr>"

text \<open>\<open>try_lock\<close>: one strong compare-and-exchange; the result is whether the agent holds the lock.\<close>

definition try_lock :: "addr \<Rightarrow> mutex \<Rightarrow> mutex" where
  "try_lock a s =
     (if mx_state s = not_locked then set_pc a Holding (s\<lparr>mx_state := locked_no_waiters\<rparr>) else s)"

text \<open>\<open>await_suspend\<close>: store the awaiter, load the state, then the loop.\<close>

definition lock_begin :: "addr \<Rightarrow> mutex \<Rightarrow> mutex" where
  "lock_begin a s = set_pc a (Trying (mx_state s)) (s\<lparr>mx_awaiter := (mx_awaiter s)(a := a)\<rparr>)"

definition lock_try :: "bool \<Rightarrow> addr \<Rightarrow> addr \<Rightarrow> mutex \<Rightarrow> mutex" where
  "lock_try spurious old a s =
     (if old = not_locked then
        if mx_state s = old \<and> \<not> spurious
        then set_pc a Holding (s\<lparr>mx_state := locked_no_waiters\<rparr>)
        else set_pc a (Trying (mx_state s)) s
      else set_pc a (Linked old) (s\<lparr>mx_next := (mx_next s)(a := old)\<rparr>))"

definition lock_push :: "bool \<Rightarrow> addr \<Rightarrow> addr \<Rightarrow> mutex \<Rightarrow> mutex" where
  "lock_push spurious old a s =
     (if mx_state s = old \<and> \<not> spurious
      then set_pc a Parked (s\<lparr>mx_state := a\<rparr>)
      else set_pc a (Trying (mx_state s)) s)"

text \<open>\<open>unlock\<close>, one memory access at a time.\<close>

definition unlock_begin :: "addr \<Rightarrow> mutex \<Rightarrow> mutex" where
  "unlock_begin a s = set_pc a (if mx_state s \<noteq> not_locked then Unlock_head else Aborted) s"

definition unlock_head :: "addr \<Rightarrow> mutex \<Rightarrow> mutex" where
  "unlock_head a s =
     set_pc a (if mx_waiters s = 0 then Unlock_cas else Unlock_pop (mx_waiters s)) s"

definition unlock_cas :: "addr \<Rightarrow> mutex \<Rightarrow> mutex" where
  "unlock_cas a s =
     (if mx_state s = locked_no_waiters then set_pc a Out (s\<lparr>mx_state := not_locked\<rparr>)
      else set_pc a Unlock_xchg s)"

definition unlock_xchg :: "addr \<Rightarrow> mutex \<Rightarrow> mutex" where
  "unlock_xchg a s =
     set_pc a (if mx_state s \<noteq> locked_no_waiters \<and> mx_state s \<noteq> not_locked
               then Unlock_rev 0 (mx_state s) else Aborted)
       (s\<lparr>mx_state := locked_no_waiters\<rparr>)"

text \<open>One round of the loop that reverses the stack: \<open>head\<close> is \<open>waitersHead\<close>.\<close>

definition unlock_rev :: "addr \<Rightarrow> addr \<Rightarrow> addr \<Rightarrow> mutex \<Rightarrow> mutex" where
  "unlock_rev head nxt a s =
     (let temp = mx_next s nxt in
      set_pc a (if temp \<noteq> 0 then Unlock_rev nxt temp else Unlock_pop nxt)
        (s\<lparr>mx_next := (mx_next s)(nxt := head)\<rparr>))"

text \<open>The hand-over: the agent leaves the mutex and the coroutine stored in the head runs.\<close>

definition unlock_pop :: "addr \<Rightarrow> addr \<Rightarrow> mutex \<Rightarrow> mutex" where
  "unlock_pop head a s =
     (if head \<noteq> 0
      then set_pc (mx_awaiter s head) Holding (set_pc a Out (s\<lparr>mx_waiters := mx_next s head\<rparr>))
      else set_pc a Aborted s)"

text \<open>
  The actions: an idle agent calls \<open>try_lock\<close> or starts a lock operation, the holder calls \<open>unlock\<close>,
  and any agent inside a function performs its next memory access.
\<close>

datatype mact = Try addr | Lock addr | Unlock addr | Go bool addr

fun mutex_exec :: "mact \<Rightarrow> mutex \<Rightarrow> mutex option" where
  "mutex_exec (Try a) s = (if mx_pc s a = Out \<and> valid_addr a then Some (try_lock a s) else None)"
| "mutex_exec (Lock a) s = (if mx_pc s a = Out \<and> valid_addr a then Some (lock_begin a s) else None)"
| "mutex_exec (Unlock a) s = (if mx_pc s a = Holding then Some (unlock_begin a s) else None)"
| "mutex_exec (Go spurious a) s =
     (case mx_pc s a of
        Trying old \<Rightarrow> Some (lock_try spurious old a s)
      | Linked old \<Rightarrow> Some (lock_push spurious old a s)
      | Unlock_head \<Rightarrow> Some (unlock_head a s)
      | Unlock_cas \<Rightarrow> Some (unlock_cas a s)
      | Unlock_xchg \<Rightarrow> Some (unlock_xchg a s)
      | Unlock_rev head nxt \<Rightarrow> Some (unlock_rev head nxt a s)
      | Unlock_pop head \<Rightarrow> Some (unlock_pop head a s)
      | _ \<Rightarrow> None)"

section \<open>The abstract lock\<close>

text \<open>A holder and a queue of waiters, first come first served.\<close>

type_synonym fifo = "addr option \<times> addr list"

definition fifo_init :: "fifo \<Rightarrow> bool" where
  "fifo_init f \<longleftrightarrow> f = (None, [])"

inductive fifo_step :: "fifo \<Rightarrow> fifo \<Rightarrow> bool" where
  fifo_acquire: "fifo_step (None, []) (Some a, [])"
| fifo_enqueue: "a \<noteq> h \<Longrightarrow> a \<notin> set q \<Longrightarrow> fifo_step (Some h, q) (Some h, q @ [a])"
| fifo_release: "fifo_step (Some h, []) (None, [])"
| fifo_handover: "fifo_step (Some h, a # q) (Some a, q)"

inductive_simps fifo_step_free: "fifo_step (None, q) f"
inductive_cases fifo_step_heldE: "fifo_step (Some h, q) f"

section \<open>Lists in the heap of lock operations\<close>

primrec chain :: "(addr \<Rightarrow> addr) \<Rightarrow> addr \<Rightarrow> addr list \<Rightarrow> bool" where
  "chain nx p [] \<longleftrightarrow> p = 0"
| "chain nx p (a # as) \<longleftrightarrow> p = a \<and> a \<noteq> 0 \<and> chain nx (nx a) as"

lemma chain_null [simp]: "chain nx 0 as \<longleftrightarrow> as = []"
  by (cases as) auto

lemma chain_upd [simp]: "a \<notin> set as \<Longrightarrow> chain (nx(a := v)) p as = chain nx p as"
  by (induction as arbitrary: p) auto

lemma chain_nonnull: "p \<noteq> 0 \<Longrightarrow> chain nx p as \<Longrightarrow> \<exists>bs. as = p # bs \<and> chain nx (nx p) bs"
  by (cases as) auto

lemma chain_Cons_iff: "chain nx p as \<Longrightarrow> as \<noteq> [] \<longleftrightarrow> p \<noteq> 0"
  by (cases as) auto

section \<open>The invariant\<close>

text \<open>The agent that owns the lock: it holds it or is inside \<open>unlock\<close>.\<close>

fun in_cs :: "mpc \<Rightarrow> bool" where
  "in_cs Holding = True"
| "in_cs Unlock_head = True"
| "in_cs Unlock_cas = True"
| "in_cs Unlock_xchg = True"
| "in_cs (Unlock_rev h n) = True"
| "in_cs (Unlock_pop h) = True"
| "in_cs _ = False"

fun in_lock :: "mpc \<Rightarrow> bool" where
  "in_lock (Trying old) = True"
| "in_lock (Linked old) = True"
| "in_lock Parked = True"
| "in_lock _ = False"

text \<open>How the waiters \<open>W\<close> already taken off the stack are stored, by the owner's position.\<close>

fun owner_view :: "mutex \<Rightarrow> mpc \<Rightarrow> addr list \<Rightarrow> bool" where
  "owner_view s Holding W \<longleftrightarrow> chain (mx_next s) (mx_waiters s) W"
| "owner_view s Unlock_head W \<longleftrightarrow> chain (mx_next s) (mx_waiters s) W"
| "owner_view s Unlock_cas W \<longleftrightarrow> mx_waiters s = 0 \<and> W = []"
| "owner_view s Unlock_xchg W \<longleftrightarrow> mx_waiters s = 0 \<and> W = [] \<and> mx_state s \<noteq> 0"
| "owner_view s (Unlock_rev h n) W \<longleftrightarrow> n \<noteq> 0 \<and>
     (\<exists>N H. W = rev N @ H \<and> chain (mx_next s) n N \<and> chain (mx_next s) h H)"
| "owner_view s (Unlock_pop h) W \<longleftrightarrow> h \<noteq> 0 \<and> chain (mx_next s) h W"
| "owner_view s _ W \<longleftrightarrow> False"

definition mutex_inv :: "mutex \<Rightarrow> addr option \<Rightarrow> addr list \<Rightarrow> addr list \<Rightarrow> bool" where
  "mutex_inv s own W S \<longleftrightarrow>
     (case own of
        None \<Rightarrow> mx_state s = not_locked \<and> mx_waiters s = 0 \<and> W = [] \<and> S = []
      | Some h \<Rightarrow> mx_state s \<noteq> not_locked \<and> chain (mx_next s) (mx_state s) S
                   \<and> owner_view s (mx_pc s h) W)
     \<and> (\<forall>a. in_cs (mx_pc s a) \<longleftrightarrow> own = Some a)
     \<and> (\<forall>a. mx_pc s a = Parked \<longleftrightarrow> a \<in> set W \<union> set S)
     \<and> distinct (W @ S)
     \<and> (\<forall>a. in_lock (mx_pc s a) \<longrightarrow> valid_addr a \<and> mx_awaiter s a = a)
     \<and> (\<forall>a old. mx_pc s a = Linked old \<longrightarrow> mx_next s a = old \<and> old \<noteq> not_locked)
     \<and> (\<forall>a. mx_pc s a \<noteq> Aborted)"

definition mutex_rel :: "mutex \<Rightarrow> fifo \<Rightarrow> bool" where
  "mutex_rel s f \<longleftrightarrow> (\<exists>W S. mutex_inv s (fst f) W S \<and> snd f = W @ rev S)"

definition mutex_ok :: "mutex \<Rightarrow> bool" where
  "mutex_ok s \<longleftrightarrow> (\<exists>f. mutex_rel s f)"

section \<open>async_mutex_lock\<close>

text \<open>The scoped lock: it holds a pointer to the mutex it has to unlock, or null.\<close>

record mutex_locks =
  ml_mutex :: "nat \<Rightarrow> addr"
  ml_unlocked :: "addr list"

definition mutex_lock_adopt :: "nat \<Rightarrow> addr \<Rightarrow> mutex_locks \<Rightarrow> mutex_locks" where
  "mutex_lock_adopt t m s = s\<lparr>ml_mutex := (ml_mutex s)(t := m)\<rparr>"

definition mutex_lock_move_ctor :: "nat \<Rightarrow> nat \<Rightarrow> mutex_locks \<Rightarrow> mutex_locks" where
  "mutex_lock_move_ctor t other s =
     (let s1 = s\<lparr>ml_mutex := (ml_mutex s)(t := ml_mutex s other)\<rparr>
      in s1\<lparr>ml_mutex := (ml_mutex s1)(other := 0)\<rparr>)"

definition mutex_lock_dtor :: "nat \<Rightarrow> mutex_locks \<Rightarrow> mutex_locks" where
  "mutex_lock_dtor t s =
     (if ml_mutex s t \<noteq> 0 then s\<lparr>ml_unlocked := ml_unlocked s @ [ml_mutex s t]\<rparr> else s)"

interpretation mutex_lock: move_only 0 ml_mutex ml_unlocked mutex_lock_adopt mutex_lock_move_ctor None mutex_lock_dtor
  by unfold_locales (auto simp: mutex_lock_adopt_def mutex_lock_move_ctor_def mutex_lock_dtor_def keep_def Let_def)

section \<open>The invariant is inductive\<close>

lemma set_pc_simps [simp]:
  "mx_state (set_pc a p s) = mx_state s" "mx_waiters (set_pc a p s) = mx_waiters s"
  "mx_next (set_pc a p s) = mx_next s" "mx_awaiter (set_pc a p s) = mx_awaiter s"
  "mx_pc (set_pc a p s) = (mx_pc s)(a := p)"
  by (simp_all add: set_pc_def)

lemma owner_view_fields:
  "mx_next t = mx_next s \<Longrightarrow> mx_waiters t = mx_waiters s \<Longrightarrow> (mx_state t = 0 \<Longrightarrow> mx_state s = 0) \<Longrightarrow>
   owner_view s p W \<Longrightarrow> owner_view t p W"
  by (cases p) auto

lemma owner_view_next:
  "mx_next t = (mx_next s)(a := v) \<Longrightarrow> mx_waiters t = mx_waiters s \<Longrightarrow> mx_state t = mx_state s \<Longrightarrow>
   a \<notin> set W \<Longrightarrow> owner_view s p W \<Longrightarrow> owner_view t p W"
  by (cases p) fastforce+

lemma ex_fun_upd_same [simp]: "\<exists>v. f = f(a := v)"
  by (metis fun_upd_triv)

lemma inv_out_not_waiting: "mutex_inv s own W S \<Longrightarrow> mx_pc s a \<noteq> Parked \<Longrightarrow> a \<notin> set W \<and> a \<notin> set S"
  by (auto simp: mutex_inv_def)

lemma inv_owner: "mutex_inv s own W S \<Longrightarrow> in_cs (mx_pc s a) \<Longrightarrow> own = Some a"
  by (auto simp: mutex_inv_def)

lemma inv_own:
  assumes "mutex_inv s own W S" "in_cs (mx_pc s a)"
  shows "own = Some a" "owner_view s (mx_pc s a) W" "chain (mx_next s) (mx_state s) S"
    "mx_state s \<noteq> not_locked" "distinct (W @ S)"
  using assms inv_owner [OF assms] by (auto simp: mutex_inv_def)

lemma inv_local:
  assumes "mutex_inv s own W S" "\<not> in_cs (mx_pc s a)" "mx_pc s a \<noteq> Parked"
    and "\<not> in_cs p" "p \<noteq> Parked" "p \<noteq> Aborted"
    and "in_lock p \<Longrightarrow> valid_addr a \<and> mx_awaiter t a = a"
    and "\<And>old. p = Linked old \<Longrightarrow> mx_next t a = old \<and> old \<noteq> not_locked"
    and "mx_state t = mx_state s" "mx_waiters t = mx_waiters s"
    and "\<exists>v. mx_next t = (mx_next s)(a := v)" "\<exists>v. mx_awaiter t = (mx_awaiter s)(a := v)"
    and "mx_pc t = (mx_pc s)(a := p)"
  shows "mutex_inv t own W S"
proof -
  obtain v where v: "mx_next t = (mx_next s)(a := v)" using assms by auto
  have a: "a \<notin> set W" "a \<notin> set S" using inv_out_not_waiting [OF assms(1,3)] by auto
  have o: "own \<noteq> Some a" using assms(1,2) by (auto simp: mutex_inv_def)
  have ov: "owner_view s q W \<Longrightarrow> owner_view t q W" for q
    by (rule owner_view_next [OF v assms(10,9) a(1)])
  show ?thesis
    using assms a o ov v unfolding mutex_inv_def
    by (auto split: option.splits)
qed


text \<open>Steps that leave the abstract lock alone, and steps that change it.\<close>

definition sim_to :: "mutex \<Rightarrow> fifo \<Rightarrow> bool" where
  "sim_to t f \<longleftrightarrow> (\<exists>g. (f = g \<or> fifo_step f g) \<and> mutex_rel t g)"

lemma sim_stay: "mutex_inv t own W S \<Longrightarrow> q = W @ rev S \<Longrightarrow> sim_to t (own, q)"
  unfolding sim_to_def mutex_rel_def by (intro exI [of _ "(own, q)"]) auto

lemma sim_move: "mutex_inv t own W S \<Longrightarrow> fifo_step f (own, W @ rev S) \<Longrightarrow> sim_to t f"
  unfolding sim_to_def mutex_rel_def by (intro exI [of _ "(own, W @ rev S)"]) auto

lemma inv_unlocked: "mutex_inv s own W S \<Longrightarrow> mx_state s = not_locked \<Longrightarrow> own = None \<and> W = [] \<and> S = []"
  by (auto simp: mutex_inv_def split: option.splits)

lemma inv_locked: "mutex_inv s own W S \<Longrightarrow> mx_state s \<noteq> not_locked \<Longrightarrow> \<exists>h. own = Some h"
  by (auto simp: mutex_inv_def split: option.splits)

lemma inv_acquire:
  assumes "mutex_inv s own W S" "mx_state s = not_locked"
  shows "mutex_inv (set_pc a Holding (s\<lparr>mx_state := locked_no_waiters\<rparr>)) (Some a) [] []"
proof -
  from inv_unlocked [OF assms] have "own = None" "W = []" "S = []" by auto
  with assms show ?thesis by (auto simp: mutex_inv_def ice_const)
qed

lemma sim_acquire:
  assumes "mutex_inv s own W S" "mx_state s = not_locked"
  shows "sim_to (set_pc a Holding (s\<lparr>mx_state := locked_no_waiters\<rparr>)) (own, W @ rev S)"
proof -
  from inv_unlocked [OF assms] have "own = None" "W = []" "S = []" by auto
  then show ?thesis
    by (intro sim_move [OF inv_acquire [OF assms]]) (simp add: fifo_step_free)
qed

lemma sim_try_lock:
  assumes "mutex_inv s own W S" "mx_pc s a = Out"
  shows "sim_to (try_lock a s) (own, W @ rev S)"
  using assms sim_acquire [OF assms(1)] by (auto simp: try_lock_def intro: sim_stay)

lemma sim_lock_begin:
  assumes "mutex_inv s own W S" "mx_pc s a = Out" "valid_addr a"
  shows "sim_to (lock_begin a s) (own, W @ rev S)"
  unfolding lock_begin_def
  by (rule sim_stay [OF inv_local [OF assms(1), of a "Trying (mx_state s)"]]) (use assms in auto)

lemma inv_waiting:
  "mutex_inv s own W S \<Longrightarrow> in_lock (mx_pc s a) \<Longrightarrow> valid_addr a \<and> mx_awaiter s a = a"
  by (auto simp: mutex_inv_def)

lemma sim_lock_try:
  assumes "mutex_inv s own W S" "mx_pc s a = Trying old"
  shows "sim_to (lock_try spurious old a s) (own, W @ rev S)"
proof -
  have a: "valid_addr a" "mx_awaiter s a = a" using inv_waiting [OF assms(1), of a] assms(2) by auto
  have retry: "mutex_inv (set_pc a (Trying (mx_state s)) s) own W S"
    by (rule inv_local [OF assms(1), of a "Trying (mx_state s)"]) (use assms a in auto)
  have link: "mutex_inv (set_pc a (Linked old) (s\<lparr>mx_next := (mx_next s)(a := old)\<rparr>)) own W S"
    if "old \<noteq> not_locked"
    by (rule inv_local [OF assms(1), of a "Linked old"]) (use assms a that in auto)
  show ?thesis
    using sim_acquire [OF assms(1), of a] sim_stay [OF retry] sim_stay [OF link]
    by (auto simp: lock_try_def)
qed

lemma inv_push:
  assumes inv: "mutex_inv s own W S" and h: "own = Some h" and "mx_pc s a = Linked old"
    and "a \<notin> set W" "a \<notin> set S" "a \<noteq> h" "valid_addr a" "mx_awaiter s a = a" "mx_next s a = mx_state s"
    and ov: "owner_view (set_pc a Parked (s\<lparr>mx_state := a\<rparr>)) (mx_pc s h) W"
  shows "mutex_inv (set_pc a Parked (s\<lparr>mx_state := a\<rparr>)) (Some h) W (a # S)"
proof -
  have st: "chain (mx_next s) (mx_state s) S" "distinct (W @ S)"
    using inv h by (simp_all add: mutex_inv_def)
  have pcs: "in_cs (mx_pc s b) \<longleftrightarrow> h = b" "mx_pc s b = Parked \<longleftrightarrow> b \<in> set W \<union> set S"
    "in_lock (mx_pc s b) \<longrightarrow> valid_addr b \<and> mx_awaiter s b = b"
    "mx_pc s b = Linked old' \<longrightarrow> mx_next s b = old' \<and> old' \<noteq> not_locked" "mx_pc s b \<noteq> Aborted" for b old'
    using inv h by (auto simp: mutex_inv_def)
  from assms(7) have "a \<noteq> 0" "a \<noteq> not_locked" by (auto simp: valid_addr_def not_locked_def)
  with assms(4-9) st pcs ov show ?thesis
    unfolding mutex_inv_def by simp
qed

lemma sim_lock_push:
  assumes "mutex_inv s own W S" "mx_pc s a = Linked old"
  shows "sim_to (lock_push spurious old a s) (own, W @ rev S)"
proof -
  have a: "valid_addr a" "mx_awaiter s a = a" "mx_next s a = old" "old \<noteq> not_locked"
    using assms by (auto simp: mutex_inv_def)
  have retry: "mutex_inv (set_pc a (Trying (mx_state s)) s) own W S"
    by (rule inv_local [OF assms(1), of a "Trying (mx_state s)"]) (use assms a in auto)
  have "sim_to (set_pc a Parked (s\<lparr>mx_state := a\<rparr>)) (own, W @ rev S)" if eq: "mx_state s = old"
  proof -
    obtain h where h: "own = Some h" using inv_locked [OF assms(1)] a(4) eq by metis
    have "in_cs (mx_pc s h)" using assms(1) h by (auto simp: mutex_inv_def)
    then have n: "a \<notin> set W" "a \<notin> set S" "a \<noteq> h"
      using inv_out_not_waiting [OF assms(1), of a] assms(2) by auto
    note o = inv_own [OF assms(1) \<open>in_cs (mx_pc s h)\<close>]
    have "owner_view (set_pc a Parked (s\<lparr>mx_state := a\<rparr>)) (mx_pc s h) W"
      by (rule owner_view_fields [OF _ _ _ o(2)]) (use a(1) in \<open>auto simp: valid_addr_def\<close>)
    then have "mutex_inv (set_pc a Parked (s\<lparr>mx_state := a\<rparr>)) (Some h) W (a # S)"
      using inv_push [OF assms(1) h assms(2)] n a eq by simp
    then show ?thesis
      by (rule sim_move) (use h n in \<open>simp add: fifo_enqueue [of a h "W @ rev S", simplified]\<close>)
  qed
  with sim_stay [OF retry] show ?thesis by (auto simp: lock_push_def)
qed

text \<open>Steps of the owner that change its own position and, at most, the order of the lists.\<close>

lemma inv_own_step:
  assumes "mutex_inv s (Some a) W S" "in_cs p" "owner_view t p W'" "chain (mx_next t) (mx_state t) S'"
    and "mx_state t \<noteq> not_locked" "set W' \<union> set S' = set W \<union> set S" "distinct (W' @ S')"
    and "mx_awaiter t = mx_awaiter s" "mx_pc t = (mx_pc s)(a := p)"
    and "\<forall>b old. mx_pc s b = Linked old \<longrightarrow> mx_next t b = mx_next s b"
  shows "mutex_inv t (Some a) W' S'"
proof -
  have "in_cs (mx_pc s a)" using assms(1) by (auto simp: mutex_inv_def)
  then have "mx_pc s a \<noteq> Parked" by auto
  moreover have "p \<noteq> Parked" "p \<noteq> Aborted" "\<not> in_lock p" "\<And>old. p \<noteq> Linked old" using assms(2) by (cases p; simp)+
  ultimately show ?thesis
    using assms unfolding mutex_inv_def by (auto split: if_splits)
qed


lemma inv_unlock_begin:
  assumes "mutex_inv s (Some a) W S" "mx_pc s a = Holding"
  shows "mutex_inv (unlock_begin a s) (Some a) W S" and "mx_pc (unlock_begin a s) a = Unlock_head"
proof -
  note o = inv_own [OF assms(1), of a]
  have "mutex_inv (set_pc a Unlock_head s) (Some a) W S"
    using assms o by (auto intro!: inv_own_step [of s a W S Unlock_head])
  with o assms(2) show "mutex_inv (unlock_begin a s) (Some a) W S" "mx_pc (unlock_begin a s) a = Unlock_head"
    by (simp_all add: unlock_begin_def)
qed

lemma inv_unlock_head:
  assumes "mutex_inv s (Some a) W S" "mx_pc s a = Unlock_head"
  shows "mutex_inv (unlock_head a s) (Some a) W S"
    and "mx_pc (unlock_head a s) a = (if W = [] then Unlock_cas else Unlock_pop (mx_waiters s))"
proof -
  note o = inv_own [OF assms(1), of a]
  let ?p = "if mx_waiters s = 0 then Unlock_cas else Unlock_pop (mx_waiters s)"
  have "mutex_inv (set_pc a ?p s) (Some a) W S"
    using assms o by (auto intro!: inv_own_step [of s a W S])
  then show "mutex_inv (unlock_head a s) (Some a) W S" by (simp add: unlock_head_def)
  have "W = [] \<longleftrightarrow> mx_waiters s = 0"
    using o(2) assms(2) chain_Cons_iff [of "mx_next s" "mx_waiters s" W] by auto
  then show "mx_pc (unlock_head a s) a = (if W = [] then Unlock_cas else Unlock_pop (mx_waiters s))"
    by (simp add: unlock_head_def)
qed

lemma inv_unlock_cas:
  assumes "mutex_inv s (Some a) W S" "mx_pc s a = Unlock_cas"
  shows "W = []"
    and "S = [] \<Longrightarrow> mutex_inv (unlock_cas a s) None [] [] \<and> mx_pc (unlock_cas a s) a = Out"
    and "S \<noteq> [] \<Longrightarrow> mutex_inv (unlock_cas a s) (Some a) [] S \<and> mx_pc (unlock_cas a s) a = Unlock_xchg"
proof -
  note o = inv_own [OF assms(1), of a]
  show W: "W = []" using o assms(2) by auto
  have S: "S = [] \<longleftrightarrow> mx_state s = 0"
    using o(3) assms(2) chain_Cons_iff [of "mx_next s" "mx_state s" S] by auto
  show "mutex_inv (unlock_cas a s) None [] [] \<and> mx_pc (unlock_cas a s) a = Out" if "S = []"
  proof -
    have "mutex_inv (set_pc a Out (s\<lparr>mx_state := not_locked\<rparr>)) None [] []"
      using assms o W that by (auto simp: mutex_inv_def)
    with S that show ?thesis by (simp add: unlock_cas_def locked_no_waiters_def)
  qed
  show "mutex_inv (unlock_cas a s) (Some a) [] S \<and> mx_pc (unlock_cas a s) a = Unlock_xchg" if "S \<noteq> []"
  proof -
    have "mutex_inv (set_pc a Unlock_xchg s) (Some a) W S"
      using assms o S that by (auto intro!: inv_own_step [of s a W S])
    with S W that show ?thesis by (simp add: unlock_cas_def locked_no_waiters_def)
  qed
qed

lemma inv_unlock_xchg:
  assumes "mutex_inv s (Some a) W S" "mx_pc s a = Unlock_xchg"
  shows "W = []" and "S \<noteq> []" and "mutex_inv (unlock_xchg a s) (Some a) (rev S) []"
    and "mx_pc (unlock_xchg a s) a = Unlock_rev 0 (mx_state s)"
    and "chain (mx_next (unlock_xchg a s)) (mx_state s) S"
proof -
  note o = inv_own [OF assms(1), of a]
  have W: "W = []" "mx_state s \<noteq> 0" "mx_waiters s = 0" using o(2) assms(2) by auto
  then show "W = []" "S \<noteq> []" using o(3) assms(2) by auto
  let ?t = "set_pc a (Unlock_rev 0 (mx_state s)) (s\<lparr>mx_state := locked_no_waiters\<rparr>)"
  have "mutex_inv ?t (Some a) (rev S) []"
    by (rule inv_own_step [of s a W S]) (use assms o W in \<open>auto simp: ice_const\<close>)
  with W o(3,4) assms(2) show "mutex_inv (unlock_xchg a s) (Some a) (rev S) []"
    "mx_pc (unlock_xchg a s) a = Unlock_rev 0 (mx_state s)"
    "chain (mx_next (unlock_xchg a s)) (mx_state s) S"
    by (simp_all add: unlock_xchg_def locked_no_waiters_def)
qed

lemma inv_unlock_rev:
  assumes inv: "mutex_inv s (Some a) W S" and pc: "mx_pc s a = Unlock_rev h n"
    and N: "W = rev (n # M) @ H" "chain (mx_next s) n (n # M)" "chain (mx_next s) h H"
  shows "mutex_inv (unlock_rev h n a s) (Some a) W S"
    and "chain (mx_next (unlock_rev h n a s)) (mx_next s n) M"
    and "chain (mx_next (unlock_rev h n a s)) n (n # H)"
    and "mx_pc (unlock_rev h n a s) a = (if M = [] then Unlock_pop n else Unlock_rev n (mx_next s n))"
proof -
  note o = inv_own [OF assms(1), of a]
  have M: "chain (mx_next s) (mx_next s n) M" "n \<noteq> 0" using N(2) by auto
  let ?p = "if mx_next s n \<noteq> 0 then Unlock_rev n (mx_next s n) else Unlock_pop n"
  let ?t = "set_pc a ?p (s\<lparr>mx_next := (mx_next s)(n := h)\<rparr>)"
  have t: "unlock_rev h n a s = ?t" by (simp add: unlock_rev_def Let_def)
  have d: "n \<notin> set M" "n \<notin> set H" "n \<notin> set S" "n \<in> set W" using o(5) assms(2) N(1) by auto
  have c: "chain (mx_next ?t) n (n # H)" "chain (mx_next ?t) (mx_next s n) M"
    using N(3) M d by auto
  then show "chain (mx_next (unlock_rev h n a s)) (mx_next s n) M"
    "chain (mx_next (unlock_rev h n a s)) n (n # H)" using t by simp_all
  have Mn: "M = [] \<longleftrightarrow> mx_next s n = 0" using chain_Cons_iff [OF M(1)] by auto
  then show "mx_pc (unlock_rev h n a s) a = (if M = [] then Unlock_pop n else Unlock_rev n (mx_next s n))"
    using t by simp
  have "owner_view ?t ?p W"
  proof (cases "M = []")
    case True
    with c N M Mn show ?thesis by simp
  next
    case False
    have "\<exists>N' H'. W = rev N' @ H' \<and> chain (mx_next ?t) (mx_next s n) N' \<and> chain (mx_next ?t) n H'"
      using c N(1) by (intro exI [of _ M] exI [of _ "n # H"]) simp
    with False Mn show ?thesis by simp
  qed
  moreover
  have "mx_pc s n = Parked" using assms(1) d(4) by (auto simp: mutex_inv_def)
  then have "\<forall>b old. mx_pc s b = Linked old \<longrightarrow> mx_next ?t b = mx_next s b" by auto
  moreover have "in_cs ?p" by simp
  moreover have "chain (mx_next ?t) (mx_state ?t) S" "mx_state ?t \<noteq> not_locked" "distinct (W @ S)"
    using o(3-5) assms(2) d(3) by simp_all
  ultimately have "mutex_inv ?t (Some a) W S"
    using inv by (intro inv_own_step [of s a W S ?p ?t W S]) simp_all
  with t show "mutex_inv (unlock_rev h n a s) (Some a) W S" by simp
qed

text \<open>The same steps as simulation steps.\<close>

lemma sim_unlock_begin:
  assumes "mutex_inv s own W S" "mx_pc s a = Holding"
  shows "sim_to (unlock_begin a s) (own, W @ rev S)"
proof -
  have "own = Some a" using inv_owner [OF assms(1), of a] assms(2) by simp
  with inv_unlock_begin [of s a W S] assms show ?thesis by (auto intro: sim_stay)
qed

lemma sim_unlock_head:
  assumes "mutex_inv s own W S" "mx_pc s a = Unlock_head"
  shows "sim_to (unlock_head a s) (own, W @ rev S)"
proof -
  have "own = Some a" using inv_owner [OF assms(1), of a] assms(2) by simp
  with inv_unlock_head [of s a W S] assms show ?thesis by (auto intro: sim_stay)
qed

lemma sim_unlock_cas:
  assumes "mutex_inv s own W S" "mx_pc s a = Unlock_cas"
  shows "sim_to (unlock_cas a s) (own, W @ rev S)"
proof -
  have own: "own = Some a" using inv_owner [OF assms(1), of a] assms(2) by simp
  note u = inv_unlock_cas [of s a W S]
  show ?thesis
  proof (cases "S = []")
    case True
    with own u assms show ?thesis
      using sim_move [of "unlock_cas a s" None "[]" "[]" "(Some a, [])"] fifo_release by simp
  next
    case False
    with own u assms show ?thesis by (auto intro: sim_stay)
  qed
qed

lemma sim_unlock_xchg:
  assumes "mutex_inv s own W S" "mx_pc s a = Unlock_xchg"
  shows "sim_to (unlock_xchg a s) (own, W @ rev S)"
proof -
  have "own = Some a" using inv_owner [OF assms(1), of a] assms(2) by simp
  with inv_unlock_xchg [of s a W S] assms show ?thesis by (auto intro: sim_stay)
qed

lemma sim_unlock_rev:
  assumes "mutex_inv s own W S" "mx_pc s a = Unlock_rev h n"
  shows "sim_to (unlock_rev h n a s) (own, W @ rev S)"
proof -
  have own: "own = Some a" using inv_owner [OF assms(1), of a] assms(2) by simp
  obtain N H where NH: "n \<noteq> 0" "W = rev N @ H" "chain (mx_next s) n N" "chain (mx_next s) h H"
    using inv_own(2) [OF assms(1), of a] assms(2) by auto
  obtain M where M: "N = n # M" using chain_nonnull [OF NH(1,3)] by auto
  have "mutex_inv (unlock_rev h n a s) (Some a) W S"
    using inv_unlock_rev(1) [of s a W S h n M H] assms own NH M by simp
  with own show ?thesis by (auto intro: sim_stay)
qed

lemma inv_handover:
  assumes inv: "mutex_inv s (Some a) (h # V) S" and "mx_pc s a = Unlock_pop h"
    and "mx_pc s h = Parked" and V: "chain (mx_next s) (mx_next s h) V"
  shows "mutex_inv (set_pc h Holding (set_pc a Out (s\<lparr>mx_waiters := mx_next s h\<rparr>))) (Some h) V S"
    (is "mutex_inv ?t _ _ _")
proof -
  have ah: "a \<noteq> h" using assms by auto
  have st: "mx_state s \<noteq> not_locked" "chain (mx_next s) (mx_state s) S" "distinct (h # V @ S)"
    using inv by (simp_all add: mutex_inv_def)
  have pcs: "in_cs (mx_pc s b) \<longleftrightarrow> b = a" "mx_pc s b = Parked \<longleftrightarrow> b \<in> set (h # V) \<union> set S"
    "in_lock (mx_pc s b) \<longrightarrow> valid_addr b \<and> mx_awaiter s b = b"
    "mx_pc s b = Linked old \<longrightarrow> mx_next s b = old \<and> old \<noteq> not_locked" "mx_pc s b \<noteq> Aborted" for b old
    using inv by (auto simp: mutex_inv_def)
  have "a \<notin> set V" "a \<notin> set S" using pcs(2) [of a] assms(2) by auto
  then show ?thesis
    unfolding mutex_inv_def using ah st V pcs by (simp add: eq_commute [of h])
qed

lemma sim_unlock_pop:
  assumes "mutex_inv s own W S" "mx_pc s a = Unlock_pop h"
  shows "sim_to (unlock_pop h a s) (own, W @ rev S)"
proof -
  note o = inv_own [OF assms(1), of a]
  obtain V where V: "h \<noteq> 0" "W = h # V" "chain (mx_next s) (mx_next s h) V"
    using o(2) assms(2) chain_nonnull [of h] by auto
  have "mx_pc s h = Parked" using assms(1) V(2) by (auto simp: mutex_inv_def)
  then have h: "mx_pc s h = Parked" "mx_awaiter s h = h" "h \<noteq> a"
    using assms inv_waiting [OF assms(1), of h] by auto
  let ?t = "set_pc h Holding (set_pc a Out (s\<lparr>mx_waiters := mx_next s h\<rparr>))"
  have "mutex_inv ?t (Some h) V S"
    using inv_handover [of s a h V S] assms o V h by simp
  then have "sim_to ?t (Some a, h # V @ rev S)"
    by (rule sim_move) (simp add: fifo_handover)
  with o(1) assms(2) V h show ?thesis by (simp add: unlock_pop_def)
qed

lemma mutex_sim:
  assumes "mutex_rel s f" "mutex_exec act s = Some t"
  shows "sim_to t f"
proof -
  obtain own W S where inv: "mutex_inv s own W S" and f: "f = (own, W @ rev S)"
    using assms(1) by (cases f) (auto simp: mutex_rel_def)
  note sims = sim_lock_try [OF inv] sim_lock_push [OF inv] sim_unlock_head [OF inv] sim_unlock_cas [OF inv]
    sim_unlock_xchg [OF inv] sim_unlock_rev [OF inv] sim_unlock_pop [OF inv]
  show ?thesis
  proof (cases act)
    case (Go sp a)
    with assms(2) sims [of a] show ?thesis unfolding f
      by (auto split: mpc.splits)
  qed (use assms(2) f inv in \<open>auto split: if_splits intro: sim_try_lock sim_lock_begin sim_unlock_begin\<close>)
qed

lemma mutex_rel_init: "mutex_init s \<Longrightarrow> mutex_rel s (None, [])"
  by (auto simp: mutex_init_def mutex_rel_def mutex_inv_def)

interpretation mutex: refinement mutex_init "act_step mutex_exec" mutex_ok fifo_init fifo_step mutex_rel
proof unfold_locales
  show "mutex_init s \<Longrightarrow> mutex_ok s" for s
    using mutex_rel_init by (auto simp: mutex_ok_def)
  show "mutex_ok s \<Longrightarrow> act_step mutex_exec s t \<Longrightarrow> mutex_ok t" for s t
    using mutex_sim by (fastforce simp: mutex_ok_def sim_to_def)
  show "mutex_init s \<Longrightarrow> \<exists>a. fifo_init a \<and> mutex_rel s a" for s
    using mutex_rel_init by (auto simp: fifo_init_def)
  show "mutex_ok s \<Longrightarrow> act_step mutex_exec s t \<Longrightarrow> mutex_rel s a \<Longrightarrow>
      \<exists>b. (a = b \<or> fifo_step a b) \<and> mutex_rel t b" for s t a
    by (metis act_stepE mutex_sim sim_to_def)
qed

lemma rev_run:
  assumes "mutex_inv s (Some a) W S" "mx_pc s a = Unlock_rev h n"
    and "W = rev N @ H" "chain (mx_next s) n N" "chain (mx_next s) h H" "N \<noteq> []"
  shows "\<exists>t g. run_acts mutex_exec (replicate (length N) (Go False a)) s = Some t
           \<and> mutex_inv t (Some a) W S \<and> mx_pc t a = Unlock_pop g"
  using assms
proof (induction N arbitrary: s h n H)
  case Nil
  then show ?case by simp
next
  case (Cons m M)
  have nm: "n = m" "chain (mx_next s) n (n # M)" "W = rev (n # M) @ H" using Cons.prems by auto
  let ?u = "unlock_rev h n a s"
  note st = inv_unlock_rev [OF Cons.prems(1,2) nm(3,2) Cons.prems(5)]
  have ex: "mutex_exec (Go False a) s = Some ?u" using Cons.prems(2) by simp
  show ?case
  proof (cases "M = []")
    case True
    with st ex show ?thesis by (intro exI [of _ ?u] exI [of _ n]) simp
  next
    case False
    have "\<exists>t g. run_acts mutex_exec (replicate (length M) (Go False a)) ?u = Some t
           \<and> mutex_inv t (Some a) W S \<and> mx_pc t a = Unlock_pop g"
      by (rule Cons.IH [of ?u n "mx_next s n" "n # H"]) (use st False nm in auto)
    with ex show ?thesis by simp
  qed
qed

text \<open>The owner's own steps from the start of \<open>unlock\<close> to the point of the hand-over.\<close>

lemma unlock_to_pop:
  assumes inv: "mutex_inv s (Some a) W S" and pc: "mx_pc s a = Holding" and q: "W @ rev S \<noteq> []"
  shows "\<exists>n t g W' S'. n \<le> length (W @ rev S) + 3
     \<and> run_acts mutex_exec (Unlock a # replicate n (Go False a)) s = Some t
     \<and> mutex_inv t (Some a) W' S' \<and> W' @ rev S' = W @ rev S \<and> mx_pc t a = Unlock_pop g"
proof -
  let ?s1 = "unlock_begin a s" let ?s2 = "unlock_head a ?s1"
  let ?s3 = "unlock_cas a ?s2" let ?s4 = "unlock_xchg a ?s3"
  note b = inv_unlock_begin [OF inv pc]
  note h = inv_unlock_head [OF b]
  have e: "mutex_exec (Unlock a) s = Some ?s1" "mutex_exec (Go False a) ?s1 = Some ?s2"
    using pc b(2) by simp_all
  show ?thesis
  proof (cases "W = []")
    case False
    with h e show ?thesis
      by (intro exI [of _ 1] exI [of _ ?s2] exI [of _ "mx_waiters ?s1"] exI [of _ W] exI [of _ S]) simp
  next
    case True
    with q have S: "S \<noteq> []" by simp
    have c: "mutex_inv ?s3 (Some a) [] S" "mx_pc ?s3 a = Unlock_xchg"
      using inv_unlock_cas(3) [of ?s2 a W S] h True S by auto
    note x = inv_unlock_xchg [OF c]
    have e2: "mutex_exec (Go False a) ?s2 = Some ?s3" "mutex_exec (Go False a) ?s3 = Some ?s4"
      using h(2) c(2) True by simp_all
    obtain t g where t: "run_acts mutex_exec (replicate (length S) (Go False a)) ?s4 = Some t"
      "mutex_inv t (Some a) (rev S) []" "mx_pc t a = Unlock_pop g"
      using rev_run [OF x(3,4), of S "[]"] x(5) S by auto
    have "run_acts mutex_exec (Unlock a # replicate (Suc (Suc (Suc (length S)))) (Go False a)) s = Some t"
      using e e2 t(1) by (simp del: mutex_exec.simps)
    with t(2,3) True show ?thesis
      by (intro exI [of _ "Suc (Suc (Suc (length S)))"] exI [of _ t] exI [of _ g]
          exI [of _ "rev S"] exI [of _ "[]"]) simp
  qed
qed

lemma mutex_relE:
  assumes "mutex_rel s (Some a, q)"
  obtains W S where "mutex_inv s (Some a) W S" "q = W @ rev S"
  using assms by (auto simp: mutex_rel_def)

lemma run_one_more: "run_acts exec as s = Some t \<Longrightarrow> exec b t = Some u \<Longrightarrow> run_acts exec (as @ [b]) s = Some u"
  by (simp add: run_acts_append)

section \<open>Properties\<close>

text \<open>
  C1: mutual exclusion. In every state any interleaving of \<open>try_lock\<close>, lock operations and \<open>unlock\<close>
  can reach, at most one agent holds the lock or is inside \<open>unlock\<close>.
\<close>

theorem mutex_exclusion:
  assumes "reach mutex_init (act_step mutex_exec) s" "in_cs (mx_pc s a)" "in_cs (mx_pc s b)"
  shows "a = b"
proof -
  obtain own W S where "mutex_inv s own W S"
    using mutex.reach_inv [OF assms(1)] by (auto simp: mutex_ok_def mutex_rel_def)
  with assms(2,3) show ?thesis by (metis inv_owner option.inject)
qed

text \<open>
  C2: the mutex refines a first-come first-served lock. Every reachable state stands for a reachable
  state of the abstract lock whose holder is the agent in the critical section and whose queue lists
  exactly the suspended lock operations, and every action from it is a step of the abstract lock or
  leaves it unchanged.
\<close>

theorem mutex_refines_fifo:
  assumes "reach mutex_init (act_step mutex_exec) s"
  shows "\<exists>own q. reach fifo_init fifo_step (own, q) \<and> mutex_rel s (own, q)
     \<and> (\<forall>a. in_cs (mx_pc s a) \<longleftrightarrow> own = Some a)
     \<and> distinct q \<and> (\<forall>a. mx_pc s a = Parked \<longleftrightarrow> a \<in> set q)
     \<and> (\<forall>act t. mutex_exec act s = Some t \<longrightarrow>
          (\<exists>own' q'. ((own, q) = (own', q') \<or> fifo_step (own, q) (own', q')) \<and> mutex_rel t (own', q')))"
proof -
  obtain own q where r: "reach fifo_init fifo_step (own, q)" "mutex_rel s (own, q)"
    using mutex.reach_sim [OF assms] by (metis surj_pair)
  obtain W S where i: "mutex_inv s own W S" "q = W @ rev S" using r(2) by (auto simp: mutex_rel_def)
  have "\<forall>act t. mutex_exec act s = Some t \<longrightarrow>
      (\<exists>own' q'. ((own, q) = (own', q') \<or> fifo_step (own, q) (own', q')) \<and> mutex_rel t (own', q'))"
    using mutex_sim [OF r(2)] unfolding sim_to_def by (metis surj_pair)
  moreover have "(\<forall>a. in_cs (mx_pc s a) \<longleftrightarrow> own = Some a) \<and> distinct q \<and> (\<forall>a. mx_pc s a = Parked \<longleftrightarrow> a \<in> set q)"
    using i by (simp add: mutex_inv_def)
  ultimately show ?thesis using r by blast
qed

text \<open>
  C3: no assertion of \<open>unlock\<close> fails; a suspended lock operation always has a holder that will
  hand the lock on, and its stored awaiter is its own coroutine; and once every agent is done the
  assertions of the destructor hold.
\<close>

theorem mutex_safe:
  assumes "reach mutex_init (act_step mutex_exec) s"
  shows "mx_pc s a \<noteq> Aborted
     \<and> (mx_pc s a = Parked \<longrightarrow> (\<exists>h. in_cs (mx_pc s h)) \<and> mx_awaiter s a = a)
     \<and> ((\<forall>b. mx_pc s b = Out) \<longrightarrow> mx_state s = not_locked \<and> mx_waiters s = 0)"
proof -
  obtain own W S where i: "mutex_inv s own W S"
    using mutex.reach_inv [OF assms] by (auto simp: mutex_ok_def mutex_rel_def)
  show ?thesis
  proof (cases own)
    case None
    with i show ?thesis by (auto simp: mutex_inv_def)
  next
    case (Some h)
    with i have "in_cs (mx_pc s h)" by (auto simp: mutex_inv_def)
    moreover from this have "mx_pc s h \<noteq> Out" by auto
    moreover have "mx_pc s a = Parked \<Longrightarrow> mx_awaiter s a = a" using inv_waiting [OF i, of a] by simp
    moreover have "mx_pc s a \<noteq> Aborted" using i by (simp add: mutex_inv_def)
    ultimately show ?thesis by blast
  qed
qed

text \<open>The last access of \<open>unlock\<close> hands the lock to the operation at the head.\<close>

lemma unlock_from_pop:
  assumes t: "mutex_inv t (Some a) W' S'" "mx_pc t a = Unlock_pop g" and q: "W' @ rev S' = w # ws"
  shows "\<exists>u. mutex_exec (Go False a) t = Some u \<and> mx_pc u a = Out \<and> mutex_rel u (Some w, ws) \<and> mx_pc u w = Holding"
proof -
  note o = inv_own [OF t(1), of a]
  obtain V where V: "g \<noteq> 0" "W' = g # V" "chain (mx_next t) (mx_next t g) V"
    using o(2) t(2) chain_nonnull [of g] by auto
  have g: "mx_pc t g = Parked" using t(1) V(2) by (auto simp: mutex_inv_def)
  have aw: "mx_awaiter t g = g" using inv_waiting [OF t(1), of g] g by simp
  let ?u = "unlock_pop g a t"
  have u: "mutex_inv ?u (Some g) V S'" "mx_pc ?u g = Holding" "mx_pc ?u a = Out"
    using inv_handover [of t a g V S'] t V g aw by (auto simp: unlock_pop_def)
  have "w = g" "ws = V @ rev S'" using q V(2) by auto
  with u have "mutex_rel ?u (Some w, ws)" "mx_pc ?u w = Holding" by (auto simp: mutex_rel_def)
  with u(3) t(2) show ?thesis by simp
qed

text \<open>
  C4: \<open>unlock\<close> terminates and hands over in order: running alone, the holder of a mutex with queue \<open>q\<close>
  is out of \<open>unlock\<close> after at most \<open>length q + 4\<close> accesses, with the mutex free if nobody waited
  and otherwise with the longest waiting operation holding the lock and the rest of the queue kept.
\<close>

theorem mutex_handover:
  assumes rel: "mutex_rel s (Some a, q)" and pc: "mx_pc s a = Holding"
  shows "\<exists>n t. n \<le> length q + 4 \<and> run_acts mutex_exec (Unlock a # replicate n (Go False a)) s = Some t
     \<and> mx_pc t a = Out
     \<and> (case q of [] \<Rightarrow> mutex_rel t (None, []) | w # ws \<Rightarrow> mutex_rel t (Some w, ws) \<and> mx_pc t w = Holding)"
proof -
  obtain W S where inv: "mutex_inv s (Some a) W S" and q: "q = W @ rev S" using rel by (rule mutex_relE)
  show ?thesis
  proof (cases q)
    case Nil
    with q have "W = []" "S = []" by auto
    let ?s1 = "unlock_begin a s" let ?s2 = "unlock_head a ?s1" let ?s3 = "unlock_cas a ?s2"
    note b = inv_unlock_begin [OF inv pc]
    note h = inv_unlock_head [OF b]
    have c: "mutex_inv ?s3 None [] [] \<and> mx_pc ?s3 a = Out"
      using inv_unlock_cas(2) [of ?s2 a W S] h \<open>W = []\<close> \<open>S = []\<close> by simp
    have "run_acts mutex_exec (Unlock a # replicate 2 (Go False a)) s = Some ?s3"
      using pc b(2) h(2) \<open>W = []\<close> by (simp add: numeral_2_eq_2)
    with c Nil show ?thesis
      by (intro exI [of _ 2] exI [of _ ?s3]) (auto simp: mutex_rel_def)
  next
    case (Cons w ws)
    obtain n t g W' S' where t: "n \<le> length (W @ rev S) + 3"
      "run_acts mutex_exec (Unlock a # replicate n (Go False a)) s = Some t"
      "mutex_inv t (Some a) W' S'" "W' @ rev S' = W @ rev S" "mx_pc t a = Unlock_pop g"
      using unlock_to_pop [OF inv pc] Cons q by (metis list.distinct(1))
    have "W' @ rev S' = w # ws" using Cons q t(4) by simp
    from unlock_from_pop [OF t(3,5) this] obtain u where u: "mutex_exec (Go False a) t = Some u" "mx_pc u a = Out"
      "mutex_rel u (Some w, ws)" "mx_pc u w = Holding" by blast
    from run_one_more [OF t(2) u(1)]
    have "run_acts mutex_exec (Unlock a # replicate (Suc n) (Go False a)) s = Some u"
      by (simp only: append_Cons replicate_append_same replicate_Suc)
    moreover have "Suc n \<le> length q + 4" using t(1) q by simp
    ultimately show ?thesis using u(2-4) Cons by (intro exI [of _ "Suc n"] exI [of _ u]) simp
  qed
qed

text \<open>A concrete schedule: 2 takes the lock, 4 and then 6 wait, 2 starts to unlock.\<close>

definition mutex0 :: mutex where
  "mutex0 = \<lparr>mx_state = not_locked, mx_waiters = 0, mx_next = \<lambda>_. 0, mx_awaiter = \<lambda>_. 0, mx_pc = \<lambda>_. Out\<rparr>"

definition mutex_schedule :: "mact list" where
  "mutex_schedule = [Try 2, Lock 4, Lock 6, Go True 4, Go False 4, Go False 6, Go False 6, Go False 6, Go False 6]"

definition mutex1 :: mutex where
  "mutex1 = (case run_acts mutex_exec mutex_schedule mutex0 of Some s \<Rightarrow> s | None \<Rightarrow> mutex0)"

lemmas mutex_ops = try_lock_def lock_begin_def lock_try_def lock_push_def unlock_begin_def unlock_head_def
  unlock_cas_def unlock_xchg_def unlock_rev_def unlock_pop_def set_pc_def not_locked_def
  locked_no_waiters_def valid_addr_def

lemma mutex1_run: "run_acts mutex_exec mutex_schedule mutex0 = Some mutex1"
  by (simp add: mutex1_def mutex_schedule_def mutex0_def mutex_ops)

lemma mutex1_reach: "reach mutex_init (act_step mutex_exec) mutex1"
  by (rule run_acts_reach [OF mutex1_run]) (simp add: reach.reach_init mutex_init_def mutex0_def)

lemma mutex1_pc: "mx_pc mutex1 2 = Holding" "mx_pc mutex1 4 = Parked" "mx_pc mutex1 6 = Parked"
  "mx_state mutex1 = 6"
  by (simp_all add: mutex1_def mutex_schedule_def mutex0_def mutex_ops)

lemma mutex1_next: "mx_next mutex1 6 = 4" "mx_next mutex1 4 = 0" "mx_waiters mutex1 = 0"
  by (simp_all add: mutex1_def mutex_schedule_def mutex0_def mutex_ops)

theorem mutex_exclusion_witness: "in_cs (mx_pc mutex1 2) \<and> (\<forall>b. in_cs (mx_pc mutex1 b) \<longleftrightarrow> b = 2)"
  using mutex_exclusion [OF mutex1_reach, of _ 2] mutex1_pc by auto

theorem mutex_refines_fifo_witness:
  "\<exists>q. reach fifo_init fifo_step (Some 2, q) \<and> distinct q \<and> set q = {a. mx_pc mutex1 a = Parked} \<and> {4, 6} \<subseteq> set q"
proof -
  from mutex_refines_fifo [OF mutex1_reach] obtain own q where
    q: "reach fifo_init fifo_step (own, q)" "\<forall>a. in_cs (mx_pc mutex1 a) \<longleftrightarrow> own = Some a" "distinct q"
    "\<forall>a. mx_pc mutex1 a = Parked \<longleftrightarrow> a \<in> set q"
    by (elim exE conjE) (rule that)
  then have "own = Some 2" using mutex1_pc(1) by (metis in_cs.simps(1))
  with q mutex1_pc show ?thesis by auto
qed

theorem mutex_safe_witness:
  "mx_pc mutex1 4 = Parked \<and> (\<exists>h. in_cs (mx_pc mutex1 h)) \<and> mx_awaiter mutex1 4 = 4"
  using mutex_safe [OF mutex1_reach, of 4] mutex1_pc by simp

lemma mutex1_rel: "mutex_rel mutex1 (Some 2, [4, 6])"
proof -
  obtain own q where r: "mutex_rel mutex1 (own, q)"
    using mutex.reach_sim [OF mutex1_reach] by (metis surj_pair)
  then have own: "own = Some 2"
    using inv_owner mutex1_pc(1) by (fastforce simp: mutex_rel_def)
  with r obtain W S where i: "mutex_inv mutex1 (Some 2) W S" "q = W @ rev S"
    by (auto simp: mutex_rel_def)
  note o = inv_own [OF i(1), of 2]
  have "W = []" using o(2) mutex1_pc(1) mutex1_next by simp
  moreover have "S = [6, 4]"
    using o(3) mutex1_pc chain_nonnull [of 6 "mx_next mutex1" S] chain_nonnull [of 4 "mx_next mutex1" "tl S"]
      mutex1_next by auto
  ultimately show ?thesis using r own i(2) by simp
qed

theorem mutex_handover_witness:
  "\<exists>n t. n \<le> 6 \<and> run_acts mutex_exec (Unlock 2 # replicate n (Go False 2)) mutex1 = Some t
     \<and> mx_pc t 2 = Out \<and> mutex_rel t (Some 4, [6]) \<and> mx_pc t 4 = Holding"
  using mutex_handover [OF mutex1_rel mutex1_pc(1)] by auto
text \<open>
  A lock operation that is not disturbed finishes: on a free mutex it has the lock after one more
  access, on a locked one it is parked at the end of the queue after two.
\<close>

lemma mutex_lock_alone:
  assumes "mutex_rel s (own, q)" "mx_pc s a = Out" "valid_addr a"
  shows "\<exists>t. (if own = None
      then run_acts mutex_exec [Lock a, Go False a] s = Some t \<and> mx_pc t a = Holding
      else run_acts mutex_exec [Lock a, Go False a, Go False a] s = Some t \<and> mx_pc t a = Parked)"
proof -
  have "own = None \<longleftrightarrow> mx_state s = not_locked"
    using assms(1) by (auto simp: mutex_rel_def mutex_inv_def split: option.splits)
  with assms(2,3) show ?thesis by (auto simp: lock_begin_def lock_try_def lock_push_def)
qed

lemma mutex_lock_alone_witness:
  "\<exists>t. run_acts mutex_exec [Lock 8, Go False 8, Go False 8] mutex1 = Some t \<and> mx_pc t 8 = Parked"
  using mutex_lock_alone [OF mutex1_rel, of 8]
  by (simp add: valid_addr_def mutex1_def mutex_schedule_def mutex0_def mutex_ops)

end
