(* ===== verification/Ice_Async.thy ===== *)
theory Ice_Async
  imports Ice_Error Ice_Owner
begin

text \<open>
  The lazily started coroutine \<open>async<T>\<close>, the fire-and-forget \<open>task\<close> and the synchronous
  \<open>generator<T>\<close> of include/ice/async.h.

  A coroutine handle is a number, 0 for null. What the body of a coroutine computes is not the
  library's business: it enters as the outcome (an exception or a value) the body ends with. The
  rendezvous between the awaiter and the completing coroutine is a machine whose actions are the
  single accesses to the promise, so that every interleaving of the two is a run of it.
\<close>

section \<open>Exceptions and tasks\<close>

datatype cxx_exn = Sys_exn exn | Std_exn string | Other_exn

text \<open>What is printed on stderr and the value returned; \<open>what\<close> is \<open>std::system_error::what\<close>.\<close>

fun exception_handler :: "(exn \<Rightarrow> string) \<Rightarrow> cxx_exn \<Rightarrow> string \<times> int" where
  "exception_handler what (Sys_exn e) =
     (''error: '' @ what e @ '' ('' @ to_string (sint (exn_value e)) @ '')'' @ [CHR 0x0A],
      sint (exn_value e))"
| "exception_handler what (Std_exn text) = (''error: '' @ text @ [CHR 0x0A], -1)"
| "exception_handler what Other_exn = (''error: unhandled exception'' @ [CHR 0x0A], -1)"

text \<open>A task starts at once, suspends at neither end, and hands an escaped exception to the handler.\<close>

definition task_finish :: "(exn \<Rightarrow> string) \<Rightarrow> cxx_exn + unit \<Rightarrow> string" where
  "task_finish what outcome =
     (case outcome of Inl e \<Rightarrow> fst (exception_handler what e) | Inr _ \<Rightarrow> [])"

section \<open>Continuations\<close>

record continuation =
  cn_callback :: nat
  cn_state :: nat

definition continuation_none :: continuation where
  "continuation_none = \<lparr>cn_callback = 0, cn_state = 0\<rparr>"

definition continuation_of_coroutine :: "nat \<Rightarrow> continuation" where
  "continuation_of_coroutine h = \<lparr>cn_callback = 0, cn_state = h\<rparr>"

definition continuation_bool :: "continuation \<Rightarrow> bool" where
  "continuation_bool c \<longleftrightarrow> cn_callback c \<noteq> 0 \<or> cn_state c \<noteq> 0"

datatype resumed = Coroutine nat | Callback nat nat

definition continuation_resume :: "continuation \<Rightarrow> resumed" where
  "continuation_resume c =
     (if cn_callback c = 0 then Coroutine (cn_state c) else Callback (cn_callback c) (cn_state c))"

section \<open>The promise of async\<close>

record 'v promise =
  pr_continuation :: continuation
  pr_exception :: "cxx_exn option"
  pr_value :: "'v option"
  pr_state :: bool

definition promise_new :: "'v promise" where
  "promise_new = \<lparr>pr_continuation = continuation_none, pr_exception = None, pr_value = None, pr_state = False\<rparr>"

definition return_value :: "'v \<Rightarrow> 'v promise \<Rightarrow> 'v promise" where
  "return_value v p = p\<lparr>pr_value := Some v\<rparr>"

definition unhandled_exception :: "cxx_exn \<Rightarrow> 'v promise \<Rightarrow> 'v promise" where
  "unhandled_exception e p = p\<lparr>pr_exception := Some e\<rparr>"

text \<open>\<open>m_state.exchange(true)\<close>: the old value and the new promise.\<close>

definition exchange_state :: "'v promise \<Rightarrow> bool \<times> 'v promise" where
  "exchange_state p = (pr_state p, p\<lparr>pr_state := True\<rparr>)"

text \<open>
  \<open>result()\<close>: the stored exception is rethrown, else the storage is read; \<open>None\<close> is a read of
  storage that holds no object.
\<close>

definition promise_result :: "'v promise \<Rightarrow> (cxx_exn + 'v) option" where
  "promise_result p =
     (case pr_exception p of
        Some e \<Rightarrow> Some (Inl e)
      | None \<Rightarrow> map_option Inr (pr_value p))"

text \<open>The destructor of the promise: the storage it runs \<open>~T\<close> on, \<open>Some None\<close> for storage without object.\<close>

definition promise_dtor :: "'v promise \<Rightarrow> 'v option option" where
  "promise_dtor p = (if pr_state p \<and> pr_exception p = None then Some (pr_value p) else None)"

section \<open>Awaiting\<close>

datatype co_pc = Co_initial | Co_running | Co_final | Co_wake | Co_done

datatype aw_pc = Aw_begin | Aw_called | Aw_stored | Aw_suspended | Aw_inline | Aw_done

text \<open>
  \<open>rv_co\<close> is where the awaited coroutine stands: not started, in its body, at its final suspend point
  with the outcome stored, after an exchange that found the flag set, finished. \<open>rv_aw\<close> is where
  the awaiter stands in \<open>await_suspend\<close> (or \<open>starter::start\<close>): before resuming the coroutine, after
  that call has returned, after storing the continuation, after the exchange. \<open>rv_log\<close> lists how
  the awaiter was continued: by \<open>await_suspend\<close> returning false (\<open>start\<close> resuming the continuation
  itself), or by the finished coroutine. \<open>rv_body\<close> records the outcome of the body.
\<close>

datatype wakeup = Inline | Resumed resumed

record 'v rendezvous =
  rv_promise :: "'v promise"
  rv_co :: co_pc
  rv_aw :: aw_pc
  rv_log :: "wakeup list"
  rv_body :: "(cxx_exn + 'v) option"

definition async_start :: "'v rendezvous" where
  "async_start = \<lparr>rv_promise = promise_new, rv_co = Co_initial, rv_aw = Aw_begin, rv_log = [], rv_body = None\<rparr>"

definition async_init :: "'v rendezvous \<Rightarrow> bool" where
  "async_init s \<longleftrightarrow> s = async_start"

text \<open>\<open>await_ready\<close> for a handle that may be null, and \<open>await_resume\<close>.\<close>

definition async_ready :: "'v rendezvous option \<Rightarrow> bool" where
  "async_ready m = (case m of None \<Rightarrow> True | Some s \<Rightarrow> rv_co s \<in> {Co_final, Co_wake, Co_done})"

definition async_await_resume :: "'v rendezvous option \<Rightarrow> (cxx_exn + 'v) option" where
  "async_await_resume m =
     (case m of None \<Rightarrow> Some (Inl (Std_exn ''broken promise'')) | Some s \<Rightarrow> promise_result (rv_promise s))"

datatype 'v async_act =
    Resume_coroutine
  | Store_continuation
  | Exchange_awaiter
  | Continue_inline
  | Body_end "cxx_exn + 'v"
  | Exchange_final
  | Resume_continuation

definition body_end :: "cxx_exn + 'v \<Rightarrow> 'v rendezvous \<Rightarrow> 'v rendezvous" where
  "body_end outcome s =
     s\<lparr>rv_co := Co_final, rv_body := Some outcome,
       rv_promise := (case outcome of Inl e \<Rightarrow> unhandled_exception e (rv_promise s)
                      | Inr v \<Rightarrow> return_value v (rv_promise s))\<rparr>"

text \<open>\<open>try_set_continuation\<close>: the store and then the exchange, whose negated result it returns.\<close>

definition store_continuation :: "continuation \<Rightarrow> 'v rendezvous \<Rightarrow> 'v rendezvous" where
  "store_continuation c s =
     s\<lparr>rv_aw := Aw_stored, rv_promise := (rv_promise s)\<lparr>pr_continuation := c\<rparr>\<rparr>"

definition exchange_awaiter :: "'v rendezvous \<Rightarrow> 'v rendezvous" where
  "exchange_awaiter s =
     (case exchange_state (rv_promise s) of (old, p) \<Rightarrow>
        s\<lparr>rv_aw := (if \<not> old then Aw_suspended else Aw_inline), rv_promise := p\<rparr>)"

text \<open>\<open>final_awaitable::await_suspend\<close>: the exchange, then the resumption if the flag was set.\<close>

definition exchange_final :: "'v rendezvous \<Rightarrow> 'v rendezvous" where
  "exchange_final s =
     (case exchange_state (rv_promise s) of (old, p) \<Rightarrow>
        s\<lparr>rv_co := (if old then Co_wake else Co_done), rv_promise := p\<rparr>)"

definition resume_continuation :: "'v rendezvous \<Rightarrow> 'v rendezvous" where
  "resume_continuation s =
     s\<lparr>rv_co := Co_done, rv_log := rv_log s @ [Resumed (continuation_resume (pr_continuation (rv_promise s)))]\<rparr>"

fun async_exec :: "continuation \<Rightarrow> 'v async_act \<Rightarrow> 'v rendezvous \<Rightarrow> 'v rendezvous option" where
  "async_exec c Resume_coroutine s =
     (if rv_aw s = Aw_begin \<and> rv_co s = Co_initial
      then Some (s\<lparr>rv_aw := Aw_called, rv_co := Co_running\<rparr>) else None)"
| "async_exec c Store_continuation s =
     (if rv_aw s = Aw_called then Some (store_continuation c s) else None)"
| "async_exec c Exchange_awaiter s =
     (if rv_aw s = Aw_stored then Some (exchange_awaiter s) else None)"
| "async_exec c Continue_inline s =
     (if rv_aw s = Aw_inline then Some (s\<lparr>rv_aw := Aw_done, rv_log := rv_log s @ [Inline]\<rparr>) else None)"
| "async_exec c (Body_end outcome) s =
     (if rv_co s = Co_running then Some (body_end outcome s) else None)"
| "async_exec c Exchange_final s =
     (if rv_co s = Co_final then Some (exchange_final s) else None)"
| "async_exec c Resume_continuation s =
     (if rv_co s = Co_wake then Some (resume_continuation s) else None)"

section \<open>generator\<close>

text \<open>
  The body of a generator as what it does when resumed: it yields a value and goes on, returns, throws, or runs for ever without
  suspending again. A body may yield for ever (\<open>while (true) co_yield i++;\<close>), so the type is a codatatype. A suspended generator
  coroutine has the rest of its body, the \<open>done\<close> flag of its final suspend point and the promise's \<open>m_value\<close>.
\<close>

codatatype 'v gen_body = Yield 'v "'v gen_body" | Gen_return | Gen_throw cxx_exn | Gen_spin

record 'v gen_co =
  gc_body :: "'v gen_body"
  gc_done :: bool
  gc_value :: "'v option"

definition generator_make :: "'v gen_body \<Rightarrow> 'v gen_co" where
  "generator_make b = \<lparr>gc_body = b, gc_done = False, gc_value = None\<rparr>"

text \<open>
  Resuming: \<open>yield_value\<close> stores the value and suspends; returning suspends at the final suspend
  point; \<open>unhandled_exception\<close> rethrows, so the exception leaves \<open>resume\<close> and the coroutine is done.
  \<open>None\<close> is a call of \<open>resume\<close> that does not return.
\<close>

definition generator_resume :: "'v gen_co \<Rightarrow> ('v gen_co \<times> cxx_exn option) option" where
  "generator_resume c =
     (case gc_body c of
        Yield v b \<Rightarrow> Some (c\<lparr>gc_body := b, gc_value := Some v\<rparr>, None)
      | Gen_return \<Rightarrow> Some (c\<lparr>gc_done := True\<rparr>, None)
      | Gen_throw e \<Rightarrow> Some (c\<lparr>gc_done := True\<rparr>, Some e)
      | Gen_spin \<Rightarrow> None)"

section \<open>Ownership of the coroutine\<close>

text \<open>
  \<open>async\<close>, \<open>generator\<close> and \<open>async_generator\<close> own a coroutine frame. The objects of one class live at
  addresses; \<open>fr_coroutine\<close> is \<open>m_coroutine\<close> (0 is null), \<open>fr_destroyed\<close> the frames destroyed.
\<close>

record frames =
  fr_coroutine :: "nat \<Rightarrow> nat"
  fr_destroyed :: "nat list"

definition frame_make :: "nat \<Rightarrow> nat \<Rightarrow> frames \<Rightarrow> frames" where
  "frame_make t h s = s\<lparr>fr_coroutine := (fr_coroutine s)(t := h)\<rparr>"

definition frame_move_ctor :: "nat \<Rightarrow> nat \<Rightarrow> frames \<Rightarrow> frames" where
  "frame_move_ctor t other s =
     (let s1 = s\<lparr>fr_coroutine := (fr_coroutine s)(t := fr_coroutine s other)\<rparr>
      in s1\<lparr>fr_coroutine := (fr_coroutine s1)(other := 0)\<rparr>)"

definition frame_dtor :: "nat \<Rightarrow> frames \<Rightarrow> frames" where
  "frame_dtor t s =
     (if fr_coroutine s t \<noteq> 0 then s\<lparr>fr_destroyed := fr_destroyed s @ [fr_coroutine s t]\<rparr> else s)"

text \<open>\<open>async::operator=\<close>: guarded against self-assignment, destroys first, then takes over.\<close>

definition async_move_assign :: "nat \<Rightarrow> nat \<Rightarrow> frames \<Rightarrow> frames" where
  "async_move_assign t other s =
     (if other \<noteq> t then
        let s1 = frame_dtor t s;
            s2 = s1\<lparr>fr_coroutine := (fr_coroutine s1)(t := fr_coroutine s1 other)\<rparr>
        in s2\<lparr>fr_coroutine := (fr_coroutine s2)(other := 0)\<rparr>
      else s)"

text \<open>
  \<open>generator::operator=\<close> takes its argument by value and \<open>async_generator::operator=\<close> moves it into
  a local; both swap with that object, whose destructor then destroys the old frame.
\<close>

definition generator_move_assign :: "nat \<Rightarrow> nat \<Rightarrow> frames \<Rightarrow> frames" where
  "generator_move_assign t other s =
     (let temp = fr_coroutine s other;
          s1 = s\<lparr>fr_coroutine := (fr_coroutine s)(other := 0)\<rparr>;
          old = fr_coroutine s1 t;
          s2 = s1\<lparr>fr_coroutine := (fr_coroutine s1)(t := temp)\<rparr>
      in if old \<noteq> 0 then s2\<lparr>fr_destroyed := fr_destroyed s2 @ [old]\<rparr> else s2)"

lemmas frame_defs = frame_make_def frame_move_ctor_def frame_dtor_def async_move_assign_def
  generator_move_assign_def

interpretation async: move_only 0 fr_coroutine fr_destroyed frame_make frame_move_ctor
    "Some async_move_assign" frame_dtor
  by unfold_locales (auto simp: frame_defs keep_def Let_def)

interpretation generator: move_only 0 fr_coroutine fr_destroyed frame_make frame_move_ctor
    "Some generator_move_assign" frame_dtor
  by unfold_locales (auto simp: frame_defs keep_def Let_def)

section \<open>The rendezvous as an invariant system\<close>

text \<open>
  The pairs of positions that occur, the flag, the log and the promise's contents at each.
\<close>

fun async_shape :: "aw_pc \<Rightarrow> co_pc \<Rightarrow> bool" where
  "async_shape Aw_begin co = (co = Co_initial)"
| "async_shape Aw_called co = (co \<in> {Co_running, Co_final, Co_done})"
| "async_shape Aw_stored co = (co \<in> {Co_running, Co_final, Co_done})"
| "async_shape Aw_suspended co = (co \<noteq> Co_initial)"
| "async_shape Aw_inline co = (co = Co_done)"
| "async_shape Aw_done co = (co = Co_done)"

definition async_flag :: "aw_pc \<Rightarrow> co_pc \<Rightarrow> bool" where
  "async_flag aw co \<longleftrightarrow> aw \<in> {Aw_suspended, Aw_inline, Aw_done} \<or> co \<in> {Co_wake, Co_done}"

definition async_log :: "continuation \<Rightarrow> aw_pc \<Rightarrow> co_pc \<Rightarrow> wakeup list" where
  "async_log c aw co =
     (if aw = Aw_done then [Inline]
      else if aw = Aw_suspended \<and> co = Co_done then [Resumed (continuation_resume c)] else [])"

definition promise_holds :: "(cxx_exn + 'v) option \<Rightarrow> 'v promise \<Rightarrow> bool" where
  "promise_holds body p \<longleftrightarrow>
     pr_exception p = (case body of Some (Inl e) \<Rightarrow> Some e | _ \<Rightarrow> None) \<and>
     pr_value p = (case body of Some (Inr v) \<Rightarrow> Some v | _ \<Rightarrow> None)"

definition async_inv :: "continuation \<Rightarrow> 'v rendezvous \<Rightarrow> bool" where
  "async_inv c s \<longleftrightarrow>
     async_shape (rv_aw s) (rv_co s) \<and>
     pr_state (rv_promise s) = async_flag (rv_aw s) (rv_co s) \<and>
     (rv_aw s \<notin> {Aw_begin, Aw_called} \<longrightarrow> pr_continuation (rv_promise s) = c) \<and>
     rv_log s = async_log c (rv_aw s) (rv_co s) \<and>
     (rv_body s = None \<longleftrightarrow> rv_co s \<in> {Co_initial, Co_running}) \<and>
     promise_holds (rv_body s) (rv_promise s)"

lemmas async_defs = store_continuation_def exchange_awaiter_def exchange_final_def exchange_state_def
  resume_continuation_def body_end_def unhandled_exception_def return_value_def

lemma promise_holds_frame [simp]:
  "promise_holds body (p\<lparr>pr_continuation := c\<rparr>) = promise_holds body p"
  "promise_holds body (p\<lparr>pr_state := b\<rparr>) = promise_holds body p"
  by (simp_all add: promise_holds_def)

lemma promise_holds_end:
  "promise_holds None p \<Longrightarrow> promise_holds (Some (Inl e)) (unhandled_exception e p)"
  "promise_holds None p \<Longrightarrow> promise_holds (Some (Inr v)) (return_value v p)"
  by (simp_all add: promise_holds_def unhandled_exception_def return_value_def)

lemma promise_end_frame [simp]:
  "pr_state (unhandled_exception e p) = pr_state p"
  "pr_state (return_value v p) = pr_state p"
  "pr_continuation (unhandled_exception e p) = pr_continuation p"
  "pr_continuation (return_value v p) = pr_continuation p"
  by (simp_all add: unhandled_exception_def return_value_def)

text \<open>Each action keeps the invariant and uses up one of the six steps a run has.\<close>

definition async_cost :: "aw_pc \<Rightarrow> co_pc \<Rightarrow> nat" where
  "async_cost aw co =
     (case aw of Aw_begin \<Rightarrow> 4 | Aw_called \<Rightarrow> 3 | Aw_stored \<Rightarrow> 2 | Aw_done \<Rightarrow> 0 | _ \<Rightarrow> 1) +
     (case co of Co_initial \<Rightarrow> 2 | Co_running \<Rightarrow> 2 | Co_final \<Rightarrow> 1 | _ \<Rightarrow> 0) -
     (if aw = Aw_suspended \<and> co = Co_done then 1 else 0)"

lemmas async_tables = async_flag_def async_log_def async_cost_def

lemma async_inv_awaiter:
  assumes "async_inv c s" "a \<in> {Resume_coroutine, Store_continuation, Exchange_awaiter, Continue_inline}"
    "async_exec c a s = Some t"
  shows "async_inv c t \<and> async_cost (rv_aw s) (rv_co s) = Suc (async_cost (rv_aw t) (rv_co t))"
  using assms
  by (elim insertE; cases "rv_co s")
    (simp_all add: async_inv_def async_tables store_continuation_def exchange_awaiter_def exchange_state_def
      split: if_splits; hypsubst?; simp)+

lemma async_inv_coroutine:
  assumes "async_inv c s" "a \<in> {Exchange_final, Resume_continuation}" "async_exec c a s = Some t"
  shows "async_inv c t \<and> async_cost (rv_aw s) (rv_co s) = Suc (async_cost (rv_aw t) (rv_co t))"
  using assms
  by (elim insertE; cases "rv_aw s")
    (simp_all add: async_inv_def async_tables exchange_final_def exchange_state_def resume_continuation_def
      split: if_splits; hypsubst?; simp)+

lemma async_inv_body:
  assumes "async_inv c s" "async_exec c (Body_end r) s = Some t"
  shows "async_inv c t \<and> async_cost (rv_aw s) (rv_co s) = Suc (async_cost (rv_aw t) (rv_co t))"
  using assms
  by (cases "rv_aw s"; cases r)
    (simp_all add: async_inv_def async_tables body_end_def promise_holds_end split: if_splits; 
     hypsubst?; simp add: promise_holds_end)+

lemma async_inv_exec:
  "async_inv c s \<Longrightarrow> async_exec c a s = Some t \<Longrightarrow>
   async_inv c t \<and> async_cost (rv_aw s) (rv_co s) = Suc (async_cost (rv_aw t) (rv_co t))"
  using async_inv_awaiter [of c s a t] async_inv_coroutine [of c s a t] async_inv_body [of c s _ t]
  by (cases a) auto

interpretation async_sys: invariant_system async_init "act_step (async_exec c)" "async_inv c" for c
proof unfold_locales
  show "async_init s \<Longrightarrow> async_inv c s" for s
    by (simp add: async_init_def async_start_def async_inv_def promise_new_def async_tables promise_holds_def)
  show "async_inv c s \<Longrightarrow> act_step (async_exec c) s t \<Longrightarrow> async_inv c t" for s t
    by (auto dest: async_inv_exec)
qed

lemma async_cost_run:
  "run_acts (async_exec c) as s = Some t \<Longrightarrow> async_inv c s \<Longrightarrow>
   async_cost (rv_aw s) (rv_co s) = length as + async_cost (rv_aw t) (rv_co t)"
proof (induction as arbitrary: s)
  case (Cons a as)
  then obtain u where u: "async_exec c a s = Some u" "run_acts (async_exec c) as u = Some t"
    by (auto split: option.splits)
  with Cons.IH [OF u(2)] async_inv_exec [OF Cons.prems(2) u(1)] show ?case by simp
qed simp

lemma async_run_inv: "run_acts (async_exec c) as async_start = Some s \<Longrightarrow> async_inv c s"
  by (rule async_sys.reach_inv) (erule run_acts_reach, rule reach_init, simp add: async_init_def)

text \<open>What a state with no enabled action looks like.\<close>

lemma async_stuck:
  assumes "async_inv c s" "\<And>a. async_exec c a s = None"
  shows "rv_co s = Co_done \<and> rv_aw s \<in> {Aw_suspended, Aw_done}"
  using assms(1) assms(2) [of Resume_coroutine] assms(2) [of Store_continuation] assms(2) [of Exchange_awaiter]
    assms(2) [of Continue_inline] assms(2) [of "Body_end (Inl Other_exn)"] assms(2) [of Exchange_final]
    assms(2) [of Resume_continuation]
  by (cases "rv_aw s"; cases "rv_co s") (simp_all add: async_inv_def)

lemma promise_holds_result:
  "promise_holds (Some r) p \<Longrightarrow> promise_result p = Some r"
  by (cases r) (simp_all add: promise_holds_def promise_result_def)

lemma async_log_done: "async_log c aw co \<noteq> [] \<Longrightarrow> async_shape aw co \<Longrightarrow> co = Co_done"
  by (auto simp: async_log_def split: if_splits)

section \<open>Properties of async\<close>

text \<open>
  C13: the awaiter of an \<open>async\<close> is continued at most once. In every interleaving of the awaiter and
  the coroutine completing on another thread, the awaiter is continued inline or by the finished
  coroutine (with the continuation it stored) but never both, and when it is, \<open>result()\<close> gives the
  value or the exception the body ended with.
\<close>

theorem async_exactly_once:
  assumes "reach async_init (act_step (async_exec c)) s"
  shows "rv_log s \<in> {[], [Inline], [Resumed (continuation_resume c)]} \<and>
         (rv_log s \<noteq> [] \<longrightarrow> promise_result (rv_promise s) = rv_body s \<and> rv_body s \<noteq> None)"
proof -
  from assms have inv: "async_inv c s" by (rule async_sys.reach_inv)
  then have "rv_log s \<in> {[], [Inline], [Resumed (continuation_resume c)]}"
    by (simp add: async_inv_def async_log_def)
  moreover have "rv_log s \<noteq> [] \<Longrightarrow> \<exists>r. rv_body s = Some r" 
    using inv async_log_done [of c "rv_aw s" "rv_co s"] by (auto simp: async_inv_def)
  ultimately show ?thesis using inv promise_holds_result by (fastforce simp: async_inv_def)
qed

lemma async_exactly_once_witness:
  "\<exists>s. run_acts (async_exec (continuation_of_coroutine 7))
         [Resume_coroutine, Store_continuation, Exchange_awaiter, Body_end (Inr (5::nat)), Exchange_final, Resume_continuation]
         async_start = Some s \<and> rv_log s = [Resumed (Coroutine 7)] \<and> promise_result (rv_promise s) = Some (Inr 5)"
proof -
  let ?as = "[Resume_coroutine, Store_continuation, Exchange_awaiter, Body_end (Inr (5::nat)), Exchange_final, Resume_continuation]"
  obtain s where s: "run_acts (async_exec (continuation_of_coroutine 7)) ?as async_start = Some s"
    and l: "rv_log s \<noteq> []" "rv_body s = Some (Inr 5)" "rv_log s = [Resumed (Coroutine 7)]"
    by (simp add: async_start_def async_defs promise_new_def continuation_of_coroutine_def continuation_resume_def)
  from s have "reach async_init (act_step (async_exec (continuation_of_coroutine 7))) s"
    by (rule run_acts_reach) (simp add: reach_init async_init_def)
  from async_exactly_once [OF this] l s show ?thesis by auto
qed

text \<open>
  C14: the awaiter of an \<open>async\<close> is continued. A run of the rendezvous has at most six steps, and one
  that cannot go on has continued the awaiter exactly once after the body ended: no interleaving
  of the two exchanges loses the wake-up.
\<close>

theorem async_always_continues:
  assumes "run_acts (async_exec c) as async_start = Some s"
  shows "length as \<le> 6 \<and>
         ((\<forall>a. async_exec c a s = None) \<longrightarrow> length as = 6 \<and> length (rv_log s) = 1 \<and> rv_body s \<noteq> None)"
proof -
  have inv: "async_inv c s" by (rule async_run_inv [OF assms])
  have "async_inv c async_start" by (rule async_sys.inv_init) (simp add: async_init_def)
  from async_cost_run [OF assms this] have len: "6 = length as + async_cost (rv_aw s) (rv_co s)"
    by (simp add: async_start_def async_cost_def)
  {
    assume "\<forall>a. async_exec c a s = None"
    then have "rv_co s = Co_done \<and> rv_aw s \<in> {Aw_suspended, Aw_done}"
      using async_stuck [OF inv] by blast
    then have "async_cost (rv_aw s) (rv_co s) = 0" "length (rv_log s) = 1" "rv_body s \<noteq> None"
      using inv by (auto simp: async_inv_def async_tables)
  }
  with len show ?thesis by auto
qed

lemma async_always_continues_witness:
  "length (rv_log (the (run_acts (async_exec (continuation_of_coroutine 7))
     [Resume_coroutine, Body_end (Inl Other_exn), Exchange_final, Store_continuation, Exchange_awaiter, Continue_inline]
     (async_start :: nat rendezvous)))) = 1"
proof -
  let ?as = "[Resume_coroutine, Body_end (Inl Other_exn), Exchange_final, Store_continuation, Exchange_awaiter, Continue_inline]"
  obtain s :: "nat rendezvous" where s: "run_acts (async_exec (continuation_of_coroutine 7)) ?as async_start = Some s"
    and l: "rv_co s = Co_done" "rv_aw s = Aw_done"
    by (simp add: async_start_def async_defs promise_new_def)
  have "async_exec (continuation_of_coroutine 7) a s = None" for a
    using l by (cases a) auto
  with async_always_continues [OF s] s show ?thesis by simp
qed

lemma promise_holds_dtor:
  "promise_holds body p \<Longrightarrow> promise_dtor p =
     (if pr_state p then case body of None \<Rightarrow> Some None | Some (Inl e) \<Rightarrow> None | Some (Inr v) \<Rightarrow> Some (Some v) else None)"
  by (auto simp: promise_holds_def promise_dtor_def split: option.splits sum.splits)

text \<open>
  The destructor of the promise. Once the coroutine is done it destroys the value exactly when
  the body returned one; it runs \<open>~T\<close> on storage without an object (\<open>Some None\<close>) exactly when an
  awaiter has suspended and the body is still running, where \<open>completed()\<close> is already true.
\<close>

lemma promise_dtor_cases:
  assumes "reach async_init (act_step (async_exec c)) s"
  shows "(rv_co s = Co_done \<longrightarrow>
           promise_dtor (rv_promise s) = (case rv_body s of Some (Inr v) \<Rightarrow> Some (Some v) | _ \<Rightarrow> None)) \<and>
         (promise_dtor (rv_promise s) = Some None \<longleftrightarrow> rv_aw s = Aw_suspended \<and> rv_co s = Co_running)"
proof -
  from assms have inv: "async_inv c s" by (rule async_sys.reach_inv)
  then have d: "promise_dtor (rv_promise s) = (if async_flag (rv_aw s) (rv_co s) then case rv_body s of None \<Rightarrow> Some None
      | Some (Inl e) \<Rightarrow> None | Some (Inr v) \<Rightarrow> Some (Some v) else None)"
    and b: "rv_body s = None \<longleftrightarrow> rv_co s \<in> {Co_initial, Co_running}"
    and sh: "async_shape (rv_aw s) (rv_co s)"
    by (auto simp: async_inv_def promise_holds_dtor)
  have "rv_co s = Co_done \<Longrightarrow> rv_body s \<noteq> None" using b by simp
  moreover have "async_flag (rv_aw s) (rv_co s) \<and> rv_co s \<in> {Co_initial, Co_running} \<longleftrightarrow>
      rv_aw s = Aw_suspended \<and> rv_co s = Co_running"
    using sh by (cases "rv_aw s") (auto simp: async_flag_def)
  ultimately show ?thesis using b unfolding d
    by (auto simp: async_flag_def split: option.splits sum.splits)
qed

lemma promise_dtor_cases_witness:
  "\<exists>s. run_acts (async_exec (continuation_of_coroutine 7))
         [Resume_coroutine, Store_continuation, Exchange_awaiter] (async_start :: nat rendezvous) = Some s \<and>
       promise_dtor (rv_promise s) = Some None"
proof -
  let ?as = "[Resume_coroutine, Store_continuation, Exchange_awaiter] :: nat async_act list"
  obtain s where s: "run_acts (async_exec (continuation_of_coroutine 7)) ?as async_start = Some s"
    and l: "rv_aw s = Aw_suspended" "rv_co s = Co_running"
    by (simp add: async_start_def async_defs promise_new_def)
  from s have "reach async_init (act_step (async_exec (continuation_of_coroutine 7))) s"
    by (rule run_acts_reach) (simp add: reach_init async_init_def)
  from promise_dtor_cases [OF this] l s show ?thesis by auto
qed

section \<open>Properties of the ownership\<close>

text \<open>
  C18: coroutine frames are destroyed exactly once. Whatever sequence of constructions, move
  constructions, move assignments and destructions of \<open>async\<close> objects runs (self-assignment
  included), every frame is held by one live object or has been destroyed once; the same for \<open>generator\<close>.
\<close>

theorem frames_exactly_once:
  assumes "run_acts (own_step frame_make frame_move_ctor (Some async_move_assign) frame_dtor) cs ([], s0) = Some (live, s)"
    and "run_acts (own_step frame_make frame_move_ctor (Some generator_move_assign) frame_dtor) gs ([], s0) = Some (glive, g)"
    and "fr_destroyed s0 = []"
  shows "owned 0 (fr_coroutine s) live + mset (fr_destroyed s) = acquired 0 cs \<and>
         owned 0 (fr_coroutine g) glive + mset (fr_destroyed g) = acquired 0 gs"
  using async.run_exactly_once [OF assms(1,3)] generator.run_exactly_once [OF assms(2,3)] ..

lemma frames_exactly_once_witness:
  "\<exists>live s. run_acts (own_step frame_make frame_move_ctor (Some async_move_assign) frame_dtor)
      [Make 1 7, Make 2 8, Move_assign 2 1, Move_assign 2 2, Destroy 2, Destroy 1]
      ([], \<lparr>fr_coroutine = \<lambda>_. 0, fr_destroyed = []\<rparr>) = Some (live, s)
    \<and> fr_destroyed s = [8, 7] \<and> owned 0 (fr_coroutine s) live + mset (fr_destroyed s) = {#7, 8#}"
proof -
  let ?cs = "[Make 1 7, Make 2 8, Move_assign 2 1, Move_assign 2 2, Destroy 2, Destroy 1] :: nat own_cmd list"
  let ?s0 = "\<lparr>fr_coroutine = \<lambda>_. 0, fr_destroyed = []\<rparr>"
  obtain live s where r: "run_acts (own_step frame_make frame_move_ctor (Some async_move_assign) frame_dtor) ?cs ([], ?s0) = Some (live, s)"
    and c: "fr_destroyed s = [8, 7]"
    by (simp add: frame_defs)
  obtain gl g where g: "run_acts (own_step frame_make frame_move_ctor (Some generator_move_assign) frame_dtor) ?cs ([], ?s0) = Some (gl, g)"
    by (simp add: frame_defs)
  from frames_exactly_once [OF r g] r c show ?thesis by auto
qed

end
