(* ===== verification/Ice_Async_Gen.thy ===== *)
theory Ice_Async_Gen
  imports Ice_Async
begin

text \<open>
  \<open>async_generator<T>\<close> of include/ice/async.h: a producer coroutine and a consumer that may run on different threads and hand
  over values through one atomic state. Producer and consumer are two agents; a position says between which two accesses to the state
  an agent stands, with its local variables, and one action is one access, or one resumption of the other coroutine. After resuming the
  other coroutine an agent goes on concurrently with it, which covers every point at which the nested call may return, because a
  resumed coroutine may suspend elsewhere and continue on another thread. A failed assertion, or resuming a coroutine that is
  not suspended, leads to \<open>C_error\<close> or \<open>P_error\<close>.

  The consumer does not advance past the end. What the producer's body does is an input: it yields values and ends, by
  returning or with an exception.
\<close>

section \<open>The machine\<close>

datatype ag_state = Not_ready_active | Not_ready_suspended | Ready_active | Ready_suspended | Cancelled

text \<open>
  The consumer: outside the operations; in the constructor of the advance operation (before the store, the resumption and the second
  load); with \<open>m_initialState\<close>; in \<open>await_suspend\<close>; suspended; in \<open>await_resume\<close>; after the generator's destructor.
\<close>

datatype ag_cpc =
    C_use
  | C_adv_store | C_adv_resume | C_adv_reload
  | C_op ag_state
  | C_cas1 | C_store1 | C_resume1 | C_reload1 | C_cas2
  | C_suspended
  | C_result
  | C_gone
  | C_error

text \<open>
  The producer: not started; in its body; in \<open>internal_yield_value\<close>, with whether this is the final suspend point; with the yield
  operation's \<open>m_initialState\<close>; in its \<open>await_suspend\<close>; suspended; its frame destroyed; run off its end.
\<close>

datatype ag_ppc =
    P_initial
  | P_body
  | P_load bool | P_store bool | P_wake bool | P_reload bool
  | P_op bool ag_state
  | P_cas1 bool | P_store2 bool | P_wake2 bool | P_reload2 bool | P_cas2 bool
  | P_suspended bool
  | P_destroyed
  | P_off_end
  | P_error

text \<open>
  The promise (\<open>m_state\<close>, whether \<open>m_consumerCoroutine\<close> is set, \<open>m_exception\<close>, what \<open>m_currentValue\<close> points to), the positions, and the
  history: the values yielded, the values the consumer got, how the body ended, what the consumer was told, the number of times the
  frame was destroyed.
\<close>

record 'v async_gen =
  ag_st :: ag_state
  ag_consumer :: bool
  ag_exception :: "cxx_exn option"
  ag_current :: "'v option"
  ag_c :: ag_cpc
  ag_p :: ag_ppc
  ag_yielded :: "'v list"
  ag_seen :: "'v list"
  ag_outcome :: "cxx_exn option option"
  ag_ended :: "cxx_exn option option"
  ag_destroyed :: nat

definition async_gen_start :: "'v async_gen" where
  "async_gen_start =
     \<lparr>ag_st = Ready_suspended, ag_consumer = False, ag_exception = None, ag_current = None, ag_c = C_use, ag_p = P_initial,
      ag_yielded = [], ag_seen = [], ag_outcome = None, ag_ended = None, ag_destroyed = 0\<rparr>"

section \<open>The consumer\<close>

text \<open>The first load of the advance operation's constructor.\<close>

definition advance_begin :: "'v async_gen \<Rightarrow> 'v async_gen" where
  "advance_begin s = s\<lparr>ag_c := (if ag_st s = Ready_suspended then C_adv_store else C_op (ag_st s))\<rparr>"

definition resume_producer :: "ag_cpc \<Rightarrow> 'v async_gen \<Rightarrow> 'v async_gen" where
  "resume_producer next s =
     (if ag_p s \<in> {P_initial, P_suspended False} then s\<lparr>ag_c := next, ag_p := P_body\<rparr> else s\<lparr>ag_c := C_error\<rparr>)"

text \<open>\<open>await_ready\<close>, and the beginning of \<open>await_suspend\<close>.\<close>

definition advance_ready :: "ag_state \<Rightarrow> 'v async_gen \<Rightarrow> 'v async_gen" where
  "advance_ready initial s =
     (if initial = Ready_suspended then s\<lparr>ag_c := C_result\<rparr>
      else s\<lparr>ag_consumer := True,
             ag_c := (if initial = Ready_active then C_cas1 else if initial = Not_ready_active then C_cas2 else C_error)\<rparr>)"

definition advance_cas1 :: "'v async_gen \<Rightarrow> 'v async_gen" where
  "advance_cas1 s =
     (if ag_st s = Ready_active then s\<lparr>ag_st := Not_ready_suspended, ag_c := C_suspended\<rparr>
      else s\<lparr>ag_c := (if ag_st s = Ready_suspended then C_store1 else C_error)\<rparr>)"

definition advance_reload1 :: "'v async_gen \<Rightarrow> 'v async_gen" where
  "advance_reload1 s =
     s\<lparr>ag_c := (if ag_st s = Ready_suspended then C_result else if ag_st s = Not_ready_active then C_cas2 else C_error)\<rparr>"

definition advance_cas2 :: "'v async_gen \<Rightarrow> 'v async_gen" where
  "advance_cas2 s =
     (if ag_st s = Not_ready_active then s\<lparr>ag_st := Not_ready_suspended, ag_c := C_suspended\<rparr> else s\<lparr>ag_c := C_result\<rparr>)"

text \<open>\<open>await_resume\<close> of the begin and increment operations: the end, with the exception if there is one, or a value.\<close>

definition advance_result :: "'v async_gen \<Rightarrow> 'v async_gen" where
  "advance_result s =
     (case ag_current s of
        None \<Rightarrow> s\<lparr>ag_c := C_use, ag_ended := Some (ag_exception s)\<rparr>
      | Some v \<Rightarrow> s\<lparr>ag_c := C_use, ag_seen := ag_seen s @ [v]\<rparr>)"

fun consumer_step :: "'v async_gen \<Rightarrow> 'v async_gen option" where
  "consumer_step s =
     (case ag_c s of
        C_adv_store \<Rightarrow> Some (s\<lparr>ag_st := Not_ready_active, ag_c := C_adv_resume\<rparr>)
      | C_adv_resume \<Rightarrow> Some (resume_producer C_adv_reload s)
      | C_adv_reload \<Rightarrow> Some (s\<lparr>ag_c := C_op (ag_st s)\<rparr>)
      | C_op initial \<Rightarrow> Some (advance_ready initial s)
      | C_cas1 \<Rightarrow> Some (advance_cas1 s)
      | C_store1 \<Rightarrow> Some (s\<lparr>ag_st := Not_ready_active, ag_c := C_resume1\<rparr>)
      | C_resume1 \<Rightarrow> Some (resume_producer C_reload1 s)
      | C_reload1 \<Rightarrow> Some (advance_reload1 s)
      | C_cas2 \<Rightarrow> Some (advance_cas2 s)
      | C_result \<Rightarrow> Some (advance_result s)
      | _ \<Rightarrow> None)"

text \<open>The destructor of the generator: \<open>request_cancellation\<close> and, if the producer is suspended, \<open>destroy\<close>.\<close>

definition generator_destroy :: "'v async_gen \<Rightarrow> 'v async_gen" where
  "generator_destroy s =
     (let s1 = s\<lparr>ag_st := Cancelled\<rparr> in
      if ag_st s = Not_ready_suspended \<or> ag_st s = Cancelled then s1\<lparr>ag_c := C_error\<rparr>
      else if ag_st s = Ready_suspended then s1\<lparr>ag_c := C_gone, ag_p := P_destroyed, ag_destroyed := ag_destroyed s + 1\<rparr>
      else s1\<lparr>ag_c := C_gone\<rparr>)"

section \<open>The producer\<close>

definition yield_value :: "'v \<Rightarrow> 'v async_gen \<Rightarrow> 'v async_gen" where
  "yield_value v s = s\<lparr>ag_current := Some v, ag_yielded := ag_yielded s @ [v], ag_p := P_load False\<rparr>"

text \<open>\<open>return_void\<close> or \<open>unhandled_exception\<close>, then \<open>final_suspend\<close>.\<close>

definition body_finish :: "cxx_exn option \<Rightarrow> 'v async_gen \<Rightarrow> 'v async_gen" where
  "body_finish x s =
     s\<lparr>ag_exception := (case x of None \<Rightarrow> ag_exception s | Some e \<Rightarrow> if ag_st s \<noteq> Cancelled then Some e else ag_exception s),
       ag_outcome := Some x, ag_current := None, ag_p := P_load True\<rparr>"

definition internal_yield :: "bool \<Rightarrow> 'v async_gen \<Rightarrow> 'v async_gen" where
  "internal_yield final s =
     s\<lparr>ag_p := (if ag_st s = Ready_active \<or> ag_st s = Ready_suspended then P_error
                else if ag_st s = Not_ready_suspended then P_store final else P_op final (ag_st s))\<rparr>"

definition resume_consumer :: "ag_ppc \<Rightarrow> 'v async_gen \<Rightarrow> 'v async_gen" where
  "resume_consumer next s =
     (if ag_consumer s \<and> ag_c s = C_suspended then s\<lparr>ag_c := C_result, ag_p := next\<rparr> else s\<lparr>ag_p := P_error\<rparr>)"

text \<open>The producer goes on without suspending; after the final suspend point that is running off the end.\<close>

definition continue_body :: "bool \<Rightarrow> ag_ppc" where
  "continue_body final = (if final then P_off_end else P_body)"

text \<open>\<open>assert(currentState == cancelled)\<close> and \<open>producer.destroy()\<close>.\<close>

definition yield_cancelled :: "ag_state \<Rightarrow> 'v async_gen \<Rightarrow> 'v async_gen" where
  "yield_cancelled current s =
     (if current = Cancelled then s\<lparr>ag_p := P_destroyed, ag_destroyed := ag_destroyed s + 1\<rparr> else s\<lparr>ag_p := P_error\<rparr>)"

definition yield_rest :: "bool \<Rightarrow> ag_state \<Rightarrow> 'v async_gen \<Rightarrow> 'v async_gen" where
  "yield_rest final current s = (if current = Ready_active then s\<lparr>ag_p := P_cas2 final\<rparr> else yield_cancelled current s)"

definition yield_ready :: "bool \<Rightarrow> ag_state \<Rightarrow> 'v async_gen \<Rightarrow> 'v async_gen" where
  "yield_ready final initial s =
     (if initial = Not_ready_suspended then s\<lparr>ag_p := continue_body final\<rparr>
      else if initial = Not_ready_active then s\<lparr>ag_p := P_cas1 final\<rparr>
      else yield_rest final initial s)"

definition yield_cas1 :: "bool \<Rightarrow> 'v async_gen \<Rightarrow> 'v async_gen" where
  "yield_cas1 final s =
     (if ag_st s = Not_ready_active then s\<lparr>ag_st := Ready_suspended, ag_p := P_suspended final\<rparr>
      else if ag_st s = Not_ready_suspended then s\<lparr>ag_p := P_store2 final\<rparr>
      else yield_rest final (ag_st s) s)"

definition yield_reload2 :: "bool \<Rightarrow> 'v async_gen \<Rightarrow> 'v async_gen" where
  "yield_reload2 final s =
     (if ag_st s = Not_ready_suspended then s\<lparr>ag_p := continue_body final\<rparr> else yield_rest final (ag_st s) s)"

definition yield_cas2 :: "bool \<Rightarrow> 'v async_gen \<Rightarrow> 'v async_gen" where
  "yield_cas2 final s =
     (if ag_st s = Ready_active then s\<lparr>ag_st := Ready_suspended, ag_p := P_suspended final\<rparr>
      else if ag_st s = Not_ready_suspended then s\<lparr>ag_p := continue_body final\<rparr>
      else yield_cancelled (ag_st s) s)"

fun producer_step :: "'v async_gen \<Rightarrow> 'v async_gen option" where
  "producer_step s =
     (case ag_p s of
        P_load final \<Rightarrow> Some (internal_yield final s)
      | P_store final \<Rightarrow> Some (s\<lparr>ag_st := Ready_active, ag_p := P_wake final\<rparr>)
      | P_wake final \<Rightarrow> Some (resume_consumer (P_reload final) s)
      | P_reload final \<Rightarrow> Some (s\<lparr>ag_p := P_op final (ag_st s)\<rparr>)
      | P_op final initial \<Rightarrow> Some (yield_ready final initial s)
      | P_cas1 final \<Rightarrow> Some (yield_cas1 final s)
      | P_store2 final \<Rightarrow> Some (s\<lparr>ag_st := Ready_active, ag_p := P_wake2 final\<rparr>)
      | P_wake2 final \<Rightarrow> Some (resume_consumer (P_reload2 final) s)
      | P_reload2 final \<Rightarrow> Some (yield_reload2 final s)
      | P_cas2 final \<Rightarrow> Some (yield_cas2 final s)
      | _ \<Rightarrow> None)"

text \<open>
  The actions. The consumer starts an operation or destroys the generator only outside the operations, and does not advance past the
  end; the producer's body yields or ends only while it runs.
\<close>

datatype 'v ag_act = Advance | Consumer | Destroy_generator | Yield_value 'v | Finish "cxx_exn option" | Producer

fun async_gen_exec :: "'v ag_act \<Rightarrow> 'v async_gen \<Rightarrow> 'v async_gen option" where
  "async_gen_exec Advance s = (if ag_c s = C_use \<and> ag_ended s = None then Some (advance_begin s) else None)"
| "async_gen_exec Consumer s = consumer_step s"
| "async_gen_exec Destroy_generator s = (if ag_c s = C_use then Some (generator_destroy s) else None)"
| "async_gen_exec (Yield_value v) s = (if ag_p s = P_body then Some (yield_value v s) else None)"
| "async_gen_exec (Finish x) s = (if ag_p s = P_body then Some (body_finish x s) else None)"
| "async_gen_exec Producer s = producer_step s"

declare consumer_step.simps [simp del] producer_step.simps [simp del]

section \<open>The invariant\<close>

text \<open>
  The positions after a value (or the end) was published and the consumer has to be told: before the wake-up, and after it.
\<close>

fun published :: "ag_ppc \<Rightarrow> bool" where
  "published (P_load f) = True"
| "published (P_op f i) = (i = Not_ready_active)"
| "published (P_cas1 f) = True"
| "published _ = False"

fun handing :: "ag_ppc \<Rightarrow> bool" where
  "handing (P_store f) = True"
| "handing (P_store2 f) = True"
| "handing p = published p"

fun waking :: "ag_ppc \<Rightarrow> bool" where
  "waking (P_wake f) = True"
| "waking (P_wake2 f) = True"
| "waking _ = False"

fun woken :: "ag_ppc \<Rightarrow> bool" where
  "woken (P_reload f) = True"
| "woken (P_reload2 f) = True"
| "woken (P_cas2 f) = True"
| "woken (P_op f i) = (i = Ready_active)"
| "woken _ = False"

fun final_point :: "ag_ppc \<Rightarrow> bool" where
  "final_point (P_load f) = f"
| "final_point (P_store f) = f"
| "final_point (P_wake f) = f"
| "final_point (P_reload f) = f"
| "final_point (P_op f i) = f"
| "final_point (P_cas1 f) = f"
| "final_point (P_store2 f) = f"
| "final_point (P_wake2 f) = f"
| "final_point (P_reload2 f) = f"
| "final_point (P_cas2 f) = f"
| "final_point (P_suspended f) = f"
| "final_point _ = False"

text \<open>The pairs of positions that occur, with the state.\<close>

fun ag_shape :: "ag_cpc \<Rightarrow> ag_ppc \<Rightarrow> ag_state \<Rightarrow> bool" where
  "ag_shape C_use p st \<longleftrightarrow>
     (woken p \<and> st = Ready_active) \<or> ((p = P_initial \<or> (\<exists>f. p = P_suspended f)) \<and> st = Ready_suspended)"
| "ag_shape C_adv_store p st \<longleftrightarrow> (p = P_initial \<or> p = P_suspended False) \<and> st = Ready_suspended"
| "ag_shape C_adv_resume p st \<longleftrightarrow> (p = P_initial \<or> p = P_suspended False) \<and> st = Not_ready_active"
| "ag_shape C_store1 p st \<longleftrightarrow> p = P_suspended False \<and> st = Ready_suspended"
| "ag_shape C_resume1 p st \<longleftrightarrow> p = P_suspended False \<and> st = Not_ready_active"
| "ag_shape (C_op i) p st \<longleftrightarrow>
     (i = Not_ready_active \<and>
        ((p = P_body \<or> published p) \<and> st = Not_ready_active \<or> (\<exists>f. p = P_suspended f) \<and> st = Ready_suspended)) \<or>
     (i = Ready_active \<and> \<not> final_point p \<and> (woken p \<and> st = Ready_active \<or> (\<exists>f. p = P_suspended f) \<and> st = Ready_suspended)) \<or>
     (i = Ready_suspended \<and> (\<exists>f. p = P_suspended f) \<and> st = Ready_suspended)"
| "ag_shape C_cas1 p st \<longleftrightarrow> \<not> final_point p \<and> (woken p \<and> st = Ready_active \<or> p = P_suspended False \<and> st = Ready_suspended)"
| "ag_shape C_adv_reload p st \<longleftrightarrow>
     (p = P_body \<or> published p) \<and> st = Not_ready_active \<or> (\<exists>f. p = P_suspended f) \<and> st = Ready_suspended"
| "ag_shape C_reload1 p st \<longleftrightarrow>
     (p = P_body \<or> published p) \<and> st = Not_ready_active \<or> (\<exists>f. p = P_suspended f) \<and> st = Ready_suspended"
| "ag_shape C_cas2 p st \<longleftrightarrow>
     (p = P_body \<or> published p) \<and> st = Not_ready_active \<or> (\<exists>f. p = P_suspended f) \<and> st = Ready_suspended"
| "ag_shape C_suspended p st \<longleftrightarrow>
     (p = P_body \<or> handing p \<or> p = P_op False Not_ready_suspended \<or> \<not> final_point p \<and> woken p) \<and> st = Not_ready_suspended \<or>
     waking p \<and> st = Ready_active"
| "ag_shape C_result p st \<longleftrightarrow> woken p \<and> st = Ready_active \<or> (\<exists>f. p = P_suspended f) \<and> st = Ready_suspended"
| "ag_shape C_gone p st \<longleftrightarrow> (woken p \<or> (\<exists>f. p = P_op f Cancelled) \<or> p = P_destroyed) \<and> st = Cancelled"
| "ag_shape C_error p st \<longleftrightarrow> False"

text \<open>Whether what was published last has not been taken by the consumer yet.\<close>

fun ag_fresh :: "ag_cpc \<Rightarrow> ag_ppc \<Rightarrow> bool" where
  "ag_fresh C_result p = True"
| "ag_fresh (C_op i) p = (i = Ready_suspended \<or> i = Not_ready_active \<and> p \<noteq> P_body)"
| "ag_fresh C_adv_reload p = (p \<noteq> P_body)"
| "ag_fresh C_reload1 p = (p \<noteq> P_body)"
| "ag_fresh C_cas2 p = (p \<noteq> P_body)"
| "ag_fresh C_suspended p = (handing p \<or> waking p)"
| "ag_fresh _ p = False"

fun has_consumer :: "ag_cpc \<Rightarrow> bool" where
  "has_consumer C_cas1 = True"
| "has_consumer C_store1 = True"
| "has_consumer C_resume1 = True"
| "has_consumer C_reload1 = True"
| "has_consumer C_cas2 = True"
| "has_consumer C_suspended = True"
| "has_consumer _ = False"

definition ag_data :: "'v async_gen \<Rightarrow> bool" where
  "ag_data s \<longleftrightarrow>
     (if ag_fresh (ag_c s) (ag_p s)
      then ag_ended s = None \<and>
        (if final_point (ag_p s) then ag_yielded s = ag_seen s \<and> ag_current s = None
         else \<exists>v. ag_yielded s = ag_seen s @ [v] \<and> ag_current s = Some v)
      else ag_yielded s = ag_seen s \<and>
        (case ag_ended s of
           None \<Rightarrow> ag_seen s \<noteq> [] \<longrightarrow> ag_current s = Some (last (ag_seen s))
         | Some r \<Rightarrow> ag_current s = None \<and> ag_outcome s = Some r \<and> ag_c s \<in> {C_use, C_gone}))"

definition ag_inv :: "'v async_gen \<Rightarrow> bool" where
  "ag_inv s \<longleftrightarrow>
     ag_shape (ag_c s) (ag_p s) (ag_st s) \<and> ag_data s \<and>
     (ag_p s \<noteq> P_destroyed \<longrightarrow> (ag_outcome s \<noteq> None \<longleftrightarrow> final_point (ag_p s))) \<and>
     (case ag_outcome s of None \<Rightarrow> ag_exception s = None | Some x \<Rightarrow> ag_exception s = x) \<and>
     (has_consumer (ag_c s) \<longrightarrow> ag_consumer s) \<and>
     (ag_c s = C_use \<and> ag_p s \<noteq> P_initial \<longrightarrow> (ag_ended s \<noteq> None \<longleftrightarrow> final_point (ag_p s))) \<and>
     (ag_p s = P_initial \<longrightarrow> ag_seen s = [] \<and> ag_ended s = None) \<and>
     ag_destroyed s = (if ag_p s = P_destroyed then 1 else 0)"

lemma ag_inv_start: "ag_inv async_gen_start"
  by (simp add: ag_inv_def ag_data_def async_gen_start_def)

lemmas ag_consumer_defs = consumer_step.simps advance_begin_def resume_producer_def advance_ready_def advance_cas1_def
  advance_reload1_def advance_cas2_def advance_result_def generator_destroy_def

lemmas ag_producer_defs = producer_step.simps yield_value_def body_finish_def internal_yield_def resume_consumer_def
  continue_body_def yield_cancelled_def yield_rest_def yield_ready_def yield_cas1_def yield_reload2_def yield_cas2_def

text \<open>A step that changes only positions and the state, and publishes or takes nothing.\<close>

definition same_data :: "'v async_gen \<Rightarrow> 'v async_gen \<Rightarrow> bool" where
  "same_data s t \<longleftrightarrow>
     ag_yielded t = ag_yielded s \<and> ag_seen t = ag_seen s \<and> ag_current t = ag_current s \<and>
     ag_exception t = ag_exception s \<and> ag_outcome t = ag_outcome s \<and> ag_ended t = ag_ended s \<and>
     ag_destroyed t = ag_destroyed s"

lemma ag_inv_move:
  assumes inv: "ag_inv s" and data: "same_data s t" and shape: "ag_shape (ag_c t) (ag_p t) (ag_st t)"
    and fresh: "ag_fresh (ag_c t) (ag_p t) = ag_fresh (ag_c s) (ag_p s)" and final: "final_point (ag_p t) = final_point (ag_p s)"
    and p: "ag_p s \<noteq> P_destroyed" "ag_p t \<noteq> P_destroyed" "ag_p t = P_initial \<Longrightarrow> ag_p s = P_initial"
    and consumer: "has_consumer (ag_c t) \<Longrightarrow> ag_consumer t"
    and c: "ag_c t = ag_c s \<and> (ag_p s = P_initial \<longrightarrow> ag_p t = P_initial) \<or> ag_c t \<noteq> C_use \<and> (ag_c s \<in> {C_use, C_gone} \<longrightarrow> ag_ended s = None)"
  shows "ag_inv t"
proof -
  have s: "ag_data s" "ag_outcome s \<noteq> None \<longleftrightarrow> final_point (ag_p s)"
    "case ag_outcome s of None \<Rightarrow> ag_exception s = None | Some x \<Rightarrow> ag_exception s = x"
    "ag_c s = C_use \<and> ag_p s \<noteq> P_initial \<longrightarrow> (ag_ended s \<noteq> None \<longleftrightarrow> final_point (ag_p s))"
    "ag_p s = P_initial \<longrightarrow> ag_seen s = [] \<and> ag_ended s = None" "ag_destroyed s = 0"
    using inv p by (simp_all add: ag_inv_def)
  have d: "ag_yielded t = ag_yielded s" "ag_seen t = ag_seen s" "ag_current t = ag_current s" "ag_exception t = ag_exception s"
    "ag_outcome t = ag_outcome s" "ag_ended t = ag_ended s" "ag_destroyed t = ag_destroyed s"
    using data by (simp_all add: same_data_def)
  have "ag_c t \<in> {C_use, C_gone}" if "ag_ended s = Some r" "\<not> ag_fresh (ag_c s) (ag_p s)" for r
    using s(1) that c by (auto simp: ag_data_def)
  then have "ag_data t"
    using s(1) by (simp add: ag_data_def d fresh final split: option.splits if_splits)
  moreover have "ag_c t = C_use \<and> ag_p t \<noteq> P_initial \<longrightarrow> (ag_ended t \<noteq> None \<longleftrightarrow> final_point (ag_p t))"
    using s(4) c p(3) by (auto simp: d final)
  moreover have "case ag_outcome t of None \<Rightarrow> ag_exception t = None | Some x \<Rightarrow> ag_exception t = x"
    using s(3) unfolding d .
  ultimately show ?thesis
    using s consumer p shape by (simp add: ag_inv_def d(1-3,5-7) final)
qed

lemma ag_inv_shape: "ag_inv s \<Longrightarrow> ag_shape (ag_c s) (ag_p s) (ag_st s)"
  by (simp add: ag_inv_def)

lemma ag_inv_has: "ag_inv s \<Longrightarrow> has_consumer (ag_c s) \<Longrightarrow> ag_consumer s"
  by (simp add: ag_inv_def)

lemma published_cases: "published p \<Longrightarrow> p \<noteq> P_body \<and> p \<noteq> P_destroyed \<and> p \<noteq> P_initial \<and> (\<forall>f. p \<noteq> P_suspended f)"
  "woken p \<Longrightarrow> p \<noteq> P_body \<and> p \<noteq> P_destroyed \<and> p \<noteq> P_initial \<and> (\<forall>f. p \<noteq> P_suspended f) \<and> \<not> handing p \<and> \<not> waking p"
  "handing p \<Longrightarrow> p \<noteq> P_body \<and> p \<noteq> P_destroyed \<and> p \<noteq> P_initial \<and> (\<forall>f. p \<noteq> P_suspended f)"
  "published p \<Longrightarrow> handing p"
  "handing p \<Longrightarrow> \<not> waking p \<and> \<not> woken p"
  by (cases p; auto)+

lemma ag_inv_consumer:
  assumes "ag_inv s" "consumer_step s = Some t"
  shows "ag_inv t"
proof (cases "ag_c s = C_result")
  case True
  have sh: "ag_shape C_result (ag_p s) (ag_st s)" using ag_inv_shape [OF assms(1)] True by simp
  have d: "ag_ended s = None" "final_point (ag_p s) \<Longrightarrow> ag_yielded s = ag_seen s \<and> ag_current s = None"
    "\<not> final_point (ag_p s) \<Longrightarrow> \<exists>v. ag_yielded s = ag_seen s @ [v] \<and> ag_current s = Some v"
    using assms(1) True by (simp_all add: ag_inv_def ag_data_def)
  have p: "ag_p s \<noteq> P_destroyed" "ag_p s \<noteq> P_initial" using sh by (auto dest: published_cases(2))
  have o: "ag_outcome s \<noteq> None \<longleftrightarrow> final_point (ag_p s)"
    "case ag_outcome s of None \<Rightarrow> ag_exception s = None | Some x \<Rightarrow> ag_exception s = x" "ag_destroyed s = 0"
    using assms(1) p by (simp_all add: ag_inv_def)
  have t: "t = advance_result s" using assms(2) True by (simp add: consumer_step.simps)
  show ?thesis
  proof (cases "final_point (ag_p s)")
    case True
    then obtain x where "ag_outcome s = Some x" "ag_exception s = x" using o(1,2) by auto
    with d True sh p o(3) show ?thesis by (simp add: t advance_result_def ag_inv_def ag_data_def)
  next
    case False
    then obtain v where "ag_yielded s = ag_seen s @ [v]" "ag_current s = Some v" using d(3) by blast
    with d(1) False sh p o show ?thesis by (simp add: t advance_result_def ag_inv_def ag_data_def)
  qed
next
  case False
  note sh = ag_inv_shape [OF assms(1)] and has = ag_inv_has [OF assms(1)]
  show ?thesis
    by (rule ag_inv_move [OF assms(1)])
      (use assms(2) False sh has in \<open>cases "ag_c s"; auto simp: ag_consumer_defs same_data_def dest: published_cases split: if_splits\<close>)+
qed

text \<open>The positions of the consumer that go with a position of the producer.\<close>

fun asking :: "ag_cpc \<Rightarrow> bool" where
  "asking C_adv_reload = True"
| "asking C_reload1 = True"
| "asking C_cas2 = True"
| "asking (C_op i) = (i = Not_ready_active)"
| "asking _ = False"

lemma asking_shape:
  "asking c \<Longrightarrow> ag_shape c p st \<longleftrightarrow>
     (p = P_body \<or> published p) \<and> st = Not_ready_active \<or> (\<exists>f. p = P_suspended f) \<and> st = Ready_suspended"
  "asking c \<Longrightarrow> ag_fresh c p = (p \<noteq> P_body)"
  "asking c \<Longrightarrow> c \<notin> {C_use, C_gone}"
  by (cases c; auto)+

lemma shape_published:
  "ag_shape c p st \<Longrightarrow> published p \<Longrightarrow> st = Not_ready_active \<and> asking c \<or> st = Not_ready_suspended \<and> c = C_suspended"
  by (cases c) (auto dest: published_cases published_cases(5) [OF published_cases(4)])

lemma shape_store: "ag_shape c p st \<Longrightarrow> handing p \<Longrightarrow> \<not> published p \<Longrightarrow> st = Not_ready_suspended \<and> c = C_suspended"
  by (cases c) (auto dest: published_cases)

lemma shape_waking: "ag_shape c p st \<Longrightarrow> waking p \<Longrightarrow> st = Ready_active \<and> c = C_suspended"
  by (cases c; cases p) auto

lemma shape_woken:
  "ag_shape c p st \<Longrightarrow> woken p \<Longrightarrow>
     st = Ready_active \<and> (c = C_use \<or> c = C_result \<or> \<not> final_point p \<and> c \<in> {C_op Ready_active, C_cas1}) \<or>
     st = Not_ready_suspended \<and> c = C_suspended \<and> \<not> final_point p \<or> st = Cancelled \<and> c = C_gone"
  by (cases c) (auto dest: published_cases)

lemma shape_op:
  "ag_shape c (P_op f Not_ready_suspended) st \<Longrightarrow> st = Not_ready_suspended \<and> c = C_suspended \<and> \<not> f"
  "ag_shape c (P_op f Cancelled) st \<Longrightarrow> st = Cancelled \<and> c = C_gone"
  "\<not> ag_shape c (P_op f Ready_suspended) st"
  by (cases c; auto)+

lemma ag_inv_suspend:
  assumes "ag_inv s" "woken (ag_p s)"
  shows "ag_st s = Ready_active \<Longrightarrow> ag_inv (s\<lparr>ag_st := Ready_suspended, ag_p := P_suspended (final_point (ag_p s))\<rparr>)"
    and "ag_st s = Not_ready_suspended \<Longrightarrow> ag_inv (s\<lparr>ag_p := continue_body (final_point (ag_p s))\<rparr>)"
    and "woken p \<Longrightarrow> final_point p = final_point (ag_p s) \<Longrightarrow> ag_inv (s\<lparr>ag_p := p\<rparr>)"
    and "ag_st s = Cancelled \<Longrightarrow> ag_inv (s\<lparr>ag_p := P_op (final_point (ag_p s)) Cancelled\<rparr>)"
    and "ag_st s = Not_ready_suspended \<Longrightarrow> ag_inv (s\<lparr>ag_p := P_op (final_point (ag_p s)) Not_ready_suspended\<rparr>)"
proof -
  note sh = shape_woken [OF ag_inv_shape [OF assms(1)] assms(2)] and p = published_cases(2) [OF assms(2)]
  note has = ag_inv_has [OF assms(1)]
  show "ag_st s = Ready_active \<Longrightarrow> ag_inv (s\<lparr>ag_st := Ready_suspended, ag_p := P_suspended (final_point (ag_p s))\<rparr>)"
    using sh p has by (intro ag_inv_move [OF assms(1)]) (auto simp: same_data_def)
  show "ag_st s = Not_ready_suspended \<Longrightarrow> ag_inv (s\<lparr>ag_p := continue_body (final_point (ag_p s))\<rparr>)"
    using sh p has by (intro ag_inv_move [OF assms(1)]) (auto simp: same_data_def continue_body_def)
  show "woken p \<Longrightarrow> final_point p = final_point (ag_p s) \<Longrightarrow> ag_inv (s\<lparr>ag_p := p\<rparr>)"
    using sh p published_cases(2) [of p] has by (intro ag_inv_move [OF assms(1)]) (auto simp: same_data_def)
  show "ag_st s = Cancelled \<Longrightarrow> ag_inv (s\<lparr>ag_p := P_op (final_point (ag_p s)) Cancelled\<rparr>)"
    using sh p has by (intro ag_inv_move [OF assms(1)]) (auto simp: same_data_def)
  show "ag_st s = Not_ready_suspended \<Longrightarrow> ag_inv (s\<lparr>ag_p := P_op (final_point (ag_p s)) Not_ready_suspended\<rparr>)"
    using sh p has by (intro ag_inv_move [OF assms(1)]) (auto simp: same_data_def)
qed

lemma ag_inv_cancelled:
  assumes "ag_inv s" "ag_c s = C_gone" "ag_p s \<noteq> P_destroyed"
  shows "ag_inv (s\<lparr>ag_p := P_destroyed, ag_destroyed := ag_destroyed s + 1\<rparr>)"
  using assms by (auto simp: ag_inv_def ag_data_def split: option.splits)

text \<open>From a position where something is published and the state is known.\<close>

lemma ag_inv_published:
  assumes "ag_inv s" "published (ag_p s)"
  shows "ag_st s = Not_ready_active \<Longrightarrow> published p \<Longrightarrow> final_point p = final_point (ag_p s) \<Longrightarrow> ag_inv (s\<lparr>ag_p := p\<rparr>)"
    and "ag_st s = Not_ready_active \<Longrightarrow> ag_inv (s\<lparr>ag_st := Ready_suspended, ag_p := P_suspended (final_point (ag_p s))\<rparr>)"
    and "ag_st s = Not_ready_suspended \<Longrightarrow> handing p \<Longrightarrow> final_point p = final_point (ag_p s) \<Longrightarrow> ag_inv (s\<lparr>ag_p := p\<rparr>)"
proof -
  note sh = shape_published [OF ag_inv_shape [OF assms(1)] assms(2)] and p = published_cases(1) [OF assms(2)]
  note has = ag_inv_has [OF assms(1)] and h = published_cases(4) [OF assms(2)]
  show "ag_st s = Not_ready_active \<Longrightarrow> published p \<Longrightarrow> final_point p = final_point (ag_p s) \<Longrightarrow> ag_inv (s\<lparr>ag_p := p\<rparr>)"
    using sh p published_cases(1) [of p] has asking_shape [of "ag_c s"]
    by (intro ag_inv_move [OF assms(1)]) (auto simp: same_data_def)
  show "ag_st s = Not_ready_active \<Longrightarrow> ag_inv (s\<lparr>ag_st := Ready_suspended, ag_p := P_suspended (final_point (ag_p s))\<rparr>)"
    using sh p has asking_shape [of "ag_c s"] by (intro ag_inv_move [OF assms(1)]) (auto simp: same_data_def)
  show "ag_st s = Not_ready_suspended \<Longrightarrow> handing p \<Longrightarrow> final_point p = final_point (ag_p s) \<Longrightarrow> ag_inv (s\<lparr>ag_p := p\<rparr>)"
    using sh p published_cases(3) [of p] h has by (intro ag_inv_move [OF assms(1)]) (auto simp: same_data_def)
qed

lemma ag_inv_producer:
  assumes inv: "ag_inv s" and step: "producer_step s = Some t"
  shows "ag_inv t"
proof -
  note sh = ag_inv_shape [OF inv] and has = ag_inv_has [OF inv]
  show ?thesis
  proof (cases "ag_p s")
    case (P_load f)
    have pub: "published (ag_p s)" by (simp add: P_load)
    show ?thesis
      using shape_published [OF sh pub] ag_inv_published(1) [OF inv pub, of "P_op f Not_ready_active"]
        ag_inv_published(3) [OF inv pub, of "P_store f"] step P_load
      by (auto simp: producer_step.simps internal_yield_def)
  next
    case (P_store f)
    then have "ag_st s = Not_ready_suspended \<and> ag_c s = C_suspended" using shape_store [OF sh] by simp
    with step P_store show ?thesis
      by (intro ag_inv_move [OF inv]) (auto simp: same_data_def producer_step.simps has)
  next
    case (P_store2 f)
    then have "ag_st s = Not_ready_suspended \<and> ag_c s = C_suspended" using shape_store [OF sh] by simp
    with step P_store2 show ?thesis
      by (intro ag_inv_move [OF inv]) (auto simp: same_data_def producer_step.simps has)
  next
    case (P_wake f)
    then have "ag_st s = Ready_active \<and> ag_c s = C_suspended" using shape_waking [OF sh] by simp
    with step P_wake show ?thesis
      by (intro ag_inv_move [OF inv]) (auto simp: same_data_def producer_step.simps resume_consumer_def has)
  next
    case (P_wake2 f)
    then have "ag_st s = Ready_active \<and> ag_c s = C_suspended" using shape_waking [OF sh] by simp
    with step P_wake2 show ?thesis
      by (intro ag_inv_move [OF inv]) (auto simp: same_data_def producer_step.simps resume_consumer_def has)
  next
    case (P_reload f)
    have w: "woken (ag_p s)" by (simp add: P_reload)
    show ?thesis
      using shape_woken [OF sh w] ag_inv_suspend(3) [OF inv w, of "P_op f Ready_active"] ag_inv_suspend(4,5) [OF inv w] step P_reload
      by (auto simp: producer_step.simps)
  next
    case (P_reload2 f)
    have w: "woken (ag_p s)" by (simp add: P_reload2)
    show ?thesis
      using shape_woken [OF sh w] ag_inv_suspend(2) [OF inv w] ag_inv_suspend(3) [OF inv w, of "P_cas2 f"] ag_inv_cancelled [OF inv]
        step P_reload2
      by (auto simp: producer_step.simps yield_reload2_def yield_rest_def yield_cancelled_def)
  next
    case (P_cas2 f)
    have w: "woken (ag_p s)" by (simp add: P_cas2)
    show ?thesis
      using shape_woken [OF sh w] ag_inv_suspend(1,2) [OF inv w] ag_inv_cancelled [OF inv] step P_cas2
      by (auto simp: producer_step.simps yield_cas2_def yield_cancelled_def)
  next
    case (P_cas1 f)
    have pub: "published (ag_p s)" by (simp add: P_cas1)
    show ?thesis
      using shape_published [OF sh pub] ag_inv_published(2) [OF inv pub] ag_inv_published(3) [OF inv pub, of "P_store2 f"] step P_cas1
      by (auto simp: producer_step.simps yield_cas1_def)
  next
    case (P_op f i)
    show ?thesis
    proof (cases i)
      case Not_ready_active
      then have pub: "published (ag_p s)" by (simp add: P_op)
      show ?thesis
        using shape_published [OF sh pub] ag_inv_published(1) [OF inv pub, of "P_cas1 f"] ag_inv_published(3) [OF inv pub, of "P_cas1 f"]
          step P_op Not_ready_active
        by (auto simp: producer_step.simps yield_ready_def)
    next
      case Ready_active
      then have w: "woken (ag_p s)" by (simp add: P_op)
      show ?thesis
        using ag_inv_suspend(3) [OF inv w, of "P_cas2 f"] step P_op Ready_active
        by (auto simp: producer_step.simps yield_ready_def yield_rest_def)
    next
      case Not_ready_suspended
      then have "ag_st s = Not_ready_suspended \<and> ag_c s = C_suspended \<and> \<not> f" using shape_op(1) sh P_op by metis
      with step P_op Not_ready_suspended show ?thesis
        by (intro ag_inv_move [OF inv]) (auto simp: same_data_def producer_step.simps yield_ready_def continue_body_def has)
    next
      case Cancelled
      then have "ag_c s = C_gone" using shape_op(2) sh P_op by metis
      with step P_op Cancelled ag_inv_cancelled [OF inv] show ?thesis
        by (auto simp: producer_step.simps yield_ready_def yield_rest_def yield_cancelled_def)
    next
      case Ready_suspended
      then show ?thesis using shape_op(3) sh P_op by metis
    qed
  qed (use step in \<open>simp_all add: producer_step.simps\<close>)
qed


lemma ag_inv_advance:
  assumes inv: "ag_inv s" and use: "ag_c s = C_use" "ag_ended s = None"
  shows "ag_inv (advance_begin s)"
proof -
  have "ag_p s \<noteq> P_initial \<longrightarrow> \<not> final_point (ag_p s)" using inv use by (simp add: ag_inv_def)
  with ag_inv_shape [OF inv] use show ?thesis
    by (intro ag_inv_move [OF inv]) (auto simp: same_data_def advance_begin_def dest: published_cases)
qed

lemma ag_inv_destroy:
  assumes inv: "ag_inv s" and use: "ag_c s = C_use"
  shows "ag_inv (generator_destroy s)"
proof -
  have data: "ag_yielded s = ag_seen s"
    "case ag_ended s of None \<Rightarrow> ag_seen s \<noteq> [] \<longrightarrow> ag_current s = Some (last (ag_seen s))
     | Some r \<Rightarrow> ag_current s = None \<and> ag_outcome s = Some r"
    using inv use by (auto simp: ag_inv_def ag_data_def split: option.splits)
  have rest: "ag_p s \<noteq> P_destroyed \<longrightarrow> (ag_outcome s \<noteq> None \<longleftrightarrow> final_point (ag_p s))"
    "case ag_outcome s of None \<Rightarrow> ag_exception s = None | Some x \<Rightarrow> ag_exception s = x"
    "ag_destroyed s = (if ag_p s = P_destroyed then 1 else 0)"
    using inv by (simp_all add: ag_inv_def)
  from ag_inv_shape [OF inv] use
  consider "woken (ag_p s)" "ag_st s = Ready_active" | "ag_p s = P_initial \<or> (\<exists>f. ag_p s = P_suspended f)" "ag_st s = Ready_suspended"
    by auto
  then show ?thesis
  proof cases
    case 1
    with published_cases(2) [OF 1(1)] data rest show ?thesis
      by (simp add: generator_destroy_def ag_inv_def ag_data_def split: option.splits)
  next
    case 2
    then have "ag_destroyed s = 0" using rest(3) by auto
    with 2 data rest(2) show ?thesis
      by (simp add: generator_destroy_def ag_inv_def ag_data_def split: option.splits)
  qed
qed

text \<open>While the body runs, the consumer waits for it.\<close>

lemma body_shape:
  "ag_shape c P_body st \<Longrightarrow> asking c \<and> st = Not_ready_active \<or> c = C_suspended \<and> st = Not_ready_suspended"
  by (cases c) auto

lemma body_data:
  assumes "ag_inv s" "ag_p s = P_body"
  shows "ag_yielded s = ag_seen s" "ag_ended s = None" "ag_outcome s = None" "ag_exception s = None" "ag_destroyed s = 0"
    "ag_c s \<notin> {C_use, C_gone}" "ag_st s \<noteq> Cancelled"
proof -
  from ag_inv_shape [OF assms(1)] assms(2)
  have c: "asking (ag_c s) \<and> ag_st s = Not_ready_active \<or> ag_c s = C_suspended \<and> ag_st s = Not_ready_suspended"
    using body_shape by metis
  then show use: "ag_c s \<notin> {C_use, C_gone}" "ag_st s \<noteq> Cancelled" using asking_shape(3) by auto
  have "\<not> ag_fresh (ag_c s) (ag_p s)" using c asking_shape(2) assms(2) by auto
  with assms use show "ag_yielded s = ag_seen s" "ag_ended s = None" "ag_outcome s = None" "ag_exception s = None" "ag_destroyed s = 0"
    by (auto simp: ag_inv_def ag_data_def split: option.splits)
qed

lemma published_shape:
  assumes "ag_shape c P_body st"
  shows "ag_shape c (P_load f) st" "ag_fresh c (P_load f)" "c \<noteq> C_use"
  using body_shape [OF assms] asking_shape [of c] by auto

lemma ag_inv_yield:
  assumes "ag_inv s" "ag_p s = P_body"
  shows "ag_inv (yield_value v s)"
  using body_data [OF assms] published_shape(1,2) [of "ag_c s" "ag_st s" False] ag_inv_shape [OF assms(1)] ag_inv_has [OF assms(1)] assms(2)
  by (simp add: ag_inv_def ag_data_def yield_value_def)

lemma ag_inv_finish:
  assumes "ag_inv s" "ag_p s = P_body"
  shows "ag_inv (body_finish x s)"
  using body_data [OF assms] published_shape(1,2) [of "ag_c s" "ag_st s" True] ag_inv_shape [OF assms(1)] ag_inv_has [OF assms(1)] assms(2)
  by (simp add: ag_inv_def ag_data_def body_finish_def split: option.splits)

lemma ag_inv_exec: "ag_inv s \<Longrightarrow> async_gen_exec a s = Some t \<Longrightarrow> ag_inv t"
  by (cases a)
    (auto intro: ag_inv_consumer ag_inv_producer ag_inv_advance ag_inv_destroy ag_inv_yield ag_inv_finish split: if_splits)

section \<open>What the generator guarantees\<close>

interpretation async_generator: invariant_system "\<lambda>s. s = async_gen_start" "act_step async_gen_exec" ag_inv
  by unfold_locales (auto simp: ag_inv_start act_step_def intro: ag_inv_exec)

text \<open>
  C16: Whatever the interleaving of the two coroutines, the values the consumer gets are the values yielded, in order, none lost and
  none twice: outside its operations it has all of them, within an operation all but at most the last; the reference it holds is to the
  last of them; and it is told the end after the last value, with the exception the producer's body ended with, if any.
\<close>

theorem async_gen_values:
  assumes "reach (\<lambda>s. s = async_gen_start) (act_step async_gen_exec) s"
  shows "(ag_yielded s = ag_seen s \<or> (\<exists>v. ag_yielded s = ag_seen s @ [v] \<and> ag_c s \<noteq> C_use)) \<and>
    (ag_c s = C_use \<longrightarrow> ag_ended s = None \<longrightarrow> ag_seen s \<noteq> [] \<longrightarrow> ag_current s = Some (last (ag_seen s))) \<and>
    (\<forall>r. ag_ended s = Some r \<longrightarrow> ag_yielded s = ag_seen s \<and> ag_outcome s = Some r)"
proof -
  have "ag_data s" using async_generator.reach_inv [OF assms] by (simp add: ag_inv_def)
  moreover have "ag_c s = C_use \<Longrightarrow> \<not> ag_fresh (ag_c s) (ag_p s)" by simp
  ultimately show ?thesis
    by (auto simp: ag_data_def split: if_splits option.splits)
qed

text \<open>
  C15: No assertion of the protocol fails, no coroutine that is not suspended is resumed, and the producer does not run on
  past its final suspend point; the consumer is never outside its operations or about to take a result while the producer's body runs; never
  are both suspended, waiting for each other; and the producer's frame is destroyed at most once, by the generator's
  destructor or, after it, by the producer.
\<close>

theorem async_gen_protocol:
  assumes "reach (\<lambda>s. s = async_gen_start) (act_step async_gen_exec) s"
  shows "ag_c s \<noteq> C_error \<and> ag_p s \<noteq> P_error \<and> ag_p s \<noteq> P_off_end \<and>
    \<not> (ag_p s = P_body \<and> ag_c s \<in> {C_use, C_result, C_gone}) \<and>
    \<not> (ag_c s = C_suspended \<and> (\<exists>f. ag_p s = P_suspended f)) \<and>
    ag_destroyed s = (if ag_p s = P_destroyed then 1 else 0) \<and> (ag_p s = P_destroyed \<longrightarrow> ag_c s = C_gone)"
proof -
  note inv = async_generator.reach_inv [OF assms]
  have "ag_shape c p st \<Longrightarrow> c \<noteq> C_error \<and> p \<noteq> P_error \<and> p \<noteq> P_off_end \<and> \<not> (p = P_body \<and> c \<in> {C_use, C_result, C_gone}) \<and>
      \<not> (c = C_suspended \<and> (\<exists>f. p = P_suspended f)) \<and> (p = P_destroyed \<longrightarrow> c = C_gone)" for c p st
    by (cases c; cases p) auto
  from this [OF ag_inv_shape [OF inv]] inv show ?thesis by (simp add: ag_inv_def)
qed

text \<open>The steps of the producer from the positions where it is to wake, or to go on.\<close>

lemma run_producer:
  "run_acts async_gen_exec (replicate 0 Producer) s = Some s"
  "producer_step s = Some t \<Longrightarrow> run_acts async_gen_exec (replicate (Suc n) Producer) s = run_acts async_gen_exec (replicate n Producer) t"
  by simp_all

definition producer_reaches :: "nat \<Rightarrow> ('v async_gen \<Rightarrow> bool) \<Rightarrow> 'v async_gen \<Rightarrow> bool" where
  "producer_reaches n good s \<longleftrightarrow> (\<exists>m\<le>n. \<exists>t. run_acts async_gen_exec (replicate m Producer) s = Some t \<and> good t)"

lemma producer_reaches_now: "good s \<Longrightarrow> producer_reaches n good s"
  unfolding producer_reaches_def by (intro exI [of _ 0]) simp

lemma producer_reaches_step:
  assumes "producer_step s = Some t" "producer_reaches n good t"
  shows "producer_reaches (Suc n) good s"
proof -
  obtain m u where "m \<le> n" "run_acts async_gen_exec (replicate m Producer) t = Some u" "good u"
    using assms(2) by (auto simp: producer_reaches_def)
  with run_producer(2) [OF assms(1), of m] show ?thesis
    unfolding producer_reaches_def by (intro exI [of _ "Suc m"]) simp
qed

lemma producer_reaches_more: "producer_reaches n good s \<Longrightarrow> n \<le> m \<Longrightarrow> producer_reaches m good s"
  unfolding producer_reaches_def by (meson le_trans)

text \<open>After the generator's destructor, while the producer still runs.\<close>

lemma producer_cancel_steps:
  assumes "ag_st s = Cancelled"
  shows "ag_p s = P_cas2 f \<Longrightarrow> producer_step s = Some (s\<lparr>ag_p := P_destroyed, ag_destroyed := ag_destroyed s + 1\<rparr>)"
    and "ag_p s = P_reload2 f \<Longrightarrow> producer_step s = Some (s\<lparr>ag_p := P_destroyed, ag_destroyed := ag_destroyed s + 1\<rparr>)"
    and "ag_p s = P_op f Cancelled \<Longrightarrow> producer_step s = Some (s\<lparr>ag_p := P_destroyed, ag_destroyed := ag_destroyed s + 1\<rparr>)"
    and "ag_p s = P_op f Ready_active \<Longrightarrow> producer_step s = Some (s\<lparr>ag_p := P_cas2 f\<rparr>)"
    and "ag_p s = P_reload f \<Longrightarrow> producer_step s = Some (s\<lparr>ag_p := P_op f Cancelled\<rparr>)"
  using assms by (simp_all add: ag_producer_defs)

lemma producer_cancels:
  assumes st: "ag_st s = Cancelled" and p: "woken (ag_p s) \<or> (\<exists>f. ag_p s = P_op f Cancelled) \<or> ag_p s = P_destroyed"
  shows "producer_reaches 2 (\<lambda>t. ag_p t = P_destroyed) s"
proof -
  let ?good = "\<lambda>t :: 'a async_gen. ag_p t = P_destroyed"
  have one: "producer_reaches (Suc n) ?good t"
    if "ag_st t = Cancelled" "ag_p t = P_cas2 f \<or> ag_p t = P_reload2 f \<or> ag_p t = P_op f Cancelled" for n f and t :: "'a async_gen"
    using that(2) producer_cancel_steps(1-3) [OF that(1)]
    by (elim disjE) (rule producer_reaches_step, blast, rule producer_reaches_now, simp)+
  from p consider f where "ag_p s = P_cas2 f \<or> ag_p s = P_reload2 f \<or> ag_p s = P_op f Cancelled"
    | f where "ag_p s = P_op f Ready_active" | f where "ag_p s = P_reload f" | "ag_p s = P_destroyed"
    by (cases "ag_p s") auto
  then show ?thesis unfolding numeral_2_eq_2
  proof cases
    case 1
    then show "producer_reaches (Suc (Suc 0)) ?good s" using one [OF st] by blast
  next
    case (2 f)
    show "producer_reaches (Suc (Suc 0)) ?good s"
      by (rule producer_reaches_step [OF producer_cancel_steps(4) [OF st 2]], rule one [of _ f]) (simp_all add: st)
  next
    case (3 f)
    show "producer_reaches (Suc (Suc 0)) ?good s"
      by (rule producer_reaches_step [OF producer_cancel_steps(5) [OF st 3]], rule one [of _ f]) (simp_all add: st)
  next
    case 4
    then show "producer_reaches (Suc (Suc 0)) ?good s" by (rule producer_reaches_now)
  qed
qed

text \<open>While the consumer is suspended.\<close>

lemma producer_wake_steps:
  assumes "ag_st s = Not_ready_suspended" "ag_c s = C_suspended"
  shows "ag_p s = P_load f \<Longrightarrow> producer_step s = Some (s\<lparr>ag_p := P_store f\<rparr>)"
    and "ag_p s = P_store f \<Longrightarrow> producer_step s = Some (s\<lparr>ag_st := Ready_active, ag_p := P_wake f\<rparr>)"
    and "ag_p s = P_store2 f \<Longrightarrow> producer_step s = Some (s\<lparr>ag_st := Ready_active, ag_p := P_wake2 f\<rparr>)"
    and "ag_p s = P_op f Not_ready_active \<Longrightarrow> producer_step s = Some (s\<lparr>ag_p := P_cas1 f\<rparr>)"
    and "ag_p s = P_cas1 f \<Longrightarrow> producer_step s = Some (s\<lparr>ag_p := P_store2 f\<rparr>)"
    and "ag_p s = P_op f Not_ready_suspended \<Longrightarrow> producer_step s = Some (s\<lparr>ag_p := continue_body f\<rparr>)"
    and "ag_p s = P_reload f \<Longrightarrow> producer_step s = Some (s\<lparr>ag_p := P_op f Not_ready_suspended\<rparr>)"
    and "ag_p s = P_reload2 f \<Longrightarrow> producer_step s = Some (s\<lparr>ag_p := continue_body f\<rparr>)"
    and "ag_p s = P_cas2 f \<Longrightarrow> producer_step s = Some (s\<lparr>ag_p := continue_body f\<rparr>)"
    and "ag_p s = P_op f Ready_active \<Longrightarrow> producer_step s = Some (s\<lparr>ag_p := P_cas2 f\<rparr>)"
  using assms by (simp_all add: ag_producer_defs)

lemma producer_wake_step:
  assumes "ag_consumer s" "ag_c s = C_suspended" "waking (ag_p s)"
  shows "\<exists>t. producer_step s = Some t \<and> ag_c t = C_result"
  using assms by (cases "ag_p s") (simp_all add: ag_producer_defs)

text \<open>How far the producer is from its body or from waking the consumer.\<close>

fun wake_distance :: "ag_ppc \<Rightarrow> nat" where
  "wake_distance (P_load f) = 3"
| "wake_distance (P_store f) = 2"
| "wake_distance (P_store2 f) = 2"
| "wake_distance (P_wake f) = 1"
| "wake_distance (P_wake2 f) = 1"
| "wake_distance (P_op f i) = (if i = Not_ready_active then 4 else if i = Ready_active then 2 else 1)"
| "wake_distance (P_cas1 f) = 3"
| "wake_distance (P_reload f) = 2"
| "wake_distance (P_reload2 f) = 1"
| "wake_distance (P_cas2 f) = 1"
| "wake_distance _ = 0"

lemma wake_distance_step:
  assumes inv: "ag_inv s" and c: "ag_c s = C_suspended" and p: "ag_p s \<noteq> P_body"
  shows "\<exists>t. producer_step s = Some t \<and> (ag_c t = C_result \<or> ag_c t = C_suspended \<and> wake_distance (ag_p t) < wake_distance (ag_p s))"
proof (cases "waking (ag_p s)")
  case True
  with producer_wake_step c ag_inv_has [OF inv] show ?thesis by fastforce
next
  case False
  have sh: "ag_shape C_suspended (ag_p s) (ag_st s)" using ag_inv_shape [OF inv] c by simp
  with False have st: "ag_st s = Not_ready_suspended" by auto
  note steps = producer_wake_steps [OF st c]
  show ?thesis
  proof (cases "ag_p s")
    case (P_op f i)
    with sh st False have "i = Not_ready_active \<or> i = Ready_active \<or> i = Not_ready_suspended \<and> \<not> f" by auto
    then show ?thesis
      using steps(4) [of f] steps(6) [of f] steps(10) [of f] P_op c by (elim disjE) (simp_all add: continue_body_def)
  next
    case (P_load f)
    from steps(1) [OF this] P_load c show ?thesis by simp
  next
    case (P_store f)
    from steps(2) [OF this] P_store c show ?thesis by simp
  next
    case (P_store2 f)
    from steps(3) [OF this] P_store2 c show ?thesis by simp
  next
    case (P_cas1 f)
    from steps(5) [OF this] P_cas1 c show ?thesis by simp
  next
    case (P_reload f)
    with sh False have "\<not> f" by simp
    with steps(7) [OF P_reload] P_reload c show ?thesis by (simp add: continue_body_def)
  next
    case (P_reload2 f)
    with sh False have "\<not> f" by simp
    with steps(8) [OF P_reload2] P_reload2 c show ?thesis by (simp add: continue_body_def)
  next
    case (P_cas2 f)
    with sh False have "\<not> f" by simp
    with steps(9) [OF P_cas2] P_cas2 c show ?thesis by (simp add: continue_body_def)
  qed (use sh False p in simp_all)
qed

lemma producer_step_distance: "producer_step s = Some t \<Longrightarrow> 0 < wake_distance (ag_p s)"
  by (cases "ag_p s") (simp_all add: producer_step.simps)

lemma producer_wakes:
  "ag_inv s \<Longrightarrow> ag_c s = C_suspended \<Longrightarrow> producer_reaches (wake_distance (ag_p s)) (\<lambda>t. ag_p t = P_body \<or> ag_c t = C_result) s"
proof (induction "wake_distance (ag_p s)" arbitrary: s rule: less_induct)
  case less
  show ?case
  proof (cases "ag_p s = P_body")
    case True
    then show ?thesis by (intro producer_reaches_now) simp
  next
    case False
    from wake_distance_step [OF less.prems False]
    obtain t where t: "producer_step s = Some t"
      and or: "ag_c t = C_result \<or> ag_c t = C_suspended \<and> wake_distance (ag_p t) < wake_distance (ag_p s)" by blast
    have pos: "wake_distance (ag_p s) = Suc (wake_distance (ag_p s) - 1)" using producer_step_distance [OF t] by simp
    have "producer_reaches (wake_distance (ag_p s) - 1) (\<lambda>t. ag_p t = P_body \<or> ag_c t = C_result) t"
      using or
    proof
      assume "ag_c t = C_suspended \<and> wake_distance (ag_p t) < wake_distance (ag_p s)"
      then have c: "ag_c t = C_suspended" and less_t: "wake_distance (ag_p t) < wake_distance (ag_p s)" by blast+
      have "wake_distance (ag_p t) \<le> wake_distance (ag_p s) - 1" using less_t by simp
      with less.hyps [OF less_t ag_inv_producer [OF less.prems(1) t] c] show ?thesis by (rule producer_reaches_more)
    qed (auto intro: producer_reaches_now)
    from producer_reaches_step [OF t this] pos show ?thesis by simp
  qed
qed

text \<open>
  C17: Neither side is left waiting: when the consumer is suspended, the producer either runs its body or gets there, or resumes
  the consumer, within four steps of its own; and once the generator was destroyed while the producer was running, the
  producer's frame is destroyed within two of its steps, exactly once.
\<close>

theorem async_gen_progress:
  assumes "reach (\<lambda>s. s = async_gen_start) (act_step async_gen_exec) s"
  shows "(ag_c s = C_suspended \<longrightarrow> producer_reaches 4 (\<lambda>t. ag_p t = P_body \<or> ag_c t = C_result) s) \<and>
    (ag_c s = C_gone \<longrightarrow> producer_reaches 2 (\<lambda>t. ag_p t = P_destroyed \<and> ag_destroyed t = 1) s)"
proof (intro conjI impI)
  note inv = async_generator.reach_inv [OF assms]
  have "wake_distance (ag_p s) \<le> 4" by (cases "ag_p s") auto
  then show "producer_reaches 4 (\<lambda>t. ag_p t = P_body \<or> ag_c t = C_result) s" if "ag_c s = C_suspended"
    using producer_wakes [OF inv that] producer_reaches_more by blast
  assume "ag_c s = C_gone"
  with ag_inv_shape [OF inv] have "producer_reaches 2 (\<lambda>t. ag_p t = P_destroyed) s" by (intro producer_cancels) auto
  then obtain m t where t: "m \<le> 2" "run_acts async_gen_exec (replicate m Producer) s = Some t" "ag_p t = P_destroyed"
    by (auto simp: producer_reaches_def)
  with async_generator.reach_inv [OF run_acts_reach [OF t(2) assms]]
  show "producer_reaches 2 (\<lambda>t. ag_p t = P_destroyed \<and> ag_destroyed t = 1) s"
    by (auto simp: producer_reaches_def ag_inv_def)
qed

text \<open>
  Two values, each handed over by waking the suspended consumer, and a body that fails; then the generator is destroyed while the
  producer still runs.
\<close>

definition ag_demo :: "nat ag_act list" where
  "ag_demo =
     [Advance, Consumer, Consumer, Consumer, Consumer, Consumer, Yield_value 5, Producer, Producer, Producer, Consumer, Producer,
      Advance, Consumer, Consumer, Producer, Producer, Yield_value 7, Producer, Producer, Producer, Consumer,
      Advance, Consumer, Consumer, Producer, Producer, Finish (Some (Std_exn ''x'')), Producer, Producer, Producer, Consumer]"

lemma ag_demo_run:
  "run_acts async_gen_exec ag_demo async_gen_start =
     Some \<lparr>ag_st = Ready_active, ag_consumer = True, ag_exception = Some (Std_exn ''x''), ag_current = None, ag_c = C_use,
       ag_p = P_reload True, ag_yielded = [5, 7], ag_seen = [5, 7], ag_outcome = Some (Some (Std_exn ''x'')),
       ag_ended = Some (Some (Std_exn ''x'')), ag_destroyed = 0\<rparr>"
  by (simp add: ag_demo_def async_gen_start_def ag_consumer_defs ag_producer_defs)

lemma ag_demo_gone:
  "\<exists>s. run_acts async_gen_exec (ag_demo @ [Destroy_generator]) async_gen_start = Some s \<and> ag_c s = C_gone \<and> ag_p s = P_reload True"
  by (simp add: run_acts_append ag_demo_run generator_destroy_def)

lemma ag_reach:
  "run_acts async_gen_exec as async_gen_start = Some s \<Longrightarrow> reach (\<lambda>s. s = async_gen_start) (act_step async_gen_exec) s"
  by (rule run_acts_reach) (auto intro: reach.reach_init)

theorem async_gen_values_witness:
  "\<exists>s. run_acts async_gen_exec ag_demo async_gen_start = Some s \<and> ag_seen s = [5, 7] \<and>
     (\<forall>r. ag_ended s = Some r \<longrightarrow> ag_yielded s = ag_seen s \<and> ag_outcome s = Some r)"
  using ag_demo_run async_gen_values [OF ag_reach [OF ag_demo_run]] by (intro exI conjI) (assumption, simp, simp)

theorem async_gen_protocol_witness:
  "\<exists>s. run_acts async_gen_exec (ag_demo @ [Destroy_generator]) async_gen_start = Some s \<and> ag_c s = C_gone \<and> ag_p s \<noteq> P_error"
proof -
  obtain s where s: "run_acts async_gen_exec (ag_demo @ [Destroy_generator]) async_gen_start = Some s" "ag_c s = C_gone"
    using ag_demo_gone by blast
  with async_gen_protocol [OF ag_reach [OF s(1)]] show ?thesis by blast
qed

theorem async_gen_progress_witness:
  "\<exists>s. run_acts async_gen_exec (ag_demo @ [Destroy_generator]) async_gen_start = Some s \<and>
     producer_reaches 2 (\<lambda>t. ag_p t = P_destroyed \<and> ag_destroyed t = 1) s"
proof -
  obtain s where s: "run_acts async_gen_exec (ag_demo @ [Destroy_generator]) async_gen_start = Some s" "ag_c s = C_gone"
    using ag_demo_gone by blast
  with async_gen_progress [OF ag_reach [OF s(1)]] show ?thesis by blast
qed

end
