(* ===== verification/Ice_Async_Iter.thy ===== *)
theory Ice_Async_Iter
  imports Ice_Async_Gen Ice_Mutex
begin

text \<open>
  The objects of include/ice/async.h around its coroutines: the iterators of \<open>generator\<close> and \<open>async_generator\<close>, the promises of
  \<open>async<void>\<close> and \<open>async<T&>\<close>, \<open>get_starter\<close>, the ownership of an \<open>async_generator\<close>, the lock operations and the destructor
  of \<open>async_mutex\<close>. Each is related to the machine of its coroutine in \<open>Ice_Async\<close>, \<open>Ice_Async_Gen\<close> or
  \<open>Ice_Mutex\<close>.
\<close>

section \<open>The iterators of generator\<close>

text \<open>
  The coroutines live in a store and an iterator is a handle, 0 for null. What an operation ran into is a value: \<open>Undefined\<close> is
  undefined behaviour (resuming through a null handle, or resuming a finished coroutine); \<open>None\<close> is a call that does not return.
\<close>

datatype 'a ran = Undefined | Ran 'a

type_synonym 'v gen_store = "nat \<Rightarrow> 'v gen_co option"

definition giter_eq :: "nat \<Rightarrow> nat \<Rightarrow> bool" where
  "giter_eq a b \<longleftrightarrow> a = b"

definition giter_neq :: "nat \<Rightarrow> nat \<Rightarrow> bool" where
  "giter_neq a b \<longleftrightarrow> \<not> giter_eq a b"

definition giter_resume :: "nat \<Rightarrow> 'v gen_store \<Rightarrow> ((cxx_exn + nat) \<times> 'v gen_store) ran option" where
  "giter_resume h st =
     (case st h of
        None \<Rightarrow> Some Undefined
      | Some c \<Rightarrow>
          if gc_done c then Some Undefined
          else case generator_resume c of
            None \<Rightarrow> None
          | Some (c', ex) \<Rightarrow>
              Some (Ran (case ex of Some e \<Rightarrow> Inl e | None \<Rightarrow> Inr (if gc_done c' then 0 else h), st(h := Some c'))))"

definition giter_next :: "nat \<Rightarrow> 'v gen_store \<Rightarrow> ((cxx_exn + nat) \<times> 'v gen_store) ran option" where
  "giter_next it st = (if it = 0 then Some Undefined else giter_resume it st)"

definition giter_deref :: "nat \<Rightarrow> 'v gen_store \<Rightarrow> 'v option" where
  "giter_deref it st = Option.bind (st it) gc_value"

definition gen_begin :: "nat \<Rightarrow> 'v gen_store \<Rightarrow> ((cxx_exn + nat) \<times> 'v gen_store) ran option" where
  "gen_begin m_coroutine st = (if m_coroutine \<noteq> 0 then giter_resume m_coroutine st else Some (Ran (Inr 0, st)))"

definition gen_end :: nat where
  "gen_end = 0"

text \<open>
  The range-based for loop over a generator, as the language defines it: \<open>begin\<close>, and while the iterator is not \<open>end\<close>, read, run the
  body of the loop and increment. The body of the loop collects what it reads and leaves the loop (\<open>break\<close>) when \<open>stop\<close> says so
  of what it has collected. The result is what was read and the exception that left the loop; a loop that does not end has no result.
\<close>

partial_function (option) gen_for_loop :: "('v option list \<Rightarrow> bool) \<Rightarrow> nat \<Rightarrow> 'v gen_store \<Rightarrow> 'v option list \<Rightarrow>
  (('v option list \<times> cxx_exn option) \<times> 'v gen_store) ran option" where
  "gen_for_loop stop it st acc =
     (if giter_neq it gen_end then
        (if stop (acc @ [giter_deref it st]) then Some (Ran ((acc @ [giter_deref it st], None), st))
         else case giter_next it st of
           None \<Rightarrow> None
         | Some Undefined \<Rightarrow> Some Undefined
         | Some (Ran (Inl e, st')) \<Rightarrow> Some (Ran ((acc @ [giter_deref it st], Some e), st'))
         | Some (Ran (Inr it', st')) \<Rightarrow> gen_for_loop stop it' st' (acc @ [giter_deref it st]))
      else Some (Ran ((acc, None), st)))"

definition gen_for :: "('v option list \<Rightarrow> bool) \<Rightarrow> nat \<Rightarrow> 'v gen_store \<Rightarrow>
  (('v option list \<times> cxx_exn option) \<times> 'v gen_store) ran option" where
  "gen_for stop m_coroutine st =
     (case gen_begin m_coroutine st of
        None \<Rightarrow> None
      | Some Undefined \<Rightarrow> Some Undefined
      | Some (Ran (Inl e, st')) \<Rightarrow> Some (Ran (([], Some e), st'))
      | Some (Ran (Inr it, st')) \<Rightarrow> gen_for_loop stop it st' [])"

lemmas giter_defs = giter_eq_def giter_neq_def giter_resume_def giter_next_def giter_deref_def gen_begin_def gen_end_def
  generator_resume_def

text \<open>What a body yields, without iterators: its first values, and what is left of it behind them, if it yields that many.\<close>

primrec gen_prefix :: "nat \<Rightarrow> 'v gen_body \<Rightarrow> 'v list" where
  "gen_prefix 0 b = []"
| "gen_prefix (Suc n) b = (case b of Yield v b' \<Rightarrow> v # gen_prefix n b' | _ \<Rightarrow> [])"

primrec gen_rest :: "nat \<Rightarrow> 'v gen_body \<Rightarrow> 'v gen_body option" where
  "gen_rest 0 b = Some b"
| "gen_rest (Suc n) b = (case b of Yield v b' \<Rightarrow> gen_rest n b' | _ \<Rightarrow> None)"

text \<open>How a loop goes on that has collected \<open>acc\<close> and stands before the rest of a body.\<close>

datatype loop_end = Goes_on | Breaks | Ends "cxx_exn option"

definition loop_verdict :: "('v option list \<Rightarrow> bool) \<Rightarrow> 'v option list \<Rightarrow> 'v gen_body \<Rightarrow> loop_end" where
  "loop_verdict stop acc b =
     (if acc \<noteq> [] \<and> stop acc then Breaks
      else case b of Gen_return \<Rightarrow> Ends None | Gen_throw e \<Rightarrow> Ends (Some e) | _ \<Rightarrow> Goes_on)"

text \<open>The verdict on a loop over \<open>b\<close> that has read the first \<open>n\<close> values.\<close>

definition loop_after :: "('v option list \<Rightarrow> bool) \<Rightarrow> 'v option list \<Rightarrow> 'v gen_body \<Rightarrow> nat \<Rightarrow> loop_end" where
  "loop_after stop acc b n =
     (case gen_rest n b of None \<Rightarrow> Goes_on | Some r \<Rightarrow> loop_verdict stop (acc @ map Some (gen_prefix n b)) r)"

definition gen_suspended :: "'v gen_body \<Rightarrow> 'v \<Rightarrow> 'v gen_co" where
  "gen_suspended b v = \<lparr>gc_body = b, gc_done = False, gc_value = Some v\<rparr>"

lemma gen_suspended_sel: "gc_body (gen_suspended b v) = b" "\<not> gc_done (gen_suspended b v)"
  by (simp_all add: gen_suspended_def)

text \<open>What a loop that ends leaves behind: the coroutine suspended behind the last value read, or finished.\<close>

definition loop_leaves :: "loop_end \<Rightarrow> 'v gen_body option \<Rightarrow> 'v gen_co \<Rightarrow> bool" where
  "loop_leaves x r c \<longleftrightarrow> (case x of Goes_on \<Rightarrow> False | Breaks \<Rightarrow> \<not> gc_done c \<and> r = Some (gc_body c) | Ends _ \<Rightarrow> gc_done c)"

definition loop_exn :: "loop_end \<Rightarrow> cxx_exn option" where
  "loop_exn x = (case x of Ends e \<Rightarrow> e | _ \<Rightarrow> None)"

lemma loop_after_0: "loop_after stop acc b 0 = loop_verdict stop acc b"
  by (simp add: loop_after_def)

lemma loop_after_Suc: "loop_after stop acc (Yield v b) (Suc n) = loop_after stop (acc @ [Some v]) b n"
  by (simp add: loop_after_def split: option.split)

lemma loop_after_stuck: "b = Gen_return \<or> b = Gen_throw e \<or> b = Gen_spin \<Longrightarrow> loop_after stop acc b (Suc n) = Goes_on"
  by (auto simp: loop_after_def)

lemma gen_for_loop_end: "gen_for_loop stop 0 st acc = Some (Ran ((acc, None), st))"
  by (subst gen_for_loop.simps) (simp add: giter_defs)

lemma gen_store_done: "gc_done d \<Longrightarrow> \<exists>c. st(h \<mapsto> d) = st(h \<mapsto> c) \<and> gc_done c"
  by blast

text \<open>One round of the loop from a coroutine suspended behind \<open>v\<close>.\<close>

lemma gen_for_loop_round:
  assumes "h \<noteq> 0"
  shows "gen_for_loop stop h (st(h \<mapsto> gen_suspended b v)) acc =
    (case loop_verdict stop (acc @ [Some v]) b of
       Breaks \<Rightarrow> Some (Ran ((acc @ [Some v], None), st(h \<mapsto> gen_suspended b v)))
     | Ends ex \<Rightarrow> Some (Ran ((acc @ [Some v], ex), st(h \<mapsto> (gen_suspended b v)\<lparr>gc_done := True\<rparr>)))
     | Goes_on \<Rightarrow> (case b of Yield w b' \<Rightarrow> gen_for_loop stop h (st(h \<mapsto> gen_suspended b' w)) (acc @ [Some v]) | _ \<Rightarrow> None))"
  using assms by (subst gen_for_loop.simps, cases b)
    (simp_all add: giter_defs gen_for_loop_end loop_verdict_def gen_suspended_def)

lemma gen_for_loop_ends:
  assumes "h \<noteq> 0" "loop_after stop (acc @ [Some v]) b n \<noteq> Goes_on" "\<And>k. k < n \<Longrightarrow> loop_after stop (acc @ [Some v]) b k = Goes_on"
  shows "\<exists>c. gen_for_loop stop h (st(h \<mapsto> gen_suspended b v)) acc =
      Some (Ran ((acc @ Some v # map Some (gen_prefix n b), loop_exn (loop_after stop (acc @ [Some v]) b n)), st(h \<mapsto> c))) \<and>
    loop_leaves (loop_after stop (acc @ [Some v]) b n) (gen_rest n b) c"
  using assms(2,3)
proof (induction n arbitrary: b v acc)
  case 0
  then show ?case
  proof (cases "loop_verdict stop (acc @ [Some v]) b")
    case Breaks
    then show ?thesis
      by (subst gen_for_loop_round [OF assms(1)], intro exI [of _ "gen_suspended b v"]) (simp add: loop_after_0 loop_exn_def loop_leaves_def gen_suspended_sel)
  next
    case (Ends ex)
    then show ?thesis
      by (subst gen_for_loop_round [OF assms(1)], intro exI [of _ "(gen_suspended b v)\<lparr>gc_done := True\<rparr>"]) (simp add: loop_after_0 loop_exn_def loop_leaves_def)
  qed (simp add: loop_after_0)
next
  case (Suc n)
  have go: "loop_verdict stop (acc @ [Some v]) b = Goes_on" using Suc.prems(2) [of 0] by (simp add: loop_after_0)
  obtain w b' where b: "b = Yield w b'"
    using Suc.prems(1) by (cases b) (simp_all add: loop_after_stuck)
  have "loop_after stop ((acc @ [Some v]) @ [Some w]) b' n \<noteq> Goes_on"
    using Suc.prems(1) unfolding b loop_after_Suc .
  moreover have "loop_after stop ((acc @ [Some v]) @ [Some w]) b' k = Goes_on" if "k < n" for k
    using Suc.prems(2) [of "Suc k"] that unfolding b loop_after_Suc by simp
  ultimately obtain c where c: "gen_for_loop stop h (st(h \<mapsto> gen_suspended b' w)) (acc @ [Some v]) =
      Some (Ran (((acc @ [Some v]) @ Some w # map Some (gen_prefix n b'),
        loop_exn (loop_after stop ((acc @ [Some v]) @ [Some w]) b' n)), st(h \<mapsto> c)))"
    and l: "loop_leaves (loop_after stop ((acc @ [Some v]) @ [Some w]) b' n) (gen_rest n b') c"
    using Suc.IH [of "acc @ [Some v]" w b'] by blast
  have "gen_for_loop stop h (st(h \<mapsto> gen_suspended b v)) acc = gen_for_loop stop h (st(h \<mapsto> gen_suspended b' w)) (acc @ [Some v])"
    by (subst gen_for_loop_round [OF assms(1)]) (simp only: go [unfolded b] loop_end.case b gen_body.case)
  with c l show ?case unfolding b loop_after_Suc by (intro exI [of _ c]) (simp only: append_assoc append_Cons append_Nil
      list.map gen_prefix.simps gen_rest.simps gen_body.case)
qed

text \<open>A loop that has a result ends after some number of values.\<close>

lemma gen_for_loop_only_ends:
  fixes st :: "'v gen_store"
  assumes "h \<noteq> 0" "gen_for_loop stop it st acc = Some y"
  shows "it = h \<and> st = st0(h \<mapsto> gen_suspended b v) \<longrightarrow> (\<exists>n. loop_after stop (acc @ [Some v]) b n \<noteq> Goes_on)"
proof (rule gen_for_loop.raw_induct [where P = "\<lambda>stop it st acc y. \<forall>st0 b v. it = h \<and> st = st0(h \<mapsto> gen_suspended b v) \<longrightarrow>
    (\<exists>n. loop_after stop (acc @ [Some v]) b n \<noteq> Goes_on)", OF _ assms(2), THEN spec, THEN spec, THEN spec], intro allI impI)
  fix f stop it and st :: "'v gen_store" and acc y st0 b v
  assume IH: "\<And>stop it st acc y. f stop it st acc = Some y \<Longrightarrow>
      \<forall>st0 b v. it = h \<and> st = st0(h \<mapsto> gen_suspended b v) \<longrightarrow> (\<exists>n. loop_after stop (acc @ [Some v]) b n \<noteq> Goes_on)"
    and eq: "(if giter_neq it gen_end then
      (if stop (acc @ [giter_deref it st]) then Some (Ran ((acc @ [giter_deref it st], None), st))
       else case giter_next it st of
         None \<Rightarrow> None
       | Some Undefined \<Rightarrow> Some Undefined
       | Some (Ran (Inl e, st')) \<Rightarrow> Some (Ran ((acc @ [giter_deref it st], Some e), st'))
       | Some (Ran (Inr it', st')) \<Rightarrow> f stop it' st' (acc @ [giter_deref it st]))
    else Some (Ran ((acc, None), st))) = Some y"
    and pre: "it = h \<and> st = st0(h \<mapsto> gen_suspended b v)"
  show "\<exists>n. loop_after stop (acc @ [Some v]) b n \<noteq> Goes_on"
  proof (cases "loop_verdict stop (acc @ [Some v]) b")
    case Goes_on
    then obtain w b' where b: "b = Yield w b'" and "f stop h (st0(h \<mapsto> gen_suspended b' w)) (acc @ [Some v]) = Some y"
      using eq pre assms(1) by (cases b) (auto simp: giter_defs gen_suspended_def loop_verdict_def split: if_splits)
    with IH [OF this(2)] obtain n where "loop_after stop ((acc @ [Some v]) @ [Some w]) b' n \<noteq> Goes_on" by blast
    then show ?thesis unfolding b loop_after_Suc [symmetric] by blast
  qed (metis loop_after_0 loop_end.distinct(1,3))+
qed

text \<open>
  C20: The loop that the language makes of the iterators of \<open>generator\<close> is the loop over what the coroutine's body yields, for every
  body, the endless ones included, and every loop body that collects the values and may leave the loop with \<open>break\<close>. The loop ends
  after \<open>n\<close> values exactly if \<open>n\<close> is the first number of values behind which the loop body breaks or the generator returns or
  throws: then it has read the first \<open>n\<close> values that the body yields, each while the coroutine is suspended behind it, and
  passes on the exception; behind a \<open>break\<close> the coroutine stays suspended with the rest of its body, otherwise it has finished, and
  no other coroutine is touched. If there is no such number (a body that yields for ever under a loop body that does not break, or a
  body that stops yielding without returning) the loop does not end. It never resumes a finished coroutine or a null handle, and over a
  default constructed generator it is empty.
\<close>

theorem generator_iterators:
  fixes st :: "'v gen_store"
  assumes "h \<noteq> 0" "st h = Some (generator_make b)"
  shows "(\<forall>n. loop_after stop [] b n \<noteq> Goes_on \<and> (\<forall>k<n. loop_after stop [] b k = Goes_on) \<longrightarrow>
      (\<exists>c. gen_for stop h st = Some (Ran ((map Some (gen_prefix n b), loop_exn (loop_after stop [] b n)), st(h \<mapsto> c))) \<and>
         loop_leaves (loop_after stop [] b n) (gen_rest n b) c)) \<and>
    ((\<forall>n. loop_after stop [] b n = Goes_on) \<longrightarrow> gen_for stop h st = None) \<and>
    gen_for stop 0 st = Some (Ran (([], None), st))"
proof (intro conjI allI impI)
  fix n
  assume n: "loop_after stop [] b n \<noteq> Goes_on \<and> (\<forall>k<n. loop_after stop [] b k = Goes_on)"
  show "\<exists>c. gen_for stop h st = Some (Ran ((map Some (gen_prefix n b), loop_exn (loop_after stop [] b n)), st(h \<mapsto> c))) \<and>
     loop_leaves (loop_after stop [] b n) (gen_rest n b) c"
  proof (cases b)
    case (Yield v b')
    then obtain m where m: "n = Suc m" using n by (cases n) (simp_all add: loop_after_0 loop_verdict_def)
    have "loop_after stop [] b (Suc k) = loop_after stop [Some v] b' k" for k
      unfolding Yield loop_after_Suc by simp
    then have "loop_after stop ([] @ [Some v]) b' m \<noteq> Goes_on" "\<And>k. k < m \<Longrightarrow> loop_after stop ([] @ [Some v]) b' k = Goes_on"
      using n m by force+
    from gen_for_loop_ends [OF assms(1) this] show ?thesis
      using assms m by (simp add: Yield gen_for_def giter_defs generator_make_def loop_after_Suc gen_suspended_def)
  next
    case Gen_return
    then have "n = 0" using n by (cases n) (auto simp: loop_after_stuck)
    with Gen_return assms show ?thesis
      by (simp add: gen_for_def giter_defs generator_make_def gen_for_loop_end loop_after_0 loop_verdict_def loop_exn_def
          loop_leaves_def gen_store_done)
  next
    case (Gen_throw e)
    then have "n = 0" using n by (cases n) (auto simp: loop_after_stuck)
    with Gen_throw assms show ?thesis
      by (simp add: gen_for_def giter_defs generator_make_def loop_after_0 loop_verdict_def loop_exn_def loop_leaves_def gen_store_done)
  next
    case Gen_spin
    then show ?thesis using n by (cases n) (auto simp: loop_after_stuck loop_after_0 loop_verdict_def)
  qed
next
  assume never: "\<forall>n. loop_after stop [] b n = Goes_on"
  show "gen_for stop h st = None"
  proof (cases b)
    case (Yield v b')
    have "loop_after stop ([] @ [Some v]) b' k = Goes_on" for k
      using never [THEN spec, of "Suc k"] unfolding Yield loop_after_Suc .
    then have "gen_for_loop stop h (st(h \<mapsto> gen_suspended b' v)) [] = None"
      using gen_for_loop_only_ends [OF assms(1), of stop h "st(h \<mapsto> gen_suspended b' v)" "[]" _ st b' v] by (metis option.exhaust)
    then show ?thesis using assms by (simp add: Yield gen_for_def giter_defs generator_make_def gen_suspended_def)
  qed (use never [THEN spec, of 0] assms in
    \<open>simp_all add: loop_after_0 loop_verdict_def gen_for_def giter_defs generator_make_def\<close>)
next
  show "gen_for stop 0 st = Some (Ran (([], None), st))" by (simp add: gen_for_def gen_begin_def gen_for_loop_end)
qed

text \<open>The generator of the numbers from \<open>n\<close> on, which never ends.\<close>

primcorec gen_count :: "nat \<Rightarrow> nat gen_body" where
  "gen_count n = Yield n (gen_count (Suc n))"

text \<open>
  A loop over all numbers does not end; with a \<open>break\<close> at the second it has read two; and a finite generator ends with its exception.
\<close>

lemma gen_count_never: "loop_after (\<lambda>_. False) acc (gen_count i) n = Goes_on"
proof (induction n arbitrary: i acc)
  case 0
  show ?case by (subst gen_count.code) (simp add: loop_after_0 loop_verdict_def)
next
  case (Suc n)
  show ?case by (subst gen_count.code) (simp only: loop_after_Suc Suc)
qed

theorem generator_iterators_witness:
  "gen_for (\<lambda>_. False) 5 [5 \<mapsto> generator_make (gen_count 0)] = None \<and>
   (\<exists>c. gen_for (\<lambda>acc. length acc = 2) 5 [5 \<mapsto> generator_make (gen_count 0)] = Some (Ran (([Some 0, Some 1], None), [5 \<mapsto> c])) \<and>
     \<not> gc_done c) \<and>
   (\<exists>c. gen_for (\<lambda>_. False) 5 [5 \<mapsto> generator_make (Yield 1 (Yield 2 (Gen_throw (Std_exn ''x''))))] =
     Some (Ran (([Some (1 :: nat), Some 2], Some (Std_exn ''x'')), [5 \<mapsto> c])) \<and> gc_done c)"
proof (intro conjI)
  have h: "(5 :: nat) \<noteq> 0" by simp
  show "gen_for (\<lambda>_. False) 5 [5 \<mapsto> generator_make (gen_count 0)] = None"
    using generator_iterators [OF h, of "[5 \<mapsto> generator_make (gen_count 0)]" "gen_count 0" "\<lambda>_. False"] gen_count_never [of "[]" 0]
    by simp
  let ?b = "gen_count 0" and ?two = "\<lambda>acc :: nat option list. length acc = 2"
  have b: "?b = Yield 0 (Yield 1 (gen_count 2))"
    by (subst gen_count.code, subst gen_count.code) (simp add: numeral_2_eq_2)
  have "loop_after ?two [] ?b 2 = Breaks" "\<forall>k<2. loop_after ?two [] ?b k = Goes_on" "gen_prefix 2 ?b = [0, 1]"
    unfolding b by (simp_all add: numeral_2_eq_2 less_Suc_eq loop_after_Suc loop_after_0 loop_verdict_def)
  then show "\<exists>c. gen_for ?two 5 [5 \<mapsto> generator_make ?b] = Some (Ran (([Some 0, Some 1], None), [5 \<mapsto> c])) \<and> \<not> gc_done c"
    using generator_iterators [OF h, of "[5 \<mapsto> generator_make ?b]" ?b ?two, THEN conjunct1, THEN spec, of 2]
    by (auto simp: loop_leaves_def loop_exn_def)
  let ?f = "Yield 1 (Yield 2 (Gen_throw (Std_exn ''x''))) :: nat gen_body" and ?no = "\<lambda>acc :: nat option list. False"
  have "loop_after ?no [] ?f 2 = Ends (Some (Std_exn ''x''))" "\<forall>k<2. loop_after ?no [] ?f k = Goes_on" "gen_prefix 2 ?f = [1, 2]"
    by (simp_all add: numeral_2_eq_2 less_Suc_eq loop_after_Suc loop_after_0 loop_verdict_def)
  then show "\<exists>c. gen_for ?no 5 [5 \<mapsto> generator_make ?f] = Some (Ran (([Some 1, Some 2], Some (Std_exn ''x'')), [5 \<mapsto> c])) \<and> gc_done c"
    using generator_iterators [OF h, of "[5 \<mapsto> generator_make ?f]" ?f ?no, THEN conjunct1, THEN spec, of 2]
    by (auto simp: loop_leaves_def loop_exn_def)
qed

section \<open>The promises of async<void> and async<T&>\<close>

definition return_void :: "'v promise \<Rightarrow> 'v promise" where
  "return_void p = p"

definition void_result :: "'v promise \<Rightarrow> cxx_exn + unit" where
  "void_result p = (case pr_exception p of Some e \<Rightarrow> Inl e | None \<Rightarrow> Inr ())"

text \<open>A reference is stored as its address; \<open>None\<close> is a read through the null pointer.\<close>

definition return_reference :: "nat \<Rightarrow> nat promise \<Rightarrow> nat promise" where
  "return_reference a p = p\<lparr>pr_value := Some a\<rparr>"

definition reference_result :: "nat promise \<Rightarrow> (cxx_exn + nat) option" where
  "reference_result p =
     (case pr_exception p of Some e \<Rightarrow> Some (Inl e) | None \<Rightarrow> map_option Inr (pr_value p))"

text \<open>\<open>await_resume\<close> of what \<open>when_ready\<close> returns: it looks at nothing, neither at a null handle nor at the exception.\<close>

definition when_ready_resume :: "'v rendezvous option \<Rightarrow> cxx_exn + unit" where
  "when_ready_resume m = Inr ()"

text \<open>
  \<open>starter::start\<close>: \<open>mid\<close> is what the coroutine does before \<open>resume\<close> returns. A null or finished coroutine is not resumed; then,
  and when the continuation was too late, \<open>start\<close> resumes the continuation itself. The result is how the continuation was called and
  the rendezvous.
\<close>

definition starter_start ::
  "continuation \<Rightarrow> 'v async_act list \<Rightarrow> 'v rendezvous option \<Rightarrow> (wakeup list \<times> 'v rendezvous option) option" where
  "starter_start c mid m =
     (case m of
        None \<Rightarrow> Some ([Inline], None)
      | Some s \<Rightarrow>
          if async_ready (Some s) then Some (rv_log s @ [Inline], Some s)
          else
            (case run_acts (async_exec c) (Resume_coroutine # mid @ [Store_continuation, Exchange_awaiter]) s of
               None \<Rightarrow> None
             | Some t \<Rightarrow>
                 if rv_aw t = Aw_suspended then Some (rv_log t, Some t)
                 else map_option (\<lambda>u. (rv_log u, Some u)) (async_exec c Continue_inline t)))"

text \<open>
  When the awaited coroutine has finished, its result is defined for each of the three promises, and the three agree: the void promise and the
  reference promise give the exception where the general one does.
\<close>

lemma promise_kinds_agree:
  assumes "reach async_init (act_step (async_exec c)) s" "rv_co s \<in> {Co_final, Co_wake, Co_done}"
  shows "\<exists>r. rv_body s = Some r \<and> promise_result (rv_promise s) = Some r \<and>
    void_result (rv_promise s) = map_sum id (\<lambda>_. ()) r"
proof -
  have inv: "async_inv c s" by (rule async_sys.reach_inv [OF assms(1)])
  then have b: "rv_body s \<noteq> None" and h: "promise_holds (rv_body s) (rv_promise s)"
    using assms(2) by (auto simp: async_inv_def)
  then obtain r where "rv_body s = Some r" by blast
  with h show ?thesis by (cases r) (auto simp: promise_holds_def promise_result_def void_result_def)
qed

lemma reference_promise:
  "reference_result (return_reference a p) = (case pr_exception p of None \<Rightarrow> Some (Inr a) | Some e \<Rightarrow> Some (Inl e))"
  "reference_result (promise_new :: nat promise) = None" "void_result (return_void promise_new) = Inr ()"
  by (auto simp: reference_result_def return_reference_def promise_new_def void_result_def return_void_def split: option.splits)

text \<open>
  \<open>start\<close> resumes the continuation inline exactly if the coroutine is null, was finished before, or finished while it was resumed; else the
  continuation is left to the coroutine, which resumes it once its body has ended.
\<close>

lemma starter_cases:
  "starter_start c mid None = Some ([Inline], None)"
  "starter_start c [Body_end r, Exchange_final] (Some async_start) = Some (l, Some t) \<Longrightarrow> l = [Inline] \<and> rv_co t = Co_done"
  "starter_start c [] (Some async_start) = Some (l, Some t) \<Longrightarrow>
     l = [] \<and> (\<exists>u. run_acts (async_exec c) [Body_end r, Exchange_final, Resume_continuation] t = Some u \<and>
       rv_log u = [Resumed (continuation_resume c)])"
  by (auto simp: starter_start_def async_ready_def async_start_def async_defs promise_new_def body_end_def return_value_def
      unhandled_exception_def split: sum.splits)

lemma starter_defined:
  "\<exists>x. starter_start c [Body_end r, Exchange_final] (Some async_start) = Some x"
  "\<exists>x. starter_start c [] (Some async_start) = Some x"
  by (simp_all add: starter_start_def async_ready_def async_start_def async_defs promise_new_def body_end_def return_value_def
      unhandled_exception_def split: sum.splits)

section \<open>The iterators of async_generator\<close>

text \<open>
  An operation or an iterator is a handle, 0 for null; the promise of a handle that is not null is the record of \<open>Ice_Async_Gen\<close>.
\<close>

definition agen_finished :: "'v async_gen \<Rightarrow> bool" where
  "agen_finished s \<longleftrightarrow> ag_current s = None"

definition agiter_eq :: "nat \<Rightarrow> nat \<Rightarrow> bool" where
  "agiter_eq a b \<longleftrightarrow> a = b"

definition agiter_neq :: "nat \<Rightarrow> nat \<Rightarrow> bool" where
  "agiter_neq a b \<longleftrightarrow> \<not> agiter_eq a b"

definition agiter_deref :: "'v async_gen \<Rightarrow> 'v option" where
  "agiter_deref s = ag_current s"

definition agen_begin :: "nat \<Rightarrow> nat" where
  "agen_begin m_coroutine = (if m_coroutine = 0 then 0 else m_coroutine)"

definition agen_end :: nat where
  "agen_end = 0"

definition agen_begin_ready :: "nat \<Rightarrow> ag_state \<Rightarrow> bool" where
  "agen_begin_ready m_promise initial \<longleftrightarrow> m_promise = 0 \<or> initial = Ready_suspended"

definition agen_begin_resume :: "nat \<Rightarrow> 'v async_gen \<Rightarrow> cxx_exn + nat" where
  "agen_begin_resume m_promise s =
     (if m_promise = 0 then Inr 0
      else if agen_finished s then (case ag_exception s of Some e \<Rightarrow> Inl e | None \<Rightarrow> Inr 0)
      else Inr m_promise)"

text \<open>The increment operation: the iterator after it, and the iterator returned or the exception.\<close>

definition agen_increment_resume :: "nat \<Rightarrow> 'v async_gen \<Rightarrow> nat \<times> (cxx_exn + nat)" where
  "agen_increment_resume m_iterator s =
     (if agen_finished s then (0, case ag_exception s of Some e \<Rightarrow> Inl e | None \<Rightarrow> Inr 0)
      else (m_iterator, Inr m_iterator))"

lemmas agen_defs = agen_finished_def agiter_eq_def agiter_neq_def agiter_deref_def agen_begin_def agen_end_def agen_begin_ready_def
  agen_begin_resume_def agen_increment_resume_def

text \<open>
  The iterators tell what the machine records. When \<open>await_resume\<close> runs, the iterator it gives is different from \<open>end()\<close> exactly if there is
  a next value, which is the one the iterator then refers to; the end without exception gives \<open>end()\<close>; an exception leaves both
  operations, and after an increment that threw the iterator equals \<open>end()\<close>.
\<close>

lemma agen_iterators:
  assumes "reach (\<lambda>s. s = async_gen_start) (act_step async_gen_exec) s" "ag_c s = C_result" "h \<noteq> 0"
  shows "\<exists>t. async_gen_exec Consumer s = Some t \<and> ag_c t = C_use \<and>
    snd (agen_increment_resume h s) = agen_begin_resume (agen_begin h) s \<and>
    (case agen_begin_resume (agen_begin h) s of
       Inl e \<Rightarrow> ag_ended t = Some (Some e) \<and> \<not> agiter_neq (fst (agen_increment_resume h s)) agen_end
     | Inr it \<Rightarrow>
         if agiter_neq it agen_end
         then \<exists>v. agiter_deref t = Some v \<and> ag_seen t = ag_seen s @ [v] \<and> ag_ended t = None \<and> fst (agen_increment_resume h s) = it
         else ag_ended t = Some None \<and> ag_seen t = ag_seen s \<and> \<not> agiter_neq (fst (agen_increment_resume h s)) agen_end)"
proof -
  have "ag_inv s" by (rule async_generator.reach_inv [OF assms(1)])
  with assms(2) have "ag_ended s = None" by (simp add: ag_inv_def ag_data_def)
  then show ?thesis
    using assms(2,3) by (cases "ag_current s"; cases "ag_exception s")
      (simp_all add: consumer_step.simps advance_result_def agen_defs)
qed

text \<open>A default constructed generator: \<open>begin\<close> is ready at once and gives \<open>end()\<close>.\<close>

lemma agen_null:
  "agen_begin_ready (agen_begin 0) i" "agen_begin_resume (agen_begin 0) s = Inr agen_end"
  by (simp_all add: agen_defs)

section \<open>Ownership of an async_generator\<close>

text \<open>\<open>agc_cancelled\<close> lists the promises whose \<open>request_cancellation\<close> the destructors have called.\<close>

record agens =
  agc_coroutine :: "nat \<Rightarrow> nat"
  agc_cancelled :: "nat list"

definition agen_make :: "nat \<Rightarrow> nat \<Rightarrow> agens \<Rightarrow> agens" where
  "agen_make t h s = s\<lparr>agc_coroutine := (agc_coroutine s)(t := h)\<rparr>"

definition agen_move_ctor :: "nat \<Rightarrow> nat \<Rightarrow> agens \<Rightarrow> agens" where
  "agen_move_ctor t other s =
     (let s1 = s\<lparr>agc_coroutine := (agc_coroutine s)(t := agc_coroutine s other)\<rparr>
      in s1\<lparr>agc_coroutine := (agc_coroutine s1)(other := 0)\<rparr>)"

definition agen_dtor :: "nat \<Rightarrow> agens \<Rightarrow> agens" where
  "agen_dtor t s =
     (if agc_coroutine s t \<noteq> 0 then s\<lparr>agc_cancelled := agc_cancelled s @ [agc_coroutine s t]\<rparr> else s)"

definition agen_swap :: "nat \<Rightarrow> nat \<Rightarrow> agens \<Rightarrow> agens" where
  "agen_swap t other s =
     s\<lparr>agc_coroutine := (agc_coroutine s)(t := agc_coroutine s other, other := agc_coroutine s t)\<rparr>"

text \<open>\<open>temp\<close> stands for the address of the local object; what the store has there otherwise is put back.\<close>

definition agen_move_assign :: "nat \<Rightarrow> nat \<Rightarrow> agens \<Rightarrow> agens" where
  "agen_move_assign t other s =
     (let temp = Suc (max t other);
          before = agc_coroutine s temp;
          s1 = agen_dtor temp (agen_swap t temp (agen_move_ctor temp other s))
      in s1\<lparr>agc_coroutine := (agc_coroutine s1)(temp := before)\<rparr>)"

lemmas agens_defs = agen_make_def agen_move_ctor_def agen_dtor_def agen_swap_def

lemma agen_move_assign_alt:
  "agen_move_assign t other s =
     (let s1 = s\<lparr>agc_coroutine := (agc_coroutine s)(other := 0)\<rparr>
      in s1\<lparr>agc_coroutine := (agc_coroutine s1)(t := agc_coroutine s other),
           agc_cancelled := agc_cancelled s @ keep 0 (agc_coroutine s1 t)\<rparr>)"
  by (cases s) (auto simp: agen_move_assign_def agens_defs keep_def Let_def fun_upd_twist)

interpretation async_gen_owner: move_only 0 agc_coroutine agc_cancelled agen_make agen_move_ctor
    "Some agen_move_assign" agen_dtor
  by unfold_locales (auto simp: agens_defs agen_move_assign_alt keep_def Let_def)

text \<open>
  No promise is cancelled twice, as the assertion in \<open>request_cancellation\<close> requires, and none is forgotten: whatever sequence of constructions, moves and
  destructions runs, every coroutine is held by one live generator or was cancelled once.
\<close>

lemma agens_exactly_once:
  assumes "run_acts (own_step agen_make agen_move_ctor (Some agen_move_assign) agen_dtor) cs ([], s0) = Some (live, s)"
    and "agc_cancelled s0 = []"
  shows "owned 0 (agc_coroutine s) live + mset (agc_cancelled s) = acquired 0 cs"
  by (rule async_gen_owner.run_exactly_once [OF assms])

section \<open>The lock operations of async_mutex\<close>

text \<open>A lock operation refers to its mutex; the scoped one gives a lock that owns the mutex when it is resumed.\<close>

record lock_operation =
  lo_mutex :: addr
  lo_next :: addr
  lo_awaiter :: addr

definition lock_operation_make :: "addr \<Rightarrow> addr \<Rightarrow> addr \<Rightarrow> lock_operation" where
  "lock_operation_make m junk1 junk2 = \<lparr>lo_mutex = m, lo_next = junk1, lo_awaiter = junk2\<rparr>"

definition lock_async :: "addr \<Rightarrow> addr \<Rightarrow> addr \<Rightarrow> lock_operation" where
  "lock_async m junk1 junk2 = lock_operation_make m junk1 junk2"

definition scoped_lock_async :: "addr \<Rightarrow> addr \<Rightarrow> addr \<Rightarrow> lock_operation" where
  "scoped_lock_async m junk1 junk2 = lock_operation_make m junk1 junk2"

definition lock_ready :: "lock_operation \<Rightarrow> bool" where
  "lock_ready op = False"

definition scoped_lock_resume :: "nat \<Rightarrow> lock_operation \<Rightarrow> mutex_locks \<Rightarrow> mutex_locks" where
  "scoped_lock_resume t op s = mutex_lock_adopt t (lo_mutex op) s"

text \<open>The assertions of the destructor.\<close>

definition mutex_dtor_assert :: "mutex \<Rightarrow> bool" where
  "mutex_dtor_assert s \<longleftrightarrow>
     (let state = mx_state s in (state = not_locked \<or> state = locked_no_waiters) \<and> mx_waiters s = 0)"

text \<open>The lock that a scoped operation gives unlocks its mutex once, when the last object it was moved to is destroyed.\<close>

lemma scoped_lock_unlocks:
  assumes "m \<noteq> 0" "t \<noteq> u" "ml_unlocked s = []"
  shows "ml_unlocked (mutex_lock_dtor u (mutex_lock_dtor t (mutex_lock_move_ctor u t
           (scoped_lock_resume t (scoped_lock_async m j1 j2) s)))) = [m]"
  using assms by (simp add: scoped_lock_resume_def scoped_lock_async_def lock_operation_make_def mutex_lock_adopt_def
      mutex_lock_move_ctor_def mutex_lock_dtor_def Let_def)

text \<open>The positions inside \<open>unlock\<close>.\<close>

fun in_unlock :: "mpc \<Rightarrow> bool" where
  "in_unlock Holding = False"
| "in_unlock p = in_cs p"

lemma owner_view_idle: "in_cs p \<Longrightarrow> \<not> in_unlock p \<Longrightarrow> p = Holding"
  by (cases p) auto

text \<open>
  C19: The mutex may be destroyed exactly when nobody waits for it. Whenever no thread is inside \<open>unlock\<close>, the assertions of the destructor hold
  if and only if no coroutine is suspended in a lock operation; the holder of the lock, if there is one, does not matter.
\<close>

theorem mutex_dtor_safe:
  assumes "reach mutex_init (act_step mutex_exec) s" "\<forall>a. \<not> in_unlock (mx_pc s a)"
  shows "mutex_dtor_assert s \<longleftrightarrow> (\<forall>a. mx_pc s a \<noteq> Parked)"
proof -
  obtain own q where "mutex_rel s (own, q)" using mutex.reach_sim [OF assms(1)] by (metis surj_pair)
  then obtain W S where inv: "mutex_inv s own W S" by (auto simp: mutex_rel_def)
  then have "\<forall>a. mx_pc s a = Parked \<longleftrightarrow> a \<in> set W \<union> set S" by (simp add: mutex_inv_def)
  then have parked: "(\<forall>a. mx_pc s a \<noteq> Parked) \<longleftrightarrow> W = [] \<and> S = []" by (metis Un_iff emptyE last_in_set set_empty)
  show ?thesis
  proof (cases own)
    case None
    with inv parked show ?thesis by (simp add: mutex_inv_def mutex_dtor_assert_def)
  next
    case (Some h)
    then have cs: "in_cs (mx_pc s h)" using inv by (simp add: mutex_inv_def)
    note o = inv_own [OF inv cs]
    have "mx_pc s h = Holding" using owner_view_idle cs assms(2) by blast
    with o(2) have "chain (mx_next s) (mx_waiters s) W" by simp
    then have "mx_waiters s = 0 \<longleftrightarrow> W = []" "mx_state s = 0 \<longleftrightarrow> S = []" using o(3) chain_Cons_iff by metis+
    with o(4) parked show ?thesis by (auto simp: mutex_dtor_assert_def locked_no_waiters_def)
  qed
qed

text \<open>While 4 and 6 wait the assertions fail; before they came they held, with the lock taken.\<close>

theorem mutex_dtor_safe_witness:
  "\<not> mutex_dtor_assert mutex1 \<and> (\<exists>s. run_acts mutex_exec [Try 2] mutex0 = Some s \<and> mutex_dtor_assert s)"
proof
  have pc: "mx_pc mutex1 a \<in> {Out, Holding, Parked}" for a
    by (simp add: mutex1_def mutex_schedule_def mutex0_def mutex_ops)
  have "\<not> in_unlock (mx_pc mutex1 a)" for a using pc [of a] by auto
  with mutex_dtor_safe [OF mutex1_reach] mutex1_pc(2) show "\<not> mutex_dtor_assert mutex1" by auto
  obtain s where s: "run_acts mutex_exec [Try 2] mutex0 = Some s" "mx_pc s = (\<lambda>_. Out)(2 := Holding)"
    by (simp add: mutex0_def mutex_ops)
  have "reach mutex_init (act_step mutex_exec) s"
    by (rule run_acts_reach [OF s(1)]) (simp add: reach.reach_init mutex_init_def mutex0_def)
  from mutex_dtor_safe [OF this] s show "\<exists>s. run_acts mutex_exec [Try 2] mutex0 = Some s \<and> mutex_dtor_assert s" by auto
qed

end
