(* ===== verification/Ice_Sys.thy ===== *)
theory Ice_Sys
  imports Ice_Error
begin

text \<open>
  The operating system as the program sees it. No system call is defined here: a value of \<open>'k usys\<close>
  (Unix) or \<open>'k wsys\<close> (Windows) is a parameter of every definition that makes calls, and \<open>'k\<close> is the
  state behind them. A Unix call gives its return value, the value of \<open>errno\<close> after it, the contents of
  what its pointer arguments point to, and the new kernel state; a Windows call gives its
  return value and the value of \<open>GetLastError\<close> or \<open>WSAGetLastError\<close>. The numbers of the platform headers the code
  compares with are fields too. What the code relies on is stated, where a property needs it, as
  a contract over these fields, in the words of the calls' documentation.
\<close>

section \<open>Data shared with the kernel\<close>

text \<open>
  \<open>sockaddr_storage\<close>, with the members \<open>sockaddr_in\<close> and \<open>sockaddr_in6\<close> give access to. The port is in
  network byte order.
\<close>

record sockaddr =
  sa_family :: int
  sa_port :: "16 word"
  sa_addr4 :: "byte list"
  sa_addr6 :: "byte list"

definition sockaddr_zero :: sockaddr where
  "sockaddr_zero = \<lparr>sa_family = 0, sa_port = 0, sa_addr4 = [0, 0, 0, 0], sa_addr6 = replicate 16 0\<rparr>"

datatype ep_flag = EPOLLIN | EPOLLOUT | EPOLLONESHOT

datatype ep_op = EPOLL_CTL_ADD | EPOLL_CTL_MOD | EPOLL_CTL_DEL

datatype ev_filter = EVFILT_READ | EVFILT_WRITE | EVFILT_USER

datatype ev_flag = EV_ADD | EV_ONESHOT | EV_CLEAR

datatype ev_note = NOTE_TRIGGER

text \<open>
  The \<open>native_event\<close> inside an event object: an \<open>epoll_event\<close> (flags and \<open>data.ptr\<close>), a \<open>kevent\<close> (ident, filter,
  flags, fflags and \<open>udata\<close>) or an \<open>OVERLAPPED\<close>, whose content the program never looks at.
\<close>

datatype native_event =
    Epoll_event "ep_flag set" nat
  | Kevent int ev_filter "ev_flag set" "ev_note set" nat
  | Overlapped

definition native_zero :: "os \<Rightarrow> native_event" where
  "native_zero p =
     (case p of Win32 \<Rightarrow> Overlapped
      | Unix Linux \<Rightarrow> Epoll_event {} 0
      | Unix FreeBSD \<Rightarrow> Kevent 0 EVFILT_READ {} {} 0)"

section \<open>System calls\<close>

record 'k usys =
  EAGAIN :: int
  EINTR :: int
  ECONNRESET :: int
  EINPROGRESS :: int
  EINVAL :: int
  sys_close :: "int \<Rightarrow> 'k \<Rightarrow> int \<times> int \<times> 'k"
  sys_epoll_create1 :: "'k \<Rightarrow> int \<times> int \<times> 'k"
  sys_eventfd :: "'k \<Rightarrow> int \<times> int \<times> 'k"
  sys_kqueue :: "'k \<Rightarrow> int \<times> int \<times> 'k"
  sys_epoll_ctl :: "int \<Rightarrow> ep_op \<Rightarrow> int \<Rightarrow> native_event \<Rightarrow> 'k \<Rightarrow> int \<times> int \<times> 'k"
  sys_kevent :: "int \<Rightarrow> native_event \<Rightarrow> 'k \<Rightarrow> int \<times> int \<times> 'k"
  sys_wait :: "int \<Rightarrow> i32 \<Rightarrow> 'k \<Rightarrow> int \<times> int \<times> native_event list \<times> 'k"
  sys_socket :: "int \<Rightarrow> int \<Rightarrow> int \<Rightarrow> 'k \<Rightarrow> int \<times> int \<times> 'k"
  sys_bind :: "int \<Rightarrow> sockaddr \<Rightarrow> u32 \<Rightarrow> 'k \<Rightarrow> int \<times> int \<times> 'k"
  sys_listen :: "int \<Rightarrow> i32 \<Rightarrow> 'k \<Rightarrow> int \<times> int \<times> 'k"
  sys_shutdown :: "int \<Rightarrow> int \<Rightarrow> 'k \<Rightarrow> int \<times> int \<times> 'k"
  sys_getsockopt :: "int \<Rightarrow> int \<Rightarrow> int \<Rightarrow> u32 \<Rightarrow> 'k \<Rightarrow> int \<times> int \<times> i32 list \<times> u32 \<times> 'k"
  sys_setsockopt :: "int \<Rightarrow> int \<Rightarrow> int \<Rightarrow> i32 list \<Rightarrow> u32 \<Rightarrow> 'k \<Rightarrow> int \<times> int \<times> 'k"
  sys_accept4 :: "int \<Rightarrow> sockaddr \<Rightarrow> u32 \<Rightarrow> 'k \<Rightarrow> int \<times> int \<times> sockaddr \<times> u32 \<times> 'k"
  sys_connect :: "int \<Rightarrow> sockaddr \<Rightarrow> u32 \<Rightarrow> 'k \<Rightarrow> int \<times> int \<times> 'k"
  sys_read :: "int \<Rightarrow> nat \<Rightarrow> 'k \<Rightarrow> int \<times> int \<times> byte list \<times> 'k"
  sys_write :: "int \<Rightarrow> byte list \<Rightarrow> 'k \<Rightarrow> int \<times> int \<times> 'k"
  sys_recvfrom :: "int \<Rightarrow> nat \<Rightarrow> sockaddr \<Rightarrow> u32 \<Rightarrow> 'k \<Rightarrow> int \<times> int \<times> byte list \<times> sockaddr \<times> u32 \<times> 'k"
  sys_sendto :: "int \<Rightarrow> byte list \<Rightarrow> sockaddr \<Rightarrow> u32 \<Rightarrow> 'k \<Rightarrow> int \<times> int \<times> 'k"
  sys_recv :: "int \<Rightarrow> nat \<Rightarrow> int \<Rightarrow> 'k \<Rightarrow> int \<times> int \<times> byte list \<times> 'k"
  sys_send :: "int \<Rightarrow> byte list \<Rightarrow> int \<Rightarrow> 'k \<Rightarrow> int \<times> int \<times> 'k"

text \<open>
  Handles are \<open>uintptr_t\<close> values. An overlapped call that has been started is completed by the kernel
  later; \<open>win_result\<close> is \<open>GetOverlappedResult\<close>, with the number of bytes it stores, \<open>win_remote_addr\<close> the
  address \<open>AcceptEx\<close> has put into the buffer of the operation at an address, \<open>win_protocol_info\<close> is \<open>getsockopt\<close>
  with \<open>SO_PROTOCOL_INFO\<close>, of which the program reads \<open>iProtocol\<close>, and \<open>win_connect_ex\<close> is the \<open>WSAIoctl\<close> that looks up
  \<open>ConnectEx\<close>, whose calls are \<open>win_connect\<close>.
\<close>

type_synonym whandle = "64 word"

record 'k wsys =
  ERROR_IO_PENDING :: int
  ERROR_ABANDONED_WAIT_0 :: int
  WSAECONNRESET :: int
  win_close :: "whandle \<Rightarrow> 'k \<Rightarrow> 'k"
  win_wsa_startup :: "'k \<Rightarrow> int \<times> 16 word \<times> 'k"
  win_create_port :: "'k \<Rightarrow> whandle \<times> int \<times> 'k"
  win_associate :: "whandle \<Rightarrow> whandle \<Rightarrow> 'k \<Rightarrow> bool \<times> int \<times> 'k"
  win_completion_modes :: "whandle \<Rightarrow> 'k \<Rightarrow> bool \<times> int \<times> 'k"
  win_post :: "whandle \<Rightarrow> nat \<Rightarrow> 'k \<Rightarrow> bool \<times> int \<times> 'k"
  win_wait :: "whandle \<Rightarrow> u32 \<Rightarrow> 'k \<Rightarrow> bool \<times> int \<times> nat list \<times> 'k"
  win_socket :: "int \<Rightarrow> int \<Rightarrow> int \<Rightarrow> 'k \<Rightarrow> whandle \<times> int \<times> 'k"
  win_closesocket :: "whandle \<Rightarrow> 'k \<Rightarrow> 'k"
  win_bind :: "whandle \<Rightarrow> sockaddr \<Rightarrow> i32 \<Rightarrow> 'k \<Rightarrow> bool \<times> int \<times> 'k"
  win_listen :: "whandle \<Rightarrow> i32 \<Rightarrow> 'k \<Rightarrow> bool \<times> int \<times> 'k"
  win_shutdown :: "whandle \<Rightarrow> int \<Rightarrow> 'k \<Rightarrow> bool \<times> int \<times> 'k"
  win_accept :: "whandle \<Rightarrow> whandle \<Rightarrow> nat \<Rightarrow> 'k \<Rightarrow> bool \<times> int \<times> 'k"
  win_remote_addr :: "nat \<Rightarrow> 'k \<Rightarrow> sockaddr"
  win_getsockopt :: "whandle \<Rightarrow> int \<Rightarrow> int \<Rightarrow> i32 \<Rightarrow> 'k \<Rightarrow> bool \<times> int \<times> i32 list \<times> i32 \<times> 'k"
  win_setsockopt :: "whandle \<Rightarrow> int \<Rightarrow> int \<Rightarrow> i32 list \<Rightarrow> i32 \<Rightarrow> 'k \<Rightarrow> bool \<times> int \<times> 'k"
  win_protocol_info :: "whandle \<Rightarrow> 'k \<Rightarrow> bool \<times> int \<times> int \<times> 'k"
  win_connect_ex :: "whandle \<Rightarrow> 'k \<Rightarrow> bool \<times> int \<times> 'k"
  win_connect :: "whandle \<Rightarrow> sockaddr \<Rightarrow> i32 \<Rightarrow> nat \<Rightarrow> 'k \<Rightarrow> bool \<times> int \<times> 'k"
  win_recv :: "whandle \<Rightarrow> nat \<Rightarrow> nat \<Rightarrow> 'k \<Rightarrow> bool \<times> int \<times> byte list \<times> 'k"
  win_send :: "whandle \<Rightarrow> byte list \<Rightarrow> nat \<Rightarrow> 'k \<Rightarrow> bool \<times> int \<times> u32 \<times> 'k"
  win_recvfrom :: "whandle \<Rightarrow> nat \<Rightarrow> sockaddr \<Rightarrow> i32 \<Rightarrow> nat \<Rightarrow> 'k \<Rightarrow> bool \<times> int \<times> byte list \<times> sockaddr \<times> i32 \<times> 'k"
  win_sendto :: "whandle \<Rightarrow> byte list \<Rightarrow> sockaddr \<Rightarrow> i32 \<Rightarrow> nat \<Rightarrow> 'k \<Rightarrow> bool \<times> int \<times> u32 \<times> 'k"
  win_result :: "whandle \<Rightarrow> nat \<Rightarrow> 'k \<Rightarrow> bool \<times> int \<times> u32 \<times> 'k"

text \<open>The memory of the process, and the kernel.\<close>

record 'k world =
  w_mem :: "nat \<Rightarrow> byte"
  w_kern :: 'k

text \<open>
  The error numbers the code tells apart are positive, distinct and below the category bits of an
  error code.
\<close>

definition errno_ok :: "'k usys \<Rightarrow> bool" where
  "errno_ok U \<longleftrightarrow>
     distinct [EAGAIN U, EINTR U, ECONNRESET U, EINPROGRESS U, EINVAL U] \<and>
     (\<forall>e\<in>{EAGAIN U, EINTR U, ECONNRESET U, EINPROGRESS U, EINVAL U}. 0 < e \<and> e < 2 ^ 28)"

text \<open>
  A kernel in which every call fails with \<open>EINVAL\<close>, with the error numbers of Linux: the concrete kernels of
  the witnesses override the calls they need.
\<close>

definition failing_unix :: "'k usys" where
  "failing_unix =
     \<lparr>EAGAIN = 11, EINTR = 4, ECONNRESET = 104, EINPROGRESS = 115, EINVAL = 22,
      sys_close = \<lambda>_ k. (-1, 22, k), sys_epoll_create1 = \<lambda>k. (-1, 22, k), sys_eventfd = \<lambda>k. (-1, 22, k),
      sys_kqueue = \<lambda>k. (-1, 22, k), sys_epoll_ctl = \<lambda>_ _ _ _ k. (-1, 22, k), sys_kevent = \<lambda>_ _ k. (-1, 22, k),
      sys_wait = \<lambda>_ _ k. (-1, 22, [], k), sys_socket = \<lambda>_ _ _ k. (-1, 22, k), sys_bind = \<lambda>_ _ _ k. (-1, 22, k),
      sys_listen = \<lambda>_ _ k. (-1, 22, k), sys_shutdown = \<lambda>_ _ k. (-1, 22, k),
      sys_getsockopt = \<lambda>_ _ _ n k. (-1, 22, [], n, k), sys_setsockopt = \<lambda>_ _ _ _ _ k. (-1, 22, k),
      sys_accept4 = \<lambda>_ a n k. (-1, 22, a, n, k),
      sys_connect = \<lambda>_ _ _ k. (-1, 22, k), sys_read = \<lambda>_ _ k. (-1, 22, [], k),
      sys_write = \<lambda>_ _ k. (-1, 22, k),
      sys_recvfrom = \<lambda>_ _ a n k. (-1, 22, [], a, n, k),
      sys_sendto = \<lambda>_ _ _ _ k. (-1, 22, k), sys_recv = \<lambda>_ _ _ k. (-1, 22, [], k), sys_send = \<lambda>_ _ _ k. (-1, 22, k)\<rparr>"

text \<open>The same for Windows; every call fails with \<open>WSAEINVAL\<close>.\<close>

definition failing_win :: "'k wsys" where
  "failing_win =
     \<lparr>ERROR_IO_PENDING = 997, ERROR_ABANDONED_WAIT_0 = 735, WSAECONNRESET = 10054,
      win_close = \<lambda>_ k. k, win_wsa_startup = \<lambda>k. (10022, 0, k), win_create_port = \<lambda>k. (0, 10022, k),
      win_associate = \<lambda>_ _ k. (False, 10022, k), win_completion_modes = \<lambda>_ k. (False, 10022, k),
      win_post = \<lambda>_ _ k. (False, 10022, k), win_wait = \<lambda>_ _ k. (False, 10022, [], k),
      win_socket = \<lambda>_ _ _ k. (-1, 10022, k), win_closesocket = \<lambda>_ k. k, win_bind = \<lambda>_ _ _ k. (False, 10022, k),
      win_listen = \<lambda>_ _ k. (False, 10022, k), win_shutdown = \<lambda>_ _ k. (False, 10022, k),
      win_accept = \<lambda>_ _ _ k. (False, 10022, k), win_remote_addr = \<lambda>_ _. sockaddr_zero,
      win_getsockopt = \<lambda>_ _ _ n k. (False, 10022, [], n, k), win_setsockopt = \<lambda>_ _ _ _ _ k. (False, 10022, k),
      win_protocol_info = \<lambda>_ k. (False, 10022, 0, k), win_connect_ex = \<lambda>_ k. (False, 10022, k),
      win_connect = \<lambda>_ _ _ _ k. (False, 10022, k), win_recv = \<lambda>_ _ _ k. (False, 10022, [], k),
      win_send = \<lambda>_ _ _ k. (False, 10022, 0, k), win_recvfrom = \<lambda>_ _ a n _ k. (False, 10022, [], a, n, k),
      win_sendto = \<lambda>_ _ _ _ _ k. (False, 10022, 0, k), win_result = \<lambda>_ _ k. (False, 10022, 0, k)\<rparr>"

section \<open>Closing a descriptor\<close>

text \<open>
  The close functors of \<open>context\<close> and \<open>net::socket\<close> on Unix: \<open>while (::close(handle) && errno == EINTR)\<close>.
  \<open>None\<close> is a loop that never ends.
\<close>

partial_function (option) close_loop :: "'k usys \<Rightarrow> int \<Rightarrow> 'k \<Rightarrow> 'k option" where
  "close_loop U h k =
     (case sys_close U h k of (rc, errno, k') \<Rightarrow>
        if rc \<noteq> 0 \<and> errno = EINTR U then close_loop U h k' else Some k')"

declare close_loop.simps [code]

text \<open>Calls that are interrupted at most \<open>n\<close> times in a row from a state on.\<close>

fun interrupted_at_most :: "('k \<Rightarrow> bool \<times> 'k) \<Rightarrow> nat \<Rightarrow> 'k \<Rightarrow> bool" where
  "interrupted_at_most call 0 k = (\<not> fst (call k))"
| "interrupted_at_most call (Suc n) k =
     (case call k of (again, k') \<Rightarrow> again \<longrightarrow> interrupted_at_most call n k')"

definition close_again :: "'k usys \<Rightarrow> int \<Rightarrow> 'k \<Rightarrow> bool \<times> 'k" where
  "close_again U h k = (case sys_close U h k of (rc, errno, k') \<Rightarrow> (rc \<noteq> 0 \<and> errno = EINTR U, k'))"

lemma close_loop_returns:
  "interrupted_at_most (close_again U h) n k \<Longrightarrow> \<exists>k'. close_loop U h k = Some k'"
proof (induction n arbitrary: k)
  case 0
  then show ?case by (subst close_loop.simps) (auto simp: close_again_def split: prod.splits)
next
  case (Suc n)
  then show ?case
    by (subst close_loop.simps) (auto simp: close_again_def split: prod.splits if_splits)
qed

text \<open>What every \<open>close\<close> leaves alone, closing until it is not interrupted leaves alone.\<close>

lemma close_loop_keeps:
  assumes "close_loop U h k = Some k'" "\<forall>h k. obs (snd (snd (sys_close U h k))) = obs k"
  shows "obs k' = obs k"
proof -
  let ?keeps = "\<lambda>U. \<forall>h k. obs (snd (snd (sys_close U h k))) = obs k"
  have "?keeps U \<longrightarrow> obs k' = obs k"
  proof (rule close_loop.raw_induct [where P = "\<lambda>U h k k'. ?keeps U \<longrightarrow> obs k' = obs k", OF _ assms(1)], rule impI)
    fix loop U h k k'
    assume IH: "\<And>U h k k'. loop U h k = Some k' \<Longrightarrow> ?keeps U \<longrightarrow> obs k' = obs k"
      and step: "(case sys_close U h k of (rc, errno, k') \<Rightarrow> if rc \<noteq> 0 \<and> errno = EINTR U then loop U h k' else Some k') = Some k'"
      and keeps: "?keeps U"
    obtain rc errno k1 where r: "sys_close U h k = (rc, errno, k1)" by (metis prod_cases3)
    have "obs k1 = obs k" using spec [OF spec [OF keeps, of h], of k] r by simp
    with step r IH [of U h k1 k'] keeps show "obs k' = obs k" by (auto split: if_splits)
  qed
  with assms(2) show ?thesis by blast
qed

text \<open>The errno constants of \<open>failing_unix\<close>.\<close>

lemma errno_ok_failing [simp]: "errno_ok failing_unix"
  by (simp add: errno_ok_def failing_unix_def)

end
