(* ===== verification/Ice_Event.thy ===== *)
theory Ice_Event
  imports Ice_Sys
begin

text \<open>
  The event object every asynchronous operation derives from (include/ice/event.h, src/ice/event.cpp) and
  the protocol by which a coroutine awaits one. An operation is a record that extends \<open>event\<close>; a
  state is the operation and the world. The address of the object (\<open>this\<close>, stored in the native event for the
  dispatcher) is a parameter.

  The locale \<open>awaitable\<close> is the contract between an operation and this protocol: if
  \<open>await_ready\<close> (from the precondition), \<open>suspend\<close> and \<open>resume\<close> return, keep the operation's invariant and report
  completion only where its postcondition holds, the awaiting coroutine is continued at most once, and only with the
  postcondition. Where an operation also relies on being dispatched only when the kernel has reported what it was registered for, the
  contract is \<open>reported_awaitable\<close>, over the protocol with that report, \<open>report_exec\<close>; \<open>awaitable\<close> is the case in which the report does not
  matter. Every operation of the program is an interpretation of one of the two.
\<close>

section \<open>The event object\<close>

text \<open>\<open>native_context_\<close> and \<open>native_id_\<close> exist on Linux only; elsewhere they keep their initial values.\<close>

record event =
  ev_ec :: error_code
  ev_native_context :: int
  ev_native_id :: int
  ev_awaiter :: nat
  ev_native :: native_event

definition event_make :: "os \<Rightarrow> event" where
  "event_make p =
     \<lparr>ev_ec = ec_none, ev_native_context = -1, ev_native_id = -1, ev_awaiter = 0, ev_native = native_zero p\<rparr>"

section \<open>Registering with the kernel\<close>

text \<open>
  The three \<open>queue\<close> functions and \<open>remove\<close> on Linux. On failure they store \<open>errno\<close> in the event and
  return false.
\<close>

definition queue_fail :: "int \<Rightarrow> 'a event_scheme \<Rightarrow> 'a event_scheme" where
  "queue_fail errno e = e\<lparr>ev_ec := ec_native errno\<rparr>"

definition queue_recv_linux ::
  "'k usys \<Rightarrow> nat \<Rightarrow> int \<Rightarrow> int \<Rightarrow> 'a event_scheme \<times> ('k, 'm) world_scheme \<Rightarrow> bool \<times> 'a event_scheme \<times> ('k, 'm) world_scheme" where
  "queue_recv_linux U this context fd = (\<lambda>(e, w).
     let e1 = e\<lparr>ev_native_context := context, ev_native_id := fd,
                ev_native := Epoll_event {EPOLLIN, EPOLLONESHOT} this\<rparr>
     in case sys_epoll_ctl U context EPOLL_CTL_ADD fd (ev_native e1) (w_kern w) of (rc, errno, k) \<Rightarrow>
          if rc < 0 then (False, queue_fail errno e1, w\<lparr>w_kern := k\<rparr>)
          else (True, e1, w\<lparr>w_kern := k\<rparr>))"

definition queue_send_linux ::
  "'k usys \<Rightarrow> nat \<Rightarrow> int \<Rightarrow> int \<Rightarrow> 'a event_scheme \<times> ('k, 'm) world_scheme \<Rightarrow> bool \<times> 'a event_scheme \<times> ('k, 'm) world_scheme" where
  "queue_send_linux U this context fd = (\<lambda>(e, w).
     let e1 = e\<lparr>ev_native_context := context, ev_native_id := fd,
                ev_native := Epoll_event {EPOLLOUT, EPOLLONESHOT} this\<rparr>
     in case sys_epoll_ctl U context EPOLL_CTL_ADD fd (ev_native e1) (w_kern w) of (rc, errno, k) \<Rightarrow>
          if rc < 0 then (False, queue_fail errno e1, w\<lparr>w_kern := k\<rparr>)
          else (True, e1, w\<lparr>w_kern := k\<rparr>))"

definition queue_note_linux ::
  "'k usys \<Rightarrow> nat \<Rightarrow> int \<Rightarrow> int \<Rightarrow> 'a event_scheme \<times> ('k, 'm) world_scheme \<Rightarrow> bool \<times> 'a event_scheme \<times> ('k, 'm) world_scheme" where
  "queue_note_linux U this context fd = (\<lambda>(e, w).
     let e1 = e\<lparr>ev_native := Epoll_event {EPOLLOUT, EPOLLONESHOT} this\<rparr>
     in case sys_epoll_ctl U context EPOLL_CTL_MOD fd (ev_native e1) (w_kern w) of (rc, errno, k) \<Rightarrow>
          if rc < 0 then (False, queue_fail errno e1, w\<lparr>w_kern := k\<rparr>)
          else (True, e1, w\<lparr>w_kern := k\<rparr>))"

definition event_remove_linux ::
  "'k usys \<Rightarrow> 'a event_scheme \<times> ('k, 'm) world_scheme \<Rightarrow> 'a event_scheme \<times> ('k, 'm) world_scheme" where
  "event_remove_linux U = (\<lambda>(e, w).
     if ev_native_context e \<noteq> -1 \<and> ev_native_id e \<noteq> -1 then
       (case sys_epoll_ctl U (ev_native_context e) EPOLL_CTL_DEL (ev_native_id e) (ev_native e) (w_kern w) of
          (rc, errno, k) \<Rightarrow>
            (e\<lparr>ev_native_context := -1, ev_native_id := -1\<rparr>, w\<lparr>w_kern := k\<rparr>))
     else (e, w))"

text \<open>The same on FreeBSD.\<close>

definition queue_recv_bsd ::
  "'k usys \<Rightarrow> nat \<Rightarrow> int \<Rightarrow> int \<Rightarrow> 'a event_scheme \<times> ('k, 'm) world_scheme \<Rightarrow> bool \<times> 'a event_scheme \<times> ('k, 'm) world_scheme" where
  "queue_recv_bsd U this context fd = (\<lambda>(e, w).
     let e1 = e\<lparr>ev_native := Kevent fd EVFILT_READ {EV_ADD, EV_ONESHOT} {} this\<rparr>
     in case sys_kevent U context (ev_native e1) (w_kern w) of (rc, errno, k) \<Rightarrow>
          if rc < 0 then (False, queue_fail errno e1, w\<lparr>w_kern := k\<rparr>)
          else (True, e1, w\<lparr>w_kern := k\<rparr>))"

definition queue_send_bsd ::
  "'k usys \<Rightarrow> nat \<Rightarrow> int \<Rightarrow> int \<Rightarrow> 'a event_scheme \<times> ('k, 'm) world_scheme \<Rightarrow> bool \<times> 'a event_scheme \<times> ('k, 'm) world_scheme" where
  "queue_send_bsd U this context fd = (\<lambda>(e, w).
     let e1 = e\<lparr>ev_native := Kevent fd EVFILT_WRITE {EV_ADD, EV_ONESHOT} {} this\<rparr>
     in case sys_kevent U context (ev_native e1) (w_kern w) of (rc, errno, k) \<Rightarrow>
          if rc < 0 then (False, queue_fail errno e1, w\<lparr>w_kern := k\<rparr>)
          else (True, e1, w\<lparr>w_kern := k\<rparr>))"

definition queue_note_bsd ::
  "'k usys \<Rightarrow> nat \<Rightarrow> int \<Rightarrow> int \<Rightarrow> 'a event_scheme \<times> ('k, 'm) world_scheme \<Rightarrow> bool \<times> 'a event_scheme \<times> ('k, 'm) world_scheme" where
  "queue_note_bsd U this context fd = (\<lambda>(e, w).
     let e1 = e\<lparr>ev_native := Kevent fd EVFILT_USER {EV_ADD, EV_ONESHOT} {NOTE_TRIGGER} this\<rparr>
     in case sys_kevent U context (ev_native e1) (w_kern w) of (rc, errno, k) \<Rightarrow>
          if rc < 0 then (False, queue_fail errno e1, w\<lparr>w_kern := k\<rparr>)
          else (True, e1, w\<lparr>w_kern := k\<rparr>))"

definition queue_recv ::
  "unix \<Rightarrow> 'k usys \<Rightarrow> nat \<Rightarrow> int \<Rightarrow> int \<Rightarrow> 'a event_scheme \<times> ('k, 'm) world_scheme \<Rightarrow> bool \<times> 'a event_scheme \<times> ('k, 'm) world_scheme" where
  "queue_recv u U this context fd s =
     (case u of Linux \<Rightarrow> queue_recv_linux U this context fd s | FreeBSD \<Rightarrow> queue_recv_bsd U this context fd s)"

definition queue_send ::
  "unix \<Rightarrow> 'k usys \<Rightarrow> nat \<Rightarrow> int \<Rightarrow> int \<Rightarrow> 'a event_scheme \<times> ('k, 'm) world_scheme \<Rightarrow> bool \<times> 'a event_scheme \<times> ('k, 'm) world_scheme" where
  "queue_send u U this context fd s =
     (case u of Linux \<Rightarrow> queue_send_linux U this context fd s | FreeBSD \<Rightarrow> queue_send_bsd U this context fd s)"

definition queue_note ::
  "unix \<Rightarrow> 'k usys \<Rightarrow> nat \<Rightarrow> int \<Rightarrow> int \<Rightarrow> 'a event_scheme \<times> ('k, 'm) world_scheme \<Rightarrow> bool \<times> 'a event_scheme \<times> ('k, 'm) world_scheme" where
  "queue_note u U this context fd s =
     (case u of Linux \<Rightarrow> queue_note_linux U this context fd s | FreeBSD \<Rightarrow> queue_note_bsd U this context fd s)"

definition event_remove ::
  "unix \<Rightarrow> 'k usys \<Rightarrow> 'a event_scheme \<times> ('k, 'm) world_scheme \<Rightarrow> 'a event_scheme \<times> ('k, 'm) world_scheme" where
  "event_remove u U s = (case u of Linux \<Rightarrow> event_remove_linux U s | FreeBSD \<Rightarrow> s)"

section \<open>Awaiting an event\<close>

text \<open>
  \<open>event::await_suspend\<close> and \<open>event::await_resume\<close>, over the virtual functions \<open>suspend\<close> and \<open>resume\<close> of the
  operation; \<open>remove\<close> is the identity except on Linux. A function of an operation that loops may not return, which is
  \<open>None\<close>. \<open>event_await_resume\<close> tells whether \<open>awaiter_.resume()\<close> is called.
\<close>

type_synonym ('e, 'w) op_call = "'e \<times> 'w \<Rightarrow> (bool \<times> 'e \<times> 'w) option"

definition event_await_suspend ::
  "('a event_scheme, 'w) op_call \<Rightarrow> nat \<Rightarrow> ('a event_scheme, 'w) op_call" where
  "event_await_suspend suspend awaiter = (\<lambda>(e, w). suspend (e\<lparr>ev_awaiter := awaiter\<rparr>, w))"

definition event_await_resume ::
  "('s \<Rightarrow> 's) \<Rightarrow> ('s \<Rightarrow> (bool \<times> 's) option) \<Rightarrow> ('s \<Rightarrow> (bool \<times> 's) option) \<Rightarrow> 's \<Rightarrow> (bool \<times> 's) option" where
  "event_await_resume remove resume suspend s =
     (case resume (remove s) of
        None \<Rightarrow> None
      | Some (done, s1) \<Rightarrow>
          if done then Some (True, s1)
          else (case suspend s1 of
                  None \<Rightarrow> None
                | Some (pending, s2) \<Rightarrow> Some (\<not> pending, s2)))"

text \<open>\<open>co_await\<close> of an operation up to its suspension: whether the coroutine goes on at once.\<close>

definition co_await_begin ::
  "('a event_scheme, 'w) op_call \<Rightarrow> ('a event_scheme, 'w) op_call \<Rightarrow> nat \<Rightarrow> ('a event_scheme, 'w) op_call" where
  "co_await_begin ready suspend awaiter s =
     (case ready s of
        None \<Rightarrow> None
      | Some (r, s1) \<Rightarrow>
          if r then Some (True, s1) else map_option (\<lambda>(pending, s2). (\<not> pending, s2)) (event_await_suspend suspend awaiter s1))"

text \<open>
  \<open>co_await\<close> of an operation: \<open>await_ready\<close>, then \<open>await_suspend\<close>; a suspended awaiter is continued by the
  dispatcher calling \<open>await_resume\<close> of the event. Between these, other threads and the network change the
  world, within \<open>env\<close>. \<open>aw_wakes\<close> counts the times the awaiter has been continued.
\<close>

datatype await_mode = Before | Suspended | Continued

record 's awaiting =
  aw_mode :: await_mode
  aw_state :: 's
  aw_wakes :: nat

datatype 'w await_act = Co_await nat | Dispatch | Env 'w

definition await_start :: "'s \<Rightarrow> 's awaiting" where
  "await_start s = \<lparr>aw_mode = Before, aw_state = s, aw_wakes = 0\<rparr>"

definition await_end :: "bool \<Rightarrow> 's \<Rightarrow> 's awaiting \<Rightarrow> 's awaiting" where
  "await_end continued s m =
     (if continued then m\<lparr>aw_mode := Continued, aw_state := s, aw_wakes := aw_wakes m + 1\<rparr>
      else m\<lparr>aw_mode := Suspended, aw_state := s\<rparr>)"

fun await_exec ::
  "('a event_scheme, 'w) op_call \<Rightarrow> ('a event_scheme, 'w) op_call \<Rightarrow> ('a event_scheme, 'w) op_call \<Rightarrow>
   ('a event_scheme \<times> 'w \<Rightarrow> 'a event_scheme \<times> 'w) \<Rightarrow> ('w \<Rightarrow> 'w \<Rightarrow> bool) \<Rightarrow>
   'w await_act \<Rightarrow> ('a event_scheme \<times> 'w) awaiting \<Rightarrow> ('a event_scheme \<times> 'w) awaiting option" where
  "await_exec ready suspend resume remove env (Co_await awaiter) m =
     (if aw_mode m = Before then
        (case ready (aw_state m) of
           None \<Rightarrow> None
         | Some (r, s1) \<Rightarrow>
             if r then Some (await_end True s1 m)
             else map_option (\<lambda>(pending, s2). await_end (\<not> pending) s2 m) (event_await_suspend suspend awaiter s1))
      else None)"
| "await_exec ready suspend resume remove env Dispatch m =
     (if aw_mode m = Suspended then
        map_option (\<lambda>(b, s). await_end b s m) (event_await_resume remove resume suspend (aw_state m))
      else None)"
| "await_exec ready suspend resume remove env (Env w) m =
     (if aw_mode m \<noteq> Continued \<and> env (snd (aw_state m)) w
      then Some (m\<lparr>aw_state := (fst (aw_state m), w)\<rparr>) else None)"

section \<open>The contract of an operation\<close>

locale awaitable =
  fixes ready :: "('a event_scheme, 'w) op_call"
    and suspend :: "('a event_scheme, 'w) op_call"
    and resume :: "('a event_scheme, 'w) op_call"
    and remove :: "'a event_scheme \<times> 'w \<Rightarrow> 'a event_scheme \<times> 'w"
    and env :: "'w \<Rightarrow> 'w \<Rightarrow> bool"
    and pre :: "'a event_scheme \<times> 'w \<Rightarrow> bool"
    and inv :: "'a event_scheme \<times> 'w \<Rightarrow> bool"
    and post :: "'a event_scheme \<times> 'w \<Rightarrow> bool"
  assumes ready_law: "pre s \<Longrightarrow> \<exists>b t. ready s = Some (b, t) \<and> (if b then post t else inv t)"
    and suspend_law: "inv s \<Longrightarrow> \<exists>b t. suspend s = Some (b, t) \<and> (if b then inv t else post t)"
    and resume_law: "inv s \<Longrightarrow> \<exists>b t. resume s = Some (b, t) \<and> (if b then post t else inv t)"
    and remove_law: "inv s \<Longrightarrow> inv (remove s)"
    and awaiter_law: "inv (e, w) \<Longrightarrow> inv (e\<lparr>ev_awaiter := a\<rparr>, w)"
    and env_law: "inv (e, w) \<Longrightarrow> env w w' \<Longrightarrow> inv (e, w')"
    and pre_law: "pre (e, w) \<Longrightarrow> env w w' \<Longrightarrow> pre (e, w')"
begin

definition await_inv :: "('a event_scheme \<times> 'w) awaiting \<Rightarrow> bool" where
  "await_inv m \<longleftrightarrow>
     (case aw_mode m of
        Before \<Rightarrow> pre (aw_state m) \<and> aw_wakes m = 0
      | Suspended \<Rightarrow> inv (aw_state m) \<and> aw_wakes m = 0
      | Continued \<Rightarrow> post (aw_state m) \<and> aw_wakes m = 1)"

lemma await_inv_end:
  "(if b then post s else inv s) \<Longrightarrow> aw_wakes m = 0 \<Longrightarrow> await_inv (await_end b s m)"
  by (cases b) (simp_all add: await_inv_def await_end_def)

lemma await_begin_law:
  assumes "inv s"
  shows "\<exists>b t. event_await_suspend suspend a s = Some (b, t) \<and> (if \<not> b then post t else inv t)"
proof -
  obtain e w where s: "s = (e, w)" by (metis prod.exhaust)
  with assms have "inv (e\<lparr>ev_awaiter := a\<rparr>, w)" by (simp add: awaiter_law)
  from suspend_law [OF this] obtain b t where "suspend (e\<lparr>ev_awaiter := a\<rparr>, w) = Some (b, t)" "if b then inv t else post t"
    by blast
  then show ?thesis by (intro exI [of _ b] exI [of _ t]) (simp add: s event_await_suspend_def)
qed

lemma await_resume_law:
  assumes "inv s"
  shows "\<exists>b t. event_await_resume remove resume suspend s = Some (b, t) \<and> (if b then post t else inv t)"
proof -
  from resume_law [OF remove_law [OF assms]] obtain b t
    where r: "resume (remove s) = Some (b, t)" "if b then post t else inv t" by blast
  show ?thesis
  proof (cases b)
    case True
    with r show ?thesis by (intro exI [of _ True] exI [of _ t]) (simp add: event_await_resume_def)
  next
    case False
    with r suspend_law [of t] obtain p v where "suspend t = Some (p, v)" "if p then inv v else post v" by auto
    with False r show ?thesis
      by (intro exI [of _ "\<not> p"] exI [of _ v]) (simp add: event_await_resume_def)
  qed
qed

text \<open>A suspension point is always reached or left, and keeps the invariant of the protocol.\<close>

lemma await_co_await:
  assumes "await_inv m" "aw_mode m = Before"
  shows "\<exists>m'. await_exec ready suspend resume remove env (Co_await a) m = Some m' \<and> await_inv m'"
proof -
  from assms have m: "pre (aw_state m)" "aw_wakes m = 0" by (auto simp: await_inv_def)
  from ready_law [OF m(1)] obtain r s where r: "ready (aw_state m) = Some (r, s)" "if r then post s else inv s" by blast
  show ?thesis
  proof (cases r)
    case True
    with r assms(2) m show ?thesis using await_inv_end [of True s m] by simp
  next
    case False
    with r await_begin_law [of s a] obtain b t
      where "event_await_suspend suspend a s = Some (b, t)" "if \<not> b then post t else inv t" by auto
    with False r assms(2) await_inv_end [OF _ m(2), of "\<not> b" t] show ?thesis by simp
  qed
qed

lemma await_dispatch:
  assumes "await_inv m" "aw_mode m = Suspended"
  shows "\<exists>m'. await_exec ready suspend resume remove env Dispatch m = Some m' \<and> await_inv m'"
proof -
  from assms have m: "inv (aw_state m)" "aw_wakes m = 0" by (auto simp: await_inv_def)
  from await_resume_law [OF m(1)] obtain b t
    where "event_await_resume remove resume suspend (aw_state m) = Some (b, t)" "if b then post t else inv t" by blast
  with assms(2) await_inv_end [OF _ m(2), of b t] show ?thesis by simp
qed

lemma await_inv_step:
  assumes "await_inv m" "await_exec ready suspend resume remove env a m = Some m'"
  shows "await_inv m'"
proof (cases a)
  case (Co_await awaiter)
  with assms await_co_await [OF assms(1), of awaiter] show ?thesis by (auto split: if_splits)
next
  case Dispatch
  with assms await_dispatch [OF assms(1)] show ?thesis by (auto split: if_splits)
next
  case (Env w)
  with assms show ?thesis
    using env_law [of "fst (aw_state m)" "snd (aw_state m)" w] pre_law [of "fst (aw_state m)" "snd (aw_state m)" w]
    by (auto simp: await_inv_def split: if_splits await_mode.splits)
qed

lemma await_reach:
  assumes "pre s0" "reach (\<lambda>m. m = await_start s0) (act_step (await_exec ready suspend resume remove env)) m"
  shows "await_inv m"
  using assms(2)
proof (induction rule: reach.induct)
  case (reach_init m)
  with assms(1) show ?case by (simp add: await_inv_def await_start_def)
next
  case (reach_step m m')
  then show ?case using await_inv_step by blast
qed

text \<open>The awaiter is continued at most once, and then the operation's postcondition holds.\<close>

lemma await_done:
  assumes "pre s0" "reach (\<lambda>m. m = await_start s0) (act_step (await_exec ready suspend resume remove env)) m"
  shows "aw_wakes m = (if aw_mode m = Continued then 1 else 0)" and "aw_mode m = Continued \<Longrightarrow> post (aw_state m)"
  using await_reach [OF assms] by (auto simp: await_inv_def split: await_mode.splits)

text \<open>No function of the operation fails to return.\<close>

lemma await_returns:
  assumes "pre s0" "reach (\<lambda>m. m = await_start s0) (act_step (await_exec ready suspend resume remove env)) m"
  shows "aw_mode m = Before \<Longrightarrow> \<exists>m'. await_exec ready suspend resume remove env (Co_await a) m = Some m'"
    and "aw_mode m = Suspended \<Longrightarrow> \<exists>m'. await_exec ready suspend resume remove env Dispatch m = Some m'"
  using await_co_await [of m a] await_dispatch [of m] await_reach [OF assms] by blast+

end

section \<open>Awaiting what the kernel reports\<close>

text \<open>
  A dispatcher gets an event from the kernel only when the condition it was registered for has come true. The registration is what the
  operation passed to the kernel last, kept in its \<open>native_\<close>: a descriptor for input or for output. \<open>readable\<close> and \<open>writable\<close> say of a kernel
  state that input or output on a descriptor would be reported (an error on it is reported for both).
\<close>

definition registration_fires ::
  "(int \<Rightarrow> 'k \<Rightarrow> bool) \<Rightarrow> (int \<Rightarrow> 'k \<Rightarrow> bool) \<Rightarrow> 'a event_scheme \<times> ('k, 'm) world_scheme \<Rightarrow> bool" where
  "registration_fires readable writable = (\<lambda>(e, w).
     case ev_native e of
       Epoll_event fl p \<Rightarrow>
         (EPOLLIN \<in> fl \<and> readable (ev_native_id e) (w_kern w)) \<or> (EPOLLOUT \<in> fl \<and> writable (ev_native_id e) (w_kern w))
     | Kevent i f fl n p \<Rightarrow>
         (case f of EVFILT_READ \<Rightarrow> readable i (w_kern w) | EVFILT_WRITE \<Rightarrow> writable i (w_kern w) | EVFILT_USER \<Rightarrow> NOTE_TRIGGER \<in> n)
     | Overlapped \<Rightarrow> False)"

text \<open>
  The protocol with that report: a suspended operation is reported when its registration fires, and dispatched, possibly later, once for
  every report.
\<close>

datatype 'w report_act = Report | Act "'w await_act"

fun report_exec ::
  "('a event_scheme \<times> 'w \<Rightarrow> bool) \<Rightarrow>
   ('w await_act \<Rightarrow> ('a event_scheme \<times> 'w) awaiting \<Rightarrow> ('a event_scheme \<times> 'w) awaiting option) \<Rightarrow>
   'w report_act \<Rightarrow> ('a event_scheme \<times> 'w) awaiting \<times> bool \<Rightarrow> (('a event_scheme \<times> 'w) awaiting \<times> bool) option" where
  "report_exec fires exec Report (m, reported) =
     (if aw_mode m = Suspended \<and> fires (aw_state m) then Some (m, True) else None)"
| "report_exec fires exec (Act Dispatch) (m, reported) =
     (if reported then map_option (\<lambda>m'. (m', False)) (exec Dispatch m) else None)"
| "report_exec fires exec (Act a) (m, reported) = map_option (\<lambda>m'. (m', reported)) (exec a m)"

definition report_start :: "'s \<Rightarrow> 's awaiting \<times> bool" where
  "report_start s = (await_start s, False)"

text \<open>
  The contract of an operation that relies on the report: \<open>armed\<close> holds while it is suspended, \<open>hot\<close> from the report on, and only then
  \<open>resume\<close> is called.
\<close>

locale reported_awaitable =
  fixes ready :: "('a event_scheme, 'w) op_call"
    and suspend :: "('a event_scheme, 'w) op_call"
    and resume :: "('a event_scheme, 'w) op_call"
    and remove :: "'a event_scheme \<times> 'w \<Rightarrow> 'a event_scheme \<times> 'w"
    and env :: "'w \<Rightarrow> 'w \<Rightarrow> bool"
    and fires :: "'a event_scheme \<times> 'w \<Rightarrow> bool"
    and pre :: "'a event_scheme \<times> 'w \<Rightarrow> bool"
    and inv :: "'a event_scheme \<times> 'w \<Rightarrow> bool"
    and armed :: "'a event_scheme \<times> 'w \<Rightarrow> bool"
    and hot :: "'a event_scheme \<times> 'w \<Rightarrow> bool"
    and post :: "'a event_scheme \<times> 'w \<Rightarrow> bool"
  assumes begin_law: "pre s \<Longrightarrow> \<exists>b t. ready s = Some (b, t) \<and> (if b then post t else inv t)"
    and arm_law: "inv s \<Longrightarrow> \<exists>b t. suspend s = Some (b, t) \<and> (if b then armed t else post t)"
    and report_law: "armed s \<Longrightarrow> fires s \<Longrightarrow> hot s"
    and disarm_law: "hot s \<Longrightarrow> hot (remove s)"
    and fire_law: "hot s \<Longrightarrow> \<exists>b t. resume s = Some (b, t) \<and> (if b then post t else inv t)"
    and coroutine_law: "inv (e, w) \<Longrightarrow> inv (e\<lparr>ev_awaiter := a\<rparr>, w)"
    and env_laws: "env w w' \<Longrightarrow> pre (e, w) \<Longrightarrow> pre (e, w')" "env w w' \<Longrightarrow> armed (e, w) \<Longrightarrow> armed (e, w')"
      "env w w' \<Longrightarrow> hot (e, w) \<Longrightarrow> hot (e, w')"
begin

definition report_inv :: "('a event_scheme \<times> 'w) awaiting \<times> bool \<Rightarrow> bool" where
  "report_inv = (\<lambda>(m, reported).
     case aw_mode m of
       Before \<Rightarrow> pre (aw_state m) \<and> aw_wakes m = 0 \<and> \<not> reported
     | Suspended \<Rightarrow> armed (aw_state m) \<and> aw_wakes m = 0 \<and> (reported \<longrightarrow> hot (aw_state m))
     | Continued \<Rightarrow> post (aw_state m) \<and> aw_wakes m = 1)"

lemma report_inv_end:
  "(if b then post s else armed s) \<Longrightarrow> aw_wakes m = 0 \<Longrightarrow> report_inv (await_end b s m, False)"
  by (cases b) (simp_all add: report_inv_def await_end_def)

text \<open>The first suspension, and a dispatch after a report.\<close>

lemma report_co_await:
  assumes "report_inv (m, r)" "aw_mode m = Before"
  shows "\<exists>m'. await_exec ready suspend resume remove env (Co_await a) m = Some m' \<and> report_inv (m', r)"
proof -
  from assms have m: "pre (aw_state m)" "aw_wakes m = 0" "\<not> r" by (auto simp: report_inv_def)
  from begin_law [OF m(1)] obtain b s where b: "ready (aw_state m) = Some (b, s)" "if b then post s else inv s" by blast
  show ?thesis
  proof (cases b)
    case True
    with b assms(2) m report_inv_end [of True s m] show ?thesis by simp
  next
    case False
    obtain e w where s: "s = (e, w)" by (metis prod.exhaust)
    from False b coroutine_law [of e w a] have "inv (e\<lparr>ev_awaiter := a\<rparr>, w)" by (simp add: s)
    from arm_law [OF this] obtain p t where "suspend (e\<lparr>ev_awaiter := a\<rparr>, w) = Some (p, t)" "if p then armed t else post t" by blast
    with False b assms(2) m report_inv_end [of "\<not> p" t m] show ?thesis
      by (simp add: s event_await_suspend_def split: if_splits)
  qed
qed

lemma report_dispatch:
  assumes "report_inv (m, True)" "aw_mode m = Suspended"
  shows "\<exists>m'. await_exec ready suspend resume remove env Dispatch m = Some m' \<and> report_inv (m', False)"
proof -
  from assms have m: "hot (aw_state m)" "aw_wakes m = 0" by (auto simp: report_inv_def)
  from fire_law [OF disarm_law [OF m(1)]] obtain b s where b: "resume (remove (aw_state m)) = Some (b, s)" "if b then post s else inv s"
    by blast
  show ?thesis
  proof (cases b)
    case True
    with b assms(2) m report_inv_end [of True s m] show ?thesis by (simp add: event_await_resume_def)
  next
    case False
    with b arm_law [of s] obtain p t where "suspend s = Some (p, t)" "if p then armed t else post t" by auto
    with False b assms(2) m report_inv_end [of "\<not> p" t m] show ?thesis
      by (simp add: event_await_resume_def split: if_splits)
  qed
qed

lemma report_inv_step:
  assumes "report_inv x" "report_exec fires (await_exec ready suspend resume remove env) a x = Some y"
  shows "report_inv y"
proof -
  obtain m r where x: "x = (m, r)" by (metis prod.exhaust)
  show ?thesis
  proof (cases a)
    case Report
    with assms report_law [of "aw_state m"] show ?thesis by (auto simp: x report_inv_def split: if_splits)
  next
    case (Act act)
    show ?thesis
    proof (cases act)
      case (Co_await n)
      with Act assms report_co_await [of m r n] show ?thesis by (auto simp: x simp del: await_exec.simps split: if_splits)
        (metis await_exec.simps(1) option.distinct(1) option.inject)
    next
      case Dispatch
      with Act assms report_dispatch [of m] show ?thesis by (auto simp: x split: if_splits)
    next
      case (Env w)
      with Act assms env_laws [of "snd (aw_state m)" w "fst (aw_state m)"] show ?thesis
        by (auto simp: x report_inv_def split: if_splits await_mode.splits)
    qed
  qed
qed

lemma report_reach:
  assumes "pre s0" "reach (\<lambda>x. x = report_start s0) (act_step (report_exec fires (await_exec ready suspend resume remove env))) x"
  shows "report_inv x"
  using assms(2)
proof (induction rule: reach.induct)
  case (reach_init x)
  with assms(1) show ?case by (simp add: report_inv_def report_start_def await_start_def)
next
  case (reach_step x y)
  then show ?case using report_inv_step by blast
qed

lemma report_done:
  assumes "pre s0" "reach (\<lambda>x. x = report_start s0) (act_step (report_exec fires (await_exec ready suspend resume remove env))) x"
  shows "aw_wakes (fst x) = (if aw_mode (fst x) = Continued then 1 else 0)"
    and "aw_mode (fst x) = Continued \<Longrightarrow> post (aw_state (fst x))"
  using report_reach [OF assms] by (auto simp: report_inv_def split: prod.splits await_mode.splits)

text \<open>No function of the operation fails to return.\<close>

lemma report_returns:
  assumes "pre s0" "reach (\<lambda>x. x = report_start s0) (act_step (report_exec fires (await_exec ready suspend resume remove env))) x"
  shows "aw_mode (fst x) = Before \<Longrightarrow> \<exists>m'. await_exec ready suspend resume remove env (Co_await a) (fst x) = Some m'"
    and "aw_mode (fst x) = Suspended \<Longrightarrow> snd x \<Longrightarrow> \<exists>m'. await_exec ready suspend resume remove env Dispatch (fst x) = Some m'"
  using report_co_await [of "fst x" "snd x" a] report_dispatch [of "fst x"] report_reach [OF assms]
  by (cases x; auto simp del: await_exec.simps; blast)+

end

text \<open>An operation that relies on nothing but its invariant may be dispatched at any time.\<close>

sublocale awaitable < reported: reported_awaitable ready suspend resume remove env fires pre inv inv inv post for fires
  by unfold_locales
    ((rule ready_law suspend_law resume_law, assumption) | blast intro: remove_law awaiter_law env_law pre_law)+

lemma some_law: "(case x of (b, t) \<Rightarrow> Q b t) \<Longrightarrow> \<exists>b t. Some x = Some (b, t) \<and> Q b t"
  by (cases x) simp

section \<open>Frame rules of the queue functions\<close>

text \<open>
  A property of the operation and the world that depends neither on the native event nor on its registration,
  and that registration calls leave alone, survives queueing and removal; a failed registration
  leaves the error in the event.
\<close>

definition register_ok :: "unix \<Rightarrow> 'k usys \<Rightarrow> ('k \<Rightarrow> 'k \<Rightarrow> bool) \<Rightarrow> bool" where
  "register_ok u U keeps \<longleftrightarrow>
     (case u of
        Linux \<Rightarrow> (\<forall>c p h e k. case sys_epoll_ctl U c p h e k of (rc, errno, k') \<Rightarrow>
                   keeps k k' \<and> (rc < 0 \<longrightarrow> 0 < errno \<and> errno < 2 ^ 28))
      | FreeBSD \<Rightarrow> (\<forall>c e k. case sys_kevent U c e k of (rc, errno, k') \<Rightarrow>
                   keeps k k' \<and> (rc < 0 \<longrightarrow> 0 < errno \<and> errno < 2 ^ 28)))"

lemma ec_bool_errno: "0 < v \<Longrightarrow> v < 2 ^ 28 \<Longrightarrow> ec_bool (ec_native v)"
  using word_of_int_small_inj [of v 0] by (auto simp: ec_bool_def ec_native_def)

lemma ec_bool_none [simp]: "\<not> ec_bool ec_none"
  by (simp add: ec_bool_def ec_none_def)

lemmas queue_defs = queue_recv_def queue_send_def queue_note_def queue_recv_linux_def queue_send_linux_def
  queue_note_linux_def queue_recv_bsd_def queue_send_bsd_def queue_note_bsd_def queue_fail_def

lemma queue_law:
  assumes ok: "register_ok u U keeps"
    and stable: "\<And>e w c i nev k. I (e, w) \<Longrightarrow> keeps (w_kern w) k \<Longrightarrow>
      I (e\<lparr>ev_native_context := c, ev_native_id := i, ev_native := nev\<rparr>, w\<lparr>w_kern := k\<rparr>)"
    and fails: "\<And>e w ec. I (e, w) \<Longrightarrow> ec_bool ec \<Longrightarrow> P (e\<lparr>ev_ec := ec\<rparr>, w)"
    and inv: "I (e, w)"
  shows "case queue_recv u U this c h (e, w) of (b, t) \<Rightarrow> if b then I t else P t"
    and "case queue_send u U this c h (e, w) of (b, t) \<Rightarrow> if b then I t else P t"
    and "case queue_note u U this c h (e, w) of (b, t) \<Rightarrow> if b then I t else P t"
proof -
  have nev: "I (e\<lparr>ev_native := nev\<rparr>, w\<lparr>w_kern := k\<rparr>)" if "keeps (w_kern w) k" for nev k
    using stable [OF inv that, where c = "ev_native_context e" and i = "ev_native_id e" and nev = nev] by simp
  have call: "case (case r of (rc, errno, k) \<Rightarrow>
        if rc < 0 then (False, queue_fail errno f, w\<lparr>w_kern := k\<rparr>) else (True, f, w\<lparr>w_kern := k\<rparr>)) of
      (b, t) \<Rightarrow> if b then I t else P t"
    if "case r of (rc, errno, k) \<Rightarrow> keeps (w_kern w) k \<and> (rc < 0 \<longrightarrow> 0 < errno \<and> errno < 2 ^ 28)"
      "\<And>k. keeps (w_kern w) k \<Longrightarrow> I (f, w\<lparr>w_kern := k\<rparr>)"
    for r f
    using that by (cases r) (auto simp: queue_fail_def intro!: fails ec_bool_errno)
  have linux: "case sys_epoll_ctl U a p b n (w_kern w) of (rc, errno, k) \<Rightarrow>
      keeps (w_kern w) k \<and> (rc < 0 \<longrightarrow> 0 < errno \<and> errno < 2 ^ 28)" if "u = Linux" for a p b n
    using ok that unfolding register_ok_def by simp
  have bsd: "case sys_kevent U a n (w_kern w) of (rc, errno, k) \<Rightarrow>
      keeps (w_kern w) k \<and> (rc < 0 \<longrightarrow> 0 < errno \<and> errno < 2 ^ 28)" if "u = FreeBSD" for a n
    using ok that unfolding register_ok_def by simp
  show "case queue_recv u U this c h (e, w) of (b, t) \<Rightarrow> if b then I t else P t"
    unfolding queue_recv_def queue_recv_linux_def queue_recv_bsd_def Let_def
    by (cases u; simp only: unix.case prod.case; rule call) ((rule linux bsd nev stable [OF inv], assumption)+)
  show "case queue_send u U this c h (e, w) of (b, t) \<Rightarrow> if b then I t else P t"
    unfolding queue_send_def queue_send_linux_def queue_send_bsd_def Let_def
    by (cases u; simp only: unix.case prod.case; rule call) ((rule linux bsd nev stable [OF inv], assumption)+)
  show "case queue_note u U this c h (e, w) of (b, t) \<Rightarrow> if b then I t else P t"
    unfolding queue_note_def queue_note_linux_def queue_note_bsd_def Let_def
    by (cases u; simp only: unix.case prod.case; rule call) ((rule linux bsd nev, assumption)+)
qed

lemma remove_law_of:
  assumes "register_ok u U keeps"
    and "\<And>e w c i nev k. I (e, w) \<Longrightarrow> keeps (w_kern w) k \<Longrightarrow>
      I (e\<lparr>ev_native_context := c, ev_native_id := i, ev_native := nev\<rparr>, w\<lparr>w_kern := k\<rparr>)"
    and "I (e, w)"
  shows "I (event_remove u U (e, w))"
proof (cases u)
  case FreeBSD
  with assms(3) show ?thesis by (simp add: event_remove_def)
next
  case Linux
  obtain rc errno k where r: "sys_epoll_ctl U (ev_native_context e) EPOLL_CTL_DEL (ev_native_id e) (ev_native e) (w_kern w) = (rc, errno, k)"
    by (metis prod_cases3)
  have "case sys_epoll_ctl U (ev_native_context e) EPOLL_CTL_DEL (ev_native_id e) (ev_native e) (w_kern w) of (rc, errno, k') \<Rightarrow>
      keeps (w_kern w) k' \<and> (rc < 0 \<longrightarrow> 0 < errno \<and> errno < 2 ^ 28)"
    using assms(1) Linux unfolding register_ok_def by simp
  with r have "keeps (w_kern w) k" by simp
  from assms(2) [OF assms(3) this, where c = "-1" and i = "-1" and nev = "ev_native e"]
  have "I (e\<lparr>ev_native_context := -1, ev_native_id := -1\<rparr>, w\<lparr>w_kern := k\<rparr>)" by simp
  with r assms(3) Linux show ?thesis by (simp add: event_remove_def event_remove_linux_def)
qed

end
