(* ===== verification/Ice_Net.thy ===== *)
theory Ice_Net
  imports Ice_Sys "HOL-Library.Sublist"
begin

text \<open>
  Endpoints, socket options, buffers and the socket base class: include/ice/net/endpoint.h, option.h, buffer.h,
  socket.h and src/ice/net/*.cpp. The numbers of the socket headers and the address functions of the
  platform (\<open>inet_pton\<close>, \<open>inet_ntop\<close>, \<open>htons\<close>, \<open>ntohs\<close>) are a parameter, the record \<open>net_abi\<close>.
\<close>

record net_abi =
  AF_INET :: int
  AF_INET6 :: int
  SOCK_STREAM :: int
  SOCK_DGRAM :: int
  SOCK_NONBLOCK :: int
  IPPROTO_TCP :: int
  IPPROTO_UDP :: int
  SOMAXCONN :: i32
  SOL_SOCKET :: int
  SO_BROADCAST :: int
  SO_DONTROUTE :: int
  SO_KEEPALIVE :: int
  SO_LINGER :: int
  SO_RCVBUF :: int
  SO_SNDBUF :: int
  SO_RCVLOWAT :: int
  SO_SNDLOWAT :: int
  SO_REUSEADDR :: int
  SO_ERROR :: int
  SO_TYPE :: int
  SO_PROTOCOL :: int
  TCP_NODELAY :: int
  SHUT_RD :: int
  SHUT_WR :: int
  SHUT_RDWR :: int
  sizeof_in :: u32
  sizeof_in6 :: u32
  sizeof_storage :: u32
  inet_pton :: "int \<Rightarrow> string \<Rightarrow> int \<times> int \<times> byte list"
  inet_ntop :: "int \<Rightarrow> byte list \<Rightarrow> string option"
  htons :: "16 word \<Rightarrow> 16 word"
  ntohs :: "16 word \<Rightarrow> 16 word"

text \<open>
  What the code relies on: the two address structures have different, non-zero sizes (a \<open>switch\<close> over
  them compiles), and \<open>ntohs\<close> undoes \<open>htons\<close>.
\<close>

definition net_abi_ok :: "net_abi \<Rightarrow> bool" where
  "net_abi_ok A \<longleftrightarrow>
     sizeof_in A \<noteq> sizeof_in6 A \<and> sizeof_in A \<noteq> 0 \<and> sizeof_in6 A \<noteq> 0 \<and> (\<forall>p. ntohs A (htons A p) = p)"

text \<open>On Windows the fields \<open>SHUT_RD\<close>, \<open>SHUT_WR\<close> and \<open>SHUT_RDWR\<close> hold \<open>SD_RECEIVE\<close>, \<open>SD_SEND\<close> and \<open>SD_BOTH\<close>.\<close>

section \<open>endpoint\<close>

record endpoint =
  ep_storage :: sockaddr
  ep_size :: u32

text \<open>The storage of a default constructed endpoint is not initialised: \<open>junk\<close>.\<close>

definition endpoint_default :: "sockaddr \<Rightarrow> endpoint" where
  "endpoint_default junk = \<lparr>ep_storage = junk, ep_size = 0\<rparr>"

definition endpoint_copy :: "endpoint \<Rightarrow> endpoint" where
  "endpoint_copy other = \<lparr>ep_storage = ep_storage other, ep_size = 0\<rparr>"

definition endpoint_assign :: "endpoint \<Rightarrow> endpoint \<Rightarrow> endpoint" where
  "endpoint_assign this other = this\<lparr>ep_storage := ep_storage other\<rparr>"

definition endpoint_clear :: "endpoint \<Rightarrow> endpoint" where
  "endpoint_clear this = this\<lparr>ep_size := 0\<rparr>"

definition endpoint_capacity :: "net_abi \<Rightarrow> u32" where
  "endpoint_capacity A = sizeof_storage A"

text \<open>
  \<open>host.find(":", 0, 5)\<close> searches for the five bytes at the literal: the colon, its terminating zero byte and
  the three bytes that happen to follow (\<open>past\<close>).
\<close>

definition host_has_colon :: "string \<Rightarrow> string \<Rightarrow> bool" where
  "host_has_colon past host \<longleftrightarrow> sublist (CHR '':'' # CHR 0x00 # past) host"

definition endpoint_make ::
  "net_abi \<Rightarrow> int \<Rightarrow> string \<Rightarrow> sockaddr \<Rightarrow> string \<Rightarrow> 16 word \<Rightarrow> exn + endpoint" where
  "endpoint_make A einval past junk host port =
     (let (error, errno, e) =
        (if \<not> host_has_colon past host then
           (case inet_pton A (AF_INET A) (cstr host) of (rc, err, bytes) \<Rightarrow>
              (rc, err, \<lparr>ep_storage = junk\<lparr>sa_family := AF_INET A, sa_port := htons A port, sa_addr4 := bytes\<rparr>,
                         ep_size = sizeof_in A\<rparr>))
         else
           (case inet_pton A (AF_INET6 A) (cstr host) of (rc, err, bytes) \<Rightarrow>
              (rc, err, \<lparr>ep_storage = junk\<lparr>sa_family := AF_INET6 A, sa_port := htons A port, sa_addr6 := bytes\<rparr>,
                         ep_size = sizeof_in6 A\<rparr>)))
      in if error \<noteq> 1 then Inl (system_error (ec_native (if error = 0 then einval else errno)) ''invalid address'')
         else Inr e)"

definition endpoint_host :: "net_abi \<Rightarrow> endpoint \<Rightarrow> string" where
  "endpoint_host A e =
     (if ep_size e = sizeof_in A then
        (case inet_ntop A (AF_INET A) (sa_addr4 (ep_storage e)) of None \<Rightarrow> [] | Some buffer \<Rightarrow> cstr buffer)
      else if ep_size e = sizeof_in6 A then
        (case inet_ntop A (AF_INET6 A) (sa_addr6 (ep_storage e)) of None \<Rightarrow> [] | Some buffer \<Rightarrow> cstr buffer)
      else [])"

definition endpoint_port :: "net_abi \<Rightarrow> endpoint \<Rightarrow> 16 word" where
  "endpoint_port A e =
     (if ep_size e = sizeof_in A \<or> ep_size e = sizeof_in6 A then ntohs A (sa_port (ep_storage e)) else 0)"

definition endpoint_family :: "net_abi \<Rightarrow> endpoint \<Rightarrow> int" where
  "endpoint_family A e =
     (if ep_size e = sizeof_in A then AF_INET A
      else if ep_size e = sizeof_in6 A then AF_INET6 A else 0)"

definition print_endpoint :: "net_abi \<Rightarrow> endpoint \<Rightarrow> string" where
  "print_endpoint A e = endpoint_host A e @ '':'' @ to_string (uint (endpoint_port A e))"

section \<open>option\<close>

datatype option_kind =
    Broadcast | Do_not_route | Keep_alive | Linger | No_delay | Recv_buffer_size | Send_buffer_size
  | Recv_low_watermark | Send_low_watermark | Reuse_address

definition option_level :: "os \<Rightarrow> net_abi \<Rightarrow> option_kind \<Rightarrow> int" where
  "option_level p A k =
     (case k of
        No_delay \<Rightarrow> (case p of Win32 \<Rightarrow> IPPROTO_TCP A | Unix _ \<Rightarrow> SOL_SOCKET A)
      | _ \<Rightarrow> SOL_SOCKET A)"

fun option_name :: "net_abi \<Rightarrow> option_kind \<Rightarrow> int" where
  "option_name A Broadcast = SO_BROADCAST A"
| "option_name A Do_not_route = SO_DONTROUTE A"
| "option_name A Keep_alive = SO_KEEPALIVE A"
| "option_name A Linger = SO_LINGER A"
| "option_name A No_delay = TCP_NODELAY A"
| "option_name A Recv_buffer_size = SO_RCVBUF A"
| "option_name A Send_buffer_size = SO_SNDBUF A"
| "option_name A Recv_low_watermark = SO_RCVLOWAT A"
| "option_name A Send_low_watermark = SO_SNDLOWAT A"
| "option_name A Reuse_address = SO_REUSEADDR A"

text \<open>
  An option object: its kind, the words at \<open>data()\<close>, \<open>capacity()\<close> and \<open>size_\<close>. A value of type \<open>int\<close> is one
  word; the \<open>linger\<close> structure of Unix is two (\<open>l_onoff\<close>, \<open>l_linger\<close>).
\<close>

record net_option =
  opt_kind :: option_kind
  opt_data :: "i32 list"
  opt_capacity :: u32
  opt_size :: u32

definition option_bool :: "option_kind \<Rightarrow> bool \<Rightarrow> net_option" where
  "option_bool k value =
     \<lparr>opt_kind = k, opt_data = [if value then 1 else 0], opt_capacity = 4, opt_size = 4\<rparr>"

definition option_bool_get :: "net_option \<Rightarrow> bool" where
  "option_bool_get v \<longleftrightarrow> hd (opt_data v) \<noteq> 0"

definition option_size :: "option_kind \<Rightarrow> 64 word \<Rightarrow> net_option" where
  "option_size k value =
     \<lparr>opt_kind = k, opt_data = [if value > word_of_int int_max then word_of_int int_max else ucast value],
      opt_capacity = 4, opt_size = 4\<rparr>"

definition option_size_get :: "net_option \<Rightarrow> 64 word" where
  "option_size_get v = (if sint (hd (opt_data v)) > 0 then ucast (hd (opt_data v)) else 0)"

text \<open>
  \<open>linger\<close> on Unix, where \<open>l_linger\<close> is an \<open>int\<close>: the two clamping assignments, then the unconditional one. The
  constructor does not assign \<open>size_\<close>.
\<close>

definition option_linger :: "int option \<Rightarrow> net_option" where
  "option_linger timeout =
     (let data = (case timeout of
                    None \<Rightarrow> [0, 0]
                  | Some t \<Rightarrow>
                      let l0 = (0 :: i32);
                          l1 = (if t < - int_max - 1 then 0 else l0);
                          l2 = (if t > int_max then word_of_int int_max else l1);
                          l3 = word_of_int t
                      in [1, l3])
      in \<lparr>opt_kind = Linger, opt_data = data, opt_capacity = 8, opt_size = 0\<rparr>)"

definition option_linger_copy :: "net_option \<Rightarrow> net_option" where
  "option_linger_copy other = \<lparr>opt_kind = Linger, opt_data = opt_data other, opt_capacity = 8, opt_size = 0\<rparr>"

definition option_linger_get :: "net_option \<Rightarrow> int option" where
  "option_linger_get v = (if opt_data v ! 0 \<noteq> 0 then Some (sint (opt_data v ! 1)) else None)"

section \<open>buffer\<close>

text \<open>
  \<open>basic_buffer\<close>: \<open>size_type\<close> is \<open>unsigned long\<close> (32 bits) on Windows and \<open>size_t\<close> elsewhere. The assertions of
  the constructor are \<open>buffer_assert_unix\<close> and \<open>buffer_assert_win\<close>; address 0 is null.
\<close>

record unix_buffer =
  ub_size :: "64 word"
  ub_data :: nat

record win_buffer =
  wb_size :: u32
  wb_data :: nat

definition buffer_unix :: "nat \<Rightarrow> 64 word \<Rightarrow> unix_buffer" where
  "buffer_unix data n = \<lparr>ub_size = n, ub_data = data\<rparr>"

definition buffer_win :: "nat \<Rightarrow> 64 word \<Rightarrow> win_buffer" where
  "buffer_win data n = \<lparr>wb_size = ucast n, wb_data = data\<rparr>"

definition buffer_assert_unix :: "nat \<Rightarrow> 64 word \<Rightarrow> bool" where
  "buffer_assert_unix data n \<longleftrightarrow> n \<le> - 1 \<and> (n = 0 \<or> data \<noteq> 0)"

definition buffer_assert_win :: "nat \<Rightarrow> 64 word \<Rightarrow> bool" where
  "buffer_assert_win data n \<longleftrightarrow> n \<le> ucast (- 1 :: u32) \<and> (n = 0 \<or> data \<noteq> 0)"

text \<open>In a build without assertions the size is cut to 32 bits on Windows.\<close>

lemma buffer_win_size:
  "unat (wb_size (buffer_win data n)) = unat n mod 2 ^ 32"
  "buffer_assert_win data n \<Longrightarrow> unat (wb_size (buffer_win data n)) = unat n"
  "\<not> buffer_assert_win data n \<Longrightarrow> buffer_assert_unix data n \<Longrightarrow> unat (wb_size (buffer_win data n)) < unat n"
proof -
  have max: "unat (ucast (- 1 :: u32) :: 64 word) = 2 ^ 32 - 1" by (simp add: unsigned_minus_1_eq_mask mask_eq_exp_minus_1)
  show m: "unat (wb_size (buffer_win data n)) = unat n mod 2 ^ 32"
    by (simp add: buffer_win_def unsigned_ucast_eq take_bit_eq_mod)
  show "buffer_assert_win data n \<Longrightarrow> unat (wb_size (buffer_win data n)) = unat n"
    unfolding m using max by (simp add: buffer_assert_win_def word_le_nat_alt)
  show "\<not> buffer_assert_win data n \<Longrightarrow> buffer_assert_unix data n \<Longrightarrow> unat (wb_size (buffer_win data n)) < unat n"
  proof -
    assume "\<not> buffer_assert_win data n" "buffer_assert_unix data n"
    then have "2 ^ 32 - 1 < unat n" using max by (auto simp: buffer_assert_win_def buffer_assert_unix_def word_le_nat_alt)
    moreover have "unat n mod 2 ^ 32 < 2 ^ 32" by simp
    ultimately show ?thesis unfolding m by linarith
  qed
qed

section \<open>socket\<close>

text \<open>
  \<open>'h\<close> is the type of handles, \<open>int\<close> on Unix and \<open>uintptr_t\<close> on Windows; \<open>sk_context\<close> is the handle of the
  context the socket refers to.
\<close>

record 'h socket =
  sk_context :: 'h
  sk_endpoint :: endpoint
  sk_handle :: 'h
  sk_family :: int

definition socket_empty :: "sockaddr \<Rightarrow> 'h \<Rightarrow> 'h \<Rightarrow> 'h socket" where
  "socket_empty junk invalid context =
     \<lparr>sk_context = context, sk_endpoint = endpoint_default junk, sk_handle = invalid, sk_family = 0\<rparr>"

text \<open>The defaulted move constructor and assignment, member by member: the source's handle becomes invalid.\<close>

definition socket_move :: "'h \<Rightarrow> 'h socket \<Rightarrow> 'h socket \<times> 'h socket" where
  "socket_move invalid other =
     (\<lparr>sk_context = sk_context other, sk_endpoint = endpoint_copy (sk_endpoint other),
       sk_handle = sk_handle other, sk_family = sk_family other\<rparr>,
      other\<lparr>sk_handle := invalid\<rparr>)"

text \<open>\<open>socket::socket(context, family, type, protocol)\<close>.\<close>

definition socket_make_unix ::
  "'k usys \<Rightarrow> net_abi \<Rightarrow> sockaddr \<Rightarrow> int \<Rightarrow> int \<Rightarrow> int \<Rightarrow> int \<Rightarrow> 'k \<Rightarrow> (exn + int socket) \<times> 'k" where
  "socket_make_unix U A junk context family type protocol k =
     (case sys_socket U family (type OR SOCK_NONBLOCK A) protocol k of (h, errno, k') \<Rightarrow>
        if h = -1 then (Inl (system_error (ec_native errno) ''create socket''), k')
        else (Inr \<lparr>sk_context = context, sk_endpoint = endpoint_default junk, sk_handle = h, sk_family = family\<rparr>, k'))"

text \<open>On Windows an exception leaves the constructor with \<open>handle_\<close> set, whose destructor closes it.\<close>

definition socket_make_win ::
  "'k wsys \<Rightarrow> sockaddr \<Rightarrow> whandle \<Rightarrow> int \<Rightarrow> int \<Rightarrow> int \<Rightarrow> 'k \<Rightarrow> (exn + whandle socket) \<times> 'k" where
  "socket_make_win W junk context family type protocol k =
     (case win_socket W family type protocol k of (h, err, k1) \<Rightarrow>
        if h = - 1 then (Inl (system_error (ec_native err) ''create socket''), k1)
        else case win_associate W h context k1 of (ok2, err2, k2) \<Rightarrow>
          if \<not> ok2 then (Inl (system_error (ec_native err2) ''create socket completion port''), win_closesocket W h k2)
          else case win_completion_modes W h k2 of (ok3, err3, k3) \<Rightarrow>
            if \<not> ok3 then (Inl (system_error (ec_native err3) ''set socket completion port modes''), win_closesocket W h k3)
            else (Inr \<lparr>sk_context = context, sk_endpoint = endpoint_default junk, sk_handle = h, sk_family = family\<rparr>, k3))"

text \<open>\<open>bind\<close>: the Unix branch repeats interrupted calls.\<close>

partial_function (option) bind_loop ::
  "'k usys \<Rightarrow> int \<Rightarrow> sockaddr \<Rightarrow> u32 \<Rightarrow> 'k \<Rightarrow> ((exn + unit) \<times> 'k) option" where
  "bind_loop U h addr n k =
     (case sys_bind U h addr n k of (rc, errno, k') \<Rightarrow>
        if rc < 0 then
          (if errno \<noteq> EINTR U then Some (Inl (system_error (ec_native errno) ''bind socket''), k')
           else bind_loop U h addr n k')
        else Some (Inr (), k'))"

definition socket_bind_unix ::
  "'k usys \<Rightarrow> endpoint \<Rightarrow> int socket \<Rightarrow> 'k \<Rightarrow> ((exn + int socket) \<times> 'k) option" where
  "socket_bind_unix U e s k =
     (case bind_loop U (sk_handle s) (ep_storage e) (ep_size e) k of
        None \<Rightarrow> None
      | Some (Inl x, k') \<Rightarrow> Some (Inl x, k')
      | Some (Inr _, k') \<Rightarrow> Some (Inr (s\<lparr>sk_endpoint := endpoint_assign (sk_endpoint s) e\<rparr>), k'))"

definition socket_bind_win ::
  "'k wsys \<Rightarrow> endpoint \<Rightarrow> whandle socket \<Rightarrow> 'k \<Rightarrow> (exn + whandle socket) \<times> 'k" where
  "socket_bind_win W e s k =
     (case win_bind W (sk_handle s) (ep_storage e) (ep_size e) k of (ok, err, k') \<Rightarrow>
        if \<not> ok then (Inl (system_error (ec_native err) ''bind socket''), k')
        else (Inr (s\<lparr>sk_endpoint := endpoint_assign (sk_endpoint s) e\<rparr>), k'))"

datatype shutdown = Shutdown_recv | Shutdown_send | Shutdown_both

fun shutdown_value :: "net_abi \<Rightarrow> shutdown \<Rightarrow> int" where
  "shutdown_value A Shutdown_recv = SHUT_RD A"
| "shutdown_value A Shutdown_send = SHUT_WR A"
| "shutdown_value A Shutdown_both = SHUT_RDWR A"

definition socket_shutdown_unix ::
  "'k usys \<Rightarrow> net_abi \<Rightarrow> shutdown \<Rightarrow> int socket \<Rightarrow> 'k \<Rightarrow> (exn + unit) \<times> 'k" where
  "socket_shutdown_unix U A direction s k =
     (case sys_shutdown U (sk_handle s) (shutdown_value A direction) k of (rc, errno, k') \<Rightarrow>
        if rc < 0 then (Inl (system_error (ec_native errno) ''shutdown socket''), k') else (Inr (), k'))"

definition socket_shutdown_win ::
  "'k wsys \<Rightarrow> net_abi \<Rightarrow> shutdown \<Rightarrow> whandle socket \<Rightarrow> 'k \<Rightarrow> (exn + unit) \<times> 'k" where
  "socket_shutdown_win W A direction s k =
     (case win_shutdown W (sk_handle s) (shutdown_value A direction) k of (ok, err, k') \<Rightarrow>
        if \<not> ok then (Inl (system_error (ec_native err) ''shutdown socket''), k') else (Inr (), k'))"

text \<open>\<open>close\<close> resets the handle, through the close functor if it is valid.\<close>

definition socket_close_unix :: "'k usys \<Rightarrow> int socket \<Rightarrow> 'k \<Rightarrow> (int socket \<times> 'k) option" where
  "socket_close_unix U s k =
     (if sk_handle s \<noteq> -1 then map_option (Pair (s\<lparr>sk_handle := -1\<rparr>)) (close_loop U (sk_handle s) k)
      else Some (s, k))"

definition socket_close_win :: "'k wsys \<Rightarrow> whandle socket \<Rightarrow> 'k \<Rightarrow> whandle socket \<times> 'k" where
  "socket_close_win W s k =
     (if sk_handle s \<noteq> - 1 then (s\<lparr>sk_handle := - 1\<rparr>, win_closesocket W (sk_handle s) k) else (s, k))"

text \<open>\<open>get\<close> and \<open>set\<close>: the error code, and for \<open>get\<close> the words and the length the call leaves.\<close>

definition socket_get ::
  "'k usys \<Rightarrow> int \<Rightarrow> int \<Rightarrow> u32 \<Rightarrow> int socket \<Rightarrow> 'k \<Rightarrow> error_code \<times> i32 list \<times> u32 \<times> 'k" where
  "socket_get U level name n s k =
     (case sys_getsockopt U (sk_handle s) level name n k of (rc, errno, data, n', k') \<Rightarrow>
        (if rc < 0 then ec_native errno else ec_none, data, n', k'))"

definition socket_set ::
  "'k usys \<Rightarrow> int \<Rightarrow> int \<Rightarrow> i32 list \<Rightarrow> u32 \<Rightarrow> int socket \<Rightarrow> 'k \<Rightarrow> error_code \<times> 'k" where
  "socket_set U level name data n s k =
     (case sys_setsockopt U (sk_handle s) level name data n k of (rc, errno, k') \<Rightarrow>
        (if rc < 0 then ec_native errno else ec_none, k'))"

definition socket_get_option ::
  "unix \<Rightarrow> 'k usys \<Rightarrow> net_abi \<Rightarrow> net_option \<Rightarrow> int socket \<Rightarrow> 'k \<Rightarrow> error_code \<times> net_option \<times> 'k" where
  "socket_get_option u U A v s k =
     (case socket_get U (option_level (Unix u) A (opt_kind v)) (option_name A (opt_kind v)) (opt_capacity v) s k of
        (ec, data, n, k') \<Rightarrow> (ec, v\<lparr>opt_data := (if ec_bool ec then opt_data v else data), opt_size := n\<rparr>, k'))"

definition socket_set_option ::
  "unix \<Rightarrow> 'k usys \<Rightarrow> net_abi \<Rightarrow> net_option \<Rightarrow> int socket \<Rightarrow> 'k \<Rightarrow> error_code \<times> 'k" where
  "socket_set_option u U A v s k =
     socket_set U (option_level (Unix u) A (opt_kind v)) (option_name A (opt_kind v)) (opt_data v) (opt_size v) s k"

definition socket_type :: "'k usys \<Rightarrow> net_abi \<Rightarrow> int socket \<Rightarrow> 'k \<Rightarrow> int \<times> 'k" where
  "socket_type U A s k =
     (case socket_get U (SOL_SOCKET A) (SO_TYPE A) 4 s k of (ec, data, _, k') \<Rightarrow>
        (if ec_bool ec then 0 else sint (hd (data @ [0])), k'))"

definition socket_protocol :: "'k usys \<Rightarrow> net_abi \<Rightarrow> int socket \<Rightarrow> 'k \<Rightarrow> int \<times> 'k" where
  "socket_protocol U A s k =
     (case socket_get U (SOL_SOCKET A) (SO_PROTOCOL A) 4 s k of (ec, data, _, k') \<Rightarrow>
        (if ec_bool ec then 0 else sint (hd (data @ [0])), k'))"

text \<open>
  The same on Windows, where \<open>protocol\<close> reads \<open>iProtocol\<close> of the structure that \<open>SO_PROTOCOL_INFO\<close> gives.
\<close>

definition socket_get_win ::
  "'k wsys \<Rightarrow> int \<Rightarrow> int \<Rightarrow> i32 \<Rightarrow> whandle socket \<Rightarrow> 'k \<Rightarrow> error_code \<times> i32 list \<times> i32 \<times> 'k" where
  "socket_get_win W level name n s k =
     (case win_getsockopt W (sk_handle s) level name n k of (ok, err, data, n', k') \<Rightarrow>
        (if \<not> ok then ec_native err else ec_none, data, n', k'))"

definition socket_set_win ::
  "'k wsys \<Rightarrow> int \<Rightarrow> int \<Rightarrow> i32 list \<Rightarrow> i32 \<Rightarrow> whandle socket \<Rightarrow> 'k \<Rightarrow> error_code \<times> 'k" where
  "socket_set_win W level name data n s k =
     (case win_setsockopt W (sk_handle s) level name data n k of (ok, err, k') \<Rightarrow>
        (if \<not> ok then ec_native err else ec_none, k'))"

definition socket_type_win :: "'k wsys \<Rightarrow> net_abi \<Rightarrow> whandle socket \<Rightarrow> 'k \<Rightarrow> int \<times> 'k" where
  "socket_type_win W A s k =
     (case socket_get_win W (SOL_SOCKET A) (SO_TYPE A) 4 s k of (ec, data, _, k') \<Rightarrow>
        (if ec_bool ec then 0 else sint (hd (data @ [0])), k'))"

definition socket_protocol_win :: "'k wsys \<Rightarrow> whandle socket \<Rightarrow> 'k \<Rightarrow> int \<times> 'k" where
  "socket_protocol_win W s k =
     (case win_protocol_info W (sk_handle s) k of (ok, err, protocol, k') \<Rightarrow> (if \<not> ok then 0 else protocol, k'))"

definition print_socket :: "net_abi \<Rightarrow> 'h socket \<Rightarrow> string" where
  "print_socket A s = print_endpoint A (sk_endpoint s)"

section \<open>Properties of endpoints\<close>

lemma digit_chars [simp]: "char_of (48 :: nat) = CHR ''0''" "char_of (56 :: nat) = CHR ''8''"
  by (simp_all add: char_of_eq_iff)

lemma cstr_id [simp]: "CHR 0x00 \<notin> set s \<Longrightarrow> cstr s = s"
  unfolding cstr_def by (rule takeWhile_eq_all_conv [THEN iffD2]) auto

lemma host_has_colon_zero: "host_has_colon past host \<Longrightarrow> CHR 0x00 \<in> set host"
  by (auto simp: host_has_colon_def dest!: set_mono_sublist)

text \<open>
  C24: parsing an endpoint. For a host name without zero bytes the constructor always parses as IPv4,
  whatever colons it contains. If \<open>inet_pton\<close> accepts, the endpoint has the given port, family \<open>AF_INET\<close> and
  prints as the address \<open>inet_ntop\<close> gives for the parsed bytes; if it rejects or fails, the constructor throws
  \<open>EINVAL\<close> or \<open>errno\<close>. So every IPv6 address is an ``invalid address''.
\<close>

theorem endpoint_parse:
  assumes "net_abi_ok A" "CHR 0x00 \<notin> set host"
  shows "case inet_pton A (AF_INET A) host of (rc, errno, bytes) \<Rightarrow>
           (case endpoint_make A einval past junk host port of
              Inr e \<Rightarrow> rc = 1 \<and> endpoint_port A e = port \<and> endpoint_family A e = AF_INET A \<and>
                endpoint_host A e = (case inet_ntop A (AF_INET A) bytes of None \<Rightarrow> [] | Some t \<Rightarrow> cstr t)
            | Inl x \<Rightarrow> rc \<noteq> 1 \<and> x = system_error (ec_native (if rc = 0 then einval else errno)) ''invalid address'')"
proof -
  have "\<not> host_has_colon past host" using assms(2) host_has_colon_zero by blast
  then show ?thesis using assms
    by (auto simp: endpoint_make_def Let_def endpoint_port_def endpoint_family_def endpoint_host_def net_abi_ok_def
        split: prod.splits)
qed

definition demo_abi :: net_abi where
  "demo_abi =
     \<lparr>AF_INET = 2, AF_INET6 = 10, SOCK_STREAM = 1, SOCK_DGRAM = 2, SOCK_NONBLOCK = 2048, IPPROTO_TCP = 6,
      IPPROTO_UDP = 17, SOMAXCONN = 4096, SOL_SOCKET = 1, SO_BROADCAST = 6, SO_DONTROUTE = 5, SO_KEEPALIVE = 9,
      SO_LINGER = 13, SO_RCVBUF = 8, SO_SNDBUF = 7, SO_RCVLOWAT = 18, SO_SNDLOWAT = 19, SO_REUSEADDR = 2,
      SO_ERROR = 4, SO_TYPE = 3, SO_PROTOCOL = 38, TCP_NODELAY = 1, SHUT_RD = 0, SHUT_WR = 1, SHUT_RDWR = 2,
      sizeof_in = 16, sizeof_in6 = 28, sizeof_storage = 128,
      inet_pton = \<lambda>f s. if f = 2 \<and> s = ''127.0.0.1'' then (1, 0, [127, 0, 0, 1]) else (0, 0, []),
      inet_ntop = \<lambda>f bs. if f = 2 \<and> bs = [127, 0, 0, 1] then Some (''127.0.0.1'' @ [CHR 0x00]) else None,
      htons = \<lambda>p. p, ntohs = \<lambda>p. p\<rparr>"

lemma net_abi_ok_demo [simp]: "net_abi_ok demo_abi"
  by (simp add: net_abi_ok_def demo_abi_def)

lemma endpoint_parse_witness:
  "(case endpoint_make demo_abi 22 ''abc'' sockaddr_zero ''127.0.0.1'' 8080 of
      Inr e \<Rightarrow> endpoint_port demo_abi e = 8080 \<and> endpoint_host demo_abi e = ''127.0.0.1'' | Inl x \<Rightarrow> False)
   \<and> endpoint_make demo_abi 22 ''abc'' sockaddr_zero ''::1'' 8080 = Inl (system_error (ec_native 22) ''invalid address'')"
proof -
  have 1: "inet_pton demo_abi (AF_INET demo_abi) ''127.0.0.1'' = (1, 0, [127, 0, 0, 1])"
    and 2: "inet_pton demo_abi (AF_INET demo_abi) ''::1'' = (0, 0, [])"
    and 3: "inet_ntop demo_abi (AF_INET demo_abi) [127, 0, 0, 1] = Some (''127.0.0.1'' @ [CHR 0x00])"
    by (simp_all add: demo_abi_def)
  have "cstr (''127.0.0.1'' @ [CHR 0x00]) = ''127.0.0.1''" by (simp add: cstr_def)
  with endpoint_parse [OF net_abi_ok_demo, where host = "''127.0.0.1''" and einval = 22 and past = "''abc''" and junk = sockaddr_zero and port = 8080]
    endpoint_parse [OF net_abi_ok_demo, where host = "''::1''" and einval = 22 and past = "''abc''" and junk = sockaddr_zero and port = 8080]
  show ?thesis by (simp add: 1 2 3 split: sum.splits)
qed

text \<open>
  An endpoint does not survive copying. A copy has length 0, so its family and port are 0 and it prints as
  ``:0''; assignment keeps the target's length. A fresh socket that is bound, and any socket that is
  moved, therefore reports no endpoint.
\<close>

lemma endpoint_copies_unnamed:
  assumes "net_abi_ok A"
  shows "endpoint_family A (endpoint_copy e) = 0 \<and> print_endpoint A (endpoint_copy e) = '':0'' \<and>
         ep_size (endpoint_assign t e) = ep_size t \<and>
         print_socket A (fst (socket_move invalid s)) = '':0'' \<and>
         (case socket_bind_unix U e (socket_empty junk invalid' context) k of
            Some (Inr b, _) \<Rightarrow> print_socket A b = '':0'' | _ \<Rightarrow> True)"
proof -
  have 0: "print_endpoint A x = '':0''" if "ep_size x = 0" for x
    using that assms
    by (simp add: print_endpoint_def endpoint_host_def endpoint_port_def net_abi_ok_def to_string_def nat_digits.simps)
  then show ?thesis using assms
    by (auto simp: endpoint_copy_def endpoint_family_def endpoint_assign_def net_abi_ok_def socket_move_def
        print_socket_def socket_bind_unix_def socket_empty_def endpoint_default_def split: option.splits sum.splits)
qed

definition demo_endpoint :: endpoint where
  "demo_endpoint = \<lparr>ep_storage = \<lparr>sa_family = 2, sa_port = 80, sa_addr4 = [127, 0, 0, 1], sa_addr6 = []\<rparr>, ep_size = 16\<rparr>"

lemma endpoint_copies_unnamed_witness:
  "print_endpoint demo_abi demo_endpoint = ''127.0.0.1:80'' \<and>
   print_endpoint demo_abi (endpoint_copy demo_endpoint) = '':0''"
proof -
  have "print_endpoint demo_abi demo_endpoint = ''127.0.0.1:80''"
    by (simp add: print_endpoint_def endpoint_host_def endpoint_port_def demo_abi_def demo_endpoint_def
        to_string_def nat_digits.simps cstr_def)
  with endpoint_copies_unnamed [OF net_abi_ok_demo, THEN conjunct2, THEN conjunct1, of demo_endpoint]
  show ?thesis by blast
qed

section \<open>Properties of options\<close>

lemma int_max_word [simp]: "unat (word_of_int int_max :: 64 word) = 2147483647" "uint (word_of_int int_max :: 64 word) = 2147483647"
   "uint (word_of_int int_max :: i32) = 2147483647" "sint (word_of_int int_max :: i32) = 2147483647"
  by (simp_all add: int_max_def)

lemma sint_small_ucast:
  assumes "v \<le> (word_of_int int_max :: 64 word)"
  shows "sint (ucast v :: i32) = uint v" and "ucast (ucast v :: i32) = v"
proof -
  have v: "uint v \<le> 2147483647" using assms by (simp add: word_le_def)
  have "uint (ucast v :: i32) = take_bit 32 (uint v)"
    by (simp add: unsigned_ucast_eq unsigned_take_bit_eq)
  with v have u: "uint (ucast v :: i32) = uint v"
    using take_bit_int_eq_self [of "uint v" 32] by simp
  from u show "ucast (ucast v :: i32) = v" by (metis ucast_eq word_of_int_uint)
  have "sint (ucast v :: i32) = signed_take_bit 31 (uint (ucast v :: i32))" by (simp add: sint_uint)
  also have "\<dots> = uint v" unfolding u
  proof (rule signed_take_bit_int_eq_self)
    show "- (2 ^ 31) \<le> uint v" by (rule order_trans [OF _ uint_ge_0]) simp
    show "uint v < 2 ^ 31" using v by simp
  qed
  finally show "sint (ucast v :: i32) = uint v" .
qed

text \<open>
  Option values. A boolean option gives back its value, a size option the value clamped to the largest
  \<open>int\<close>; both are created with their full length. An option read back through \<open>get\<close> is asked for with its
  capacity, whatever length it had.
\<close>

lemma option_roundtrip:
  "option_bool_get (option_bool k b) = b \<and> opt_size (option_bool k b) = opt_capacity (option_bool k b) \<and>
   option_size_get (option_size k v) = min v (word_of_int int_max) \<and>
   opt_size (option_size k v) = opt_capacity (option_size k v)"
proof -
  have "option_size_get (option_size k v) = min v (word_of_int int_max)"
  proof (cases "v \<le> word_of_int int_max")
    case True
    then have "0 < sint (ucast v :: i32) \<longleftrightarrow> v \<noteq> 0"
      using sint_small_ucast(1) [OF True] by (simp add: word_neq_0_conv word_less_def)
    with True sint_small_ucast [OF True] show ?thesis
      by (auto simp: option_size_get_def option_size_def min_def)
  next
    case False
    then show ?thesis by (auto simp: option_size_get_def option_size_def min_def int_max_def)
  qed
  then show ?thesis by (simp add: option_bool_get_def option_bool_def option_size_def)
qed

text \<open>
  C25: the linger option. A timeout comes back exactly when it fits an \<open>int\<close>; outside, the clamped value is
  overwritten by the wrapped one (two to the 31 seconds become negative). The option carries length 0 and not its
  capacity, so that is the length \<open>set\<close> passes to \<open>setsockopt\<close>.
\<close>

theorem option_linger_wraps:
  "(option_linger_get (option_linger (Some t)) = Some t \<longleftrightarrow> - (2 ^ 31) \<le> t \<and> t < 2 ^ 31) \<and>
   option_linger_get (option_linger (Some (2 ^ 31))) = Some (- (2 ^ 31)) \<and>
   option_linger_get (option_linger None) = None \<and>
   socket_set_option u U A (option_linger (Some t)) s k =
     socket_set U (SOL_SOCKET A) (SO_LINGER A) [1, word_of_int t] 0 s k"
proof -
  have "sint (word_of_int t :: i32) = t \<longleftrightarrow> - (2 ^ 31) \<le> t \<and> t < 2 ^ 31"
    by (simp add: signed_of_int signed_take_bit_int_eq_self_iff)
  then show ?thesis
    by (simp add: option_linger_get_def option_linger_def socket_set_option_def option_level_def Let_def)
qed

section \<open>Properties of sockets\<close>

text \<open>
  The Windows constructor of a socket leaks nothing. Whichever of its three calls fails, the exception
  carries that call's error and the socket that was created is closed exactly once; if all
  succeed nothing is closed.
\<close>

lemma socket_make_win_errors:
  "case win_socket W family type protocol k of (h, e1, k1) \<Rightarrow>
   (case win_associate W h context k1 of (ok2, e2, k2) \<Rightarrow>
    (case win_completion_modes W h k2 of (ok3, e3, k3) \<Rightarrow>
      socket_make_win W junk context family type protocol k =
        (if h = - 1 then (Inl (system_error (ec_native e1) ''create socket''), k1)
         else if \<not> ok2 then (Inl (system_error (ec_native e2) ''create socket completion port''), win_closesocket W h k2)
         else if \<not> ok3 then (Inl (system_error (ec_native e3) ''set socket completion port modes''), win_closesocket W h k3)
         else (Inr ((socket_empty junk h context)\<lparr>sk_family := family\<rparr>), k3))))"
  by (simp add: socket_make_win_def socket_empty_def split: prod.splits)

definition bind_again :: "'k usys \<Rightarrow> int \<Rightarrow> endpoint \<Rightarrow> 'k \<Rightarrow> bool \<times> 'k" where
  "bind_again U h e k =
     (case sys_bind U h (ep_storage e) (ep_size e) k of (rc, errno, k') \<Rightarrow> (rc < 0 \<and> errno = EINTR U, k'))"

lemma bind_loop_returns:
  "interrupted_at_most (bind_again U h e) n k \<Longrightarrow>
   \<exists>r k'. bind_loop U h (ep_storage e) (ep_size e) k = Some (r, k') \<and>
          (\<forall>x. r = Inl x \<longrightarrow> (\<exists>errno. errno \<noteq> EINTR U \<and> x = system_error (ec_native errno) ''bind socket''))"
proof (induction n arbitrary: k)
  case 0
  then show ?case by (subst bind_loop.simps) (auto simp: bind_again_def split: prod.splits)
next
  case (Suc n)
  then show ?case
    by (subst bind_loop.simps) (auto simp: bind_again_def split: prod.splits if_splits)
qed

text \<open>
  \<open>bind\<close> and \<open>close\<close> return although they repeat interrupted calls. If the system interrupts the call at most
  \<open>n\<close> times in a row, \<open>bind\<close> ends with the socket or an exception for an error that is not \<open>EINTR\<close>,
  and \<open>close\<close> ends with an invalid handle.
\<close>

lemma socket_loops_return:
  assumes "interrupted_at_most (bind_again U (sk_handle s) e) n k"
    and "interrupted_at_most (close_again U (sk_handle s)) m k"
  shows "(\<exists>r k'. socket_bind_unix U e s k = Some (r, k') \<and>
           (case r of Inl x \<Rightarrow> \<exists>errno. errno \<noteq> EINTR U \<and> x = system_error (ec_native errno) ''bind socket''
            | Inr s' \<Rightarrow> sk_handle s' = sk_handle s \<and> ep_storage (sk_endpoint s') = ep_storage e)) \<and>
         (\<exists>s' k'. socket_close_unix U s k = Some (s', k') \<and> sk_handle s' = -1)"
proof -
  obtain r k' where r: "bind_loop U (sk_handle s) (ep_storage e) (ep_size e) k = Some (r, k')"
    "\<And>x. r = Inl x \<Longrightarrow> \<exists>errno. errno \<noteq> EINTR U \<and> x = system_error (ec_native errno) ''bind socket''"
    using bind_loop_returns [OF assms(1)] by blast
  obtain k'' where c: "close_loop U (sk_handle s) k = Some k''"
    using close_loop_returns [OF assms(2)] by blast
  show ?thesis using r c
    by (cases r) (auto simp: socket_bind_unix_def socket_close_unix_def endpoint_assign_def)
qed

lemma socket_loops_return_witness:
  "\<exists>s' k'. socket_close_unix (failing_unix\<lparr>sys_close := \<lambda>_ k. (if k < (3::nat) then (-1, 4, k + 1) else (0, 4, k))\<rparr>)
     ((socket_empty sockaddr_zero (7::int) 3)) 1 = Some (s', k') \<and> sk_handle s' = -1"
proof -
  let ?U = "failing_unix\<lparr>sys_close := \<lambda>_ k. (if k < (3::nat) then (-1, 4, k + 1) else (0, 4, k))\<rparr>"
  let ?s = "socket_empty sockaddr_zero (7::int) 3"
  have b: "interrupted_at_most (bind_again ?U (sk_handle ?s) demo_endpoint) 0 1"
    by (simp add: bind_again_def failing_unix_def)
  have c: "interrupted_at_most (close_again ?U (sk_handle ?s)) 2 1"
    by (simp add: close_again_def failing_unix_def numeral_2_eq_2)
  from socket_loops_return [OF b c] show ?thesis by blast
qed

end
