(* ===== verification/Ice_Tcp.thy ===== *)
theory Ice_Tcp
  imports Ice_Event Ice_Net
begin

text \<open>
  TCP sockets and their asynchronous operations \<open>accept\<close>, \<open>connect\<close>, \<open>recv\<close>, \<open>send\<close> and \<open>send_some\<close> on Unix
  (include/ice/net/tcp/socket.h, src/ice/net/tcp/socket.cpp). An operation is a record that extends \<open>event\<close>; its
  three functions act on the operation and the world. The send and receive operations of the
  program's buffers keep sizes as 64-bit words, so \<open>size -= rc\<close> wraps as in the code; the assertion
  \<open>size >= rc\<close> before it is \<open>send_assert\<close>.
\<close>

section \<open>Sockets\<close>

definition tcp_socket_unix ::
  "'k usys \<Rightarrow> net_abi \<Rightarrow> sockaddr \<Rightarrow> int \<Rightarrow> int \<Rightarrow> 'k \<Rightarrow> (exn + int socket) \<times> 'k" where
  "tcp_socket_unix U A junk context family k = socket_make_unix U A junk context family (SOCK_STREAM A) (IPPROTO_TCP A) k"

definition tcp_socket_protocol_unix ::
  "'k usys \<Rightarrow> net_abi \<Rightarrow> sockaddr \<Rightarrow> int \<Rightarrow> int \<Rightarrow> int \<Rightarrow> 'k \<Rightarrow> (exn + int socket) \<times> 'k" where
  "tcp_socket_protocol_unix U A junk context family protocol k =
     socket_make_unix U A junk context family (SOCK_STREAM A) protocol k"

text \<open>\<open>listen\<close>; on FreeBSD it also sets the linger option, ignoring the result.\<close>

definition listen_size :: "net_abi \<Rightarrow> 64 word \<Rightarrow> i32" where
  "listen_size A backlog = (if backlog > 0 then ucast backlog else SOMAXCONN A)"

definition tcp_listen_unix ::
  "unix \<Rightarrow> 'k usys \<Rightarrow> net_abi \<Rightarrow> 64 word \<Rightarrow> int socket \<Rightarrow> 'k \<Rightarrow> (exn + unit) \<times> 'k" where
  "tcp_listen_unix u U A backlog s k =
     (case sys_listen U (sk_handle s) (listen_size A backlog) k of (rc, errno, k1) \<Rightarrow>
        if rc < 0 then (Inl (system_error (ec_native errno) ''listen on socket''), k1)
        else case u of
          FreeBSD \<Rightarrow> (case sys_setsockopt U (sk_handle s) (SOL_SOCKET A) (SO_LINGER A) [1, 0] 8 k1 of
                        (_, _, k2) \<Rightarrow> (Inr (), k2))
        | Linux \<Rightarrow> (Inr (), k1))"

section \<open>accept\<close>

record accept_op = event +
  ac_context :: int
  ac_socket :: int
  ac_client :: "int socket"

definition accept_make :: "os \<Rightarrow> sockaddr \<Rightarrow> int socket \<Rightarrow> accept_op" where
  "accept_make p junk s =
     event.extend (event_make p)
       (accept_op.fields (sk_context s) (sk_handle s) (socket_empty junk (-1) (sk_context s)))"

text \<open>\<open>handle().reset(value)\<close> of a Unix socket handle.\<close>

definition handle_reset_unix :: "'k usys \<Rightarrow> int \<Rightarrow> int \<Rightarrow> 'k \<Rightarrow> (int \<times> 'k) option" where
  "handle_reset_unix U v h k = (if h \<noteq> -1 then map_option (Pair v) (close_loop U h k) else Some (v, k))"

definition accept_ready :: "'k usys \<Rightarrow> net_abi \<Rightarrow> (accept_op, 'k world) op_call" where
  "accept_ready U A = (\<lambda>(e, w).
     let client = ac_client e;
         ep = (sk_endpoint client)\<lparr>ep_size := endpoint_capacity A\<rparr>
     in case sys_accept4 U (ac_socket e) (ep_storage ep) (ep_size ep) (w_kern w) of (h, errno, addr, n, k) \<Rightarrow>
          (case handle_reset_unix U h (sk_handle client) k of
             None \<Rightarrow> None
           | Some (h', k') \<Rightarrow>
               let e1 = e\<lparr>ac_client := client\<lparr>sk_endpoint := \<lparr>ep_storage = addr, ep_size = n\<rparr>, sk_handle := h'\<rparr>\<rparr>;
                   w1 = w\<lparr>w_kern := k'\<rparr>
               in if h' \<noteq> -1 then Some (True, e1, w1)
                  else if errno \<noteq> EAGAIN U \<and> errno \<noteq> EINTR U then Some (True, e1\<lparr>ev_ec := ec_native errno\<rparr>, w1)
                  else Some (False, e1, w1)))"

definition accept_suspend :: "unix \<Rightarrow> 'k usys \<Rightarrow> nat \<Rightarrow> (accept_op, 'k world) op_call" where
  "accept_suspend u U this = (\<lambda>(e, w). Some (queue_recv u U this (ac_context e) (ac_socket e) (e, w)))"

definition accept_resume :: "'k usys \<Rightarrow> net_abi \<Rightarrow> (accept_op, 'k world) op_call" where
  "accept_resume U A = accept_ready U A"

text \<open>\<open>await_resume\<close> moves the client out of the operation.\<close>

definition accept_await_resume :: "accept_op \<Rightarrow> exn + int socket" where
  "accept_await_resume e =
     (if ec_bool (ev_ec e) then Inl (system_error (ev_ec e) ''accept tcp socket'')
      else Inr (fst (socket_move (-1) (ac_client e))))"

section \<open>connect\<close>

record connect_op = event +
  co_context :: int
  co_socket :: int
  co_endpoint :: endpoint

text \<open>The constructor copies the endpoint into the operation and assigns it to the socket's.\<close>

definition connect_make :: "os \<Rightarrow> int socket \<Rightarrow> endpoint \<Rightarrow> connect_op \<times> int socket" where
  "connect_make p s e =
     (event.extend (event_make p) (connect_op.fields (sk_context s) (sk_handle s) (endpoint_copy e)),
      s\<lparr>sk_endpoint := endpoint_assign (sk_endpoint s) e\<rparr>)"

text \<open>The loop of \<open>await_ready\<close>: whether it returned true, and the error to store.\<close>

partial_function (option) connect_loop ::
  "unix \<Rightarrow> 'k usys \<Rightarrow> int \<Rightarrow> sockaddr \<Rightarrow> u32 \<Rightarrow> 'k \<Rightarrow> (bool \<times> int option \<times> 'k) option" where
  "connect_loop u U h addr n k =
     (case sys_connect U h addr n k of (rc, errno, k') \<Rightarrow>
        if rc = 0 then Some (True, None, k')
        else if errno = EINPROGRESS U then Some (False, None, k')
        else if errno = EINTR U then
          (case u of Linux \<Rightarrow> connect_loop u U h addr n k' | FreeBSD \<Rightarrow> Some (False, None, k'))
        else Some (False, Some errno, k'))"

definition connect_ready :: "unix \<Rightarrow> 'k usys \<Rightarrow> (connect_op, 'k world) op_call" where
  "connect_ready u U = (\<lambda>(e, w).
     case connect_loop u U (co_socket e) (ep_storage (co_endpoint e)) (ep_size (co_endpoint e)) (w_kern w) of
       None \<Rightarrow> None
     | Some (b, err, k) \<Rightarrow>
         Some (b, (case err of None \<Rightarrow> e | Some errno \<Rightarrow> e\<lparr>ev_ec := ec_native errno\<rparr>), w\<lparr>w_kern := k\<rparr>))"

definition connect_suspend :: "unix \<Rightarrow> 'k usys \<Rightarrow> nat \<Rightarrow> (connect_op, 'k world) op_call" where
  "connect_suspend u U this = (\<lambda>(e, w). Some (queue_send u U this (co_context e) (co_socket e) (e, w)))"

definition connect_resume :: "'k usys \<Rightarrow> net_abi \<Rightarrow> (connect_op, 'k world) op_call" where
  "connect_resume U A = (\<lambda>(e, w).
     case sys_getsockopt U (co_socket e) (SOL_SOCKET A) (SO_ERROR A) 4 (w_kern w) of (rc, errno, data, n, k) \<Rightarrow>
       let code = hd (data @ [0]) in
       Some (True,
             (if rc < 0 then e\<lparr>ev_ec := ec_native errno\<rparr>
              else if code \<noteq> 0 then e\<lparr>ev_ec := ec_native (sint code)\<rparr> else e),
             w\<lparr>w_kern := k\<rparr>))"

definition connect_await_resume :: "connect_op \<Rightarrow> exn + unit" where
  "connect_await_resume e = (if ec_bool (ev_ec e) then Inl (system_error (ev_ec e) ''connect'') else Inr ())"

section \<open>recv\<close>

record recv_op = event +
  rc_context :: int
  rc_socket :: int
  rc_buffer :: unix_buffer

definition recv_make :: "os \<Rightarrow> int socket \<Rightarrow> nat \<Rightarrow> 64 word \<Rightarrow> recv_op" where
  "recv_make p s data n =
     event.extend (event_make p) (recv_op.fields (sk_context s) (sk_handle s) (buffer_unix data n))"

definition recv_ready :: "'k usys \<Rightarrow> (recv_op, 'k world) op_call" where
  "recv_ready U = (\<lambda>(e, w).
     case sys_read U (rc_socket e) (unat (ub_size (rc_buffer e))) (w_kern w) of (rc, errno, bytes, k) \<Rightarrow>
       let w1 = w\<lparr>w_mem := mem_write (ub_data (rc_buffer e)) bytes (w_mem w), w_kern := k\<rparr> in
       if rc \<ge> 0 then Some (True, e\<lparr>rc_buffer := (rc_buffer e)\<lparr>ub_size := word_of_int rc\<rparr>\<rparr>, w1)
       else if errno = ECONNRESET U then Some (True, e\<lparr>rc_buffer := (rc_buffer e)\<lparr>ub_size := 0\<rparr>\<rparr>, w1)
       else if errno \<noteq> EAGAIN U \<and> errno \<noteq> EINTR U then Some (True, e\<lparr>ev_ec := ec_native errno\<rparr>, w1)
       else Some (False, e, w1))"

definition recv_suspend :: "unix \<Rightarrow> 'k usys \<Rightarrow> nat \<Rightarrow> (recv_op, 'k world) op_call" where
  "recv_suspend u U this = (\<lambda>(e, w). Some (queue_recv u U this (rc_context e) (rc_socket e) (e, w)))"

definition recv_resume :: "'k usys \<Rightarrow> (recv_op, 'k world) op_call" where
  "recv_resume U = recv_ready U"

definition recv_await_resume :: "recv_op \<Rightarrow> exn + 64 word" where
  "recv_await_resume e =
     (if ec_bool (ev_ec e) then Inl (system_error (ev_ec e) ''tcp recv'') else Inr (ub_size (rc_buffer e)))"

section \<open>send and send_some\<close>

record send_op = event +
  sd_context :: int
  sd_socket :: int
  sd_buffer :: unix_buffer
  sd_size :: "64 word"

definition send_make :: "os \<Rightarrow> int socket \<Rightarrow> nat \<Rightarrow> 64 word \<Rightarrow> send_op" where
  "send_make p s data n =
     event.extend (event_make p) (send_op.fields (sk_context s) (sk_handle s) (buffer_unix data n) 0)"

definition send_assert :: "int \<Rightarrow> send_op \<Rightarrow> bool" where
  "send_assert rc e \<longleftrightarrow> ub_size (sd_buffer e) \<ge> word_of_int rc"

text \<open>The bytes a positive result takes off the buffer.\<close>

definition send_advance :: "int \<Rightarrow> send_op \<Rightarrow> send_op" where
  "send_advance rc e =
     e\<lparr>sd_buffer := \<lparr>ub_size = ub_size (sd_buffer e) - word_of_int rc, ub_data = ub_data (sd_buffer e) + nat rc\<rparr>,
       sd_size := sd_size e + word_of_int rc\<rparr>"

definition send_ready :: "'k usys \<Rightarrow> (send_op, 'k world) op_call" where
  "send_ready U = (\<lambda>(e, w).
     case sys_write U (sd_socket e) (mem_bytes (w_mem w) (ub_data (sd_buffer e)) (unat (ub_size (sd_buffer e)))) (w_kern w) of
       (rc, errno, k) \<Rightarrow>
         let w1 = w\<lparr>w_kern := k\<rparr> in
         if rc > 0 then (let e1 = send_advance rc e in Some (ub_size (sd_buffer e1) = 0, e1, w1))
         else if rc = 0 then Some (True, e, w1)
         else if errno \<noteq> EAGAIN U \<and> errno \<noteq> EINTR U then Some (True, e\<lparr>ev_ec := ec_native errno\<rparr>, w1)
         else Some (False, e, w1))"

definition send_suspend :: "unix \<Rightarrow> 'k usys \<Rightarrow> nat \<Rightarrow> (send_op, 'k world) op_call" where
  "send_suspend u U this = (\<lambda>(e, w). Some (queue_send u U this (sd_context e) (sd_socket e) (e, w)))"

definition send_resume :: "'k usys \<Rightarrow> (send_op, 'k world) op_call" where
  "send_resume U = send_ready U"

definition send_await_resume :: "send_op \<Rightarrow> exn + 64 word" where
  "send_await_resume e =
     (if ec_bool (ev_ec e) then Inl (system_error (ev_ec e) ''tcp send'') else Inr (sd_size e))"

definition send_some_ready :: "'k usys \<Rightarrow> (send_op, 'k world) op_call" where
  "send_some_ready U = (\<lambda>(e, w).
     case sys_write U (sd_socket e) (mem_bytes (w_mem w) (ub_data (sd_buffer e)) (unat (ub_size (sd_buffer e)))) (w_kern w) of
       (rc, errno, k) \<Rightarrow>
         let w1 = w\<lparr>w_kern := k\<rparr> in
         if rc > 0 then Some (True, send_advance rc e, w1)
         else if rc = 0 then Some (True, e, w1)
         else if errno \<noteq> EAGAIN U \<and> errno \<noteq> EINTR U then Some (True, e\<lparr>ev_ec := ec_native errno\<rparr>, w1)
         else Some (False, e, w1))"

definition send_some_suspend :: "unix \<Rightarrow> 'k usys \<Rightarrow> nat \<Rightarrow> (send_op, 'k world) op_call" where
  "send_some_suspend u U this = (\<lambda>(e, w). Some (queue_send u U this (sd_context e) (sd_socket e) (e, w)))"

definition send_some_resume :: "'k usys \<Rightarrow> (send_op, 'k world) op_call" where
  "send_some_resume U = send_some_ready U"

definition send_some_await_resume :: "send_op \<Rightarrow> exn + 64 word" where
  "send_some_await_resume e =
     (if ec_bool (ev_ec e) then Inl (system_error (ev_ec e) ''tcp send some'') else Inr (sd_size e))"

section \<open>Sending\<close>

text \<open>
  What \<open>write\<close> promises, for an observation \<open>out fd\<close> of the bytes a descriptor's stream has been given: a prefix of the
  buffer of the length returned is appended, nothing on failure; zero is returned for an empty buffer
  only; a failure has an error number.
\<close>

definition write_ok :: "'k usys \<Rightarrow> (int \<Rightarrow> 'k \<Rightarrow> byte list) \<Rightarrow> bool" where
  "write_ok U out \<longleftrightarrow>
     (\<forall>fd bs k. case sys_write U fd bs k of (rc, errno, k') \<Rightarrow>
        rc \<le> int (length bs) \<and> out fd k' = out fd k @ take (nat rc) bs \<and> (rc = 0 \<longrightarrow> bs = []) \<and>
        (rc < 0 \<longrightarrow> 0 < errno \<and> errno < 2 ^ 28))"

text \<open>
  Of the data \<open>bs0\<close> at \<open>d0\<close>, \<open>n\<close> bytes have been sent: the buffer is the rest, \<open>size_\<close> is \<open>n\<close>, and the stream has
  got exactly those bytes after \<open>out0\<close>.
\<close>

definition send_sent ::
  "(int \<Rightarrow> 'k \<Rightarrow> byte list) \<Rightarrow> int \<Rightarrow> nat \<Rightarrow> byte list \<Rightarrow> byte list \<Rightarrow> nat \<Rightarrow> send_op \<times> 'k world \<Rightarrow> bool" where
  "send_sent out fd d0 bs0 out0 n = (\<lambda>(e, w).
     sd_socket e = fd \<and> n \<le> length bs0 \<and> ub_data (sd_buffer e) = d0 + n \<and>
     unat (ub_size (sd_buffer e)) = length bs0 - n \<and> unat (sd_size e) = n \<and>
     out fd (w_kern w) = out0 @ take n bs0 \<and> mem_bytes (w_mem w) d0 (length bs0) = bs0)"

definition send_inv ::
  "unix \<Rightarrow> 'k usys \<Rightarrow> (int \<Rightarrow> 'k \<Rightarrow> byte list) \<Rightarrow> int \<Rightarrow> nat \<Rightarrow> byte list \<Rightarrow> byte list \<Rightarrow> send_op \<times> 'k world \<Rightarrow> bool" where
  "send_inv u U out fd d0 bs0 out0 s \<longleftrightarrow>
     write_ok U out \<and> register_ok u U (\<lambda>k k'. out fd k' = out fd k) \<and> length bs0 < 2 ^ 64 \<and>
     \<not> ec_bool (ev_ec (fst s)) \<and> (\<exists>n. send_sent out fd d0 bs0 out0 n s)"

definition send_post ::
  "(int \<Rightarrow> 'k \<Rightarrow> byte list) \<Rightarrow> int \<Rightarrow> nat \<Rightarrow> byte list \<Rightarrow> byte list \<Rightarrow> (nat \<Rightarrow> bool) \<Rightarrow> send_op \<times> 'k world \<Rightarrow> bool" where
  "send_post out fd d0 bs0 out0 enough s \<longleftrightarrow>
     (\<exists>n. send_sent out fd d0 bs0 out0 n s \<and> (ec_bool (ev_ec (fst s)) \<or> enough n))"

text \<open>While the operation is under way nobody else writes to the descriptor or to the data.\<close>

definition send_env ::
  "(int \<Rightarrow> 'k \<Rightarrow> byte list) \<Rightarrow> int \<Rightarrow> nat \<Rightarrow> byte list \<Rightarrow> 'k world \<Rightarrow> 'k world \<Rightarrow> bool" where
  "send_env out fd d0 bs0 w w' \<longleftrightarrow>
     out fd (w_kern w') = out fd (w_kern w) \<and>
     mem_bytes (w_mem w') d0 (length bs0) = mem_bytes (w_mem w) d0 (length bs0)"

lemma unat_rc: "0 \<le> rc \<Longrightarrow> nat rc < 2 ^ 64 \<Longrightarrow> unat (word_of_int rc :: 64 word) = nat rc"
  by (simp add: unat_eq_nat_uint unsigned_of_int take_bit_int_eq_self)

lemma send_sent_frame:
  "send_sent out fd d0 bs0 out0 n (e, w) \<Longrightarrow> out fd k = out fd (w_kern w) \<Longrightarrow>
   send_sent out fd d0 bs0 out0 n (e\<lparr>ev_native_context := c, ev_native_id := i, ev_native := nev\<rparr>, w\<lparr>w_kern := k\<rparr>)"
  "send_sent out fd d0 bs0 out0 n (e\<lparr>ev_ec := ec\<rparr>, w) = send_sent out fd d0 bs0 out0 n (e, w)"
  "send_sent out fd d0 bs0 out0 n (e\<lparr>ev_awaiter := a\<rparr>, w) = send_sent out fd d0 bs0 out0 n (e, w)"
  "send_sent out fd d0 bs0 out0 n (e, w) \<Longrightarrow> send_env out fd d0 bs0 w w' \<Longrightarrow> send_sent out fd d0 bs0 out0 n (e, w')"
  by (simp_all add: send_sent_def send_env_def)

lemma send_sent_rest:
  "send_sent out fd d0 bs0 out0 n (e, w) \<Longrightarrow>
   mem_bytes (w_mem w) (ub_data (sd_buffer e)) (unat (ub_size (sd_buffer e))) = drop n bs0"
  using drop_mem_bytes [of n "length bs0" "w_mem w" d0] by (auto simp: send_sent_def)

lemma send_sent_advance:
  assumes s: "send_sent out fd d0 bs0 out0 n (e, w)" and len: "length bs0 < 2 ^ 64"
    and rc: "0 < rc" "rc \<le> int (length bs0 - n)"
    and k: "out fd k = out fd (w_kern w) @ take (nat rc) (drop n bs0)"
  shows "send_sent out fd d0 bs0 out0 (n + nat rc) (send_advance rc e, w\<lparr>w_kern := k\<rparr>)"
proof -
  have r: "unat (word_of_int rc :: 64 word) = nat rc" using rc len by (intro unat_rc) auto
  have n: "n \<le> length bs0" using s by (simp add: send_sent_def)
  have "word_of_int rc \<le> ub_size (sd_buffer e)"
    using s rc r by (simp add: send_sent_def word_le_nat_alt)
  then have "unat (ub_size (sd_buffer e) - word_of_int rc) = length bs0 - (n + nat rc)"
    using s r by (simp add: unat_sub send_sent_def)
  moreover have "unat (sd_size e + word_of_int rc) = n + nat rc"
    using s r rc len n by (subst unat_add_lem [THEN iffD1]) (auto simp: send_sent_def)
  ultimately show ?thesis using s rc n k
    by (auto simp: send_sent_def send_advance_def take_add)
qed

lemma send_write:
  assumes inv: "send_inv u U out fd d0 bs0 out0 (e, w)"
    and r: "sys_write U (sd_socket e) (mem_bytes (w_mem w) (ub_data (sd_buffer e)) (unat (ub_size (sd_buffer e)))) (w_kern w) = (rc, errno, k)"
  shows "(0 < rc \<longrightarrow> (\<exists>n. send_sent out fd d0 bs0 out0 n (send_advance rc e, w\<lparr>w_kern := k\<rparr>) \<and> 0 < n \<and>
            (ub_size (sd_buffer (send_advance rc e)) = 0 \<longleftrightarrow> n = length bs0))) \<and>
         (rc = 0 \<longrightarrow> send_sent out fd d0 bs0 out0 (length bs0) (e, w\<lparr>w_kern := k\<rparr>)) \<and>
         (rc < 0 \<longrightarrow> (\<exists>n. send_sent out fd d0 bs0 out0 n (e, w\<lparr>w_kern := k\<rparr>)) \<and> ec_bool (ec_native errno))"
proof -
  from inv obtain n where n: "send_sent out fd d0 bs0 out0 n (e, w)" by (auto simp: send_inv_def)
  have fd: "sd_socket e = fd" and len: "length bs0 < 2 ^ 64" and nl: "n \<le> length bs0"
    using n inv by (auto simp: send_sent_def send_inv_def)
  note r = r [unfolded send_sent_rest [OF n] fd]
  have w: "rc \<le> int (length bs0 - n)" "out fd k = out fd (w_kern w) @ take (nat rc) (drop n bs0)"
    "rc = 0 \<Longrightarrow> drop n bs0 = []" "rc < 0 \<Longrightarrow> 0 < errno \<and> errno < 2 ^ 28"
    using inv r unfolding send_inv_def write_ok_def by (metis (mono_tags, lifting) case_prod_conv length_drop)+
  have eq: "send_sent out fd d0 bs0 out0 n (e, w\<lparr>w_kern := k\<rparr>)" if "rc \<le> 0"
    using send_sent_frame(1) [OF n, where c = "ev_native_context e" and i = "ev_native_id e" and nev = "ev_native e" and k = k]
      w(2) that by simp
  have pos: "\<exists>n. send_sent out fd d0 bs0 out0 n (send_advance rc e, w\<lparr>w_kern := k\<rparr>) \<and> 0 < n \<and>
            (ub_size (sd_buffer (send_advance rc e)) = 0 \<longleftrightarrow> n = length bs0)" if "0 < rc"
  proof (intro exI conjI)
    show a: "send_sent out fd d0 bs0 out0 (n + nat rc) (send_advance rc e, w\<lparr>w_kern := k\<rparr>)"
      by (rule send_sent_advance [OF n len that w(1,2)])
    show "0 < n + nat rc" using that by simp
    have "ub_size (sd_buffer (send_advance rc e)) = 0 \<longleftrightarrow> unat (ub_size (sd_buffer (send_advance rc e))) = 0"
      by (simp add: unat_eq_zero)
    then show "ub_size (sd_buffer (send_advance rc e)) = 0 \<longleftrightarrow> n + nat rc = length bs0"
      using a by (auto simp: send_sent_def)
  qed
  have "n = length bs0" if "rc = 0" using w(3) [OF that] nl by simp
  with eq pos w(4) ec_bool_errno show ?thesis by auto
qed

lemma send_inv_stable:
  "send_inv u U out fd d0 bs0 out0 (e, w) \<Longrightarrow> out fd k = out fd (w_kern w) \<Longrightarrow>
   send_inv u U out fd d0 bs0 out0 (e\<lparr>ev_native_context := c, ev_native_id := i, ev_native := nev\<rparr>, w\<lparr>w_kern := k\<rparr>)"
  by (simp add: send_inv_def) (blast intro: send_sent_frame(1))

lemma send_inv_fails:
  "send_inv u U out fd d0 bs0 out0 (e, w) \<Longrightarrow> ec_bool ec \<Longrightarrow> send_post out fd d0 bs0 out0 enough (e\<lparr>ev_ec := ec\<rparr>, w)"
  by (auto simp: send_inv_def send_post_def send_sent_frame)

text \<open>Queueing, removing, storing the awaiter and the environment keep the invariant, for both operations.\<close>

lemma send_inv_queue:
  assumes "send_inv u U out fd d0 bs0 out0 (e, w)"
  shows "case queue_send u U this c h (e, w) of
           (b, t) \<Rightarrow> if b then send_inv u U out fd d0 bs0 out0 t else send_post out fd d0 bs0 out0 enough t"
proof -
  have reg: "register_ok u U (\<lambda>k k'. out fd k' = out fd k)" using assms by (simp add: send_inv_def)
  show ?thesis
    by (rule queue_law(2) [OF reg]) (use assms in \<open>auto intro: send_inv_stable send_inv_fails\<close>)
qed

lemma send_inv_remove:
  assumes "send_inv u U out fd d0 bs0 out0 s"
  shows "send_inv u U out fd d0 bs0 out0 (event_remove u U s)"
proof -
  obtain e w where s: "s = (e, w)" by (metis prod.exhaust)
  have reg: "register_ok u U (\<lambda>k k'. out fd k' = out fd k)" using assms by (simp add: send_inv_def)
  show ?thesis unfolding s
    by (rule remove_law_of [OF reg]) (use assms s in \<open>auto intro: send_inv_stable\<close>)
qed

lemma send_inv_env:
  "send_inv u U out fd d0 bs0 out0 (e, w) \<Longrightarrow> send_env out fd d0 bs0 w w' \<Longrightarrow> send_inv u U out fd d0 bs0 out0 (e, w')"
  by (auto simp: send_inv_def intro: send_sent_frame)

lemma send_inv_awaiter:
  "send_inv u U out fd d0 bs0 out0 (e, w) \<Longrightarrow> send_inv u U out fd d0 bs0 out0 (e\<lparr>ev_awaiter := a\<rparr>, w)"
  by (auto simp: send_inv_def send_sent_frame)

lemma send_ready_law:
  assumes "send_inv u U out fd d0 bs0 out0 s"
  shows "\<exists>b t. send_ready U s = Some (b, t) \<and>
    (if b then send_post out fd d0 bs0 out0 (\<lambda>n. n = length bs0) t else send_inv u U out fd d0 bs0 out0 t)"
proof -
  obtain e w where s: "s = (e, w)" by (metis prod.exhaust)
  obtain rc errno k where r: "sys_write U (sd_socket e) (mem_bytes (w_mem w) (ub_data (sd_buffer e)) (unat (ub_size (sd_buffer e)))) (w_kern w) = (rc, errno, k)"
    by (metis prod_cases3)
  from send_write [OF assms [unfolded s] r] assms r show ?thesis
    by (auto simp: s send_ready_def Let_def send_post_def send_inv_def send_sent_frame send_advance_def)
qed

lemma send_some_ready_law:
  assumes "send_inv u U out fd d0 bs0 out0 s"
  shows "\<exists>b t. send_some_ready U s = Some (b, t) \<and>
    (if b then send_post out fd d0 bs0 out0 (\<lambda>n. 0 < n \<or> bs0 = []) t else send_inv u U out fd d0 bs0 out0 t)"
proof -
  obtain e w where s: "s = (e, w)" by (metis prod.exhaust)
  obtain rc errno k where r: "sys_write U (sd_socket e) (mem_bytes (w_mem w) (ub_data (sd_buffer e)) (unat (ub_size (sd_buffer e)))) (w_kern w) = (rc, errno, k)"
    by (metis prod_cases3)
  from send_write [OF assms [unfolded s] r] assms r show ?thesis
    by (auto simp: s send_some_ready_def Let_def send_post_def send_inv_def send_sent_frame send_advance_def)
qed

lemma send_suspend_law:
  assumes "send_inv u U out fd d0 bs0 out0 s"
  shows "\<exists>b t. send_suspend u U this s = Some (b, t) \<and>
    (if b then send_inv u U out fd d0 bs0 out0 t else send_post out fd d0 bs0 out0 enough t)"
proof -
  obtain e w where s: "s = (e, w)" by (metis prod.exhaust)
  show ?thesis unfolding s send_suspend_def prod.case
    by (rule some_law) (rule send_inv_queue [OF assms [unfolded s]])
qed

lemma send_some_suspend_same: "send_some_suspend = send_suspend"
  by (simp add: fun_eq_iff send_some_suspend_def send_suspend_def)

interpretation tcp_send: awaitable "send_ready U" "send_suspend u U this" "send_resume U" "event_remove u U"
    "send_env out fd d0 bs0" "send_inv u U out fd d0 bs0 out0" "send_inv u U out fd d0 bs0 out0" "send_post out fd d0 bs0 out0 (\<lambda>n. n = length bs0)"
  for u U this out fd d0 bs0 out0
  by unfold_locales
    (unfold send_resume_def,
     (rule send_ready_law send_suspend_law send_inv_remove send_inv_awaiter send_inv_env; assumption)+)

interpretation tcp_send_some: awaitable "send_some_ready U" "send_some_suspend u U this" "send_some_resume U"
    "event_remove u U" "send_env out fd d0 bs0" "send_inv u U out fd d0 bs0 out0" "send_inv u U out fd d0 bs0 out0"
    "send_post out fd d0 bs0 out0 (\<lambda>n. 0 < n \<or> bs0 = [])"
  for u U this out fd d0 bs0 out0
  by unfold_locales
    (unfold send_some_resume_def send_some_suspend_same,
     (rule send_some_ready_law send_suspend_law send_inv_remove send_inv_awaiter send_inv_env; assumption)+)

lemma unat_less64: "unat (n :: 64 word) < 2 ^ 64"
  using unsigned_less [of n] by simp

lemma send_make_inv:
  assumes "write_ok U out" "register_ok u U (\<lambda>k k'. out (sk_handle s) k' = out (sk_handle s) k)"
  shows "send_inv u U out (sk_handle s) d (mem_bytes (w_mem w) d (unat n)) (out (sk_handle s) (w_kern w))
           (send_make p s d n, w)"
proof -
  show ?thesis using assms unat_less64 [of n]
    by (auto simp: send_inv_def send_sent_def send_make_def event_make_def buffer_unix_def event.defs send_op.defs)
qed

text \<open>
  \<open>send\<close> sends everything or throws. However the kernel splits and delays the writes, whichever dispatches
  and queueing failures occur, an awaited \<open>send\<close> continues its awaiter at most once; if it then returns,
  the stream has received exactly the given bytes, in order and once, and the result is their number; if
  it throws, the stream has received a prefix whose length is \<open>size_\<close>.
\<close>

lemma tcp_send_delivers:
  assumes "write_ok U out" "register_ok u U (\<lambda>k k'. out (sk_handle s) k' = out (sk_handle s) k)"
    and "bs = mem_bytes (w_mem w) d (unat n)"
    and "reach (\<lambda>m. m = await_start (send_make (Unix u) s d n, w))
           (act_step (await_exec (send_ready U) (send_suspend u U this) (send_resume U) (event_remove u U)
             (send_env out (sk_handle s) d bs))) m"
  shows "aw_wakes m = (if aw_mode m = Continued then 1 else 0) \<and>
    (aw_mode m = Continued \<longrightarrow>
      (let sent = out (sk_handle s) (w_kern (snd (aw_state m))); before = out (sk_handle s) (w_kern w) in
       case send_await_resume (fst (aw_state m)) of
         Inr k \<Rightarrow> k = n \<and> sent = before @ bs
       | Inl x \<Rightarrow> exn_what x = ''tcp send'' \<and> (\<exists>j\<le>length bs. sent = before @ take j bs \<and>
                   unat (sd_size (fst (aw_state m))) = j)))"
proof -
  note start = send_make_inv [OF assms(1,2), of d w n "Unix u", folded assms(3)]
  have "send_post out (sk_handle s) d bs (out (sk_handle s) (w_kern w)) (\<lambda>n. n = length bs) (aw_state m)"
    if "aw_mode m = Continued"
    by (rule tcp_send.await_done(2) [OF start assms(4) that])
  moreover have "unat k = length bs \<Longrightarrow> k = n" for k
    using assms(3) by (simp add: word_unat_eq_iff)
  ultimately show ?thesis
    using tcp_send.await_done(1) [OF start assms(4)]
    by (auto simp: send_post_def send_await_resume_def send_sent_def system_error_def Let_def)
qed

text \<open>
  \<open>send_some\<close> sends a non-empty prefix or throws. If an awaited \<open>send_some\<close> returns, its result is the number of
  leading bytes the stream has received, and it is positive unless there was nothing to send.
\<close>

lemma tcp_send_some_delivers:
  assumes "write_ok U out" "register_ok u U (\<lambda>k k'. out (sk_handle s) k' = out (sk_handle s) k)"
    and "bs = mem_bytes (w_mem w) d (unat n)"
    and "reach (\<lambda>m. m = await_start (send_make (Unix u) s d n, w))
           (act_step (await_exec (send_some_ready U) (send_some_suspend u U this) (send_some_resume U) (event_remove u U)
             (send_env out (sk_handle s) d bs))) m"
  shows "aw_wakes m = (if aw_mode m = Continued then 1 else 0) \<and>
    (aw_mode m = Continued \<longrightarrow>
      (case send_some_await_resume (fst (aw_state m)) of
         Inr k \<Rightarrow> out (sk_handle s) (w_kern (snd (aw_state m))) = out (sk_handle s) (w_kern w) @ take (unat k) bs \<and>
                  unat k \<le> unat n \<and> (0 < k \<or> n = 0)
       | Inl x \<Rightarrow> exn_what x = ''tcp send some''))"
proof -
  note start = send_make_inv [OF assms(1,2), of d w n "Unix u", folded assms(3)]
  have "send_post out (sk_handle s) d bs (out (sk_handle s) (w_kern w)) (\<lambda>n. 0 < n \<or> bs = []) (aw_state m)"
    if "aw_mode m = Continued"
    by (rule tcp_send_some.await_done(2) [OF start assms(4) that])
  moreover have "unat k > 0 \<Longrightarrow> 0 < k" for k :: "64 word"
    by (simp add: word_gt_0 unat_gt_0)
  moreover have "bs = [] \<Longrightarrow> n = 0" using assms(3) by (auto simp: unat_eq_zero mem_bytes_def)
  moreover have "length bs = unat n" using assms(3) by simp
  ultimately show ?thesis
    using tcp_send_some.await_done(1) [OF start assms(4)]
    by (fastforce simp: send_post_def send_some_await_resume_def send_sent_def system_error_def)
qed

text \<open>
  A kernel for the witnesses: the bytes given to descriptor 7 so far and the number of calls that would block;
  a write takes at most two bytes.
\<close>

type_synonym pipe = "byte list \<times> nat"

definition pipe_unix :: "pipe usys" where
  "pipe_unix = failing_unix
     \<lparr>sys_epoll_ctl := \<lambda>_ _ _ _ k. (0, 0, k),
      sys_write := \<lambda>fd bs (out, blocked).
        if bs \<noteq> [] \<and> (fd \<noteq> 7 \<or> blocked > 0) then (-1, 11, (out, blocked - 1))
        else (int (length (take 2 bs)), 0, (out @ take 2 bs, blocked))\<rparr>"

definition pipe_out :: "int \<Rightarrow> pipe \<Rightarrow> byte list" where
  "pipe_out fd k = (if fd = 7 then fst k else [])"

lemma pipe_ok: "write_ok pipe_unix pipe_out" "register_ok Linux pipe_unix (\<lambda>k k'. pipe_out fd k' = pipe_out fd k)"
  by (auto simp: write_ok_def register_ok_def pipe_unix_def pipe_out_def failing_unix_def min_def)

definition pipe_socket :: "int socket" where
  "pipe_socket = (socket_empty \<lparr>sa_family = 0, sa_port = 0, sa_addr4 = [], sa_addr6 = []\<rparr> 7 3)"

definition pipe_world :: "pipe world" where
  "pipe_world = \<lparr>w_mem = of_nat, w_kern = ([], 1)\<rparr>"

lemma tcp_send_delivers_witness:
  "\<exists>m. run_acts (await_exec (send_ready pipe_unix) (send_suspend Linux pipe_unix 100) (send_resume pipe_unix)
           (event_remove Linux pipe_unix) (send_env pipe_out 7 65 [65, 66, 67]))
         [Co_await 5, Dispatch, Dispatch] (await_start (send_make (Unix Linux) pipe_socket 65 3, pipe_world)) = Some m \<and>
       aw_mode m = Continued \<and> pipe_out 7 (w_kern (snd (aw_state m))) = [65, 66, 67]"
proof -
  let ?exec = "await_exec (send_ready pipe_unix) (send_suspend Linux pipe_unix 100) (send_resume pipe_unix)
           (event_remove Linux pipe_unix) (send_env pipe_out 7 65 [65, 66, 67])"
  let ?s0 = "await_start (send_make (Unix Linux) pipe_socket 65 3, pipe_world)"
  have h: "sk_handle pipe_socket = 7" by (simp add: pipe_socket_def socket_empty_def)
  have bs: "[65, 66, 67] = mem_bytes (w_mem pipe_world) 65 (unat (3 :: 64 word))"
    by (simp add: pipe_world_def mem_bytes_def upt_rec)
  obtain m where m: "run_acts ?exec [Co_await 5, Dispatch, Dispatch] ?s0 = Some m" "aw_mode m = Continued"
    "\<not> ec_bool (ev_ec (fst (aw_state m)))" "w_kern pipe_world = ([], 1)"
    by (simp add: await_start_def send_make_def pipe_socket_def socket_empty_def event_make_def event.defs send_op.defs
        send_ready_def pipe_unix_def failing_unix_def pipe_world_def mem_bytes_def upt_rec buffer_unix_def
        event_await_suspend_def send_suspend_def queue_defs await_end_def event_await_resume_def event_remove_def
        event_remove_linux_def send_resume_def send_advance_def Let_def)
  have "reach (\<lambda>m. m = ?s0) (act_step ?exec) m"
    by (rule run_acts_reach [OF m(1)]) (simp add: reach_init)
  from tcp_send_delivers [OF pipe_ok bs, where s = pipe_socket and this = 100 and m = m, unfolded h, OF this] m
  show ?thesis by (auto simp: send_await_resume_def pipe_out_def)
qed

lemma tcp_send_some_delivers_witness:
  "\<exists>m. run_acts (await_exec (send_some_ready pipe_unix) (send_some_suspend Linux pipe_unix 100) (send_some_resume pipe_unix)
           (event_remove Linux pipe_unix) (send_env pipe_out 7 65 [65, 66, 67]))
         [Co_await 5, Dispatch] (await_start (send_make (Unix Linux) pipe_socket 65 3, pipe_world)) = Some m \<and>
       send_some_await_resume (fst (aw_state m)) = Inr 2 \<and> pipe_out 7 (w_kern (snd (aw_state m))) = [65, 66]"
proof -
  let ?exec = "await_exec (send_some_ready pipe_unix) (send_some_suspend Linux pipe_unix 100) (send_some_resume pipe_unix)
           (event_remove Linux pipe_unix) (send_env pipe_out 7 65 [65, 66, 67])"
  let ?s0 = "await_start (send_make (Unix Linux) pipe_socket 65 3, pipe_world)"
  have h: "sk_handle pipe_socket = 7" by (simp add: pipe_socket_def socket_empty_def)
  have bs: "[65, 66, 67] = mem_bytes (w_mem pipe_world) 65 (unat (3 :: 64 word))"
    by (simp add: pipe_world_def mem_bytes_def upt_rec)
  obtain m where m: "run_acts ?exec [Co_await 5, Dispatch] ?s0 = Some m" "aw_mode m = Continued"
    "send_some_await_resume (fst (aw_state m)) = Inr 2" "w_kern pipe_world = ([], 1)"
    by (simp add: await_start_def send_make_def pipe_socket_def socket_empty_def event_make_def event.defs send_op.defs
        send_some_ready_def pipe_unix_def failing_unix_def pipe_world_def mem_bytes_def upt_rec buffer_unix_def
        event_await_suspend_def send_some_suspend_def queue_defs await_end_def event_await_resume_def event_remove_def
        event_remove_linux_def send_some_resume_def send_some_await_resume_def send_advance_def Let_def)
  have "reach (\<lambda>m. m = ?s0) (act_step ?exec) m"
    by (rule run_acts_reach [OF m(1)]) (simp add: reach_init)
  from tcp_send_some_delivers [OF pipe_ok bs, where s = pipe_socket and this = 100 and m = m, unfolded h, OF this] m
  have "pipe_out 7 (w_kern (snd (aw_state m))) = take (unat (2 :: 64 word)) [65, 66, 67]" by (simp add: pipe_out_def)
  with m show ?thesis by simp
qed

section \<open>Receiving\<close>

text \<open>
  What \<open>read\<close> promises, for an observation \<open>inn fd\<close> of the bytes taken from a descriptor's stream so far: at most the
  buffer's size, as many bytes as it returns, none on failure.
\<close>

definition read_ok :: "'k usys \<Rightarrow> (int \<Rightarrow> 'k \<Rightarrow> byte list) \<Rightarrow> bool" where
  "read_ok U inn \<longleftrightarrow>
     (\<forall>fd n k. case sys_read U fd n k of (rc, errno, bytes, k') \<Rightarrow>
        length bytes \<le> n \<and> rc \<le> int (length bytes) \<and> (0 \<le> rc \<longrightarrow> rc = int (length bytes)) \<and>
        inn fd k' = inn fd k @ bytes \<and> (rc < 0 \<longrightarrow> bytes = [] \<and> 0 < errno \<and> errno < 2 ^ 28))"

definition recv_env :: "(int \<Rightarrow> 'k \<Rightarrow> byte list) \<Rightarrow> int \<Rightarrow> 'k world \<Rightarrow> 'k world \<Rightarrow> bool" where
  "recv_env inn fd w w' \<longleftrightarrow> inn fd (w_kern w') = inn fd (w_kern w) \<and> w_mem w' = w_mem w"

definition recv_inv ::
  "unix \<Rightarrow> 'k usys \<Rightarrow> (int \<Rightarrow> 'k \<Rightarrow> byte list) \<Rightarrow> int \<Rightarrow> unix_buffer \<Rightarrow> byte list \<Rightarrow> (nat \<Rightarrow> byte) \<Rightarrow>
   recv_op \<times> 'k world \<Rightarrow> bool" where
  "recv_inv u U inn fd b in0 mem0 = (\<lambda>(e, w).
     read_ok U inn \<and> register_ok u U (\<lambda>k k'. inn fd k' = inn fd k) \<and>
     rc_socket e = fd \<and> rc_buffer e = b \<and> \<not> ec_bool (ev_ec e) \<and> inn fd (w_kern w) = in0 \<and> w_mem w = mem0)"

definition recv_post ::
  "(int \<Rightarrow> 'k \<Rightarrow> byte list) \<Rightarrow> int \<Rightarrow> unix_buffer \<Rightarrow> byte list \<Rightarrow> (nat \<Rightarrow> byte) \<Rightarrow> recv_op \<times> 'k world \<Rightarrow> bool" where
  "recv_post inn fd b in0 mem0 = (\<lambda>(e, w).
     \<exists>bs. length bs \<le> unat (ub_size b) \<and> inn fd (w_kern w) = in0 @ bs \<and> w_mem w = mem_write (ub_data b) bs mem0 \<and>
       (if ec_bool (ev_ec e) then bs = [] else unat (ub_size (rc_buffer e)) = length bs))"

lemma mem_write_Nil [simp]: "mem_write p [] m = m"
  by (rule ext) (auto simp: mem_write_def)

lemma read_okD:
  assumes "read_ok U inn" "sys_read U fd n k = (rc, errno, bytes, k')"
  shows "length bytes \<le> n" "0 \<le> rc \<longrightarrow> rc = int (length bytes)" "inn fd k' = inn fd k @ bytes"
    "rc < 0 \<longrightarrow> bytes = [] \<and> ec_bool (ec_native errno)"
  using spec [OF spec [OF spec [OF assms(1) [unfolded read_ok_def], of fd], of n], of k] assms(2) ec_bool_errno
  by auto

lemma recv_inv_stable:
  "recv_inv u U inn fd b in0 mem0 (e, w) \<Longrightarrow> inn fd k = inn fd (w_kern w) \<Longrightarrow>
   recv_inv u U inn fd b in0 mem0 (e\<lparr>ev_native_context := c, ev_native_id := i, ev_native := nev\<rparr>, w\<lparr>w_kern := k\<rparr>)"
  by (simp add: recv_inv_def)

lemma recv_inv_fails:
  "recv_inv u U inn fd b in0 mem0 (e, w) \<Longrightarrow> ec_bool ec \<Longrightarrow> recv_post inn fd b in0 mem0 (e\<lparr>ev_ec := ec\<rparr>, w)"
  by (simp add: recv_inv_def recv_post_def)

lemma recv_ready_law:
  assumes "recv_inv u U inn fd b in0 mem0 s"
  shows "\<exists>r t. recv_ready U s = Some (r, t) \<and> (if r then recv_post inn fd b in0 mem0 t else recv_inv u U inn fd b in0 mem0 t)"
proof -
  obtain e w where s: "s = (e, w)" by (metis prod.exhaust)
  obtain rc errno bytes k where r: "sys_read U (rc_socket e) (unat (ub_size (rc_buffer e))) (w_kern w) = (rc, errno, bytes, k)"
    by (metis prod_cases4)
  have "read_ok U inn" using assms by (simp add: s recv_inv_def)
  note c = read_okD [OF this r]
  have len: "unat (word_of_int rc :: 64 word) = length bytes" if "0 \<le> rc"
    using c(1,2) that unat_less64 [of "ub_size (rc_buffer e)"] by (subst unat_rc) auto
  have a: "rc_socket e = fd" "rc_buffer e = b" "\<not> ec_bool (ev_ec e)" "inn fd (w_kern w) = in0" "w_mem w = mem0"
    using assms by (simp_all add: s recv_inv_def)
  show ?thesis
  proof (cases "0 \<le> rc")
    case True
    with r have "recv_ready U s = Some (True, e\<lparr>rc_buffer := (rc_buffer e)\<lparr>ub_size := word_of_int rc\<rparr>\<rparr>,
        w\<lparr>w_mem := mem_write (ub_data b) bytes mem0, w_kern := k\<rparr>)" by (simp add: s recv_ready_def a Let_def)
    moreover have "inn fd k = in0 @ bytes" "length bytes \<le> unat (ub_size b)" using c(1,3) a by auto
    ultimately show ?thesis using len [OF True] a(3) by (simp add: recv_post_def ex_bool_eq)
  next
    case False
    with c(1,3,4) r assms show ?thesis
      by (auto simp: s recv_ready_def recv_inv_def recv_post_def Let_def)
  qed
qed

lemma recv_suspend_law:
  assumes "recv_inv u U inn fd b in0 mem0 s"
  shows "\<exists>r t. recv_suspend u U this s = Some (r, t) \<and> (if r then recv_inv u U inn fd b in0 mem0 t else recv_post inn fd b in0 mem0 t)"
proof -
  obtain e w where s: "s = (e, w)" by (metis prod.exhaust)
  have reg: "register_ok u U (\<lambda>k k'. inn fd k' = inn fd k)" using assms by (simp add: s recv_inv_def)
  show ?thesis unfolding s recv_suspend_def prod.case
    by (rule some_law, rule queue_law(1) [OF reg])
      (use assms s in \<open>auto intro: recv_inv_stable recv_inv_fails\<close>)
qed

lemma recv_inv_remove:
  assumes "recv_inv u U inn fd b in0 mem0 s"
  shows "recv_inv u U inn fd b in0 mem0 (event_remove u U s)"
proof -
  obtain e w where s: "s = (e, w)" by (metis prod.exhaust)
  have reg: "register_ok u U (\<lambda>k k'. inn fd k' = inn fd k)" using assms by (simp add: s recv_inv_def)
  show ?thesis unfolding s
    by (rule remove_law_of [OF reg]) (use assms s in \<open>auto intro: recv_inv_stable\<close>)
qed

interpretation tcp_recv: awaitable "recv_ready U" "recv_suspend u U this" "recv_resume U" "event_remove u U"
    "recv_env inn fd" "recv_inv u U inn fd b in0 mem0" "recv_inv u U inn fd b in0 mem0" "recv_post inn fd b in0 mem0"
  for u U this inn fd b in0 mem0
  by unfold_locales
    (unfold recv_resume_def, (rule recv_ready_law recv_suspend_law recv_inv_remove; assumption)+,
     simp_all add: recv_inv_def recv_env_def)

text \<open>
  \<open>recv\<close> delivers what the stream gave. If an awaited \<open>recv\<close> returns a length, exactly that many bytes, at most the
  buffer's size, have been taken from the stream and stored at the buffer, and no other memory has
  changed; if it throws, nothing has been taken and memory is unchanged.
\<close>

lemma tcp_recv_receives:
  assumes "read_ok U inn" "register_ok u U (\<lambda>k k'. inn (sk_handle s) k' = inn (sk_handle s) k)"
    and "reach (\<lambda>m. m = await_start (recv_make (Unix u) s d n, w))
           (act_step (await_exec (recv_ready U) (recv_suspend u U this) (recv_resume U) (event_remove u U)
             (recv_env inn (sk_handle s)))) m"
    and "aw_mode m = Continued"
  shows "\<exists>bs. inn (sk_handle s) (w_kern (snd (aw_state m))) = inn (sk_handle s) (w_kern w) @ bs \<and>
              w_mem (snd (aw_state m)) = mem_write d bs (w_mem w) \<and>
              (case recv_await_resume (fst (aw_state m)) of
                 Inr k \<Rightarrow> unat k = length bs \<and> length bs \<le> unat n
               | Inl x \<Rightarrow> bs = [] \<and> exn_what x = ''tcp recv'')"
proof -
  have "recv_inv u U inn (sk_handle s) (buffer_unix d n) (inn (sk_handle s) (w_kern w)) (w_mem w)
      (recv_make (Unix u) s d n, w)"
    using assms(1,2) by (simp add: recv_inv_def recv_make_def event_make_def event.defs recv_op.defs)
  from tcp_recv.await_done(2) [OF this assms(3,4)] show ?thesis
    by (fastforce simp: recv_post_def recv_await_resume_def buffer_unix_def system_error_def split: if_splits)
qed

text \<open>The kernel of the witness: descriptor 7 has two bytes to read after one call that would block.\<close>

definition source_unix :: "(byte list \<times> nat) usys" where
  "source_unix = failing_unix
     \<lparr>sys_epoll_ctl := \<lambda>_ _ _ _ k. (0, 0, k),
      sys_read := \<lambda>fd n (taken, blocked).
        if blocked > 0 \<or> n < 2 then (-1, 11, [], (taken, blocked - 1))
        else (2, 0, [72, 84], (taken @ [72, 84], blocked))\<rparr>"

lemma source_ok: "read_ok source_unix (\<lambda>fd k. fst k)"
  "register_ok Linux source_unix (\<lambda>k k'. fst k' = fst k)"
  by (auto simp: read_ok_def register_ok_def source_unix_def failing_unix_def)

lemma tcp_recv_receives_witness:
  "\<exists>m. run_acts (await_exec (recv_ready source_unix) (recv_suspend Linux source_unix 100) (recv_resume source_unix)
           (event_remove Linux source_unix) (recv_env (\<lambda>fd k. fst k) 7))
         [Co_await 5, Dispatch] (await_start (recv_make (Unix Linux) pipe_socket 65 1024, \<lparr>w_mem = \<lambda>_. 0, w_kern = ([], 1)\<rparr>)) = Some m \<and>
       recv_await_resume (fst (aw_state m)) = Inr 2 \<and>
       (\<exists>bs. length bs = 2 \<and> w_mem (snd (aw_state m)) = mem_write 65 bs (\<lambda>_. 0))"
proof -
  let ?w = "\<lparr>w_mem = \<lambda>_. 0 :: byte, w_kern = ([] :: byte list, 1 :: nat)\<rparr>"
  let ?exec = "await_exec (recv_ready source_unix) (recv_suspend Linux source_unix 100) (recv_resume source_unix)
           (event_remove Linux source_unix) (recv_env (\<lambda>fd k. fst k) 7)"
  let ?s0 = "await_start (recv_make (Unix Linux) pipe_socket 65 1024, ?w)"
  have h: "sk_handle pipe_socket = 7" by (simp add: pipe_socket_def socket_empty_def)
  obtain m where m: "run_acts ?exec [Co_await 5, Dispatch] ?s0 = Some m" "aw_mode m = Continued"
    "recv_await_resume (fst (aw_state m)) = Inr 2"
    by (simp add: await_start_def recv_make_def pipe_socket_def socket_empty_def event_make_def event.defs recv_op.defs
        recv_ready_def source_unix_def failing_unix_def buffer_unix_def
        event_await_suspend_def recv_suspend_def queue_defs await_end_def event_await_resume_def event_remove_def
        event_remove_linux_def recv_resume_def recv_await_resume_def Let_def)
  have "reach (\<lambda>m. m = ?s0) (act_step ?exec) m"
    by (rule run_acts_reach [OF m(1)]) (simp add: reach_init)
  from tcp_recv_receives [OF source_ok(1) source_ok(2), where s = pipe_socket and this = 100 and m = m, unfolded h, OF this m(2)] m
  show ?thesis by auto
qed

section \<open>Accepting\<close>

text \<open>
  What \<open>accept4\<close> promises, for an observation \<open>acc\<close> of the descriptors handed out so far: it hands out the
  descriptor it returns, and nothing when it returns -1.
\<close>

definition accept_ok :: "'k usys \<Rightarrow> ('k \<Rightarrow> int list) \<Rightarrow> bool" where
  "accept_ok U acc \<longleftrightarrow>
     (\<forall>fd a n k. case sys_accept4 U fd a n k of (h, errno, a', n', k') \<Rightarrow>
        acc k' = acc k @ (if h \<noteq> -1 then [h] else []) \<and> (h = -1 \<longrightarrow> 0 < errno \<and> errno < 2 ^ 28))"

definition accept_inv ::
  "unix \<Rightarrow> 'k usys \<Rightarrow> ('k \<Rightarrow> int list) \<Rightarrow> int \<Rightarrow> int list \<Rightarrow> accept_op \<times> 'k world \<Rightarrow> bool" where
  "accept_inv u U acc context acc0 = (\<lambda>(e, w).
     accept_ok U acc \<and> register_ok u U (\<lambda>k k'. acc k' = acc k) \<and> \<not> ec_bool (ev_ec e) \<and>
     sk_handle (ac_client e) = -1 \<and> sk_family (ac_client e) = 0 \<and> sk_context (ac_client e) = context \<and> acc (w_kern w) = acc0)"

definition accept_post :: "('k \<Rightarrow> int list) \<Rightarrow> int \<Rightarrow> int list \<Rightarrow> accept_op \<times> 'k world \<Rightarrow> bool" where
  "accept_post acc context acc0 = (\<lambda>(e, w).
     sk_family (ac_client e) = 0 \<and> sk_context (ac_client e) = context \<and>
     (if ec_bool (ev_ec e) then acc (w_kern w) = acc0
      else sk_handle (ac_client e) \<noteq> -1 \<and> acc (w_kern w) = acc0 @ [sk_handle (ac_client e)]))"

lemma accept_okD:
  assumes "accept_ok U acc" "sys_accept4 U fd a n k = (h, errno, a', n', k')"
  shows "acc k' = acc k @ (if h \<noteq> -1 then [h] else [])" "h = -1 \<longrightarrow> ec_bool (ec_native errno)"
  using spec [OF spec [OF spec [OF spec [OF assms(1) [unfolded accept_ok_def], of fd], of a], of n], of k]
    assms(2) ec_bool_errno by auto

lemma accept_ready_law:
  assumes "accept_inv u U acc c acc0 s"
  shows "\<exists>r t. accept_ready U A s = Some (r, t) \<and> (if r then accept_post acc c acc0 t else accept_inv u U acc c acc0 t)"
proof -
  obtain e w where s: "s = (e, w)" by (metis prod.exhaust)
  obtain h errno a n k where r: "sys_accept4 U (ac_socket e) (ep_storage (sk_endpoint (ac_client e)))
      (endpoint_capacity A) (w_kern w) = (h, errno, a, n, k)" by (metis prod_cases5)
  have "accept_ok U acc" using assms by (simp add: s accept_inv_def)
  note c = accept_okD [OF this r]
  have reset: "handle_reset_unix U h (sk_handle (ac_client e)) k = Some (h, k)"
    using assms by (simp add: s accept_inv_def handle_reset_unix_def)
  show ?thesis
  proof (cases "h = -1")
    case True
    with c r reset assms show ?thesis by (auto simp: s accept_ready_def accept_inv_def accept_post_def Let_def)
  next
    case False
    with c r reset assms show ?thesis by (auto simp: s accept_ready_def accept_inv_def accept_post_def Let_def)
  qed
qed

lemma accept_inv_stable:
  "accept_inv u U acc x acc0 (e, w) \<Longrightarrow> acc k = acc (w_kern w) \<Longrightarrow>
   accept_inv u U acc x acc0 (e\<lparr>ev_native_context := c, ev_native_id := i, ev_native := nev\<rparr>, w\<lparr>w_kern := k\<rparr>)"
  by (simp add: accept_inv_def)

lemma accept_inv_fails:
  "accept_inv u U acc x acc0 (e, w) \<Longrightarrow> ec_bool ec \<Longrightarrow> accept_post acc x acc0 (e\<lparr>ev_ec := ec\<rparr>, w)"
  by (simp add: accept_inv_def accept_post_def)

lemma accept_suspend_law:
  assumes "accept_inv u U acc c acc0 s"
  shows "\<exists>r t. accept_suspend u U this s = Some (r, t) \<and> (if r then accept_inv u U acc c acc0 t else accept_post acc c acc0 t)"
proof -
  obtain e w where s: "s = (e, w)" by (metis prod.exhaust)
  have reg: "register_ok u U (\<lambda>k k'. acc k' = acc k)" using assms by (simp add: s accept_inv_def)
  show ?thesis unfolding s accept_suspend_def prod.case
    by (rule some_law, rule queue_law(1) [OF reg])
      (use assms s in \<open>auto intro: accept_inv_stable accept_inv_fails\<close>)
qed

lemma accept_inv_remove:
  assumes "accept_inv u U acc c acc0 s"
  shows "accept_inv u U acc c acc0 (event_remove u U s)"
proof -
  obtain e w where s: "s = (e, w)" by (metis prod.exhaust)
  have reg: "register_ok u U (\<lambda>k k'. acc k' = acc k)" using assms by (simp add: s accept_inv_def)
  show ?thesis unfolding s
    by (rule remove_law_of [OF reg]) (use assms s in \<open>auto intro: accept_inv_stable\<close>)
qed

definition accept_env :: "('k \<Rightarrow> int list) \<Rightarrow> 'k world \<Rightarrow> 'k world \<Rightarrow> bool" where
  "accept_env acc w w' \<longleftrightarrow> acc (w_kern w') = acc (w_kern w)"

interpretation tcp_accept: awaitable "accept_ready U A" "accept_suspend u U this" "accept_resume U A" "event_remove u U"
    "accept_env acc" "accept_inv u U acc c acc0" "accept_inv u U acc c acc0" "accept_post acc c acc0"
  for u U A this acc c acc0
  by unfold_locales
    (unfold accept_resume_def, (rule accept_ready_law accept_suspend_law accept_inv_remove; assumption)+,
     simp_all add: accept_inv_def accept_env_def)

text \<open>
  \<open>accept\<close> neither loses nor duplicates a connection. If an awaited \<open>accept\<close> returns a socket, it owns the one descriptor
  the system has handed out to it; if it throws, none was handed out. The socket belongs to
  the listener's context, but its family is 0 and its endpoint has lost its length in the move.
\<close>

lemma tcp_accept_delivers:
  assumes "accept_ok U acc" "register_ok u U (\<lambda>k k'. acc k' = acc k)"
    and "reach (\<lambda>m. m = await_start (accept_make (Unix u) junk s, w))
           (act_step (await_exec (accept_ready U A) (accept_suspend u U this) (accept_resume U A) (event_remove u U)
             (accept_env acc))) m"
    and "aw_mode m = Continued"
  shows "case accept_await_resume (fst (aw_state m)) of
           Inr c \<Rightarrow> acc (w_kern (snd (aw_state m))) = acc (w_kern w) @ [sk_handle c] \<and> sk_handle c \<noteq> -1 \<and>
                    sk_context c = sk_context s \<and> sk_family c = 0 \<and> ep_size (sk_endpoint c) = 0
         | Inl x \<Rightarrow> acc (w_kern (snd (aw_state m))) = acc (w_kern w) \<and> exn_what x = ''accept tcp socket''"
proof -
  have "accept_inv u U acc (sk_context s) (acc (w_kern w)) (accept_make (Unix u) junk s, w)"
    using assms(1,2) by (simp add: accept_inv_def accept_make_def event_make_def event.defs accept_op.defs socket_empty_def)
  from tcp_accept.await_done(2) [OF this assms(3,4)] show ?thesis
    by (auto simp: accept_post_def accept_await_resume_def system_error_def socket_move_def endpoint_copy_def split: if_splits)
qed

text \<open>The kernel of the witness counts the calls; the second one finds a connection.\<close>

definition listener_unix :: "(int list \<times> nat) usys" where
  "listener_unix = failing_unix
     \<lparr>sys_epoll_ctl := \<lambda>_ _ _ _ k. (0, 0, k),
      sys_accept4 := \<lambda>fd a n (given, blocked).
        if blocked > 0 then (-1, 11, a, n, given, blocked - 1) else (9, 0, a\<lparr>sa_port := 5\<rparr>, 16, given @ [9], blocked)\<rparr>"

lemma listener_ok: "accept_ok listener_unix fst" "register_ok Linux listener_unix (\<lambda>k k'. fst k' = fst k)"
  by (auto simp: accept_ok_def register_ok_def listener_unix_def failing_unix_def)

lemma tcp_accept_delivers_witness:
  "\<exists>m c. run_acts (await_exec (accept_ready listener_unix demo_abi) (accept_suspend Linux listener_unix 100)
           (accept_resume listener_unix demo_abi) (event_remove Linux listener_unix) (accept_env fst))
         [Co_await 5, Dispatch] (await_start (accept_make (Unix Linux) (ep_storage demo_endpoint) pipe_socket,
            \<lparr>w_mem = \<lambda>_. 0, w_kern = ([], 1)\<rparr>)) = Some m \<and>
       accept_await_resume (fst (aw_state m)) = Inr c \<and> sk_handle c = 9 \<and> ep_size (sk_endpoint c) = 0"
proof -
  let ?w = "\<lparr>w_mem = \<lambda>_. 0 :: byte, w_kern = ([] :: int list, 1 :: nat)\<rparr>"
  let ?exec = "await_exec (accept_ready listener_unix demo_abi) (accept_suspend Linux listener_unix 100)
           (accept_resume listener_unix demo_abi) (event_remove Linux listener_unix) (accept_env fst)"
  let ?s0 = "await_start (accept_make (Unix Linux) (ep_storage demo_endpoint) pipe_socket, ?w)"
  obtain m where m: "run_acts ?exec [Co_await 5, Dispatch] ?s0 = Some m" "aw_mode m = Continued"
    "\<not> ec_bool (ev_ec (fst (aw_state m)))" "w_kern (snd (aw_state m)) = ([9], 0)"
    by (simp add: await_start_def accept_make_def pipe_socket_def socket_empty_def event_make_def event.defs accept_op.defs
        accept_ready_def listener_unix_def failing_unix_def handle_reset_unix_def
        event_await_suspend_def accept_suspend_def queue_defs await_end_def event_await_resume_def event_remove_def
        event_remove_linux_def accept_resume_def Let_def)
  have "reach (\<lambda>m. m = ?s0) (act_step ?exec) m"
    by (rule run_acts_reach [OF m(1)]) (simp add: reach_init)
  from tcp_accept_delivers [OF listener_ok(1) listener_ok(2) this m(2)] m
  show ?thesis by (auto simp: accept_await_resume_def split: if_splits)
qed

section \<open>Connecting\<close>

text \<open>
  What \<open>connect\<close> and \<open>getsockopt(SO_ERROR)\<close> promise for a descriptor and an address, with \<open>est\<close>, \<open>pend\<close> and \<open>decided\<close> the kernel states in which
  the connection is established, an attempt to make it was begun, and that attempt has succeeded or failed: a return of 0 means established, \<open>EINPROGRESS\<close> and
  \<open>EINTR\<close> mean begun; a begun attempt is decided when the descriptor is writable; once it is decided, and not before, an error status of
  zero means established. A call is not interrupted for ever.
\<close>

definition connect_again :: "'k usys \<Rightarrow> int \<Rightarrow> sockaddr \<Rightarrow> u32 \<Rightarrow> 'k \<Rightarrow> bool \<times> 'k" where
  "connect_again U h a n k =
     (case sys_connect U h a n k of (rc, errno, k') \<Rightarrow> (rc \<noteq> 0 \<and> errno \<noteq> EINPROGRESS U \<and> errno = EINTR U, k'))"

definition connect_ok ::
  "'k usys \<Rightarrow> net_abi \<Rightarrow> (int \<Rightarrow> 'k \<Rightarrow> bool) \<Rightarrow> ('k \<Rightarrow> bool) \<Rightarrow> ('k \<Rightarrow> bool) \<Rightarrow> ('k \<Rightarrow> bool) \<Rightarrow> int \<Rightarrow> sockaddr \<Rightarrow> u32 \<Rightarrow> bool" where
  "connect_ok U A writable est pend decided h a n \<longleftrightarrow>
     (\<forall>k. \<exists>m. interrupted_at_most (connect_again U h a n) m k) \<and>
     (\<forall>k. case sys_connect U h a n k of (rc, errno, k') \<Rightarrow>
        (rc = 0 \<longrightarrow> est k') \<and> (rc \<noteq> 0 \<longrightarrow> 0 < errno \<and> errno < 2 ^ 28) \<and>
        (rc \<noteq> 0 \<and> errno \<in> {EINPROGRESS U, EINTR U} \<longrightarrow> pend k')) \<and>
     (\<forall>k. case sys_getsockopt U h (SOL_SOCKET A) (SO_ERROR A) 4 k of (rc, errno, data, n', k') \<Rightarrow>
        (rc < 0 \<longrightarrow> 0 < errno \<and> errno < 2 ^ 28) \<and> (0 \<le> rc \<and> decided k \<and> hd (data @ [0]) = 0 \<longrightarrow> est k')) \<and>
     (\<forall>k. pend k \<and> writable h k \<longrightarrow> decided k)"

text \<open>What neither a registration nor anybody else undoes.\<close>

definition connect_keeps :: "('k \<Rightarrow> bool) \<Rightarrow> ('k \<Rightarrow> bool) \<Rightarrow> 'k \<Rightarrow> 'k \<Rightarrow> bool" where
  "connect_keeps pend decided k k' \<longleftrightarrow> (pend k \<longrightarrow> pend k') \<and> (decided k \<longrightarrow> decided k')"

definition connect_outcome :: "('k \<Rightarrow> bool) \<Rightarrow> ('k \<Rightarrow> bool) \<Rightarrow> bool \<times> int option \<times> 'k \<Rightarrow> bool" where
  "connect_outcome est pend = (\<lambda>(b, err, k).
     (case err of None \<Rightarrow> (if b then est k else pend k) | Some errno \<Rightarrow> \<not> b \<and> ec_bool (ec_native errno)))"

lemma connect_okD:
  assumes "connect_ok U A writable est pend decided h a n" "sys_connect U h a n k = (rc, errno, k')"
  shows "rc = 0 \<Longrightarrow> est k'" "rc \<noteq> 0 \<Longrightarrow> ec_bool (ec_native errno)"
    "rc \<noteq> 0 \<Longrightarrow> errno = EINPROGRESS U \<or> errno = EINTR U \<Longrightarrow> pend k'"
proof -
  have "case sys_connect U h a n k of (rc, errno, k') \<Rightarrow>
        (rc = 0 \<longrightarrow> est k') \<and> (rc \<noteq> 0 \<longrightarrow> 0 < errno \<and> errno < 2 ^ 28) \<and>
        (rc \<noteq> 0 \<and> errno \<in> {EINPROGRESS U, EINTR U} \<longrightarrow> pend k')"
    by (rule assms(1) [unfolded connect_ok_def, THEN conjunct2, THEN conjunct1, THEN spec])
  with assms(2) show "rc = 0 \<Longrightarrow> est k'" "rc \<noteq> 0 \<Longrightarrow> ec_bool (ec_native errno)"
    "rc \<noteq> 0 \<Longrightarrow> errno = EINPROGRESS U \<or> errno = EINTR U \<Longrightarrow> pend k'"
    using ec_bool_errno by auto
qed

lemma connect_okD_status:
  assumes "connect_ok U A writable est pend decided h a n"
    and "sys_getsockopt U h (SOL_SOCKET A) (SO_ERROR A) 4 k = (rc, errno, data, n', k')"
  shows "rc < 0 \<Longrightarrow> ec_bool (ec_native errno)" "0 \<le> rc \<Longrightarrow> decided k \<Longrightarrow> hd (data @ [0]) = 0 \<Longrightarrow> est k'"
proof -
  have "case sys_getsockopt U h (SOL_SOCKET A) (SO_ERROR A) 4 k of (rc, errno, data, n', k') \<Rightarrow>
        (rc < 0 \<longrightarrow> 0 < errno \<and> errno < 2 ^ 28) \<and> (0 \<le> rc \<and> decided k \<and> hd (data @ [0]) = 0 \<longrightarrow> est k')"
    by (rule assms(1) [unfolded connect_ok_def, THEN conjunct2, THEN conjunct2, THEN conjunct1, THEN spec])
  with assms(2) show "rc < 0 \<Longrightarrow> ec_bool (ec_native errno)" "0 \<le> rc \<Longrightarrow> decided k \<Longrightarrow> hd (data @ [0]) = 0 \<Longrightarrow> est k'"
    using ec_bool_errno by auto
qed

lemma connect_ok_decided: "connect_ok U A writable est pend decided h a n \<Longrightarrow> pend k \<Longrightarrow> writable h k \<Longrightarrow> decided k"
  by (simp add: connect_ok_def)

lemma connect_loop_law:
  assumes "connect_ok U A writable est pend decided h a n" "interrupted_at_most (connect_again U h a n) m k"
  shows "\<exists>r. connect_loop u U h a n k = Some r \<and> connect_outcome est pend r"
  using assms(2)
proof (induction m arbitrary: k)
  case 0
  obtain rc errno k' where r: "sys_connect U h a n k = (rc, errno, k')" by (metis prod_cases3)
  have "connect_loop u U h a n k =
        Some (rc = 0, if rc = 0 \<or> errno = EINPROGRESS U \<or> errno = EINTR U then None else Some errno, k')"
    using r 0 by (subst connect_loop.simps) (auto simp: connect_again_def)
  then show ?case using connect_okD [OF assms(1) r] by (auto simp: connect_outcome_def)
next
  case (Suc m)
  obtain rc errno k' where r: "sys_connect U h a n k = (rc, errno, k')" by (metis prod_cases3)
  show ?case
  proof (cases "fst (connect_again U h a n k) \<and> u = Linux")
    case True
    have again: "connect_again U h a n k = (rc \<noteq> 0 \<and> errno \<noteq> EINPROGRESS U \<and> errno = EINTR U, k')"
      using r by (simp add: connect_again_def)
    with True Suc.prems have "interrupted_at_most (connect_again U h a n) m k'" by simp
    from Suc.IH [OF this] True r again show ?thesis
      by (subst connect_loop.simps) simp
  next
    case False
    then have "connect_loop u U h a n k =
        Some (rc = 0, if rc = 0 \<or> errno = EINPROGRESS U \<or> errno = EINTR U then None else Some errno, k')"
      using r by (subst connect_loop.simps) (cases u; auto simp: connect_again_def)
    then show ?thesis using connect_okD [OF assms(1) r] by (auto simp: connect_outcome_def)
  qed
qed

definition connect_base ::
  "unix \<Rightarrow> 'k usys \<Rightarrow> net_abi \<Rightarrow> (int \<Rightarrow> 'k \<Rightarrow> bool) \<Rightarrow> ('k \<Rightarrow> bool) \<Rightarrow> ('k \<Rightarrow> bool) \<Rightarrow> ('k \<Rightarrow> bool) \<Rightarrow> connect_op \<Rightarrow> bool" where
  "connect_base u U A writable est pend decided e \<longleftrightarrow>
     connect_ok U A writable est pend decided (co_socket e) (ep_storage (co_endpoint e)) (ep_size (co_endpoint e)) \<and>
     register_ok u U (connect_keeps pend decided)"

definition connect_pre ::
  "unix \<Rightarrow> 'k usys \<Rightarrow> net_abi \<Rightarrow> (int \<Rightarrow> 'k \<Rightarrow> bool) \<Rightarrow> ('k \<Rightarrow> bool) \<Rightarrow> ('k \<Rightarrow> bool) \<Rightarrow> ('k \<Rightarrow> bool) \<Rightarrow> connect_op \<times> 'k world \<Rightarrow> bool" where
  "connect_pre u U A writable est pend decided = (\<lambda>(e, w). connect_base u U A writable est pend decided e \<and> ev_ec e = ec_none)"

definition connect_inv ::
  "unix \<Rightarrow> 'k usys \<Rightarrow> net_abi \<Rightarrow> (int \<Rightarrow> 'k \<Rightarrow> bool) \<Rightarrow> ('k \<Rightarrow> bool) \<Rightarrow> ('k \<Rightarrow> bool) \<Rightarrow> ('k \<Rightarrow> bool) \<Rightarrow> connect_op \<times> 'k world \<Rightarrow> bool" where
  "connect_inv u U A writable est pend decided = (\<lambda>(e, w).
     connect_base u U A writable est pend decided e \<and> (ec_bool (ev_ec e) \<or> pend (w_kern w)))"

text \<open>While it is suspended, the operation is registered for output on its socket, and for nothing else.\<close>

definition for_output :: "int \<Rightarrow> 'a event_scheme \<Rightarrow> bool" where
  "for_output fd e \<longleftrightarrow>
     (case ev_native e of
        Epoll_event fl p \<Rightarrow> EPOLLOUT \<in> fl \<and> EPOLLIN \<notin> fl \<and> ev_native_id e = fd
      | Kevent i f fl n p \<Rightarrow> f = EVFILT_WRITE \<and> i = fd
      | Overlapped \<Rightarrow> False)"

definition connect_armed ::
  "unix \<Rightarrow> 'k usys \<Rightarrow> net_abi \<Rightarrow> (int \<Rightarrow> 'k \<Rightarrow> bool) \<Rightarrow> ('k \<Rightarrow> bool) \<Rightarrow> ('k \<Rightarrow> bool) \<Rightarrow> ('k \<Rightarrow> bool) \<Rightarrow> connect_op \<times> 'k world \<Rightarrow> bool" where
  "connect_armed u U A writable est pend decided s \<longleftrightarrow>
     connect_inv u U A writable est pend decided s \<and> for_output (co_socket (fst s)) (fst s)"

definition connect_hot ::
  "unix \<Rightarrow> 'k usys \<Rightarrow> net_abi \<Rightarrow> (int \<Rightarrow> 'k \<Rightarrow> bool) \<Rightarrow> ('k \<Rightarrow> bool) \<Rightarrow> ('k \<Rightarrow> bool) \<Rightarrow> ('k \<Rightarrow> bool) \<Rightarrow> connect_op \<times> 'k world \<Rightarrow> bool" where
  "connect_hot u U A writable est pend decided = (\<lambda>(e, w).
     connect_base u U A writable est pend decided e \<and> (ec_bool (ev_ec e) \<or> decided (w_kern w)))"

definition connect_post :: "('k \<Rightarrow> bool) \<Rightarrow> connect_op \<times> 'k world \<Rightarrow> bool" where
  "connect_post est = (\<lambda>(e, w). ec_bool (ev_ec e) \<or> est (w_kern w))"

definition connect_env :: "('k \<Rightarrow> bool) \<Rightarrow> ('k \<Rightarrow> bool) \<Rightarrow> 'k world \<Rightarrow> 'k world \<Rightarrow> bool" where
  "connect_env pend decided w w' \<longleftrightarrow> connect_keeps pend decided (w_kern w) (w_kern w')"

lemma connect_ready_law:
  assumes "connect_pre u U A writable est pend decided s"
  shows "\<exists>r t. connect_ready u U s = Some (r, t) \<and> (if r then connect_post est t else connect_inv u U A writable est pend decided t)"
proof -
  obtain e w where s: "s = (e, w)" by (metis prod.exhaust)
  have ok: "connect_ok U A writable est pend decided (co_socket e) (ep_storage (co_endpoint e)) (ep_size (co_endpoint e))"
    using assms by (simp add: s connect_pre_def connect_base_def)
  then obtain m where "interrupted_at_most (connect_again U (co_socket e) (ep_storage (co_endpoint e)) (ep_size (co_endpoint e))) m (w_kern w)"
    unfolding connect_ok_def by blast
  from connect_loop_law [OF ok this, of u] obtain b err k
    where r: "connect_loop u U (co_socket e) (ep_storage (co_endpoint e)) (ep_size (co_endpoint e)) (w_kern w) = Some (b, err, k)"
      "connect_outcome est pend (b, err, k)" by (metis prod_cases3)
  let ?t = "((case err of None \<Rightarrow> e | Some errno \<Rightarrow> e\<lparr>ev_ec := ec_native errno\<rparr>), w\<lparr>w_kern := k\<rparr>)"
  have "connect_ready u U s = Some (b, ?t)" using r(1) by (simp add: s connect_ready_def)
  moreover have "if b then connect_post est ?t else connect_inv u U A writable est pend decided ?t"
    using r(2) assms
    by (cases err) (auto simp: s connect_post_def connect_inv_def connect_pre_def connect_base_def connect_outcome_def)
  ultimately show ?thesis by blast
qed

lemma connect_resume_law:
  assumes "connect_hot u U A writable est pend decided s"
  shows "\<exists>t. connect_resume U A s = Some (True, t) \<and> connect_post est t"
proof -
  obtain e w where s: "s = (e, w)" by (metis prod.exhaust)
  obtain rc errno data n' k' where r: "sys_getsockopt U (co_socket e) (SOL_SOCKET A) (SO_ERROR A) 4 (w_kern w) = (rc, errno, data, n', k')"
    by (metis prod_cases5)
  have ok: "connect_ok U A writable est pend decided (co_socket e) (ep_storage (co_endpoint e)) (ep_size (co_endpoint e))"
    using assms by (simp add: s connect_hot_def connect_base_def)
  have "code \<noteq> 0 \<Longrightarrow> ec_bool (ec_native (sint code))" for code :: i32
    by (simp add: ec_bool_def ec_native_def)
  note code = this
  let ?t = "((if rc < 0 then e\<lparr>ev_ec := ec_native errno\<rparr> else if hd (data @ [0]) \<noteq> 0
      then e\<lparr>ev_ec := ec_native (sint (hd (data @ [0])))\<rparr> else e), w\<lparr>w_kern := k'\<rparr>)"
  have call: "connect_resume U A s = Some (True, ?t)"
    unfolding s connect_resume_def prod.case r Let_def ..
  have result: "connect_post est ?t"
  proof (cases "rc < 0 \<or> hd (data @ [0]) \<noteq> 0")
    case True
    then show ?thesis
      using code connect_okD_status(1) [OF ok r] by (simp add: connect_post_def) argo
  next
    case False
    then have "decided (w_kern w) \<longrightarrow> est k'" using connect_okD_status(2) [OF ok r] by simp
    moreover have "ec_bool (ev_ec e) \<or> decided (w_kern w)" using assms by (simp add: s connect_hot_def)
    ultimately have p: "connect_post est (e, w\<lparr>w_kern := k'\<rparr>)" unfolding connect_post_def by simp blast
    have "?t = (e, w\<lparr>w_kern := k'\<rparr>)" using False by simp
    then show ?thesis using p by (simp only:)
  qed
  from call result show ?thesis by blast
qed

text \<open>A queued event is registered for output.\<close>

lemma queue_send_output:
  "queue_send u U this c fd s = (True, t) \<Longrightarrow> for_output fd (fst t)"
  by (cases s; cases u) (auto simp: queue_defs Let_def for_output_def split: prod.splits if_splits)

lemma queue_send_target:
  "queue_send u U this c fd (e, w) = (b, t) \<Longrightarrow> co_socket (fst t) = co_socket e"
  by (cases u) (auto simp: queue_defs Let_def split: prod.splits if_splits)

lemma connect_inv_stable:
  "connect_inv u U A writable est pend decided (e, w) \<Longrightarrow> connect_keeps pend decided (w_kern w) k \<Longrightarrow>
   connect_inv u U A writable est pend decided (e\<lparr>ev_native_context := c, ev_native_id := i, ev_native := nev\<rparr>, w\<lparr>w_kern := k\<rparr>)"
  by (auto simp: connect_inv_def connect_base_def connect_keeps_def)

lemma connect_suspend_law:
  assumes "connect_inv u U A writable est pend decided s"
  shows "\<exists>r t. connect_suspend u U this s = Some (r, t) \<and>
    (if r then connect_armed u U A writable est pend decided t else connect_post est t)"
proof -
  obtain e w where s: "s = (e, w)" by (metis prod.exhaust)
  have reg: "register_ok u U (connect_keeps pend decided)" using assms by (simp add: s connect_inv_def connect_base_def)
  obtain r t where q: "queue_send u U this (co_context e) (co_socket e) (e, w) = (r, t)" by (metis prod.exhaust)
  have "case queue_send u U this (co_context e) (co_socket e) (e, w) of
      (b, t) \<Rightarrow> if b then connect_inv u U A writable est pend decided t else connect_post est t"
    by (rule queue_law(2) [OF reg]) (use assms s in \<open>auto intro: connect_inv_stable simp: connect_post_def\<close>)
  with q have "if r then connect_inv u U A writable est pend decided t else connect_post est t" by simp
  moreover have "for_output (co_socket (fst t)) (fst t)" if r
    using queue_send_output [of u U this "co_context e" "co_socket e" "(e, w)" t] queue_send_target [OF q] q that by simp
  ultimately show ?thesis unfolding s connect_suspend_def prod.case q connect_armed_def by auto
qed

lemma connect_report_law:
  assumes "connect_armed u U A writable est pend decided s" "registration_fires readable writable s"
  shows "connect_hot u U A writable est pend decided s"
proof -
  obtain e w where s: "s = (e, w)" by (metis prod.exhaust)
  have "writable (co_socket e) (w_kern w)"
    using assms by (auto simp: s connect_armed_def for_output_def registration_fires_def split: native_event.splits)
  moreover have "connect_base u U A writable est pend decided e" "ec_bool (ev_ec e) \<or> pend (w_kern w)"
    using assms(1) by (simp_all add: s connect_armed_def connect_inv_def)
  moreover from this(1) have "connect_ok U A writable est pend decided (co_socket e) (ep_storage (co_endpoint e)) (ep_size (co_endpoint e))"
    by (simp add: connect_base_def)
  note connect_ok_decided [OF this, of "w_kern w"]
  ultimately show ?thesis by (auto simp: s connect_hot_def)
qed

lemma connect_hot_remove:
  assumes "connect_hot u U A writable est pend decided s"
  shows "connect_hot u U A writable est pend decided (event_remove u U s)"
proof -
  obtain e w where s: "s = (e, w)" by (metis prod.exhaust)
  have reg: "register_ok u U (connect_keeps pend decided)" using assms by (simp add: s connect_hot_def connect_base_def)
  show ?thesis unfolding s
    by (rule remove_law_of [OF reg]) (use assms s in \<open>auto simp: connect_hot_def connect_base_def connect_keeps_def\<close>)
qed

interpretation tcp_connect: reported_awaitable "connect_ready u U" "connect_suspend u U this" "connect_resume U A" "event_remove u U"
    "connect_env pend decided" "registration_fires readable writable" "connect_pre u U A writable est pend decided"
    "connect_inv u U A writable est pend decided" "connect_armed u U A writable est pend decided"
    "connect_hot u U A writable est pend decided" "connect_post est"
  for u U A this readable writable est pend decided
proof unfold_locales
  show "connect_hot u U A writable est pend decided s \<Longrightarrow> \<exists>b t. connect_resume U A s = Some (b, t) \<and>
      (if b then connect_post est t else connect_inv u U A writable est pend decided t)" for s
    by (drule connect_resume_law) auto
qed (assumption | rule connect_ready_law connect_suspend_law connect_report_law connect_hot_remove |
    auto simp: connect_inv_def connect_base_def connect_pre_def connect_armed_def connect_hot_def connect_env_def connect_keeps_def)+

text \<open>
  C23: \<open>connect\<close> does not report success without a connection. The kernel answers the question whether the attempt has succeeded only
  once it is decided, which it reports as the descriptor being writable; and \<open>connect\<close> asks only then, since it waits for output on its
  socket. So if an awaited \<open>connect\<close> returns without an exception, the connection is established; an error of the first call is kept although the
  operation goes on to wait.
\<close>

theorem tcp_connect_established:
  assumes "connect_ok U A writable est pend decided (co_socket e) (ep_storage (co_endpoint e)) (ep_size (co_endpoint e))"
    and "register_ok u U (connect_keeps pend decided)" "ev_ec e = ec_none"
    and "reach (\<lambda>x. x = report_start (e, w))
           (act_step (report_exec (registration_fires readable writable)
             (await_exec (connect_ready u U) (connect_suspend u U this) (connect_resume U A) (event_remove u U)
               (connect_env pend decided)))) x"
    and "aw_mode (fst x) = Continued"
  shows "case connect_await_resume (fst (aw_state (fst x))) of
           Inr _ \<Rightarrow> est (w_kern (snd (aw_state (fst x)))) | Inl y \<Rightarrow> exn_what y = ''connect''"
proof -
  have "connect_pre u U A writable est pend decided (e, w)" using assms(1-3) by (simp add: connect_pre_def connect_base_def)
  from tcp_connect.report_done(2) [OF this assms(4,5)] show ?thesis
    by (auto simp: connect_post_def connect_await_resume_def system_error_def split: prod.splits)
qed

text \<open>
  A peer that answers after a while: state 0 is closed, 1 being connected, 2 established, 3 refused. In state 1 the error status is zero
  too, although nothing is established.
\<close>

definition peer_unix :: "nat usys" where
  "peer_unix = failing_unix
     \<lparr>sys_epoll_ctl := \<lambda>_ _ _ _ k. (0, 0, k),
      sys_connect := \<lambda>_ _ _ k. (if k = 0 then (-1, 115, 1) else (-1, 106, k)),
      sys_getsockopt := \<lambda>_ _ _ n k. (0, 0, [if k = 3 then 111 else 0], n, k)\<rparr>"

lemma peer_unix_calls:
  "sys_epoll_ctl peer_unix c p h e k = (0, 0, k)"
  "sys_connect peer_unix h a n k = (if k = 0 then (-1, 115, 1) else (-1, 106, k))"
  "sys_getsockopt peer_unix h l nm n' k = (0, 0, [if k = 3 then 111 else 0], n', k)"
  "EINTR peer_unix = 4" "EINPROGRESS peer_unix = 115" "EAGAIN peer_unix = 11"
  by (simp_all add: peer_unix_def failing_unix_def)

definition peer_begun :: "nat \<Rightarrow> bool" where
  "peer_begun k \<longleftrightarrow> k \<noteq> 0"

definition peer_decided :: "nat \<Rightarrow> bool" where
  "peer_decided k \<longleftrightarrow> k = 2 \<or> k = 3"

lemma peer_ok:
  "connect_ok peer_unix A (\<lambda>_. peer_decided) (\<lambda>k. k = 2) peer_begun peer_decided h a n"
  "register_ok Linux peer_unix (connect_keeps peer_begun peer_decided)"
proof -
  have "interrupted_at_most (connect_again peer_unix h a n) 0 k" for k
    by (simp add: connect_again_def peer_unix_calls)
  then have "\<exists>m. interrupted_at_most (connect_again peer_unix h a n) m k" for k by blast
  then show "connect_ok peer_unix A (\<lambda>_. peer_decided) (\<lambda>k. k = 2) peer_begun peer_decided h a n"
    unfolding connect_ok_def by (simp add: peer_unix_calls peer_begun_def peer_decided_def)
qed (simp add: register_ok_def peer_unix_calls connect_keeps_def)

abbreviation peer_exec where
  "peer_exec \<equiv> report_exec (registration_fires (\<lambda>_ _. False) (\<lambda>_. peer_decided))
     (await_exec (connect_ready Linux peer_unix) (connect_suspend Linux peer_unix 100)
       (connect_resume peer_unix demo_abi) (event_remove Linux peer_unix) (connect_env peer_begun peer_decided))"

lemma tcp_connect_established_witness:
  "\<exists>x. run_acts peer_exec [Act (Co_await 5), Act (Env \<lparr>w_mem = \<lambda>_. 0, w_kern = 2\<rparr>), Report, Act Dispatch]
         (report_start (fst (connect_make (Unix Linux) pipe_socket demo_endpoint), \<lparr>w_mem = \<lambda>_. 0, w_kern = 0\<rparr>)) = Some x \<and>
       w_kern (snd (aw_state (fst x))) = 2 \<and> connect_await_resume (fst (aw_state (fst x))) = Inr ()"
proof -
  let ?e = "fst (connect_make (Unix Linux) pipe_socket demo_endpoint)"
  let ?w = "\<lparr>w_mem = \<lambda>_. 0 :: byte, w_kern = 0 :: nat\<rparr>"
  let ?as = "[Act (Co_await 5), Act (Env \<lparr>w_mem = \<lambda>_. 0, w_kern = 2\<rparr>), Report, Act Dispatch]"
  have loop: "connect_loop Linux peer_unix h a n 0 = Some (False, None, 1)" for h a n
    by (subst connect_loop.simps) (simp add: peer_unix_calls)
  obtain x where x: "run_acts peer_exec ?as (report_start (?e, ?w)) = Some x" "aw_mode (fst x) = Continued"
    "\<not> ec_bool (ev_ec (fst (aw_state (fst x))))"
    by (simp add: report_start_def await_start_def connect_make_def pipe_socket_def socket_empty_def event_make_def event.defs
        connect_op.defs connect_ready_def loop event_await_suspend_def connect_suspend_def queue_defs await_end_def
        event_await_resume_def event_remove_def event_remove_linux_def connect_resume_def peer_unix_calls registration_fires_def
        connect_env_def connect_keeps_def peer_begun_def peer_decided_def)
  have "reach (\<lambda>x. x = report_start (?e, ?w)) (act_step peer_exec) x"
    by (rule run_acts_reach [OF x(1)]) (simp add: reach_init)
  moreover have "ev_ec ?e = ec_none" by (simp add: connect_make_def event_make_def event.defs connect_op.defs)
  ultimately have "case connect_await_resume (fst (aw_state (fst x))) of
      Inr _ \<Rightarrow> w_kern (snd (aw_state (fst x))) = 2 | Inl y \<Rightarrow> exn_what y = ''connect''"
    using tcp_connect_established [OF peer_ok(1) peer_ok(2) _ _ x(2)] by blast
  with x show ?thesis by (auto simp: connect_await_resume_def)
qed

text \<open>Without the report, in state 1, the same question would have been answered with a zero that means nothing.\<close>

lemma connect_too_early:
  "snd (the (connect_resume peer_unix demo_abi (e, \<lparr>w_mem = m, w_kern = 1\<rparr>))) = (e, \<lparr>w_mem = m, w_kern = 1\<rparr>)"
  by (simp add: connect_resume_def peer_unix_calls)

text \<open>
  \<open>connect\<close> passes an empty address. The operation's copy of the endpoint has length 0, so on a system that
  rejects such an address (\<open>EINVAL\<close>) every awaited \<open>connect\<close> that ends throws.
\<close>

lemma tcp_connect_address_lost:
  assumes "errno_ok U" "\<And>h a k. \<exists>k'. sys_connect U h a 0 k = (-1, EINVAL U, k')"
    and "register_ok u U (\<lambda>k k'. True)"
    and "\<And>h l nm n k. case sys_getsockopt U h l nm n k of (rc, errno, _) \<Rightarrow> rc < 0 \<longrightarrow> 0 < errno \<and> errno < 2 ^ 28"
    and "reach (\<lambda>x. x = report_start (fst (connect_make (Unix u) s ep), w))
           (act_step (report_exec (registration_fires readable writable)
             (await_exec (connect_ready u U) (connect_suspend u U this) (connect_resume U A) (event_remove u U) (\<lambda>_ _. True)))) x"
    and "aw_mode (fst x) = Continued"
  shows "\<exists>y. connect_await_resume (fst (aw_state (fst x))) = Inl y"
proof -
  let ?e = "fst (connect_make (Unix u) s ep)" and ?no = "\<lambda>_. False"
  have "interrupted_at_most (connect_again U h a 0) 0 k" for h a k
    using assms(1) assms(2) [of h a k] by (auto simp: connect_again_def errno_ok_def)
  moreover have "case sys_connect U h a 0 k of (rc, errno, k') \<Rightarrow> rc \<noteq> 0 \<and> 0 < errno \<and> errno < 2 ^ 28 \<and>
      errno \<notin> {EINPROGRESS U, EINTR U}" for h a k
    using assms(1) assms(2) [of h a k] by (auto simp: errno_ok_def)
  ultimately have ok: "connect_ok U A writable ?no ?no ?no h a 0" for h a
    using assms(4) unfolding connect_ok_def by (fastforce split: prod.splits)
  have keeps: "connect_keeps ?no ?no = (\<lambda>_ _. True)" by (simp add: connect_keeps_def fun_eq_iff)
  have "connect_pre u U A writable ?no ?no ?no (?e, w)"
    using assms(3) ok unfolding connect_pre_def connect_base_def keeps
    by (simp add: connect_make_def event_make_def event.defs connect_op.defs endpoint_copy_def)
  moreover have "connect_env ?no ?no = (\<lambda>_ _. True)" by (simp add: connect_env_def keeps fun_eq_iff)
  note run = assms(5) [folded this]
  ultimately have "connect_post ?no (aw_state (fst x))"
    using tcp_connect.report_done(2) [OF _ run assms(6)] by blast
  then show ?thesis by (auto simp: connect_post_def connect_await_resume_def split: prod.splits)
qed

lemma failing_unix_calls:
  "sys_epoll_ctl failing_unix c p h e k = (-1, 22, k)"
  "sys_connect failing_unix h a n k = (-1, 22, k)"
  "sys_getsockopt failing_unix h l nm n' k = (-1, 22, [], n', k)"
  "EINTR failing_unix = 4" "EINPROGRESS failing_unix = 115" "EAGAIN failing_unix = 11" "EINVAL failing_unix = 22"
  by (simp_all add: failing_unix_def)

lemma tcp_connect_address_lost_witness:
  "\<exists>x y. run_acts (report_exec (registration_fires (\<lambda>_ _. False) (\<lambda>_ _. False))
           (await_exec (connect_ready Linux failing_unix) (connect_suspend Linux failing_unix 100)
             (connect_resume failing_unix demo_abi) (event_remove Linux failing_unix) (\<lambda>_ _. True)))
         [Act (Co_await 5)] (report_start (fst (connect_make (Unix Linux) pipe_socket demo_endpoint),
            \<lparr>w_mem = \<lambda>_. 0, w_kern = 0 :: nat\<rparr>)) = Some x \<and> connect_await_resume (fst (aw_state (fst x))) = Inl y"
proof -
  let ?e = "fst (connect_make (Unix Linux) pipe_socket demo_endpoint)"
  let ?w = "\<lparr>w_mem = \<lambda>_. 0 :: byte, w_kern = 0 :: nat\<rparr>"
  let ?exec = "report_exec (registration_fires (\<lambda>_ _. False) (\<lambda>_ _. False))
         (await_exec (connect_ready Linux failing_unix) (connect_suspend Linux failing_unix 100)
           (connect_resume failing_unix demo_abi) (event_remove Linux failing_unix) (\<lambda>_ _. True))"
  have loop: "connect_loop Linux failing_unix h a n (k :: nat) = Some (False, Some 22, k)" for h a n k
    by (subst connect_loop.simps) (simp add: failing_unix_calls)
  obtain x where x: "run_acts ?exec [Act (Co_await 5)] (report_start (?e, ?w)) = Some x" "aw_mode (fst x) = Continued"
    by (simp add: report_start_def await_start_def connect_ready_def loop
        event_await_suspend_def connect_suspend_def queue_defs await_end_def failing_unix_calls)
  have r: "reach (\<lambda>x. x = report_start (?e, ?w)) (act_step ?exec) x"
    by (rule run_acts_reach [OF x(1)]) (simp add: reach_init)
  have "\<exists>y. connect_await_resume (fst (aw_state (fst x))) = Inl y"
    by (rule tcp_connect_address_lost [OF _ _ _ _ r x(2)]) (simp_all add: register_ok_def failing_unix_calls)
  with x show ?thesis by blast
qed

end
