(* ===== verification/Ice_Tcp_Win.thy ===== *)
theory Ice_Tcp_Win
  imports Ice_Tcp
begin

text \<open>
  The Windows side of include/ice/net/tcp/socket.h and src/ice/net/tcp/socket.cpp: overlapped operations on a completion port.
  \<open>await_ready\<close> is constantly false; \<open>suspend\<close> starts the call, which may finish at once (false), fail (false, with the error
  stored) or stay pending (true); \<open>resume\<close> reads the result of the pending call. Buffer sizes are 32-bit words. The operation's own
  \<open>OVERLAPPED\<close> is named by the address \<open>this\<close>.
\<close>

section \<open>Sockets\<close>

definition tcp_socket_win ::
  "'k wsys \<Rightarrow> net_abi \<Rightarrow> sockaddr \<Rightarrow> whandle \<Rightarrow> int \<Rightarrow> 'k \<Rightarrow> (exn + whandle socket) \<times> 'k" where
  "tcp_socket_win W A junk context family k = socket_make_win W junk context family (SOCK_STREAM A) (IPPROTO_TCP A) k"

definition tcp_socket_protocol_win ::
  "'k wsys \<Rightarrow> net_abi \<Rightarrow> sockaddr \<Rightarrow> whandle \<Rightarrow> int \<Rightarrow> int \<Rightarrow> 'k \<Rightarrow> (exn + whandle socket) \<times> 'k" where
  "tcp_socket_protocol_win W A junk context family protocol k =
     socket_make_win W junk context family (SOCK_STREAM A) protocol k"

definition tcp_listen_win ::
  "'k wsys \<Rightarrow> net_abi \<Rightarrow> 64 word \<Rightarrow> whandle socket \<Rightarrow> 'k \<Rightarrow> (exn + unit) \<times> 'k" where
  "tcp_listen_win W A backlog s k =
     (case win_listen W (sk_handle s) (listen_size A backlog) k of (ok, err, k') \<Rightarrow>
        if \<not> ok then (Inl (system_error (ec_native err) ''listen on socket''), k') else (Inr (), k'))"

definition ready_win :: "('e, 'w) op_call" where
  "ready_win = (\<lambda>(e, w). Some (False, e, w))"

section \<open>accept\<close>

record accept_win_op = event +
  awin_context :: whandle
  awin_socket :: whandle
  awin_client :: "whandle socket"
  awin_bytes :: u32

text \<open>
  The constructor creates the client's socket. It is \<open>noexcept\<close>, so an exception of the socket's constructor ends the program:
  \<open>None\<close>.
\<close>

definition accept_make_win ::
  "'k wsys \<Rightarrow> net_abi \<Rightarrow> sockaddr \<Rightarrow> whandle socket \<Rightarrow> 'k \<Rightarrow> accept_win_op option \<times> 'k" where
  "accept_make_win W A junk s k =
     (case socket_protocol_win W s k of (protocol, k1) \<Rightarrow>
        (case tcp_socket_protocol_win W A junk (sk_context s) (sk_family s) protocol k1 of
           (Inl x, k2) \<Rightarrow> (None, k2)
         | (Inr client, k2) \<Rightarrow>
             (Some (event.extend (event_make Win32) (accept_win_op.fields (sk_context s) (sk_handle s) client 0)), k2)))"

partial_function (option) accept_loop ::
  "'k wsys \<Rightarrow> whandle \<Rightarrow> whandle \<Rightarrow> nat \<Rightarrow> 'k \<Rightarrow> (bool \<times> int option \<times> 'k) option" where
  "accept_loop W socket client this k =
     (case win_accept W socket client this k of (ok, rc, k') \<Rightarrow>
        if ok then Some (False, None, k')
        else if rc = ERROR_IO_PENDING W then Some (True, None, k')
        else if rc \<noteq> WSAECONNRESET W then Some (False, Some rc, k')
        else accept_loop W socket client this k')"

definition accept_suspend_win :: "'k wsys \<Rightarrow> nat \<Rightarrow> (accept_win_op, 'k world) op_call" where
  "accept_suspend_win W this = (\<lambda>(e, w).
     case accept_loop W (awin_socket e) (sk_handle (awin_client e)) this (w_kern w) of
       None \<Rightarrow> None
     | Some (b, err, k) \<Rightarrow>
         Some (b, (case err of None \<Rightarrow> e | Some rc \<Rightarrow> e\<lparr>ev_ec := ec_native rc\<rparr>), w\<lparr>w_kern := k\<rparr>))"

text \<open>The address of the peer, which lies in the operation's buffer; the assignments copy the part of its family.\<close>

definition accept_endpoint :: "net_abi \<Rightarrow> sockaddr \<Rightarrow> endpoint \<Rightarrow> endpoint" where
  "accept_endpoint A addr ep =
     (if sa_family addr = AF_INET A then
        \<lparr>ep_storage = (ep_storage ep)\<lparr>sa_family := sa_family addr, sa_port := sa_port addr, sa_addr4 := sa_addr4 addr\<rparr>,
         ep_size = sizeof_in A\<rparr>
      else if sa_family addr = AF_INET6 A then
        \<lparr>ep_storage = (ep_storage ep)\<lparr>sa_family := sa_family addr, sa_port := sa_port addr, sa_addr6 := sa_addr6 addr\<rparr>,
         ep_size = sizeof_in6 A\<rparr>
      else ep)"

definition accept_resume_win :: "'k wsys \<Rightarrow> net_abi \<Rightarrow> nat \<Rightarrow> (accept_win_op, 'k world) op_call" where
  "accept_resume_win W A this = (\<lambda>(e, w).
     case win_result W (awin_socket e) this (w_kern w) of (ok, rc, bytes, k) \<Rightarrow>
       let w1 = w\<lparr>w_kern := k\<rparr> in
       if \<not> ok then
         (if rc \<noteq> WSAECONNRESET W then Some (True, e\<lparr>ev_ec := ec_native rc\<rparr>, w1) else Some (False, e, w1))
       else
         Some (True, e\<lparr>awin_client := (awin_client e)\<lparr>sk_endpoint :=
                 accept_endpoint A (win_remote_addr W this k) (sk_endpoint (awin_client e))\<rparr>\<rparr>, w1))"

definition accept_await_resume_win :: "accept_win_op \<Rightarrow> exn + whandle socket" where
  "accept_await_resume_win e =
     (if ec_bool (ev_ec e) then Inl (system_error (ev_ec e) ''accept tcp socket'')
      else Inr (fst (socket_move (-1) (awin_client e))))"

section \<open>connect\<close>

text \<open>
  \<open>detail::connect_ex\<close> is a function-local static: \<open>w_connect_ex\<close> is the \<open>ec\<close> of the object once it exists. Its constructor looks the
  function up on a socket of its own, which is closed again.
\<close>

record 'k win_world = "'k world" +
  w_connect_ex :: "error_code option"

definition connect_ex_make :: "'k wsys \<Rightarrow> net_abi \<Rightarrow> 'k \<Rightarrow> error_code \<times> 'k" where
  "connect_ex_make W A k =
     (case win_socket W (AF_INET A) (SOCK_STREAM A) 0 k of (h, err, k1) \<Rightarrow>
        if h = -1 then (ec_native err, k1)
        else case win_connect_ex W h k1 of (ok, err2, k2) \<Rightarrow>
          (if \<not> ok then ec_native err2 else ec_none, win_closesocket W h k2))"

record connect_win_op = event +
  cwin_context :: whandle
  cwin_socket :: whandle
  cwin_endpoint :: endpoint

definition connect_make_win ::
  "'k wsys \<Rightarrow> net_abi \<Rightarrow> whandle socket \<Rightarrow> endpoint \<Rightarrow> 'k \<Rightarrow> connect_win_op \<times> whandle socket \<times> 'k" where
  "connect_make_win W A s ep k =
     (let e = event.extend (event_make Win32) (connect_win_op.fields (sk_context s) (sk_handle s) (endpoint_copy ep));
          addr = sockaddr_zero\<lparr>sa_family := AF_INET A\<rparr>
      in case win_bind W (sk_handle s) addr (sizeof_in A) k of (ok, err, k1) \<Rightarrow>
           (if \<not> ok then e\<lparr>ev_ec := ec_native err\<rparr> else e,
            s\<lparr>sk_endpoint := endpoint_assign (sk_endpoint s) ep\<rparr>, k1))"

definition connect_suspend_win :: "'k wsys \<Rightarrow> net_abi \<Rightarrow> nat \<Rightarrow> (connect_win_op, 'k win_world) op_call" where
  "connect_suspend_win W A this = (\<lambda>(e, w).
     let (ec, w1) = (case w_connect_ex w of
                       Some ec \<Rightarrow> (ec, w)
                     | None \<Rightarrow> (case connect_ex_make W A (w_kern w) of (ec, k) \<Rightarrow>
                                 (ec, w\<lparr>w_kern := k, w_connect_ex := Some ec\<rparr>)))
     in if ec_bool ec then Some (False, e\<lparr>ev_ec := ec\<rparr>, w1)
        else case win_connect W (cwin_socket e) (ep_storage (cwin_endpoint e)) (ep_size (cwin_endpoint e)) this (w_kern w1) of
          (ok, rc, k) \<Rightarrow>
            if ok then Some (False, e, w1\<lparr>w_kern := k\<rparr>)
            else if rc \<noteq> ERROR_IO_PENDING W then Some (False, e\<lparr>ev_ec := ec_native rc\<rparr>, w1\<lparr>w_kern := k\<rparr>)
            else Some (True, e, w1\<lparr>w_kern := k\<rparr>))"

definition connect_resume_win :: "'k wsys \<Rightarrow> nat \<Rightarrow> (connect_win_op, 'k win_world) op_call" where
  "connect_resume_win W this = (\<lambda>(e, w).
     case win_result W (cwin_socket e) this (w_kern w) of (ok, rc, bytes, k) \<Rightarrow>
       Some (True, if \<not> ok then e\<lparr>ev_ec := ec_native rc\<rparr> else e, w\<lparr>w_kern := k\<rparr>))"

definition connect_await_resume_win :: "connect_win_op \<Rightarrow> exn + unit" where
  "connect_await_resume_win e = (if ec_bool (ev_ec e) then Inl (system_error (ev_ec e) ''connect'') else Inr ())"

section \<open>recv\<close>

record recv_win_op = event +
  rwin_context :: whandle
  rwin_socket :: whandle
  rwin_buffer :: win_buffer
  rwin_bytes :: u32

definition recv_make_win :: "whandle socket \<Rightarrow> nat \<Rightarrow> 64 word \<Rightarrow> recv_win_op" where
  "recv_make_win s data n =
     event.extend (event_make Win32) (recv_win_op.fields (sk_context s) (sk_handle s) (buffer_win data n) 0)"

definition recv_suspend_win :: "'k wsys \<Rightarrow> nat \<Rightarrow> (recv_win_op, 'k world) op_call" where
  "recv_suspend_win W this = (\<lambda>(e, w).
     case win_recv W (rwin_socket e) (unat (wb_size (rwin_buffer e))) this (w_kern w) of (ok, rc, bytes, k) \<Rightarrow>
       if ok then
         (let n = of_nat (length bytes)
          in Some (False, e\<lparr>rwin_bytes := n, rwin_buffer := (rwin_buffer e)\<lparr>wb_size := n\<rparr>\<rparr>,
                   w\<lparr>w_mem := mem_write (wb_data (rwin_buffer e)) bytes (w_mem w), w_kern := k\<rparr>))
       else if rc \<noteq> ERROR_IO_PENDING W then Some (False, e\<lparr>ev_ec := ec_native rc\<rparr>, w\<lparr>w_kern := k\<rparr>)
       else Some (True, e, w\<lparr>w_kern := k\<rparr>))"

definition recv_resume_win :: "'k wsys \<Rightarrow> nat \<Rightarrow> (recv_win_op, 'k world) op_call" where
  "recv_resume_win W this = (\<lambda>(e, w).
     case win_result W (rwin_socket e) this (w_kern w) of (ok, rc, bytes, k) \<Rightarrow>
       let e1 = e\<lparr>rwin_bytes := bytes\<rparr>;
           e2 = (if \<not> ok then e1\<lparr>ev_ec := ec_native rc\<rparr> else e1)
       in Some (True, e2\<lparr>rwin_buffer := (rwin_buffer e2)\<lparr>wb_size := rwin_bytes e2\<rparr>\<rparr>, w\<lparr>w_kern := k\<rparr>))"

definition recv_await_resume_win :: "recv_win_op \<Rightarrow> exn + 64 word" where
  "recv_await_resume_win e =
     (if ec_bool (ev_ec e) then Inl (system_error (ev_ec e) ''tcp recv'') else Inr (ucast (wb_size (rwin_buffer e))))"

section \<open>send and send_some\<close>

record send_win_op = event +
  swin_context :: whandle
  swin_socket :: whandle
  swin_buffer :: win_buffer
  swin_size :: "64 word"
  swin_bytes :: u32

definition send_make_win :: "whandle socket \<Rightarrow> nat \<Rightarrow> 64 word \<Rightarrow> send_win_op" where
  "send_make_win s data n =
     event.extend (event_make Win32) (send_win_op.fields (sk_context s) (sk_handle s) (buffer_win data n) 0 0)"

text \<open>After a call that finished at once.\<close>

definition send_advance_win :: "send_win_op \<Rightarrow> send_win_op" where
  "send_advance_win e =
     (let bytes = swin_bytes e in
      e\<lparr>swin_buffer := \<lparr>wb_size = wb_size (swin_buffer e) - bytes, wb_data = wb_data (swin_buffer e) + unat bytes\<rparr>,
        swin_size := swin_size e + ucast bytes\<rparr>)"

text \<open>After a pending call: the data pointer goes forward and back, the size is left alone.\<close>

definition send_result_win :: "send_win_op \<Rightarrow> send_win_op" where
  "send_result_win e =
     (let bytes = swin_bytes e;
          e1 = e\<lparr>swin_buffer := (swin_buffer e)\<lparr>wb_data := wb_data (swin_buffer e) + unat bytes\<rparr>\<rparr>;
          e2 = e1\<lparr>swin_buffer := (swin_buffer e1)\<lparr>wb_data := wb_data (swin_buffer e1) - unat bytes\<rparr>\<rparr>
      in e2\<lparr>swin_size := swin_size e2 + ucast bytes\<rparr>)"

definition send_call_win :: "'k wsys \<Rightarrow> nat \<Rightarrow> send_win_op \<Rightarrow> 'k world \<Rightarrow> bool \<times> int \<times> u32 \<times> 'k" where
  "send_call_win W this e w =
     win_send W (swin_socket e) (mem_bytes (w_mem w) (wb_data (swin_buffer e)) (unat (wb_size (swin_buffer e)))) this (w_kern w)"

partial_function (option) send_suspend_win ::
  "'k wsys \<Rightarrow> nat \<Rightarrow> send_win_op \<times> 'k world \<Rightarrow> (bool \<times> send_win_op \<times> 'k world) option" where
  "send_suspend_win W this s =
     (case s of (e, w) \<Rightarrow>
        if wb_size (swin_buffer e) > 0 then
          (case send_call_win W this e w of (ok, rc, bytes, k) \<Rightarrow>
             if \<not> ok then
               (if rc \<noteq> ERROR_IO_PENDING W then Some (False, e\<lparr>ev_ec := ec_native rc\<rparr>, w\<lparr>w_kern := k\<rparr>)
                else Some (True, e, w\<lparr>w_kern := k\<rparr>))
             else
               (let e1 = send_advance_win (e\<lparr>swin_bytes := bytes\<rparr>) in
                if bytes = 0 \<or> wb_size (swin_buffer e1) = 0 then Some (False, e1, w\<lparr>w_kern := k\<rparr>)
                else send_suspend_win W this (e1, w\<lparr>w_kern := k\<rparr>)))
        else Some (False, e, w))"

definition send_resume_win :: "'k wsys \<Rightarrow> nat \<Rightarrow> (send_win_op, 'k world) op_call" where
  "send_resume_win W this = (\<lambda>(e, w).
     case win_result W (swin_socket e) this (w_kern w) of (ok, rc, bytes, k) \<Rightarrow>
       let e1 = e\<lparr>swin_bytes := bytes\<rparr> in
       if \<not> ok then Some (True, e1\<lparr>ev_ec := ec_native rc\<rparr>, w\<lparr>w_kern := k\<rparr>)
       else (let e2 = send_result_win e1 in
             Some (\<not> (bytes > 0 \<and> wb_size (swin_buffer e2) > 0), e2, w\<lparr>w_kern := k\<rparr>)))"

definition send_await_resume_win :: "send_win_op \<Rightarrow> exn + 64 word" where
  "send_await_resume_win e =
     (if ec_bool (ev_ec e) then Inl (system_error (ev_ec e) ''tcp send'') else Inr (swin_size e))"

definition send_some_suspend_win :: "'k wsys \<Rightarrow> nat \<Rightarrow> (send_win_op, 'k world) op_call" where
  "send_some_suspend_win W this = (\<lambda>(e, w).
     case send_call_win W this e w of (ok, rc, bytes, k) \<Rightarrow>
       if \<not> ok then
         (if rc \<noteq> ERROR_IO_PENDING W then Some (False, e\<lparr>ev_ec := ec_native rc\<rparr>, w\<lparr>w_kern := k\<rparr>)
          else Some (True, e, w\<lparr>w_kern := k\<rparr>))
       else Some (False, send_advance_win (e\<lparr>swin_bytes := bytes\<rparr>), w\<lparr>w_kern := k\<rparr>))"

definition send_some_resume_win :: "'k wsys \<Rightarrow> nat \<Rightarrow> (send_win_op, 'k world) op_call" where
  "send_some_resume_win W this = (\<lambda>(e, w).
     case win_result W (swin_socket e) this (w_kern w) of (ok, rc, bytes, k) \<Rightarrow>
       let e1 = e\<lparr>swin_bytes := bytes\<rparr> in
       Some (True, if \<not> ok then e1\<lparr>ev_ec := ec_native rc\<rparr> else send_result_win e1, w\<lparr>w_kern := k\<rparr>))"

definition send_some_await_resume_win :: "send_win_op \<Rightarrow> exn + 64 word" where
  "send_some_await_resume_win e =
     (if ec_bool (ev_ec e) then Inl (system_error (ev_ec e) ''tcp send some'') else Inr (swin_size e))"

section \<open>Sends that finish at once\<close>

text \<open>
  What \<open>WSASend\<close> promises when no call stays pending: a prefix of the buffer is sent, not empty unless the buffer is, or the call fails and
  nothing is sent.
\<close>

definition win_write_ok :: "'k wsys \<Rightarrow> (whandle \<Rightarrow> 'k \<Rightarrow> byte list) \<Rightarrow> bool" where
  "win_write_ok W out \<longleftrightarrow>
     (\<forall>h bs this k. case win_send W h bs this k of (ok, rc, n, k') \<Rightarrow>
        if ok then unat n \<le> length bs \<and> out h k' = out h k @ take (unat n) bs \<and> (n = 0 \<longrightarrow> bs = [])
        else rc \<noteq> ERROR_IO_PENDING W \<and> 0 < rc \<and> rc < 2 ^ 28 \<and> out h k' = out h k)"

definition win_sent ::
  "(whandle \<Rightarrow> 'k \<Rightarrow> byte list) \<Rightarrow> whandle \<Rightarrow> nat \<Rightarrow> byte list \<Rightarrow> byte list \<Rightarrow> nat \<Rightarrow> send_win_op \<times> 'k world \<Rightarrow> bool" where
  "win_sent out h d0 bs0 out0 n = (\<lambda>(e, w).
     swin_socket e = h \<and> n \<le> length bs0 \<and> wb_data (swin_buffer e) = d0 + n \<and>
     unat (wb_size (swin_buffer e)) = length bs0 - n \<and> unat (swin_size e) = n \<and>
     out h (w_kern w) = out0 @ take n bs0 \<and> mem_bytes (w_mem w) d0 (length bs0) = bs0)"

lemma win_write_okD:
  assumes "win_write_ok W out" "win_send W h bs this k = (ok, rc, n, k')"
  shows "ok \<Longrightarrow> unat n \<le> length bs" "ok \<Longrightarrow> out h k' = out h k @ take (unat n) bs" "ok \<Longrightarrow> n = 0 \<Longrightarrow> bs = []"
    "\<not> ok \<Longrightarrow> rc \<noteq> ERROR_IO_PENDING W" "\<not> ok \<Longrightarrow> ec_bool (ec_native rc)" "\<not> ok \<Longrightarrow> out h k' = out h k"
  using spec [OF spec [OF spec [OF spec [OF assms(1) [unfolded win_write_ok_def], of h], of bs], of this], of k]
    assms(2) ec_bool_errno by (auto split: if_splits)

lemma win_sent_rest:
  "win_sent out h d0 bs0 out0 n (e, w) \<Longrightarrow>
   mem_bytes (w_mem w) (wb_data (swin_buffer e)) (unat (wb_size (swin_buffer e))) = drop n bs0"
  using drop_mem_bytes [of n "length bs0" "w_mem w" d0] by (auto simp: win_sent_def)

lemma win_sent_advance:
  assumes s: "win_sent out h d0 bs0 out0 n (e, w)" and len: "length bs0 < 2 ^ 32"
    and b: "unat b \<le> length bs0 - n"
    and k: "out h k = out h (w_kern w) @ take (unat b) (drop n bs0)"
  shows "win_sent out h d0 bs0 out0 (n + unat b) (send_advance_win (e\<lparr>swin_bytes := b\<rparr>), w\<lparr>w_kern := k\<rparr>)"
proof -
  have n: "n \<le> length bs0" using s by (simp add: win_sent_def)
  have "b \<le> wb_size (swin_buffer e)" using s b by (simp add: win_sent_def word_le_nat_alt)
  then have "unat (wb_size (swin_buffer e) - b) = length bs0 - (n + unat b)"
    using s by (simp add: unat_sub win_sent_def)
  moreover have "unat (swin_size e + ucast b) = n + unat b"
    using s b len n by (subst unat_add_lem [THEN iffD1]) (auto simp: win_sent_def)
  ultimately show ?thesis using s b n k
    by (auto simp: win_sent_def send_advance_win_def Let_def take_add)
qed

lemma send_suspend_win_sends:
  assumes ok: "win_write_ok W out" and len: "length bs0 < 2 ^ 32"
    and s: "win_sent out h d0 bs0 out0 n (e, w)" "\<not> ec_bool (ev_ec e)"
  shows "\<exists>m e' w'. send_suspend_win W this (e, w) = Some (False, e', w') \<and> win_sent out h d0 bs0 out0 m (e', w') \<and>
           w_mem w' = w_mem w \<and> (ec_bool (ev_ec e') \<or> m = length bs0)"
  using s
proof (induction "length bs0 - n" arbitrary: n e w rule: less_induct)
  case less
  note s = less.prems(1)
  have nl: "n \<le> length bs0" and hd: "swin_socket e = h" using s by (auto simp: win_sent_def)
  have rest: "wb_size (swin_buffer e) > 0 \<longleftrightarrow> n < length bs0"
    using s by (auto simp: win_sent_def word_gt_0 unat_eq_zero [symmetric])
  show ?case
  proof (cases "n < length bs0")
    case False
    then have "send_suspend_win W this (e, w) = Some (False, e, w)" using rest by (subst send_suspend_win.simps) simp
    with False nl s show ?thesis by (intro exI [of _ n] exI [of _ e] exI [of _ w]) simp
  next
    case True
    obtain a rc b k where r: "win_send W h (drop n bs0) this (w_kern w) = (a, rc, b, k)" by (metis prod_cases4)
    note c = win_write_okD [OF ok r]
    have call: "send_call_win W this e w = (a, rc, b, k)"
      using r by (simp add: send_call_win_def hd win_sent_rest [OF s])
    let ?e = "send_advance_win (e\<lparr>swin_bytes := b\<rparr>)" and ?w = "w\<lparr>w_kern := k\<rparr>"
    show ?thesis
    proof (cases a)
      case False
      then have "send_suspend_win W this (e, w) = Some (False, e\<lparr>ev_ec := ec_native rc\<rparr>, ?w)"
        using call c rest True by (subst send_suspend_win.simps) simp
      moreover have "win_sent out h d0 bs0 out0 n (e\<lparr>ev_ec := ec_native rc\<rparr>, ?w)" using s c False by (simp add: win_sent_def)
      ultimately show ?thesis using c False by (intro exI [of _ n] exI [of _ "e\<lparr>ev_ec := ec_native rc\<rparr>"] exI [of _ ?w]) simp
    next
      case a: True
      have sent: "win_sent out h d0 bs0 out0 (n + unat b) (?e, ?w)"
        using c a by (intro win_sent_advance [OF s len]) auto
      have b: "b \<noteq> 0" using c(3) a True by auto
      then have less': "length bs0 - (n + unat b) < length bs0 - n" using True by (simp add: unat_eq_zero [symmetric] diff_less_mono2)
      have size0: "wb_size (swin_buffer ?e) = 0 \<longleftrightarrow> n + unat b = length bs0"
        using sent by (auto simp: win_sent_def unat_eq_zero [symmetric])
      have ec: "\<not> ec_bool (ev_ec ?e)" using less.prems(2) by (simp add: send_advance_win_def Let_def)
      have "send_suspend_win W this (e, w) =
          (if wb_size (swin_buffer ?e) = 0 then Some (False, ?e, ?w) else send_suspend_win W this (?e, ?w))"
        using call a rest True b by (subst send_suspend_win.simps) (simp add: Let_def)
      then show ?thesis
      proof (cases "n + unat b = length bs0")
        case True
        with \<open>send_suspend_win W this (e, w) = _\<close> size0 sent show ?thesis
          by (intro exI [of _ "n + unat b"] exI [of _ ?e] exI [of _ ?w]) simp
      next
        case False
        with less.hyps [OF less' sent ec] \<open>send_suspend_win W this (e, w) = _\<close> size0 show ?thesis by auto
      qed
    qed
  qed
qed

lemma send_make_win_sent:
  assumes "unat n < 2 ^ 32" "bs = mem_bytes (w_mem w) d (unat n)"
  shows "win_sent out (sk_handle s) d bs (out (sk_handle s) (w_kern w)) 0 ((send_make_win s d n)\<lparr>ev_awaiter := a\<rparr>, w)"
proof -
  have "unat (ucast n :: u32) = unat n" by (rule unat_ucast_32 [OF assms(1)])
  then show ?thesis using assms
    by (simp add: win_sent_def send_make_win_def event.defs send_win_op.defs buffer_win_def event_make_def)
qed

text \<open>
  A \<open>send\<close> on Windows whose calls never stay pending. The loop ends, however the calls split the data; the awaiter is not suspended,
  and the operation's result is the full length with exactly the data sent, or an exception after a prefix.
\<close>

lemma tcp_win_send_immediate:
  assumes "win_write_ok W out" "unat n < 2 ^ 32" "bs = mem_bytes (w_mem w) d (unat n)"
  shows "\<exists>e w'. event_await_suspend (send_suspend_win W this) awaiter (send_make_win s d n, w) = Some (False, e, w') \<and>
           w_mem w' = w_mem w \<and>
           (case send_await_resume_win e of
              Inr k \<Rightarrow> k = n \<and> out (sk_handle s) (w_kern w') = out (sk_handle s) (w_kern w) @ bs
            | Inl x \<Rightarrow> exn_what x = ''tcp send'' \<and>
                (\<exists>m. out (sk_handle s) (w_kern w') = out (sk_handle s) (w_kern w) @ take m bs))"
proof -
  let ?e = "(send_make_win s d n)\<lparr>ev_awaiter := awaiter\<rparr>"
  have len: "length bs = unat n" using assms(3) by simp
  have "\<not> ec_bool (ev_ec ?e)" by (simp add: send_make_win_def event_make_def event.defs send_win_op.defs)
  from send_suspend_win_sends [OF assms(1) _ send_make_win_sent [OF assms(2,3)] this, of this] len assms(2)
  obtain m e' w' where r: "send_suspend_win W this (?e, w) = Some (False, e', w')"
    "win_sent out (sk_handle s) d bs (out (sk_handle s) (w_kern w)) m (e', w')" "w_mem w' = w_mem w"
    "ec_bool (ev_ec e') \<or> m = length bs" by auto
  have "swin_size e' = n" if "m = length bs" using r(2) that len by (simp add: win_sent_def word_unat_eq_iff)
  with r show ?thesis
    by (intro exI [of _ e'] exI [of _ w'])
      (auto simp: event_await_suspend_def send_await_resume_win_def win_sent_def system_error_def)
qed

section \<open>Sends that stay pending\<close>

definition win_pending :: "'k wsys \<Rightarrow> bool" where
  "win_pending W \<longleftrightarrow>
     (\<forall>h bs this k. case win_send W h bs this k of (ok, rc, n, k') \<Rightarrow> \<not> ok \<and> rc = ERROR_IO_PENDING W) \<and>
     (\<forall>h this k. case win_result W h this k of (ok, rc, n, k') \<Rightarrow> ok \<and> 0 < n)"

definition win_stuck :: "'k wsys \<Rightarrow> win_buffer \<Rightarrow> send_win_op \<times> 'k world \<Rightarrow> bool" where
  "win_stuck W b = (\<lambda>(e, w). win_pending W \<and> swin_buffer e = b \<and> 0 < wb_size b)"

lemma win_stuck_suspend:
  assumes "win_stuck W b s"
  shows "\<exists>t. send_suspend_win W this s = Some (True, t) \<and> win_stuck W b t"
proof -
  obtain e w where s: "s = (e, w)" by (metis prod.exhaust)
  obtain ok rc n k where r: "send_call_win W this e w = (ok, rc, n, k)" by (metis prod_cases4)
  have p: "win_pending W" "swin_buffer e = b" "0 < wb_size b" using assms by (simp_all add: s win_stuck_def)
  have "case send_call_win W this e w of (ok, rc, n, k') \<Rightarrow> \<not> ok \<and> rc = ERROR_IO_PENDING W"
    unfolding send_call_win_def by (rule p(1) [unfolded win_pending_def, THEN conjunct1, THEN spec, THEN spec, THEN spec, THEN spec])
  with r p have "send_suspend_win W this s = Some (True, e, w\<lparr>w_kern := k\<rparr>)"
    by (subst send_suspend_win.simps) (simp add: s)
  with p show ?thesis by (simp add: win_stuck_def)
qed

lemma win_stuck_resume:
  assumes "win_stuck W b s"
  shows "\<exists>t. send_resume_win W this s = Some (False, t) \<and> win_stuck W b t"
proof -
  obtain e w where s: "s = (e, w)" by (metis prod.exhaust)
  obtain ok rc n k where r: "win_result W (swin_socket e) this (w_kern w) = (ok, rc, n, k)" by (metis prod_cases4)
  have p: "win_pending W" "swin_buffer e = b" "0 < wb_size b" using assms by (simp_all add: s win_stuck_def)
  have "case win_result W (swin_socket e) this (w_kern w) of (ok, rc, n, k') \<Rightarrow> ok \<and> 0 < n"
    by (rule p(1) [unfolded win_pending_def, THEN conjunct2, THEN spec, THEN spec, THEN spec])
  with r p show ?thesis by (simp add: s send_resume_win_def send_result_win_def Let_def win_stuck_def)
qed

interpretation tcp_win_send: awaitable ready_win "send_suspend_win W this" "send_resume_win W this" "\<lambda>s. s" "\<lambda>_ _. True"
    "win_stuck W b" "win_stuck W b" "\<lambda>_. False"
  for W this b
proof unfold_locales
  show "win_stuck W b s \<Longrightarrow> \<exists>r t. ready_win s = Some (r, t) \<and> (if r then False else win_stuck W b t)" for s
    by (cases s) (auto simp: ready_win_def)
  show "win_stuck W b s \<Longrightarrow> \<exists>r t. send_suspend_win W this s = Some (r, t) \<and> (if r then win_stuck W b t else False)" for s
    using win_stuck_suspend by (metis (full_types))
  show "win_stuck W b s \<Longrightarrow> \<exists>r t. send_resume_win W this s = Some (r, t) \<and> (if r then False else win_stuck W b t)" for s
    using win_stuck_resume by (metis (full_types))
qed (auto simp: win_stuck_def)

text \<open>
  C31: a \<open>send\<close> on Windows never ends when its calls stay pending. If every \<open>WSASend\<close> is completed later with a positive number of bytes,
  the operation keeps its whole buffer, sends it again after every completion, and the awaiting coroutine is never resumed.
\<close>

theorem tcp_win_send_never_ends:
  assumes "win_pending W" "(ucast n :: u32) \<noteq> 0"
    and "reach (\<lambda>m. m = await_start (send_make_win s d n, w))
           (act_step (await_exec ready_win (send_suspend_win W this) (send_resume_win W this) (\<lambda>s. s) (\<lambda>_ _. True))) m"
  shows "aw_mode m \<noteq> Continued \<and> aw_wakes m = 0 \<and> swin_buffer (fst (aw_state m)) = buffer_win d n"
proof -
  have start: "win_stuck W (buffer_win d n) (send_make_win s d n, w)"
    using assms(1,2) by (simp add: win_stuck_def send_make_win_def event.defs send_win_op.defs buffer_win_def word_gt_0)
  have c: "aw_mode m \<noteq> Continued" using tcp_win_send.await_done(2) [OF start assms(3)] by blast
  moreover have "win_stuck W (buffer_win d n) (aw_state m)"
    using tcp_win_send.await_reach [OF start assms(3)] c
    by (auto simp: tcp_win_send.await_inv_def split: await_mode.splits)
  ultimately show ?thesis
    using tcp_win_send.await_done(1) [OF start assms(3)] by (auto simp: win_stuck_def split: prod.splits)
qed

text \<open>The kernels of the witnesses: the bytes sent so far; one sends two bytes at a time, the other lets everything pend.\<close>

definition sync_win :: "byte list wsys" where
  "sync_win = failing_win\<lparr>win_send := \<lambda>h bs this k. (True, 0, of_nat (min 2 (length bs)), k @ take 2 bs)\<rparr>"

definition pending_win :: "byte list wsys" where
  "pending_win = failing_win
     \<lparr>win_send := \<lambda>h bs this k. (False, 997, 0, k @ bs), win_result := \<lambda>h this k. (True, 0, 3, k)\<rparr>"

definition win_demo_socket :: "whandle socket" where
  "win_demo_socket = (socket_empty sockaddr_zero 7 3)"

lemma win_kernels: "win_write_ok sync_win (\<lambda>h k. k)" "win_pending pending_win"
proof -
  have "unat (of_nat (min 2 n) :: u32) = min 2 n" for n by (intro unat_of_nat_u32) simp
  moreover have "(of_nat (min 2 n) :: u32) = 0 \<longleftrightarrow> n = 0" for n
    using \<open>\<And>n. unat (of_nat (min 2 n) :: u32) = min 2 n\<close> [of n] by (auto simp: unat_eq_zero [symmetric])
  ultimately show "win_write_ok sync_win (\<lambda>h k. k)" by (auto simp: win_write_ok_def sync_win_def min_def)
  show "win_pending pending_win" by (simp add: win_pending_def pending_win_def failing_win_def)
qed

lemma tcp_win_send_immediate_witness:
  "\<exists>e w'. event_await_suspend (send_suspend_win sync_win 100) 5
       (send_make_win win_demo_socket 65 3, \<lparr>w_mem = of_nat, w_kern = []\<rparr>) = Some (False, e, w') \<and>
     send_await_resume_win e = Inr 3 \<and> w_kern w' = [65, 66, 67]"
proof -
  let ?w = "\<lparr>w_mem = of_nat, w_kern = []\<rparr> :: byte list world"
  have bs: "[65, 66, 67] = mem_bytes (w_mem ?w) 65 (unat (3 :: 64 word))" by (simp add: mem_bytes_def upt_rec)
  have "unat (3 :: 64 word) < 2 ^ 32" by simp
  from tcp_win_send_immediate [OF win_kernels(1) this bs, where s = win_demo_socket and this = 100 and awaiter = 5]
  obtain e w' where r: "event_await_suspend (send_suspend_win sync_win 100) 5 (send_make_win win_demo_socket 65 3, ?w) = Some (False, e, w')"
    "case send_await_resume_win e of Inr k \<Rightarrow> k = 3 \<and> w_kern w' = [65, 66, 67]
     | Inl x \<Rightarrow> exn_what x = ''tcp send'' \<and> (\<exists>m. w_kern w' = take m [65, 66, 67])" by (auto cong: sum.case_cong)
  have "send_await_resume_win e = Inr 3"
    using r(1)
    by (auto simp: event_await_suspend_def send_suspend_win.simps send_make_win_def win_demo_socket_def socket_empty_def
        buffer_win_def event_make_def event.defs send_win_op.defs send_call_win_def sync_win_def mem_bytes_def upt_rec
        send_advance_win_def send_await_resume_win_def)
  with r show ?thesis by auto
qed

lemma tcp_win_send_never_ends_witness:
  "\<exists>m. run_acts (await_exec ready_win (send_suspend_win pending_win 100) (send_resume_win pending_win 100) (\<lambda>s. s) (\<lambda>_ _. True))
         [Co_await 5, Dispatch, Dispatch] (await_start (send_make_win win_demo_socket 65 3, \<lparr>w_mem = of_nat, w_kern = []\<rparr>)) = Some m \<and>
       aw_mode m = Suspended \<and> swin_buffer (fst (aw_state m)) = buffer_win 65 3 \<and>
       w_kern (snd (aw_state m)) = [65, 66, 67, 65, 66, 67, 65, 66, 67]"
proof -
  let ?w = "\<lparr>w_mem = of_nat, w_kern = []\<rparr> :: byte list world"
  let ?exec = "await_exec ready_win (send_suspend_win pending_win 100) (send_resume_win pending_win 100) (\<lambda>s. s) (\<lambda>_ _. True)"
  let ?s0 = "await_start (send_make_win win_demo_socket 65 3, ?w)"
  obtain m where m: "run_acts ?exec [Co_await 5, Dispatch, Dispatch] ?s0 = Some m" "aw_mode m = Suspended"
    "w_kern (snd (aw_state m)) = [65, 66, 67, 65, 66, 67, 65, 66, 67]"
    by (simp add: await_start_def ready_win_def event_await_suspend_def event_await_resume_def send_suspend_win.simps
        send_make_win_def win_demo_socket_def socket_empty_def buffer_win_def event_make_def event.defs send_win_op.defs
        send_call_win_def pending_win_def failing_win_def mem_bytes_def upt_rec await_end_def send_resume_win_def
        send_result_win_def Let_def)
  have "reach (\<lambda>m. m = ?s0) (act_step ?exec) m"
    by (rule run_acts_reach [OF m(1)]) (simp add: reach_init)
  from tcp_win_send_never_ends [OF win_kernels(2) _ this] m show ?thesis by simp
qed

end
