(* ===== verification/Ice_Udp.thy ===== *)
theory Ice_Udp
  imports Ice_Tcp_Win
begin

text \<open>
  UDP sockets: include/ice/net/udp/socket.h, src/ice/net/udp/socket.cpp. The operations refer to the caller's endpoint, which may change
  while they are under way: \<open>w_endpoints\<close> are the endpoint objects by address, and an operation holds an address. The Unix and the
  Windows side of each operation follow each other.
\<close>

record 'k udp_world = "'k world" +
  w_endpoints :: "nat \<Rightarrow> endpoint"

section \<open>Sockets\<close>

definition udp_socket_unix ::
  "'k usys \<Rightarrow> net_abi \<Rightarrow> sockaddr \<Rightarrow> int \<Rightarrow> int \<Rightarrow> 'k \<Rightarrow> (exn + int socket) \<times> 'k" where
  "udp_socket_unix U A junk context family k = socket_make_unix U A junk context family (SOCK_DGRAM A) (IPPROTO_UDP A) k"

definition udp_socket_protocol_unix ::
  "'k usys \<Rightarrow> net_abi \<Rightarrow> sockaddr \<Rightarrow> int \<Rightarrow> int \<Rightarrow> int \<Rightarrow> 'k \<Rightarrow> (exn + int socket) \<times> 'k" where
  "udp_socket_protocol_unix U A junk context family protocol k =
     socket_make_unix U A junk context family (SOCK_DGRAM A) protocol k"

definition udp_socket_win ::
  "'k wsys \<Rightarrow> net_abi \<Rightarrow> sockaddr \<Rightarrow> whandle \<Rightarrow> int \<Rightarrow> 'k \<Rightarrow> (exn + whandle socket) \<times> 'k" where
  "udp_socket_win W A junk context family k = socket_make_win W junk context family (SOCK_DGRAM A) (IPPROTO_UDP A) k"

definition udp_socket_protocol_win ::
  "'k wsys \<Rightarrow> net_abi \<Rightarrow> sockaddr \<Rightarrow> whandle \<Rightarrow> int \<Rightarrow> int \<Rightarrow> 'k \<Rightarrow> (exn + whandle socket) \<times> 'k" where
  "udp_socket_protocol_win W A junk context family protocol k =
     socket_make_win W junk context family (SOCK_DGRAM A) protocol k"

section \<open>recv\<close>

record udp_recv_op = event +
  ur_context :: int
  ur_socket :: int
  ur_endpoint :: nat
  ur_buffer :: unix_buffer
  ur_size :: "64 word"

definition udp_recv_make :: "os \<Rightarrow> int socket \<Rightarrow> nat \<Rightarrow> nat \<Rightarrow> 64 word \<Rightarrow> udp_recv_op" where
  "udp_recv_make p s ep data n =
     event.extend (event_make p) (udp_recv_op.fields (sk_context s) (sk_handle s) ep (buffer_unix data n) 0)"

definition udp_recv_ready :: "'k usys \<Rightarrow> net_abi \<Rightarrow> (udp_recv_op, 'k udp_world) op_call" where
  "udp_recv_ready U A = (\<lambda>(e, w).
     let ep = (w_endpoints w (ur_endpoint e))\<lparr>ep_size := endpoint_capacity A\<rparr>
     in case sys_recvfrom U (ur_socket e) (unat (ub_size (ur_buffer e))) (ep_storage ep) (ep_size ep) (w_kern w) of
          (rc, errno, bytes, addr, n, k) \<Rightarrow>
            let w1 = w\<lparr>w_mem := mem_write (ub_data (ur_buffer e)) bytes (w_mem w), w_kern := k,
                       w_endpoints := (w_endpoints w)(ur_endpoint e := \<lparr>ep_storage = addr, ep_size = n\<rparr>)\<rparr>
            in if rc \<ge> 0 then Some (True, e\<lparr>ur_size := ur_size e + word_of_int rc\<rparr>, w1)
               else if errno = ECONNRESET U then Some (True, e\<lparr>ur_size := 0\<rparr>, w1)
               else if errno \<noteq> EAGAIN U \<and> errno \<noteq> EINTR U then Some (True, e\<lparr>ev_ec := ec_native errno\<rparr>, w1)
               else Some (False, e, w1))"

definition udp_recv_suspend :: "unix \<Rightarrow> 'k usys \<Rightarrow> nat \<Rightarrow> (udp_recv_op, 'k udp_world) op_call" where
  "udp_recv_suspend u U this = (\<lambda>(e, w). Some (queue_recv u U this (ur_context e) (ur_socket e) (e, w)))"

definition udp_recv_resume :: "'k usys \<Rightarrow> net_abi \<Rightarrow> (udp_recv_op, 'k udp_world) op_call" where
  "udp_recv_resume U A = udp_recv_ready U A"

definition udp_recv_await_resume :: "udp_recv_op \<Rightarrow> exn + 64 word" where
  "udp_recv_await_resume e = (if ec_bool (ev_ec e) then Inl (system_error (ev_ec e) ''udp recv'') else Inr (ur_size e))"

record udp_recv_win_op = event +
  urw_context :: whandle
  urw_socket :: whandle
  urw_endpoint :: nat
  urw_buffer :: win_buffer
  urw_size :: "64 word"
  urw_bytes :: u32

definition udp_recv_make_win :: "whandle socket \<Rightarrow> nat \<Rightarrow> nat \<Rightarrow> 64 word \<Rightarrow> udp_recv_win_op" where
  "udp_recv_make_win s ep data n =
     event.extend (event_make Win32) (udp_recv_win_op.fields (sk_context s) (sk_handle s) ep (buffer_win data n) 0 0)"

text \<open>Here the endpoint's length is passed as it is.\<close>

definition udp_recv_suspend_win :: "'k wsys \<Rightarrow> nat \<Rightarrow> (udp_recv_win_op, 'k udp_world) op_call" where
  "udp_recv_suspend_win W this = (\<lambda>(e, w).
     let ep = w_endpoints w (urw_endpoint e)
     in case win_recvfrom W (urw_socket e) (unat (wb_size (urw_buffer e))) (ep_storage ep) (ep_size ep) this (w_kern w) of
          (ok, rc, bytes, addr, n, k) \<Rightarrow>
            if ok then
              (let b = of_nat (length bytes)
               in Some (False, e\<lparr>urw_bytes := b, urw_size := urw_size e + ucast b\<rparr>,
                        w\<lparr>w_mem := mem_write (wb_data (urw_buffer e)) bytes (w_mem w), w_kern := k,
                          w_endpoints := (w_endpoints w)(urw_endpoint e := \<lparr>ep_storage = addr, ep_size = n\<rparr>)\<rparr>))
            else if rc \<noteq> ERROR_IO_PENDING W then Some (False, e\<lparr>ev_ec := ec_native rc\<rparr>, w\<lparr>w_kern := k\<rparr>)
            else Some (True, e, w\<lparr>w_kern := k\<rparr>))"

definition udp_recv_resume_win :: "'k wsys \<Rightarrow> nat \<Rightarrow> (udp_recv_win_op, 'k udp_world) op_call" where
  "udp_recv_resume_win W this = (\<lambda>(e, w).
     case win_result W (urw_socket e) this (w_kern w) of (ok, rc, bytes, k) \<Rightarrow>
       let e1 = e\<lparr>urw_bytes := bytes\<rparr>;
           e2 = (if \<not> ok then e1\<lparr>ev_ec := ec_native rc\<rparr> else e1)
       in Some (True, e2\<lparr>urw_size := urw_size e2 + ucast (urw_bytes e2)\<rparr>, w\<lparr>w_kern := k\<rparr>))"

definition udp_recv_await_resume_win :: "udp_recv_win_op \<Rightarrow> exn + 64 word" where
  "udp_recv_await_resume_win e =
     (if ec_bool (ev_ec e) then Inl (system_error (ev_ec e) ''udp recv'') else Inr (urw_size e))"

section \<open>send and send_some\<close>

record udp_send_op = event +
  us_context :: int
  us_socket :: int
  us_endpoint :: nat
  us_buffer :: unix_buffer
  us_size :: "64 word"

definition udp_send_make :: "os \<Rightarrow> int socket \<Rightarrow> nat \<Rightarrow> nat \<Rightarrow> 64 word \<Rightarrow> udp_send_op" where
  "udp_send_make p s ep data n =
     event.extend (event_make p) (udp_send_op.fields (sk_context s) (sk_handle s) ep (buffer_unix data n) 0)"

definition udp_send_assert :: "int \<Rightarrow> udp_send_op \<Rightarrow> bool" where
  "udp_send_assert rc e \<longleftrightarrow> ub_size (us_buffer e) \<ge> word_of_int rc"

definition udp_send_advance :: "int \<Rightarrow> udp_send_op \<Rightarrow> udp_send_op" where
  "udp_send_advance rc e =
     e\<lparr>us_buffer := \<lparr>ub_size = ub_size (us_buffer e) - word_of_int rc, ub_data = ub_data (us_buffer e) + nat rc\<rparr>,
       us_size := us_size e + word_of_int rc\<rparr>"

definition udp_send_call :: "'k usys \<Rightarrow> udp_send_op \<Rightarrow> 'k udp_world \<Rightarrow> int \<times> int \<times> 'k" where
  "udp_send_call U e w =
     (let ep = w_endpoints w (us_endpoint e)
      in sys_sendto U (us_socket e) (mem_bytes (w_mem w) (ub_data (us_buffer e)) (unat (ub_size (us_buffer e))))
           (ep_storage ep) (ep_size ep) (w_kern w))"

definition udp_send_ready :: "'k usys \<Rightarrow> (udp_send_op, 'k udp_world) op_call" where
  "udp_send_ready U = (\<lambda>(e, w).
     case udp_send_call U e w of (rc, errno, k) \<Rightarrow>
       let w1 = w\<lparr>w_kern := k\<rparr> in
       if rc > 0 then (let e1 = udp_send_advance rc e in Some (ub_size (us_buffer e1) = 0, e1, w1))
       else if rc = 0 then Some (True, e, w1)
       else if errno \<noteq> EAGAIN U \<and> errno \<noteq> EINTR U then Some (True, e\<lparr>ev_ec := ec_native errno\<rparr>, w1)
       else Some (False, e, w1))"

definition udp_send_suspend :: "unix \<Rightarrow> 'k usys \<Rightarrow> nat \<Rightarrow> (udp_send_op, 'k udp_world) op_call" where
  "udp_send_suspend u U this = (\<lambda>(e, w). Some (queue_send u U this (us_context e) (us_socket e) (e, w)))"

definition udp_send_resume :: "'k usys \<Rightarrow> (udp_send_op, 'k udp_world) op_call" where
  "udp_send_resume U = udp_send_ready U"

definition udp_send_await_resume :: "udp_send_op \<Rightarrow> exn + 64 word" where
  "udp_send_await_resume e = (if ec_bool (ev_ec e) then Inl (system_error (ev_ec e) ''udp send'') else Inr (us_size e))"

definition udp_send_some_ready :: "'k usys \<Rightarrow> (udp_send_op, 'k udp_world) op_call" where
  "udp_send_some_ready U = (\<lambda>(e, w).
     case udp_send_call U e w of (rc, errno, k) \<Rightarrow>
       let w1 = w\<lparr>w_kern := k\<rparr> in
       if rc > 0 then Some (True, udp_send_advance rc e, w1)
       else if rc = 0 then Some (True, e, w1)
       else if errno \<noteq> EAGAIN U \<and> errno \<noteq> EINTR U then Some (True, e\<lparr>ev_ec := ec_native errno\<rparr>, w1)
       else Some (False, e, w1))"

definition udp_send_some_suspend :: "unix \<Rightarrow> 'k usys \<Rightarrow> nat \<Rightarrow> (udp_send_op, 'k udp_world) op_call" where
  "udp_send_some_suspend u U this = (\<lambda>(e, w). Some (queue_send u U this (us_context e) (us_socket e) (e, w)))"

definition udp_send_some_resume :: "'k usys \<Rightarrow> (udp_send_op, 'k udp_world) op_call" where
  "udp_send_some_resume U = udp_send_some_ready U"

definition udp_send_some_await_resume :: "udp_send_op \<Rightarrow> exn + 64 word" where
  "udp_send_some_await_resume e =
     (if ec_bool (ev_ec e) then Inl (system_error (ev_ec e) ''udp send some'') else Inr (us_size e))"

record udp_send_win_op = event +
  usw_context :: whandle
  usw_socket :: whandle
  usw_endpoint :: nat
  usw_buffer :: win_buffer
  usw_size :: "64 word"
  usw_bytes :: u32

definition udp_send_make_win :: "whandle socket \<Rightarrow> nat \<Rightarrow> nat \<Rightarrow> 64 word \<Rightarrow> udp_send_win_op" where
  "udp_send_make_win s ep data n =
     event.extend (event_make Win32) (udp_send_win_op.fields (sk_context s) (sk_handle s) ep (buffer_win data n) 0 0)"

definition udp_send_advance_win :: "udp_send_win_op \<Rightarrow> udp_send_win_op" where
  "udp_send_advance_win e =
     (let bytes = usw_bytes e in
      e\<lparr>usw_buffer := \<lparr>wb_size = wb_size (usw_buffer e) - bytes, wb_data = wb_data (usw_buffer e) + unat bytes\<rparr>,
        usw_size := usw_size e + ucast bytes\<rparr>)"

definition udp_send_result_win :: "udp_send_win_op \<Rightarrow> udp_send_win_op" where
  "udp_send_result_win e =
     (let bytes = usw_bytes e;
          e1 = e\<lparr>usw_buffer := (usw_buffer e)\<lparr>wb_data := wb_data (usw_buffer e) + unat bytes\<rparr>\<rparr>;
          e2 = e1\<lparr>usw_buffer := (usw_buffer e1)\<lparr>wb_data := wb_data (usw_buffer e1) - unat bytes\<rparr>\<rparr>
      in e2\<lparr>usw_size := usw_size e2 + ucast bytes\<rparr>)"

text \<open>The address and its length are read once per \<open>suspend\<close>, before the loop.\<close>

definition udp_send_call_win ::
  "'k wsys \<Rightarrow> nat \<Rightarrow> endpoint \<Rightarrow> udp_send_win_op \<Rightarrow> 'k udp_world \<Rightarrow> bool \<times> int \<times> u32 \<times> 'k" where
  "udp_send_call_win W this ep e w =
     win_sendto W (usw_socket e) (mem_bytes (w_mem w) (wb_data (usw_buffer e)) (unat (wb_size (usw_buffer e))))
       (ep_storage ep) (ep_size ep) this (w_kern w)"

partial_function (option) udp_send_loop_win ::
  "'k wsys \<Rightarrow> nat \<Rightarrow> endpoint \<Rightarrow> udp_send_win_op \<times> 'k udp_world \<Rightarrow> (bool \<times> udp_send_win_op \<times> 'k udp_world) option" where
  "udp_send_loop_win W this ep s =
     (case s of (e, w) \<Rightarrow>
        if wb_size (usw_buffer e) > 0 then
          (case udp_send_call_win W this ep e w of (ok, rc, bytes, k) \<Rightarrow>
             if \<not> ok then
               (if rc \<noteq> ERROR_IO_PENDING W then Some (False, e\<lparr>ev_ec := ec_native rc\<rparr>, w\<lparr>w_kern := k\<rparr>)
                else Some (True, e, w\<lparr>w_kern := k\<rparr>))
             else
               (let e1 = udp_send_advance_win (e\<lparr>usw_bytes := bytes\<rparr>) in
                if bytes = 0 \<or> wb_size (usw_buffer e1) = 0 then Some (False, e1, w\<lparr>w_kern := k\<rparr>)
                else udp_send_loop_win W this ep (e1, w\<lparr>w_kern := k\<rparr>)))
        else Some (False, e, w))"

definition udp_send_suspend_win :: "'k wsys \<Rightarrow> nat \<Rightarrow> (udp_send_win_op, 'k udp_world) op_call" where
  "udp_send_suspend_win W this = (\<lambda>(e, w). udp_send_loop_win W this (w_endpoints w (usw_endpoint e)) (e, w))"

definition udp_send_resume_win :: "'k wsys \<Rightarrow> nat \<Rightarrow> (udp_send_win_op, 'k udp_world) op_call" where
  "udp_send_resume_win W this = (\<lambda>(e, w).
     case win_result W (usw_socket e) this (w_kern w) of (ok, rc, bytes, k) \<Rightarrow>
       let e1 = e\<lparr>usw_bytes := bytes\<rparr> in
       if \<not> ok then Some (True, e1\<lparr>ev_ec := ec_native rc\<rparr>, w\<lparr>w_kern := k\<rparr>)
       else (let e2 = udp_send_result_win e1 in
             Some (\<not> (bytes > 0 \<and> wb_size (usw_buffer e2) > 0), e2, w\<lparr>w_kern := k\<rparr>)))"

definition udp_send_await_resume_win :: "udp_send_win_op \<Rightarrow> exn + 64 word" where
  "udp_send_await_resume_win e =
     (if ec_bool (ev_ec e) then Inl (system_error (ev_ec e) ''udp send'') else Inr (usw_size e))"

definition udp_send_some_suspend_win :: "'k wsys \<Rightarrow> nat \<Rightarrow> (udp_send_win_op, 'k udp_world) op_call" where
  "udp_send_some_suspend_win W this = (\<lambda>(e, w).
     case udp_send_call_win W this (w_endpoints w (usw_endpoint e)) e w of (ok, rc, bytes, k) \<Rightarrow>
       if \<not> ok then
         (if rc \<noteq> ERROR_IO_PENDING W then Some (False, e\<lparr>ev_ec := ec_native rc\<rparr>, w\<lparr>w_kern := k\<rparr>)
          else Some (True, e, w\<lparr>w_kern := k\<rparr>))
       else Some (False, udp_send_advance_win (e\<lparr>usw_bytes := bytes\<rparr>), w\<lparr>w_kern := k\<rparr>))"

definition udp_send_some_resume_win :: "'k wsys \<Rightarrow> nat \<Rightarrow> (udp_send_win_op, 'k udp_world) op_call" where
  "udp_send_some_resume_win W this = (\<lambda>(e, w).
     case win_result W (usw_socket e) this (w_kern w) of (ok, rc, bytes, k) \<Rightarrow>
       let e1 = e\<lparr>usw_bytes := bytes\<rparr> in
       Some (True, if \<not> ok then e1\<lparr>ev_ec := ec_native rc\<rparr> else udp_send_result_win e1, w\<lparr>w_kern := k\<rparr>))"

definition udp_send_some_await_resume_win :: "udp_send_win_op \<Rightarrow> exn + 64 word" where
  "udp_send_some_await_resume_win e =
     (if ec_bool (ev_ec e) then Inl (system_error (ev_ec e) ''udp send some'') else Inr (usw_size e))"

section \<open>Receiving a datagram\<close>

text \<open>
  A datagram is an address, its length and its bytes. What \<open>recvfrom\<close> promises, for the datagrams \<open>taken\<close> from a descriptor so far: a successful call takes
  one and gives what fits the buffer, its address and the address's length; a failed one takes none.
\<close>

type_synonym datagram = "sockaddr \<times> u32 \<times> byte list"

definition recvfrom_ok :: "'k usys \<Rightarrow> (int \<Rightarrow> 'k \<Rightarrow> datagram list) \<Rightarrow> bool" where
  "recvfrom_ok U taken \<longleftrightarrow>
     (\<forall>fd n a l k. case sys_recvfrom U fd n a l k of (rc, errno, bytes, a', l', k') \<Rightarrow>
        length bytes \<le> n \<and>
        (0 \<le> rc \<longrightarrow> rc = int (length bytes) \<and> taken fd k' = taken fd k @ [(a', l', bytes)]) \<and>
        (rc < 0 \<longrightarrow> bytes = [] \<and> 0 < errno \<and> errno < 2 ^ 28 \<and> taken fd k' = taken fd k))"

lemma recvfrom_okD:
  assumes "recvfrom_ok U taken" "sys_recvfrom U fd n a l k = (rc, errno, bytes, a', l', k')"
  shows "length bytes \<le> n" "0 \<le> rc \<Longrightarrow> rc = int (length bytes)" "0 \<le> rc \<Longrightarrow> taken fd k' = taken fd k @ [(a', l', bytes)]"
    "rc < 0 \<Longrightarrow> bytes = []" "rc < 0 \<Longrightarrow> ec_bool (ec_native errno)" "rc < 0 \<Longrightarrow> taken fd k' = taken fd k"
  using spec [OF spec [OF spec [OF spec [OF spec [OF assms(1) [unfolded recvfrom_ok_def], of fd], of n], of a], of l], of k]
    assms(2) ec_bool_errno by auto

definition udp_recv_inv ::
  "unix \<Rightarrow> 'k usys \<Rightarrow> (int \<Rightarrow> 'k \<Rightarrow> datagram list) \<Rightarrow> int \<Rightarrow> nat \<Rightarrow> unix_buffer \<Rightarrow> datagram list \<Rightarrow> (nat \<Rightarrow> byte) \<Rightarrow>
   udp_recv_op \<times> 'k udp_world \<Rightarrow> bool" where
  "udp_recv_inv u U taken fd p b t0 mem0 = (\<lambda>(e, w).
     recvfrom_ok U taken \<and> register_ok u U (\<lambda>k k'. taken fd k' = taken fd k) \<and>
     ur_socket e = fd \<and> ur_endpoint e = p \<and> ur_buffer e = b \<and> ur_size e = 0 \<and> \<not> ec_bool (ev_ec e) \<and>
     taken fd (w_kern w) = t0 \<and> w_mem w = mem0)"

definition udp_recv_post ::
  "(int \<Rightarrow> 'k \<Rightarrow> datagram list) \<Rightarrow> int \<Rightarrow> nat \<Rightarrow> unix_buffer \<Rightarrow> datagram list \<Rightarrow> (nat \<Rightarrow> byte) \<Rightarrow>
   udp_recv_op \<times> 'k udp_world \<Rightarrow> bool" where
  "udp_recv_post taken fd p b t0 mem0 = (\<lambda>(e, w).
     if ec_bool (ev_ec e) then taken fd (w_kern w) = t0 \<and> w_mem w = mem0
     else (taken fd (w_kern w) = t0 \<and> w_mem w = mem0 \<and> ur_size e = 0) \<or>
          (\<exists>a l bs. taken fd (w_kern w) = t0 @ [(a, l, bs)] \<and> w_mem w = mem_write (ub_data b) bs mem0 \<and>
             w_endpoints w p = \<lparr>ep_storage = a, ep_size = l\<rparr> \<and> unat (ur_size e) = length bs \<and> length bs \<le> unat (ub_size b)))"

definition udp_recv_env :: "(int \<Rightarrow> 'k \<Rightarrow> datagram list) \<Rightarrow> int \<Rightarrow> 'k udp_world \<Rightarrow> 'k udp_world \<Rightarrow> bool" where
  "udp_recv_env taken fd w w' \<longleftrightarrow> taken fd (w_kern w') = taken fd (w_kern w) \<and> w_mem w' = w_mem w"

lemma udp_recv_ready_law:
  assumes "udp_recv_inv u U taken fd p b t0 mem0 s"
  shows "\<exists>r t. udp_recv_ready U A s = Some (r, t) \<and>
           (if r then udp_recv_post taken fd p b t0 mem0 t else udp_recv_inv u U taken fd p b t0 mem0 t)"
proof -
  obtain e w where s: "s = (e, w)" by (metis prod.exhaust)
  obtain rc errno bytes a l k where r: "sys_recvfrom U (ur_socket e) (unat (ub_size (ur_buffer e)))
      (ep_storage (w_endpoints w (ur_endpoint e))) (endpoint_capacity A) (w_kern w) = (rc, errno, bytes, a, l, k)"
    by (metis prod_cases6)
  have "recvfrom_ok U taken" using assms by (simp add: s udp_recv_inv_def)
  note c = recvfrom_okD [OF this r]
  have len: "unat (word_of_int rc :: 64 word) = length bytes" if "0 \<le> rc"
    using c(1,2) that unat_less64 [of "ub_size (ur_buffer e)"] by (subst unat_rc) auto
  show ?thesis
  proof (cases "0 \<le> rc")
    case True
    with c(1,3) len r assms show ?thesis
      by (auto simp: s udp_recv_ready_def udp_recv_inv_def udp_recv_post_def Let_def)
  next
    case False
    with c(4-6) r assms show ?thesis
      by (auto simp: s udp_recv_ready_def udp_recv_inv_def udp_recv_post_def Let_def)
  qed
qed

lemma udp_recv_suspend_law:
  assumes "udp_recv_inv u U taken fd p b t0 mem0 s"
  shows "\<exists>r t. udp_recv_suspend u U this s = Some (r, t) \<and>
           (if r then udp_recv_inv u U taken fd p b t0 mem0 t else udp_recv_post taken fd p b t0 mem0 t)"
proof -
  obtain e w where s: "s = (e, w)" by (metis prod.exhaust)
  have reg: "register_ok u U (\<lambda>k k'. taken fd k' = taken fd k)" using assms by (simp add: s udp_recv_inv_def)
  show ?thesis unfolding s udp_recv_suspend_def prod.case
    by (rule some_law, rule queue_law(1) [OF reg])
      (use assms s in \<open>auto simp: udp_recv_inv_def udp_recv_post_def\<close>)
qed

lemma udp_recv_inv_remove:
  assumes "udp_recv_inv u U taken fd p b t0 mem0 s"
  shows "udp_recv_inv u U taken fd p b t0 mem0 (event_remove u U s)"
proof -
  obtain e w where s: "s = (e, w)" by (metis prod.exhaust)
  have reg: "register_ok u U (\<lambda>k k'. taken fd k' = taken fd k)" using assms by (simp add: s udp_recv_inv_def)
  show ?thesis unfolding s
    by (rule remove_law_of [OF reg]) (use assms s in \<open>auto simp: udp_recv_inv_def\<close>)
qed

interpretation udp_recv: awaitable "udp_recv_ready U A" "udp_recv_suspend u U this" "udp_recv_resume U A" "event_remove u U"
    "udp_recv_env taken fd" "udp_recv_inv u U taken fd p b t0 mem0" "udp_recv_inv u U taken fd p b t0 mem0"
    "udp_recv_post taken fd p b t0 mem0"
  for u U A this taken fd p b t0 mem0
  by unfold_locales
    (unfold udp_recv_resume_def, (rule udp_recv_ready_law udp_recv_suspend_law udp_recv_inv_remove; assumption)+,
     simp_all add: udp_recv_inv_def udp_recv_env_def)

text \<open>
  \<open>udp::recv\<close> takes one datagram. If an awaited \<open>recv\<close> returns a length, exactly one datagram has been taken from the socket, its
  bytes lie at the buffer, and the caller's endpoint is its address; or the length is 0 and nothing was taken (the reset
  of a connection); if it throws, nothing was taken and memory is unchanged.
\<close>

lemma udp_recv_datagram:
  assumes "recvfrom_ok U taken" "register_ok u U (\<lambda>k k'. taken (sk_handle s) k' = taken (sk_handle s) k)"
    and "reach (\<lambda>m. m = await_start (udp_recv_make (Unix u) s p d n, w))
           (act_step (await_exec (udp_recv_ready U A) (udp_recv_suspend u U this) (udp_recv_resume U A) (event_remove u U)
             (udp_recv_env taken (sk_handle s)))) m"
    and "aw_mode m = Continued"
  shows "let t0 = taken (sk_handle s) (w_kern w); w' = snd (aw_state m) in
         case udp_recv_await_resume (fst (aw_state m)) of
           Inl x \<Rightarrow> taken (sk_handle s) (w_kern w') = t0 \<and> w_mem w' = w_mem w \<and> exn_what x = ''udp recv''
         | Inr k \<Rightarrow>
             (taken (sk_handle s) (w_kern w') = t0 \<and> w_mem w' = w_mem w \<and> k = 0) \<or>
             (\<exists>a l bs. taken (sk_handle s) (w_kern w') = t0 @ [(a, l, bs)] \<and> w_mem w' = mem_write d bs (w_mem w) \<and>
                w_endpoints w' p = \<lparr>ep_storage = a, ep_size = l\<rparr> \<and> unat k = length bs \<and> length bs \<le> unat n)"
proof -
  have "udp_recv_inv u U taken (sk_handle s) p (buffer_unix d n) (taken (sk_handle s) (w_kern w)) (w_mem w)
      (udp_recv_make (Unix u) s p d n, w)"
    using assms(1,2) by (simp add: udp_recv_inv_def udp_recv_make_def event_make_def event.defs udp_recv_op.defs)
  from udp_recv.await_done(2) [OF this assms(3,4)] show ?thesis
    by (auto simp: udp_recv_post_def udp_recv_await_resume_def buffer_unix_def system_error_def Let_def split: prod.splits)
qed

section \<open>Sending a datagram\<close>

text \<open>What \<open>sendto\<close> promises on a datagram socket: the whole buffer is sent as one datagram, or nothing.\<close>

definition sendto_ok :: "'k usys \<Rightarrow> (int \<Rightarrow> 'k \<Rightarrow> datagram list) \<Rightarrow> bool" where
  "sendto_ok U sent \<longleftrightarrow>
     (\<forall>fd bs a l k. case sys_sendto U fd bs a l k of (rc, errno, k') \<Rightarrow>
        (0 \<le> rc \<longrightarrow> rc = int (length bs) \<and> sent fd k' = sent fd k @ [(a, l, bs)]) \<and>
        (rc < 0 \<longrightarrow> 0 < errno \<and> errno < 2 ^ 28 \<and> sent fd k' = sent fd k))"

lemma sendto_okD:
  assumes "sendto_ok U sent" "sys_sendto U fd bs a l k = (rc, errno, k')"
  shows "0 \<le> rc \<Longrightarrow> rc = int (length bs)" "0 \<le> rc \<Longrightarrow> sent fd k' = sent fd k @ [(a, l, bs)]"
    "rc < 0 \<Longrightarrow> ec_bool (ec_native errno)" "rc < 0 \<Longrightarrow> sent fd k' = sent fd k"
  using spec [OF spec [OF spec [OF spec [OF spec [OF assms(1) [unfolded sendto_ok_def], of fd], of bs], of a], of l], of k]
    assms(2) ec_bool_errno by auto

definition udp_send_inv ::
  "unix \<Rightarrow> 'k usys \<Rightarrow> (int \<Rightarrow> 'k \<Rightarrow> datagram list) \<Rightarrow> int \<Rightarrow> nat \<Rightarrow> endpoint \<Rightarrow> unix_buffer \<Rightarrow> byte list \<Rightarrow> datagram list \<Rightarrow>
   udp_send_op \<times> 'k udp_world \<Rightarrow> bool" where
  "udp_send_inv u U sent fd p ep b bs s0 = (\<lambda>(e, w).
     sendto_ok U sent \<and> register_ok u U (\<lambda>k k'. sent fd k' = sent fd k) \<and>
     us_socket e = fd \<and> us_endpoint e = p \<and> us_buffer e = b \<and> us_size e = 0 \<and> \<not> ec_bool (ev_ec e) \<and>
     sent fd (w_kern w) = s0 \<and> w_endpoints w p = ep \<and> mem_bytes (w_mem w) (ub_data b) (unat (ub_size b)) = bs)"

definition udp_send_post ::
  "(int \<Rightarrow> 'k \<Rightarrow> datagram list) \<Rightarrow> int \<Rightarrow> endpoint \<Rightarrow> unix_buffer \<Rightarrow> byte list \<Rightarrow> datagram list \<Rightarrow>
   udp_send_op \<times> 'k udp_world \<Rightarrow> bool" where
  "udp_send_post sent fd ep b bs s0 = (\<lambda>(e, w).
     if ec_bool (ev_ec e) then sent fd (w_kern w) = s0
     else sent fd (w_kern w) = s0 @ [(ep_storage ep, ep_size ep, bs)] \<and> us_size e = ub_size b)"

definition udp_send_env ::
  "(int \<Rightarrow> 'k \<Rightarrow> datagram list) \<Rightarrow> int \<Rightarrow> nat \<Rightarrow> nat \<Rightarrow> nat \<Rightarrow> 'k udp_world \<Rightarrow> 'k udp_world \<Rightarrow> bool" where
  "udp_send_env sent fd p d n w w' \<longleftrightarrow>
     sent fd (w_kern w') = sent fd (w_kern w) \<and> w_endpoints w' p = w_endpoints w p \<and>
     mem_bytes (w_mem w') d n = mem_bytes (w_mem w) d n"

lemma udp_send_laws:
  assumes "udp_send_inv u U sent fd p ep b bs s0 s"
  shows "\<exists>r t. udp_send_ready U s = Some (r, t) \<and>
           (if r then udp_send_post sent fd ep b bs s0 t else udp_send_inv u U sent fd p ep b bs s0 t)"
    and "\<exists>r t. udp_send_some_ready U s = Some (r, t) \<and>
           (if r then udp_send_post sent fd ep b bs s0 t else udp_send_inv u U sent fd p ep b bs s0 t)"
proof -
  obtain e w where s: "s = (e, w)" by (metis prod.exhaust)
  obtain rc errno k where r: "udp_send_call U e w = (rc, errno, k)" by (metis prod_cases3)
  have i: "sendto_ok U sent" "us_socket e = fd" "us_endpoint e = p" "us_buffer e = b" "us_size e = 0" "\<not> ec_bool (ev_ec e)"
    "sent fd (w_kern w) = s0" "w_endpoints w p = ep" "mem_bytes (w_mem w) (ub_data b) (unat (ub_size b)) = bs"
    using assms by (auto simp: s udp_send_inv_def)
  have "sys_sendto U fd bs (ep_storage ep) (ep_size ep) (w_kern w) = (rc, errno, k)"
    using r i by (simp add: udp_send_call_def)
  note c = sendto_okD [OF i(1) this]
  have len: "length bs = unat (ub_size b)" using i(9) by auto
  have size: "word_of_int rc = ub_size b" if "0 \<le> rc"
    using c(1) [OF that] len unat_rc [OF that] unat_less64 [of "ub_size b"] by (simp add: word_unat_eq_iff)
  have pos: "udp_send_post sent fd ep b bs s0 (udp_send_advance rc e, w\<lparr>w_kern := k\<rparr>)"
    "ub_size (us_buffer (udp_send_advance rc e)) = 0" if "0 < rc"
    using that c size i by (auto simp: udp_send_post_def udp_send_advance_def)
  have zero: "udp_send_post sent fd ep b bs s0 (e, w\<lparr>w_kern := k\<rparr>)" if "rc = 0"
    using that c size i by (auto simp: udp_send_post_def)
  have neg: "udp_send_post sent fd ep b bs s0 (e\<lparr>ev_ec := ec_native errno\<rparr>, w\<lparr>w_kern := k\<rparr>)"
    "udp_send_inv u U sent fd p ep b bs s0 (e, w\<lparr>w_kern := k\<rparr>)" if "rc < 0"
    using that c(3,4) assms by (auto simp: s udp_send_post_def udp_send_inv_def)
  show "\<exists>r t. udp_send_ready U s = Some (r, t) \<and>
           (if r then udp_send_post sent fd ep b bs s0 t else udp_send_inv u U sent fd p ep b bs s0 t)"
    using pos zero neg by (cases "rc > 0"; cases "rc = 0") (auto simp: s udp_send_ready_def r Let_def)
  show "\<exists>r t. udp_send_some_ready U s = Some (r, t) \<and>
           (if r then udp_send_post sent fd ep b bs s0 t else udp_send_inv u U sent fd p ep b bs s0 t)"
    using pos zero neg by (cases "rc > 0"; cases "rc = 0") (auto simp: s udp_send_some_ready_def r Let_def)
qed

lemma udp_send_queue:
  assumes "udp_send_inv u U sent fd p ep b bs s0 s"
  shows "case queue_send u U this c h s of (r, t) \<Rightarrow>
           if r then udp_send_inv u U sent fd p ep b bs s0 t else udp_send_post sent fd ep b bs s0 t"
    and "udp_send_inv u U sent fd p ep b bs s0 (event_remove u U s)"
proof -
  obtain e w where s: "s = (e, w)" by (metis prod.exhaust)
  have reg: "register_ok u U (\<lambda>k k'. sent fd k' = sent fd k)" using assms by (simp add: s udp_send_inv_def)
  show "case queue_send u U this c h s of (r, t) \<Rightarrow>
           if r then udp_send_inv u U sent fd p ep b bs s0 t else udp_send_post sent fd ep b bs s0 t"
    unfolding s by (rule queue_law(2) [OF reg]) (use assms s in \<open>auto simp: udp_send_inv_def udp_send_post_def\<close>)
  show "udp_send_inv u U sent fd p ep b bs s0 (event_remove u U s)"
    unfolding s by (rule remove_law_of [OF reg]) (use assms s in \<open>auto simp: udp_send_inv_def\<close>)
qed

lemma udp_send_suspend_laws:
  assumes "udp_send_inv u U sent fd p ep b bs s0 s"
  shows "\<exists>r t. udp_send_suspend u U this s = Some (r, t) \<and>
           (if r then udp_send_inv u U sent fd p ep b bs s0 t else udp_send_post sent fd ep b bs s0 t)"
    and "\<exists>r t. udp_send_some_suspend u U this s = Some (r, t) \<and>
           (if r then udp_send_inv u U sent fd p ep b bs s0 t else udp_send_post sent fd ep b bs s0 t)"
proof -
  obtain e w where s: "s = (e, w)" by (metis prod.exhaust)
  note q = udp_send_queue(1) [OF assms, of this "us_context e" "us_socket e"]
  show "\<exists>r t. udp_send_suspend u U this s = Some (r, t) \<and>
           (if r then udp_send_inv u U sent fd p ep b bs s0 t else udp_send_post sent fd ep b bs s0 t)"
    unfolding s udp_send_suspend_def prod.case by (rule some_law) (rule q [unfolded s])
  show "\<exists>r t. udp_send_some_suspend u U this s = Some (r, t) \<and>
           (if r then udp_send_inv u U sent fd p ep b bs s0 t else udp_send_post sent fd ep b bs s0 t)"
    unfolding s udp_send_some_suspend_def prod.case by (rule some_law) (rule q [unfolded s])
qed

interpretation udp_send: awaitable "udp_send_ready U" "udp_send_suspend u U this" "udp_send_resume U" "event_remove u U"
    "udp_send_env sent fd p (ub_data b) (unat (ub_size b))" "udp_send_inv u U sent fd p ep b bs s0"
    "udp_send_inv u U sent fd p ep b bs s0" "udp_send_post sent fd ep b bs s0"
  for u U this sent fd p ep b bs s0
  by unfold_locales
    (unfold udp_send_resume_def, (rule udp_send_laws(1) udp_send_suspend_laws(1) udp_send_queue(2); assumption)+,
     simp_all add: udp_send_inv_def udp_send_env_def)

interpretation udp_send_some: awaitable "udp_send_some_ready U" "udp_send_some_suspend u U this" "udp_send_some_resume U"
    "event_remove u U" "udp_send_env sent fd p (ub_data b) (unat (ub_size b))" "udp_send_inv u U sent fd p ep b bs s0"
    "udp_send_inv u U sent fd p ep b bs s0" "udp_send_post sent fd ep b bs s0"
  for u U this sent fd p ep b bs s0
  by unfold_locales
    (unfold udp_send_some_resume_def, (rule udp_send_laws(2) udp_send_suspend_laws(2) udp_send_queue(2); assumption)+,
     simp_all add: udp_send_inv_def udp_send_env_def)

text \<open>
  \<open>udp::send\<close> sends one datagram. While nobody changes the data or the endpoint, an awaited \<open>send\<close> that returns has sent the
  whole buffer in exactly one datagram to the endpoint's address and returns its length, also after waiting; one that
  throws has sent none.
\<close>

lemma udp_send_datagram:
  assumes "sendto_ok U sent" "register_ok u U (\<lambda>k k'. sent (sk_handle s) k' = sent (sk_handle s) k)"
    and "bs = mem_bytes (w_mem w) d (unat n)"
    and "reach (\<lambda>m. m = await_start (udp_send_make (Unix u) s p d n, w))
           (act_step (await_exec (udp_send_ready U) (udp_send_suspend u U this) (udp_send_resume U) (event_remove u U)
             (udp_send_env sent (sk_handle s) p d (unat n)))) m"
    and "aw_mode m = Continued"
  shows "let s0 = sent (sk_handle s) (w_kern w); ep = w_endpoints w p in
         case udp_send_await_resume (fst (aw_state m)) of
           Inl x \<Rightarrow> sent (sk_handle s) (w_kern (snd (aw_state m))) = s0 \<and> exn_what x = ''udp send''
         | Inr k \<Rightarrow> sent (sk_handle s) (w_kern (snd (aw_state m))) = s0 @ [(ep_storage ep, ep_size ep, bs)] \<and> k = n"
proof -
  let ?b = "buffer_unix d n"
  have b: "ub_data ?b = d" "ub_size ?b = n" by (simp_all add: buffer_unix_def)
  have "udp_send_inv u U sent (sk_handle s) p (w_endpoints w p) ?b bs (sent (sk_handle s) (w_kern w))
      (udp_send_make (Unix u) s p d n, w)"
    using assms(1-3) b by (simp add: udp_send_inv_def udp_send_make_def event_make_def event.defs udp_send_op.defs)
  from udp_send.await_done(2) [OF this _ assms(5)] assms(4) b show ?thesis
    by (fastforce simp: udp_send_post_def udp_send_await_resume_def system_error_def Let_def split: prod.splits)
qed

text \<open>
  The kernel of the witnesses: the datagrams taken and sent, and the calls that would block before one succeeds.
\<close>

definition dgram_unix :: "(datagram list \<times> nat) usys" where
  "dgram_unix = failing_unix
     \<lparr>sys_epoll_ctl := \<lambda>_ _ _ _ k. (0, 0, k),
      sys_recvfrom := \<lambda>fd n a l (log, blocked).
        if blocked > 0 \<or> n < 2 then (-1, 11, [], a, l, log, blocked - 1)
        else (2, 0, [72, 84], sockaddr_zero, 16, log @ [(sockaddr_zero, 16, [72, 84])], blocked),
      sys_sendto := \<lambda>fd bs a l (log, blocked).
        if blocked > 0 then (-1, 11, log, blocked - 1) else (int (length bs), 0, log @ [(a, l, bs)], blocked)\<rparr>"

lemma dgram_ok: "recvfrom_ok dgram_unix (\<lambda>fd k. fst k)" "sendto_ok dgram_unix (\<lambda>fd k. fst k)"
  "register_ok Linux dgram_unix (\<lambda>k k'. fst k' = fst k)"
  by (auto simp: recvfrom_ok_def sendto_ok_def register_ok_def dgram_unix_def failing_unix_def)

definition dgram_world :: "(datagram list \<times> nat) udp_world" where
  "dgram_world = \<lparr>w_mem = of_nat, w_kern = ([], 1), w_endpoints = (\<lambda>_. \<lparr>ep_storage = sockaddr_zero, ep_size = 16\<rparr>)\<rparr>"

lemma dgram_bytes: "[65, 66, 67] = mem_bytes (w_mem dgram_world) 65 (unat (3 :: 64 word))"
  by (simp add: dgram_world_def mem_bytes_def upt_rec)

lemmas dgram_run = await_start_def pipe_socket_def socket_empty_def event_make_def event.defs dgram_unix_def failing_unix_def
  buffer_unix_def event_await_suspend_def queue_defs await_end_def event_await_resume_def event_remove_def
  event_remove_linux_def dgram_world_def Let_def

lemma pipe_socket_handle: "sk_handle pipe_socket = 7"
  by (simp add: pipe_socket_def socket_empty_def)

lemma udp_recv_datagram_witness:
  "\<exists>m. run_acts (await_exec (udp_recv_ready dgram_unix demo_abi) (udp_recv_suspend Linux dgram_unix 100)
           (udp_recv_resume dgram_unix demo_abi) (event_remove Linux dgram_unix) (udp_recv_env (\<lambda>fd k. fst k) 7))
         [Co_await 5, Dispatch] (await_start (udp_recv_make (Unix Linux) pipe_socket 9 65 1024, dgram_world)) = Some m \<and>
       udp_recv_await_resume (fst (aw_state m)) = Inr 2 \<and>
       (\<exists>bs. length bs = 2 \<and> w_mem (snd (aw_state m)) = mem_write 65 bs of_nat)"
proof -
  let ?exec = "await_exec (udp_recv_ready dgram_unix demo_abi) (udp_recv_suspend Linux dgram_unix 100)
           (udp_recv_resume dgram_unix demo_abi) (event_remove Linux dgram_unix) (udp_recv_env (\<lambda>fd k. fst k) 7)"
  let ?s0 = "await_start (udp_recv_make (Unix Linux) pipe_socket 9 65 1024, dgram_world)"
  obtain m where m: "run_acts ?exec [Co_await 5, Dispatch] ?s0 = Some m" "aw_mode m = Continued"
    "udp_recv_await_resume (fst (aw_state m)) = Inr 2"
    by (simp add: dgram_run udp_recv_make_def udp_recv_op.defs udp_recv_ready_def udp_recv_suspend_def udp_recv_resume_def
        udp_recv_await_resume_def)
  have "reach (\<lambda>m. m = ?s0) (act_step ?exec) m"
    by (rule run_acts_reach [OF m(1)]) (simp add: reach_init)
  from udp_recv_datagram [OF dgram_ok(1) dgram_ok(3), where s = pipe_socket and this = 100 and m = m,
      unfolded pipe_socket_handle, OF this m(2)] m
  show ?thesis by (auto simp: Let_def dgram_world_def)
qed

lemma udp_send_datagram_witness:
  "\<exists>m. run_acts (await_exec (udp_send_ready dgram_unix) (udp_send_suspend Linux dgram_unix 100)
           (udp_send_resume dgram_unix) (event_remove Linux dgram_unix) (udp_send_env (\<lambda>fd k. fst k) 7 9 65 3))
         [Co_await 5, Dispatch] (await_start (udp_send_make (Unix Linux) pipe_socket 9 65 3, dgram_world)) = Some m \<and>
       udp_send_await_resume (fst (aw_state m)) = Inr 3 \<and>
       fst (w_kern (snd (aw_state m))) = [(sockaddr_zero, 16, [65, 66, 67])]"
proof -
  let ?exec = "await_exec (udp_send_ready dgram_unix) (udp_send_suspend Linux dgram_unix 100)
           (udp_send_resume dgram_unix) (event_remove Linux dgram_unix) (udp_send_env (\<lambda>fd k. fst k) 7 9 65 3)"
  let ?s0 = "await_start (udp_send_make (Unix Linux) pipe_socket 9 65 3, dgram_world)"
  obtain m where m: "run_acts ?exec [Co_await 5, Dispatch] ?s0 = Some m" "aw_mode m = Continued"
    "udp_send_await_resume (fst (aw_state m)) = Inr 3"
    by (simp add: dgram_run udp_send_make_def udp_send_op.defs udp_send_ready_def udp_send_call_def udp_send_suspend_def
        udp_send_resume_def udp_send_await_resume_def udp_send_advance_def mem_bytes_def upt_rec)
  have "unat (3 :: 64 word) = 3" by simp
  have "reach (\<lambda>m. m = ?s0) (act_step ?exec) m"
    by (rule run_acts_reach [OF m(1)]) (simp add: reach_init)
  from udp_send_datagram [OF dgram_ok(2) dgram_ok(3) dgram_bytes, where s = pipe_socket and this = 100 and m = m,
      unfolded pipe_socket_handle \<open>unat 3 = 3\<close>, OF this m(2)] m
  show ?thesis by (auto simp: Let_def dgram_world_def)
qed

end
