(* ===== verification/Ice_Context.thy ===== *)
theory Ice_Context
  imports Ice_Event
begin

text \<open>
  The event loop: include/ice/context.h, src/ice/context.cpp. The first part translates the constructors, the
  destructor, \<open>interrupt\<close>, \<open>stop\<close>, the wait of one round and \<open>schedule\<close>. The second part is the machine of any
  number of threads that call \<open>run\<close> of one context while others call \<open>stop\<close>, \<open>interrupt\<close> and \<open>schedule\<close>: one
  action is one access to \<open>state_\<close>, one system call or one dispatched entry.

  The atomic word \<open>state_\<close> is a 32-bit word: the stop flag in bit 0, twice the number of threads above. What the
  kernel's wake-up does is not fixed here: \<open>wake_ok\<close> states what it takes for \<open>stop\<close> to reach every
  thread (a pending interrupt stays pending until some wait returns it). The completion port of Windows, a queue,
  satisfies it; the re-armed one-shot registration of Linux does so as long as
  nothing is scheduled, and loses wake-ups otherwise.
\<close>

section \<open>Construction and destruction\<close>

record ice_context =
  ctx_state :: u32
  ctx_handle :: int
  ctx_events :: int

definition stop_requested_flag :: u32 where
  "stop_requested_flag = 1"

definition thread_count_increment :: u32 where
  "thread_count_increment = 2"

lemma context_flags [ice_const]: "stop_requested_flag = 1" "thread_count_increment = 2"
  by (simp_all add: stop_requested_flag_def thread_count_increment_def)

text \<open>\<open>detail::wsa\<close>: the version word has the major version in its low byte.\<close>

definition wsa_start :: "'k wsys \<Rightarrow> 'k \<Rightarrow> (exn + unit) \<times> 'k" where
  "wsa_start W k =
     (case win_wsa_startup W k of (rc, version, k1) \<Rightarrow>
        if rc \<noteq> 0 then (Inl (system_error (ec_native rc) ''wsa startup''), k1)
        else
          (let major = ucast version :: byte; minor = ucast (drop_bit 8 version) :: byte in
           if major < 2 \<or> major = 2 \<and> minor < 2
           then (Inl (system_error (ec_domain (ice_errc_value Version)) ''wsa startup''), k1)
           else (Inr (), k1)))"

text \<open>
  The constructors. \<open>wsa_started\<close> is the state of the function-local static: its constructor runs again if it threw. On
  Linux an exception closes the local handles, last made first; \<open>None\<close> is a
  close that never ends.
\<close>

definition context_make_win :: "'k wsys \<Rightarrow> bool \<times> 'k \<Rightarrow> (exn + whandle) \<times> bool \<times> 'k" where
  "context_make_win W = (\<lambda>(wsa_started, k).
     case (if wsa_started then (Inr (), k) else wsa_start W k) of
       (Inl x, k1) \<Rightarrow> (Inl x, False, k1)
     | (Inr _, k1) \<Rightarrow>
         (case win_create_port W k1 of (h, err, k2) \<Rightarrow>
            if h = 0 then (Inl (system_error (ec_native err) ''create context''), True, k2)
            else (Inr h, True, k2)))"

definition context_make_linux :: "'k usys \<Rightarrow> 'k \<Rightarrow> ((exn + ice_context) \<times> 'k) option" where
  "context_make_linux U k =
     (case sys_epoll_create1 U k of (handle, errno1, k1) \<Rightarrow>
        if handle = -1 then Some (Inl (system_error (ec_native errno1) ''create context''), k1)
        else case sys_eventfd U k1 of (events, errno2, k2) \<Rightarrow>
          if events = -1 then
            map_option (Pair (Inl (system_error (ec_native errno2) ''create context event''))) (close_loop U handle k2)
          else case sys_epoll_ctl U handle EPOLL_CTL_ADD events (Epoll_event {EPOLLONESHOT} 0) k2 of (rc, errno3, k3) \<Rightarrow>
            if rc < 0 then
              (case close_loop U events k3 of
                 None \<Rightarrow> None
               | Some k4 \<Rightarrow> map_option (Pair (Inl (system_error (ec_native errno3) ''add context event'')))
                             (close_loop U handle k4))
            else Some (Inr \<lparr>ctx_state = 0, ctx_handle = handle, ctx_events = events\<rparr>, k3))"

definition context_make_bsd :: "'k usys \<Rightarrow> 'k \<Rightarrow> ((exn + ice_context) \<times> 'k) option" where
  "context_make_bsd U k =
     (case sys_kqueue U k of (handle, errno1, k1) \<Rightarrow>
        if handle = -1 then Some (Inl (system_error (ec_native errno1) ''create context''), k1)
        else case sys_kevent U handle (Kevent 0 EVFILT_USER {EV_ADD, EV_CLEAR} {} 0) k1 of (rc, errno2, k2) \<Rightarrow>
          if rc < 0 then
            map_option (Pair (Inl (system_error (ec_native errno2) ''create context event''))) (close_loop U handle k2)
          else Some (Inr \<lparr>ctx_state = 0, ctx_handle = handle, ctx_events = -1\<rparr>, k2))"

text \<open>
  The destructor: the flag is set, the assertion is \<open>thread_count == 0\<close>, and the members are destroyed, last declared
  first.
\<close>

definition fetch_stop :: "u32 \<Rightarrow> u32 \<times> u32" where
  "fetch_stop state = (state, state OR stop_requested_flag)"

definition thread_count :: "u32 \<Rightarrow> u32" where
  "thread_count state = state div thread_count_increment"

definition context_dtor_assert :: "u32 \<Rightarrow> bool" where
  "context_dtor_assert state \<longleftrightarrow> thread_count (fst (fetch_stop state)) = 0"

definition context_dtor_unix :: "unix \<Rightarrow> 'k usys \<Rightarrow> ice_context \<Rightarrow> 'k \<Rightarrow> 'k option" where
  "context_dtor_unix u U c k =
     (case (if u = Linux \<and> ctx_events c \<noteq> -1 then close_loop U (ctx_events c) k else Some k) of
        None \<Rightarrow> None
      | Some k1 \<Rightarrow> if ctx_handle c \<noteq> -1 then close_loop U (ctx_handle c) k1 else Some k1)"

definition context_dtor_win :: "'k wsys \<Rightarrow> whandle \<Rightarrow> 'k \<Rightarrow> 'k" where
  "context_dtor_win W h k = (if h \<noteq> 0 then win_close W h k else k)"

section \<open>interrupt, stop and schedule\<close>

definition context_interrupt_unix :: "unix \<Rightarrow> 'k usys \<Rightarrow> ice_context \<Rightarrow> 'k \<Rightarrow> 'k" where
  "context_interrupt_unix u U c k =
     (case u of
        Linux \<Rightarrow> snd (snd (sys_epoll_ctl U (ctx_handle c) EPOLL_CTL_MOD (ctx_events c) (Epoll_event {EPOLLOUT, EPOLLONESHOT} 0) k))
      | FreeBSD \<Rightarrow> snd (snd (sys_kevent U (ctx_handle c) (Kevent 0 EVFILT_USER {} {NOTE_TRIGGER} 0) k)))"

definition context_interrupt_win :: "'k wsys \<Rightarrow> whandle \<Rightarrow> 'k \<Rightarrow> 'k" where
  "context_interrupt_win W h k = snd (snd (win_post W h 0 k))"

text \<open>The result of \<open>stop\<close>, from the state word it found.\<close>

definition stop_result :: "u32 \<Rightarrow> bool" where
  "stop_result state \<longleftrightarrow> thread_count state = 0"

record schedule_op = event +
  sc_context :: int
  sc_handle :: int
  sc_ready :: bool

text \<open>On FreeBSD there is no \<open>handle_\<close>; \<open>queue_note\<close> is called with 0. \<open>current\<close> is \<open>context.is_current()\<close>.\<close>

definition schedule_make :: "os \<Rightarrow> ice_context \<Rightarrow> bool \<Rightarrow> bool \<Rightarrow> schedule_op" where
  "schedule_make p c current queue =
     event.extend (event_make p) (schedule_op.fields (ctx_handle c)
       (if p = Unix Linux then ctx_events c else 0) (\<not> queue \<and> current))"

definition schedule_ready :: "(schedule_op, 'w) op_call" where
  "schedule_ready = (\<lambda>(e, w). Some (sc_ready e, e, w))"

definition schedule_suspend_unix :: "unix \<Rightarrow> 'k usys \<Rightarrow> nat \<Rightarrow> (schedule_op, 'k world) op_call" where
  "schedule_suspend_unix u U this = (\<lambda>(e, w). Some (queue_note u U this (sc_context e) (sc_handle e) (e, w)))"

definition schedule_suspend_win :: "'k wsys \<Rightarrow> whandle \<Rightarrow> nat \<Rightarrow> (schedule_op, 'k world) op_call" where
  "schedule_suspend_win W h this = (\<lambda>(e, w).
     case win_post W h this (w_kern w) of (ok, err, k) \<Rightarrow>
       if \<not> ok then Some (False, e\<lparr>ev_ec := ec_native err\<rparr>, w\<lparr>w_kern := k\<rparr>) else Some (True, e, w\<lparr>w_kern := k\<rparr>))"

definition schedule_resume :: "(schedule_op, 'w) op_call" where
  "schedule_resume = (\<lambda>(e, w). Some (True, e, w))"

definition schedule_await_resume :: "schedule_op \<Rightarrow> exn + unit" where
  "schedule_await_resume e = (if ec_bool (ev_ec e) then Inl (system_error (ev_ec e) ''schedule'') else Inr ())"

section \<open>One wait of run\<close>

text \<open>
  The wait either ends the loop, with an error or without, or gives the entries to look at: the address
  of an event object each, or null for an interrupt. The vector of \<open>event_buffer_size\<close>
  entries has its size cast to \<open>int\<close> or \<open>ULONG\<close>.
\<close>

datatype wait_result = Wait_break "int option" | Wait_entries "nat list"

fun nev_pointer :: "native_event \<Rightarrow> nat" where
  "nev_pointer (Epoll_event flags p) = p"
| "nev_pointer (Kevent ident flt flags fflags p) = p"
| "nev_pointer Overlapped = 0"

definition context_wait_unix :: "'k usys \<Rightarrow> ice_context \<Rightarrow> 64 word \<Rightarrow> 'k \<Rightarrow> wait_result \<times> 'k" where
  "context_wait_unix U c event_buffer_size k =
     (case sys_wait U (ctx_handle c) (ucast event_buffer_size) k of (n, errno, events, k1) \<Rightarrow>
        if n < 0 \<and> errno \<noteq> EINTR U then (Wait_break (Some errno), k1)
        else (Wait_entries (map nev_pointer (take (nat n) events)), k1))"

definition context_wait_win :: "'k wsys \<Rightarrow> whandle \<Rightarrow> 64 word \<Rightarrow> 'k \<Rightarrow> wait_result \<times> 'k" where
  "context_wait_win W h event_buffer_size k =
     (case win_wait W h (ucast event_buffer_size) k of (ok, err, entries, k1) \<Rightarrow>
        if \<not> ok then (Wait_break (if err \<noteq> ERROR_ABANDONED_WAIT_0 W then Some err else None), k1)
        else (Wait_entries entries, k1))"

section \<open>The threads of a context\<close>

text \<open>
  Where a thread stands in \<open>run\<close>: before \<open>fetch_add\<close>, before the wait, in the loop over the entries left (with
  \<open>interrupted\<close>), before the load of the state, before \<open>fetch_sub\<close>, before clearing \<open>index_\<close>, before
  \<open>interrupt()\<close>, or back from the call.
\<close>

datatype run_pc =
    Idle
  | Run_add
  | Run_wait
  | Run_entries "nat list" bool
  | Run_load
  | Run_sub error_code
  | Run_clear error_code
  | Run_interrupt error_code
  | Returned "exn + unit"

text \<open>
  \<open>cm_stopping\<close> counts the calls of \<open>stop\<close> that have set the flag and not yet interrupted; \<open>cm_taken\<close> are the events the
  waits have returned, \<open>cm_log\<close> the events whose \<open>await_resume\<close> has been called.
\<close>

record 'k context_machine =
  cm_state :: u32
  cm_kern :: 'k
  cm_pc :: "nat \<Rightarrow> run_pc"
  cm_index :: "nat \<Rightarrow> bool"
  cm_stopping :: nat
  cm_stops :: nat
  cm_taken :: "nat list"
  cm_log :: "nat list"

definition context_start :: "'k \<Rightarrow> 'k context_machine" where
  "context_start k =
     \<lparr>cm_state = 0, cm_kern = k, cm_pc = (\<lambda>_. Idle), cm_index = (\<lambda>_. False), cm_stopping = 0, cm_stops = 0,
      cm_taken = [], cm_log = []\<rparr>"

definition run_goto :: "nat \<Rightarrow> run_pc \<Rightarrow> 'k context_machine \<Rightarrow> 'k context_machine" where
  "run_goto t p m = m\<lparr>cm_pc := (cm_pc m)(t := p)\<rparr>"

definition run_begin :: "nat \<Rightarrow> 'k context_machine \<Rightarrow> 'k context_machine" where
  "run_begin t m = run_goto t Run_add (m\<lparr>cm_index := (cm_index m)(t := True)\<rparr>)"

definition run_add :: "nat \<Rightarrow> 'k context_machine \<Rightarrow> 'k context_machine" where
  "run_add t m = run_goto t Run_wait (m\<lparr>cm_state := cm_state m + thread_count_increment\<rparr>)"

definition run_wait :: "('k \<Rightarrow> wait_result \<times> 'k) \<Rightarrow> nat \<Rightarrow> 'k context_machine \<Rightarrow> 'k context_machine" where
  "run_wait wait t m =
     (case wait (cm_kern m) of
        (Wait_break err, k) \<Rightarrow>
          run_goto t (Run_sub (case err of None \<Rightarrow> ec_none | Some e \<Rightarrow> ec_native e)) (m\<lparr>cm_kern := k\<rparr>)
      | (Wait_entries es, k) \<Rightarrow>
          run_goto t (Run_entries es False) (m\<lparr>cm_kern := k, cm_taken := cm_taken m @ filter (\<lambda>e. e \<noteq> 0) es\<rparr>))"

fun run_entry :: "nat list \<Rightarrow> bool \<Rightarrow> nat \<Rightarrow> 'k context_machine \<Rightarrow> 'k context_machine" where
  "run_entry (e # es) interrupted t m =
     (if e \<noteq> 0 then run_goto t (Run_entries es interrupted) (m\<lparr>cm_log := cm_log m @ [e]\<rparr>)
      else run_goto t (Run_entries es True) m)"
| "run_entry [] interrupted t m = run_goto t (if interrupted then Run_load else Run_wait) m"

definition run_load :: "nat \<Rightarrow> 'k context_machine \<Rightarrow> 'k context_machine" where
  "run_load t m =
     run_goto t (if cm_state m AND stop_requested_flag \<noteq> 0 then Run_sub ec_none else Run_wait) m"

definition run_sub :: "error_code \<Rightarrow> nat \<Rightarrow> 'k context_machine \<Rightarrow> 'k context_machine" where
  "run_sub ec t m = run_goto t (Run_clear ec) (m\<lparr>cm_state := cm_state m - thread_count_increment\<rparr>)"

definition run_clear :: "error_code \<Rightarrow> nat \<Rightarrow> 'k context_machine \<Rightarrow> 'k context_machine" where
  "run_clear ec t m = run_goto t (Run_interrupt ec) (m\<lparr>cm_index := (cm_index m)(t := False)\<rparr>)"

definition run_interrupt :: "('k \<Rightarrow> 'k) \<Rightarrow> error_code \<Rightarrow> nat \<Rightarrow> 'k context_machine \<Rightarrow> 'k context_machine" where
  "run_interrupt interrupt ec t m =
     run_goto t (Returned (if ec_bool ec then Inl (system_error ec ''context'') else Inr ()))
       (m\<lparr>cm_kern := interrupt (cm_kern m)\<rparr>)"

text \<open>
  The actions: a thread calls \<open>run\<close>, makes its next step, some caller sets the stop flag, makes the interrupt that follows
  or calls \<open>interrupt\<close>, or the kernel changes on its own account or because something is scheduled
  (\<open>env\<close>). A wait is made only in a kernel state where it returns (\<open>wakes\<close>); else the thread is blocked.
\<close>

datatype 'k run_act = Run nat | Step nat | Stop_flag | Stop_interrupt | Interrupt | Kernel 'k

fun context_exec ::
  "('k \<Rightarrow> wait_result \<times> 'k) \<Rightarrow> ('k \<Rightarrow> bool) \<Rightarrow> ('k \<Rightarrow> 'k) \<Rightarrow> ('k \<Rightarrow> 'k \<Rightarrow> bool) \<Rightarrow>
   'k run_act \<Rightarrow> 'k context_machine \<Rightarrow> 'k context_machine option" where
  "context_exec wait wakes interrupt env (Run t) m =
     (case cm_pc m t of Idle \<Rightarrow> Some (run_begin t m) | Returned _ \<Rightarrow> Some (run_begin t m) | _ \<Rightarrow> None)"
| "context_exec wait wakes interrupt env (Step t) m =
     (case cm_pc m t of
        Run_add \<Rightarrow> Some (run_add t m)
      | Run_wait \<Rightarrow> if wakes (cm_kern m) then Some (run_wait wait t m) else None
      | Run_entries es interrupted \<Rightarrow> Some (run_entry es interrupted t m)
      | Run_load \<Rightarrow> Some (run_load t m)
      | Run_sub ec \<Rightarrow> Some (run_sub ec t m)
      | Run_clear ec \<Rightarrow> Some (run_clear ec t m)
      | Run_interrupt ec \<Rightarrow> Some (run_interrupt interrupt ec t m)
      | _ \<Rightarrow> None)"
| "context_exec wait wakes interrupt env Stop_flag m =
     Some (m\<lparr>cm_state := snd (fetch_stop (cm_state m)), cm_stopping := cm_stopping m + 1, cm_stops := cm_stops m + 1\<rparr>)"
| "context_exec wait wakes interrupt env Stop_interrupt m =
     (if cm_stopping m > 0 then Some (m\<lparr>cm_kern := interrupt (cm_kern m), cm_stopping := cm_stopping m - 1\<rparr>) else None)"
| "context_exec wait wakes interrupt env Interrupt m = Some (m\<lparr>cm_kern := interrupt (cm_kern m)\<rparr>)"
| "context_exec wait wakes interrupt env (Kernel k) m = (if env (cm_kern m) k then Some (m\<lparr>cm_kern := k\<rparr>) else None)"

section \<open>Counting the threads, dispatching the events\<close>

text \<open>The positions between \<open>fetch_add\<close> and \<open>fetch_sub\<close>, those with \<open>index_\<close> set, and the events not yet looked at.\<close>

fun counted :: "run_pc \<Rightarrow> bool" where
  "counted Run_wait = True"
| "counted (Run_entries es i) = True"
| "counted Run_load = True"
| "counted (Run_sub ec) = True"
| "counted _ = False"

fun indexed :: "run_pc \<Rightarrow> bool" where
  "indexed Idle = False"
| "indexed (Run_interrupt ec) = False"
| "indexed (Returned r) = False"
| "indexed _ = True"

fun entries_left :: "run_pc \<Rightarrow> nat multiset" where
  "entries_left (Run_entries es i) = mset (filter (\<lambda>e. e \<noteq> 0) es)"
| "entries_left _ = {#}"

lemma entries_left_uncounted: "\<not> counted p \<Longrightarrow> entries_left p = {#}"
  by (cases p) auto

definition sum_counted :: "(run_pc \<Rightarrow> 'a::comm_monoid_add) \<Rightarrow> (nat \<Rightarrow> run_pc) \<Rightarrow> 'a" where
  "sum_counted f pc = (\<Sum>t\<in>{t. counted (pc t)}. f (pc t))"

definition threads_in :: "'k context_machine \<Rightarrow> nat" where
  "threads_in m = card {t. counted (cm_pc m t)}"

lemma finite_counted_upd: "finite {u. counted (pc u)} \<Longrightarrow> finite {u. counted ((pc(t := p)) u)}"
  by (rule finite_subset [of _ "insert t {u. counted (pc u)}"]) auto

lemma sum_counted_upd:
  fixes f :: "run_pc \<Rightarrow> 'a::comm_monoid_add"
  assumes "finite {u. counted (pc u)}" "\<And>p. \<not> counted p \<Longrightarrow> f p = 0"
  shows "sum_counted f (pc(t := p)) + f (pc t) = sum_counted f pc + f p"
proof -
  let ?S = "insert t {u. counted (pc u)}"
  have fin: "finite ?S" using assms(1) by simp
  have "sum_counted f q = (\<Sum>u\<in>?S. f (q u))" if "\<And>u. u \<noteq> t \<Longrightarrow> q u = pc u" for q
    unfolding sum_counted_def
  proof (rule sum.mono_neutral_left [OF fin])
    show "{u. counted (q u)} \<subseteq> ?S" using that by fastforce
    show "\<forall>i\<in>?S - {u. counted (q u)}. f (q i) = 0" using assms(2) by blast
  qed
  then have "sum_counted f pc = (\<Sum>u\<in>?S. f (pc u))" "sum_counted f (pc(t := p)) = (\<Sum>u\<in>?S. f ((pc(t := p)) u))"
    by simp_all
  moreover have "(\<Sum>u\<in>?S - {t}. f ((pc(t := p)) u)) = (\<Sum>u\<in>?S - {t}. f (pc u))"
    by (rule sum.cong) auto
  ultimately show ?thesis
    using sum.remove [OF fin, of t "\<lambda>u. f (pc u)"] sum.remove [OF fin, of t "\<lambda>u. f ((pc(t := p)) u)"]
    by (simp add: add_ac)
qed

lemma threads_in_sum: "threads_in m = sum_counted (\<lambda>p. if counted p then 1 else 0) (cm_pc m)"
  by (simp add: threads_in_def sum_counted_def)

definition context_inv :: "'k context_machine \<Rightarrow> bool" where
  "context_inv m \<longleftrightarrow>
     finite {t. counted (cm_pc m t)} \<and>
     cm_state m = of_nat (2 * threads_in m + (if cm_stops m > 0 then 1 else 0)) \<and>
     (\<forall>t. cm_index m t = indexed (cm_pc m t)) \<and>
     mset (cm_log m) + sum_counted entries_left (cm_pc m) = mset (cm_taken m)"

lemma context_inv_start: "context_inv (context_start k)"
  by (simp add: context_inv_def context_start_def threads_in_def sum_counted_def)

lemma word_balance:
  fixes s :: "'a::len word"
  assumes "s' + x0 = s + x1" "n' + x0 = n + x1" "s = n + f"
  shows "s' = n' + f"
proof -
  have "s' = s + x1 - x0" "n' = n + x1 - x0" using assms(1,2) by (simp_all add: eq_diff_eq)
  with assms(3) show ?thesis by simp
qed

lemma mset_balance:
  fixes l :: "'a multiset"
  assumes "l' + x1 + t = t' + (l + x0)" "s' + x0 = s + x1" "l + s = t"
  shows "l' + s' = t'"
proof -
  have "(l' + s') + (x0 + x1 + t) = (l' + x1 + t) + (s' + x0)" by (simp add: add_ac)
  also have "\<dots> = (t' + (l + x0)) + (s + x1)" by (simp only: assms(1,2))
  also have "\<dots> = t' + (l + s) + x0 + x1" by (simp add: add_ac)
  also have "\<dots> = t' + (x0 + x1 + t)" using assms(3) by (simp add: add_ac)
  finally show ?thesis by simp
qed

text \<open>A step of one thread: the state word and the log change as its position does.\<close>

lemma context_inv_goto:
  assumes inv: "context_inv m" and pc: "cm_pc m t = p0" and other: "cm_pc m' = cm_pc m" "cm_stops m' = cm_stops m"
    and state: "cm_state m' + (if counted p0 then 2 else 0) = cm_state m + (if counted p then 2 else 0)"
    and index: "cm_index m' = (cm_index m)(t := indexed p)"
    and log: "mset (cm_log m') + entries_left p + mset (cm_taken m) = mset (cm_taken m') + (mset (cm_log m) + entries_left p0)"
  shows "context_inv (run_goto t p m')"
proof -
  let ?pc = "(cm_pc m)(t := p)"
  have fin: "finite {u. counted (cm_pc m u)}" using inv by (simp add: context_inv_def)
  have left: "sum_counted entries_left ?pc + entries_left p0 = sum_counted entries_left (cm_pc m) + entries_left p"
    using sum_counted_upd [OF fin entries_left_uncounted, where t = t and p = p] pc by simp
  have "threads_in (run_goto t p m') + (if counted p0 then 1 else 0) = threads_in m + (if counted p then 1 else 0)"
    using sum_counted_upd [OF fin, of "\<lambda>p. if counted p then 1 else (0 :: nat)" t p] pc other
    by (simp add: threads_in_sum run_goto_def)
  then have "of_nat (2 * threads_in (run_goto t p m') + 2 * (if counted p0 then 1 else 0)) =
      (of_nat (2 * threads_in m + 2 * (if counted p then 1 else 0)) :: u32)"
    by (metis distrib_left)
  then have "2 * (of_nat (threads_in (run_goto t p m')) :: u32) + (if counted p0 then 2 else 0) =
      2 * of_nat (threads_in m) + (if counted p then 2 else 0)"
    by (auto split: if_splits)
  moreover have "cm_state m = 2 * of_nat (threads_in m) + (if cm_stops m > 0 then 1 else 0)"
    using inv by (simp add: context_inv_def)
  ultimately have "cm_state m' = 2 * of_nat (threads_in (run_goto t p m')) + (if cm_stops m > 0 then 1 else 0)"
    using word_balance [OF state] by blast
  moreover have "mset (cm_log m') + sum_counted entries_left ?pc = mset (cm_taken m')"
    using inv by (intro mset_balance [OF log left]) (simp add: context_inv_def)
  ultimately show ?thesis
    using inv other index finite_counted_upd [OF fin, of t p]
    by (simp add: context_inv_def run_goto_def)
qed

lemmas run_defs = run_begin_def run_add_def run_wait_def run_load_def run_sub_def run_clear_def run_interrupt_def

lemma context_inv_fields:
  assumes "context_inv m" "cm_state m' = cm_state m" "cm_pc m' = cm_pc m" "cm_stops m' = cm_stops m"
    "cm_index m' = cm_index m" "cm_log m' = cm_log m" "cm_taken m' = cm_taken m"
  shows "context_inv m'"
  using assms by (simp add: context_inv_def threads_in_def)

lemma fetch_stop_word: "(of_nat (2 * n + (if b then 1 else 0)) :: u32) OR 1 = of_nat (2 * n + 1)"
proof -
  have "even (2 * of_nat n :: u32)" by simp
  then have "(2 * of_nat n :: u32) OR 1 = 2 * of_nat n + 1" "(2 * of_nat n + 1 :: u32) OR 1 = 2 * of_nat n + 1"
    by (simp_all add: or_one_eq)
  then show ?thesis by simp
qed

lemma indexed_upd: "context_inv m \<Longrightarrow> indexed (cm_pc m t) = b \<Longrightarrow> (cm_index m)(t := b) = cm_index m"
  by (auto simp: context_inv_def fun_eq_iff)

lemma context_inv_step:
  assumes inv: "context_inv m" and step: "context_exec wait wakes interrupt env a m = Some m'"
  shows "context_inv m'"
proof (cases a)
  case (Run t)
  with inv step show ?thesis
    by (auto simp: run_begin_def split: run_pc.splits intro!: context_inv_goto [OF inv refl])
next
  case Stop_flag
  with inv step show ?thesis
    using fetch_stop_word [of "threads_in m" "cm_stops m > 0"]
    by (auto simp: context_inv_def fetch_stop_def ice_const threads_in_def)
next
  case (Step t)
  show ?thesis
  proof (cases "cm_pc m t")
    case Run_wait
    with Step step inv show ?thesis
      by (auto simp: run_wait_def ice_const indexed_upd split: if_splits prod.splits wait_result.splits intro!: context_inv_goto [OF inv Run_wait])
  next
    case (Run_entries es i)
    with Step step inv show ?thesis
      by (cases es) (auto simp: ice_const indexed_upd split: if_splits intro!: context_inv_goto [OF inv Run_entries])
  qed (use Step step inv in \<open>auto simp: run_defs ice_const indexed_upd intro!: context_inv_goto [OF inv]\<close>)
qed (use inv step in \<open>auto intro: context_inv_fields split: if_splits\<close>)

lemma context_invariant:
  "reach (\<lambda>m. m = context_start k) (act_step (context_exec wait wakes interrupt env)) m \<Longrightarrow> context_inv m"
  by (induction rule: reach.induct) (auto simp: context_inv_start intro: context_inv_step)

lemma thread_count_word:
  assumes "n < 2 ^ 31"
  shows "thread_count (of_nat (2 * n + (if b then 1 else 0))) = of_nat n"
proof -
  have "unat (of_nat (2 * n + (if b then 1 else 0)) :: u32) = 2 * n + (if b then 1 else 0)"
    using assms by (intro unat_of_nat_u32) simp
  then have "unat (thread_count (of_nat (2 * n + (if b then 1 else 0)))) = n"
    by (simp add: thread_count_def ice_const unat_div)
  moreover have "unat (of_nat n :: u32) = n" using assms by (intro unat_of_nat_u32) simp
  ultimately show ?thesis by (metis word_unat_eq_iff)
qed

lemma stop_flag_word: "(of_nat (2 * n + (if b then 1 else 0)) :: u32) AND 1 \<noteq> 0 \<longleftrightarrow> b"
proof -
  have "even (2 * of_nat n :: u32)" by simp
  then show ?thesis by (simp add: and_one_eq mod2_eq_if)
qed

text \<open>
  C28: the state word of a context. While fewer than 2 ^ 31 threads are in \<open>run\<close>, the word is twice their number plus the stop flag:
  \<open>stop\<close> returns true, and the destructor's assertion holds, exactly when no thread stands between \<open>fetch_add\<close> and
  \<open>fetch_sub\<close>, the flag is set exactly after a call of \<open>stop\<close>, and \<open>is_current\<close> holds exactly in the threads that
  have set \<open>index_\<close> and not cleared it.
\<close>

theorem context_state_word:
  assumes "reach (\<lambda>m. m = context_start k) (act_step (context_exec wait wakes interrupt env)) m"
    and "threads_in m < 2 ^ 31"
  shows "(stop_result (cm_state m) \<longleftrightarrow> (\<forall>t. \<not> counted (cm_pc m t))) \<and>
         context_dtor_assert (cm_state m) = stop_result (cm_state m) \<and>
         (cm_state m AND stop_requested_flag \<noteq> 0 \<longleftrightarrow> 0 < cm_stops m) \<and>
         (\<forall>t. cm_index m t = indexed (cm_pc m t))"
proof -
  note inv = context_invariant [OF assms(1), unfolded context_inv_def]
  have "(of_nat (threads_in m) :: u32) = 0 \<longleftrightarrow> threads_in m = 0"
    using unat_of_nat_u32 [of "threads_in m"] assms(2) by (auto simp: unat_eq_zero [symmetric])
  then have "stop_result (cm_state m) \<longleftrightarrow> threads_in m = 0"
    using inv thread_count_word [OF assms(2)] by (simp add: stop_result_def)
  moreover have "threads_in m = 0 \<longleftrightarrow> (\<forall>t. \<not> counted (cm_pc m t))" using inv by (simp add: threads_in_def)
  moreover have "cm_state m AND stop_requested_flag \<noteq> 0 \<longleftrightarrow> 0 < cm_stops m"
    using inv stop_flag_word [of "threads_in m" "0 < cm_stops m"] by (simp add: ice_const)
  ultimately show ?thesis using inv by (simp add: context_dtor_assert_def stop_result_def fetch_stop_def)
qed

text \<open>
  C27: no event is lost or resumed twice by the loop. However many threads run and however their steps interleave, the events resumed
  are among those the kernel has returned, each as often, and once no thread is in the loop they are all of them, also when a wait
  failed.
\<close>

theorem context_dispatches_once:
  assumes "reach (\<lambda>m. m = context_start k) (act_step (context_exec wait wakes interrupt env)) m"
  shows "mset (cm_log m) \<subseteq># mset (cm_taken m) \<and>
         ((\<forall>t. \<not> counted (cm_pc m t)) \<longrightarrow> mset (cm_log m) = mset (cm_taken m))"
proof -
  note inv = context_invariant [OF assms, unfolded context_inv_def]
  then show ?thesis by (auto simp: sum_counted_def) (metis mset_subset_eq_add_left)
qed

section \<open>Stopping\<close>

text \<open>
  What stopping relies on, for a predicate \<open>pending\<close> of the kernel: \<open>interrupt\<close> leaves an interrupt pending, a wait returns while
  one is pending and either returns it (an entry with a null pointer, or an error) or leaves it pending, and nothing else takes it away.
\<close>

definition wake_ok ::
  "('k \<Rightarrow> wait_result \<times> 'k) \<Rightarrow> ('k \<Rightarrow> bool) \<Rightarrow> ('k \<Rightarrow> 'k) \<Rightarrow> ('k \<Rightarrow> 'k \<Rightarrow> bool) \<Rightarrow> ('k \<Rightarrow> bool) \<Rightarrow> bool" where
  "wake_ok wait wakes interrupt env pending \<longleftrightarrow>
     (\<forall>k. pending (interrupt k)) \<and> (\<forall>k. pending k \<longrightarrow> wakes k) \<and>
     (\<forall>k k'. env k k' \<and> pending k \<longrightarrow> pending k') \<and>
     (\<forall>k. pending k \<longrightarrow> (case wait k of (r, k') \<Rightarrow>
        pending k' \<or> (case r of Wait_break _ \<Rightarrow> True | Wait_entries es \<Rightarrow> 0 \<in> set es)))"

text \<open>The positions from which a thread goes on to load the flag or to interrupt.\<close>

fun alarmed :: "run_pc \<Rightarrow> bool" where
  "alarmed (Run_entries es i) = (i \<or> 0 \<in> set es)"
| "alarmed Run_load = True"
| "alarmed (Run_sub ec) = True"
| "alarmed (Run_clear ec) = True"
| "alarmed (Run_interrupt ec) = True"
| "alarmed _ = False"

definition wake_inv :: "('k \<Rightarrow> bool) \<Rightarrow> 'k context_machine \<Rightarrow> bool" where
  "wake_inv pending m \<longleftrightarrow> context_inv m \<and>
     (0 < cm_stops m \<longrightarrow> 0 < cm_stopping m \<or> pending (cm_kern m) \<or> (\<exists>t. alarmed (cm_pc m t)))"

lemma wake_inv_flag: "wake_inv pending m \<Longrightarrow> 0 < cm_stops m \<Longrightarrow> cm_state m AND stop_requested_flag \<noteq> 0"
  using stop_flag_word [of "threads_in m" "0 < cm_stops m"] by (simp add: wake_inv_def context_inv_def ice_const)

text \<open>A step of a thread that leaves the kernel alone keeps the alarm if it keeps its own.\<close>

lemma wake_inv_goto:
  assumes "wake_inv pending m" "context_inv (run_goto t p m')" "cm_pc m' = cm_pc m" "cm_stops m' = cm_stops m"
    "cm_stopping m' = cm_stopping m"
    and "0 < cm_stops m \<Longrightarrow> alarmed (cm_pc m t) \<Longrightarrow> alarmed p \<or> pending (cm_kern m')"
    and "pending (cm_kern m) \<Longrightarrow> alarmed p \<or> pending (cm_kern m')"
  shows "wake_inv pending (run_goto t p m')"
proof -
  have "alarmed p \<or> pending (cm_kern m') \<or> 0 < cm_stopping m \<or> (\<exists>u. u \<noteq> t \<and> alarmed (cm_pc m u))" if pos: "0 < cm_stops m"
  proof -
    consider "0 < cm_stopping m" | "pending (cm_kern m)" | u where "alarmed (cm_pc m u)"
      using assms(1) pos by (auto simp: wake_inv_def)
    then show ?thesis
    proof cases
      case 3
      then show ?thesis using assms(6) [OF pos] by (cases "u = t") auto
    qed (use assms(7) in auto)
  qed
  with assms(2-5) show ?thesis by (auto simp: wake_inv_def run_goto_def)
qed

lemma wake_inv_step:
  assumes ok: "wake_ok wait wakes interrupt env pending" and inv: "wake_inv pending m"
    and step: "context_exec wait wakes interrupt env a m = Some m'"
  shows "wake_inv pending m'"
proof -
  have c: "context_inv m'" using context_inv_step [OF _ step] inv by (simp add: wake_inv_def)
  show ?thesis
  proof (cases a)
    case (Run t)
    with c step show ?thesis
      by (auto simp: run_begin_def split: run_pc.splits intro!: wake_inv_goto [OF inv])
  next
    case (Step t)
    show ?thesis
    proof (cases "cm_pc m t")
      case Run_wait
      obtain r k where w: "wait (cm_kern m) = (r, k)" by (metis prod.exhaust)
      have "pending (cm_kern m) \<Longrightarrow> pending k \<or> (case r of Wait_break _ \<Rightarrow> True | Wait_entries es \<Rightarrow> 0 \<in> set es)"
        using ok w unfolding wake_ok_def by force
      with Run_wait Step step c w show ?thesis
        by (cases r) (auto simp: run_wait_def split: if_splits intro!: wake_inv_goto [OF inv])
    next
      case (Run_entries es i)
      with Step step c show ?thesis
        by (cases es) (auto split: if_splits intro!: wake_inv_goto [OF inv])
    next
      case Run_load
      with Step step c wake_inv_flag [OF inv] show ?thesis
        by (auto simp: run_load_def split: if_splits intro!: wake_inv_goto [OF inv])
    next
      case (Run_interrupt ec)
      have "pending (interrupt (cm_kern m))" using ok by (simp add: wake_ok_def)
      with Run_interrupt Step step c show ?thesis
        by (auto simp: run_interrupt_def intro!: wake_inv_goto [OF inv])
    qed (use Step step c in \<open>auto simp: run_defs intro!: wake_inv_goto [OF inv]\<close>)
  qed (use ok inv step c in \<open>auto simp: wake_inv_def wake_ok_def split: if_splits\<close>)
qed

interpretation context_stop: invariant_system "\<lambda>m. m = context_start k"
    "act_step (context_exec wait wakes interrupt env)"
    "\<lambda>m. wake_ok wait wakes interrupt env pending \<longrightarrow> wake_inv pending m"
  for k wait wakes interrupt env pending
proof unfold_locales
  show "m = context_start k \<Longrightarrow> wake_ok wait wakes interrupt env pending \<longrightarrow> wake_inv pending m" for m
    using context_inv_start by (auto simp: wake_inv_def context_start_def)
qed (blast intro: wake_inv_step)

text \<open>After a finished \<open>stop\<close> a thread that can make no step is outside \<open>run\<close>.\<close>

lemma stop_strands_none:
  assumes "wake_ok wait wakes interrupt env pending" "wake_inv pending m" "0 < cm_stops m" "cm_stopping m = 0"
    and "\<forall>t. context_exec wait wakes interrupt env (Step t) m = None"
  shows "cm_pc m t = Idle \<or> (\<exists>r. cm_pc m t = Returned r)"
proof -
  have stuck: "cm_pc m t = Idle \<or> (\<exists>r. cm_pc m t = Returned r) \<or> (cm_pc m t = Run_wait \<and> \<not> wakes (cm_kern m))" for t
    using spec [OF assms(5), of t] by (cases "cm_pc m t") (auto split: if_splits)
  then have "\<not> alarmed (cm_pc m t)" for t by (metis alarmed.simps(6,7,8,9))
  with assms(2-4) have "pending (cm_kern m)" by (auto simp: wake_inv_def)
  with assms(1) have "wakes (cm_kern m)" by (auto simp: wake_ok_def)
  with stuck show ?thesis by blast
qed

text \<open>
  C26: \<open>stop\<close> reaches every thread. If the kernel keeps a pending interrupt until a wait returns it, then after a call of
  \<open>stop\<close> has finished no thread is stranded: a state in which no thread can make a step is one in which every thread is outside
  \<open>run\<close>.
\<close>

theorem context_stop_reaches_all:
  assumes "wake_ok wait wakes interrupt env pending"
    and "reach (\<lambda>m. m = context_start k) (act_step (context_exec wait wakes interrupt env)) m"
    and "0 < cm_stops m" "cm_stopping m = 0"
    and "\<forall>t. context_exec wait wakes interrupt env (Step t) m = None"
  shows "\<forall>t. cm_pc m t = Idle \<or> (\<exists>r. cm_pc m t = Returned r)"
proof -
  have "wake_inv pending m" using context_stop.reach_inv [OF assms(2)] assms(1) by blast
  with stop_strands_none [OF assms(1) _ assms(3-5)] show ?thesis by blast
qed

section \<open>Concrete kernels\<close>

text \<open>
  The completion port: the queue of posted packets, 0 the packet of an interrupt. Anything may be posted at any time.
\<close>

definition port_win :: "nat list wsys" where
  "port_win = failing_win
     \<lparr>win_post := \<lambda>h p q. (True, 0, q @ [p]),
      win_wait := \<lambda>h n q. (True, 0, take (unat n) q, drop (unat n) q)\<rparr>"

definition port_env :: "nat list \<Rightarrow> nat list \<Rightarrow> bool" where
  "port_env q q' \<longleftrightarrow> take (length q) q' = q"

lemma port_calls:
  "win_post port_win h p q = (True, 0, q @ [p])"
  "win_wait port_win h n q = (True, 0, take (unat n) q, drop (unat n) q)"
  by (simp_all add: port_win_def)

lemma port_wake_ok:
  "wake_ok (context_wait_win port_win h n) (\<lambda>q. q \<noteq> []) (context_interrupt_win port_win h) port_env (\<lambda>q. 0 \<in> set q)"
proof -
  have "0 \<in> set (drop i q) \<or> 0 \<in> set (take i q)" if "0 \<in> set q" for i and q :: "nat list"
    using that by (metis Un_iff append_take_drop_id set_append)
  moreover have "port_env q q' \<Longrightarrow> 0 \<in> set q \<Longrightarrow> 0 \<in> set q'" for q q'
    unfolding port_env_def by (metis in_set_takeD)
  ultimately show ?thesis
    unfolding wake_ok_def by (auto simp: context_wait_win_def context_interrupt_win_def port_calls)
qed

text \<open>Two threads in \<open>run\<close>, both waiting when \<open>stop\<close> is called.\<close>

definition stop_schedule :: "nat list run_act list" where
  "stop_schedule =
     [Run 0, Step 0, Run 1, Step 1, Stop_flag, Stop_interrupt, Step 0, Step 0, Step 0, Step 0, Step 0, Step 0, Step 0,
      Step 1, Step 1, Step 1, Step 1, Step 1, Step 1, Step 1]"

lemma context_stop_reaches_all_witness:
  "\<exists>m. run_acts (context_exec (context_wait_win port_win 9 1) (\<lambda>q. q \<noteq> []) (context_interrupt_win port_win 9) port_env)
         stop_schedule (context_start []) = Some m \<and>
       cm_pc m 0 = Returned (Inr ()) \<and> cm_pc m 1 = Returned (Inr ()) \<and>
       (\<forall>t. cm_pc m t = Idle \<or> (\<exists>r. cm_pc m t = Returned r))"
proof -
  let ?exec = "context_exec (context_wait_win port_win 9 1) (\<lambda>q. q \<noteq> []) (context_interrupt_win port_win 9) port_env"
  obtain m where m: "run_acts ?exec stop_schedule (context_start []) = Some m" "0 < cm_stops m" "cm_stopping m = 0"
    "\<forall>t. ?exec (Step t) m = None" "cm_pc m 0 = Returned (Inr ())" "cm_pc m 1 = Returned (Inr ())"
    by (simp add: stop_schedule_def context_start_def run_defs run_goto_def context_wait_win_def context_interrupt_win_def
        port_calls ice_const fetch_stop_def ec_bool_def ec_none_def)
  have "reach (\<lambda>m. m = context_start []) (act_step ?exec) m"
    by (rule run_acts_reach [OF m(1)]) (simp add: reach_init)
  from context_stop_reaches_all [OF port_wake_ok this m(2-4)] m show ?thesis by blast
qed

lemma context_state_word_witness:
  "\<exists>m. run_acts (context_exec (context_wait_win port_win 9 1) (\<lambda>q. q \<noteq> []) (context_interrupt_win port_win 9) port_env)
         (take 6 stop_schedule) (context_start []) = Some m \<and> cm_state m = 5 \<and> \<not> stop_result (cm_state m) \<and> cm_index m 1"
proof -
  let ?exec = "context_exec (context_wait_win port_win 9 1) (\<lambda>q. q \<noteq> []) (context_interrupt_win port_win 9) port_env"
  obtain m where m: "run_acts ?exec (take 6 stop_schedule) (context_start []) = Some m" "cm_state m = 5"
    "cm_pc m = (\<lambda>_. Idle)(0 := Run_wait, 1 := Run_wait)"
    by (simp add: stop_schedule_def context_start_def run_defs run_goto_def context_wait_win_def context_interrupt_win_def
        port_calls ice_const fetch_stop_def ec_bool_def ec_none_def fun_upd_twist fun_upd_upd)
  have "reach (\<lambda>m. m = context_start []) (act_step ?exec) m"
    by (rule run_acts_reach [OF m(1)]) (simp add: reach_init)
  moreover have "threads_in m < 2 ^ 31"
  proof -
    have "{t. counted (cm_pc m t)} \<subseteq> {0, 1}" by (auto simp: m(3))
    then have "threads_in m \<le> card {0 :: nat, 1}" unfolding threads_in_def by (intro card_mono) auto
    then show ?thesis by simp
  qed
  ultimately have "stop_result (cm_state m) \<longleftrightarrow> (\<forall>t. \<not> counted (cm_pc m t))" "cm_index m 1 = indexed (cm_pc m 1)"
    by (blast dest: context_state_word)+
  then have "\<not> stop_result (cm_state m)" "cm_index m 1" using m(3) by (auto intro: exI [of _ 1])
  with m show ?thesis by blast
qed

text \<open>One thread takes an event and an interrupt, resumes the event and leaves.\<close>

lemma context_dispatches_once_witness:
  "\<exists>m. run_acts (context_exec (context_wait_win port_win 9 2) (\<lambda>q. q \<noteq> []) (context_interrupt_win port_win 9) port_env)
         [Run 0, Step 0, Kernel [100], Stop_flag, Stop_interrupt, Step 0, Step 0, Step 0, Step 0, Step 0, Step 0]
         (context_start []) = Some m \<and> cm_log m = [100] \<and> mset (cm_log m) = mset (cm_taken m)"
proof -
  let ?exec = "context_exec (context_wait_win port_win 9 2) (\<lambda>q. q \<noteq> []) (context_interrupt_win port_win 9) port_env"
  let ?as = "[Run 0, Step 0, Kernel [100], Stop_flag, Stop_interrupt, Step 0, Step 0, Step 0, Step 0, Step 0, Step 0]"
  obtain m where m: "run_acts ?exec ?as (context_start []) = Some m" "cm_log m = [100]" "\<forall>t. \<not> counted (cm_pc m t)"
    by (simp add: context_start_def run_defs run_goto_def context_wait_win_def context_interrupt_win_def
        port_calls ice_const fetch_stop_def port_env_def)
  have "reach (\<lambda>m. m = context_start []) (act_step ?exec) m"
    by (rule run_acts_reach [OF m(1)]) (simp add: reach_init)
  from context_dispatches_once [OF this] m show ?thesis by blast
qed

text \<open>
  The registration of the event descriptor in \<open>epoll\<close>: \<open>EPOLL_CTL_MOD\<close> arms it with the new data, also when it was armed already,
  and a wait that reports it disarms it.
\<close>

definition eventfd_unix :: "nat option usys" where
  "eventfd_unix = failing_unix
     \<lparr>sys_epoll_ctl := \<lambda>c p h e k. (0, 0, if p = EPOLL_CTL_MOD then Some (nev_pointer e) else k),
      sys_wait := \<lambda>h n k. (case k of None \<Rightarrow> (0, 0, [], k) | Some d \<Rightarrow> (1, 0, [Epoll_event {EPOLLOUT} d], None))\<rparr>"

lemma eventfd_calls:
  "sys_epoll_ctl eventfd_unix c p h e k = (0, 0, if p = EPOLL_CTL_MOD then Some (nev_pointer e) else k)"
  "sys_wait eventfd_unix h' n k = (case k of None \<Rightarrow> (0, 0, [], k) | Some d \<Rightarrow> (1, 0, [Epoll_event {EPOLLOUT} d], None))"
  "EINTR eventfd_unix = 4"
  by (simp_all add: eventfd_unix_def failing_unix_def)

text \<open>What scheduling does to the kernel: \<open>suspend\<close> of a schedule operation at the address \<open>this\<close>.\<close>

definition schedules :: "unix \<Rightarrow> 'k usys \<Rightarrow> ice_context \<Rightarrow> nat \<Rightarrow> 'k \<Rightarrow> 'k \<Rightarrow> bool" where
  "schedules u U c this k k' \<longleftrightarrow>
     (\<exists>mem r e w.
        schedule_suspend_unix u U this (schedule_make (Unix u) c False True, \<lparr>w_mem = mem, w_kern = k\<rparr>) = Some (r, e, w) \<and>
        w_kern w = k')"

definition demo_context :: ice_context where
  "demo_context = \<lparr>ctx_state = 0, ctx_handle = 3, ctx_events = 4\<rparr>"

lemma eventfd_wake_ok:
  "wake_ok (context_wait_unix eventfd_unix demo_context n) (\<lambda>k. k \<noteq> None) (context_interrupt_unix Linux eventfd_unix demo_context)
     (=) (\<lambda>k. k = Some 0)"
  by (auto simp: wake_ok_def context_wait_unix_def context_interrupt_unix_def eventfd_calls)

section \<open>The one registration that schedule and interrupt share\<close>

text \<open>
  On Linux a context has one registration for \<open>schedule\<close> and \<open>interrupt\<close>, that of its \<open>eventfd\<close>: \<open>slot\<close> is \<open>None\<close> if the descriptor is not
  registered, \<open>Some None\<close> if the one-shot registration is not armed, and otherwise holds the pointer it was armed with. What \<open>epoll\<close> promises:
  \<open>EPOLL_CTL_MOD\<close> arms it with the new pointer, whatever it held; a wait fails only when it is interrupted, and reports the registration, disarming
  it, or leaves it. \<open>slot_only\<close>: the pointer \<open>x\<close> is stored in no other registration, so a wait returns it only from the slot.
\<close>

definition slot_ok :: "'k usys \<Rightarrow> ice_context \<Rightarrow> 64 word \<Rightarrow> ('k \<Rightarrow> nat option option) \<Rightarrow> bool" where
  "slot_ok U c n slot \<longleftrightarrow>
     (\<forall>p k. slot k \<noteq> None \<longrightarrow>
        (case sys_epoll_ctl U (ctx_handle c) EPOLL_CTL_MOD (ctx_events c) (Epoll_event {EPOLLOUT, EPOLLONESHOT} p) k of
           (rc, errno, k') \<Rightarrow> 0 \<le> rc \<and> slot k' = Some (Some p))) \<and>
     (\<forall>k. case sys_wait U (ctx_handle c) (ucast n) k of
        (rc, errno, events, k') \<Rightarrow> (rc < 0 \<longrightarrow> errno = EINTR U) \<and> (slot k' = slot k \<or> slot k \<noteq> None \<and> slot k' = Some None))"

definition slot_only :: "'k usys \<Rightarrow> ice_context \<Rightarrow> 64 word \<Rightarrow> ('k \<Rightarrow> nat option option) \<Rightarrow> nat \<Rightarrow> bool" where
  "slot_only U c n slot x \<longleftrightarrow>
     (\<forall>k. case sys_wait U (ctx_handle c) (ucast n) k of
        (rc, errno, events, k') \<Rightarrow> x \<in> set (map nev_pointer (take (nat rc) events)) \<longrightarrow> slot k = Some (Some x))"

lemma slot_arm:
  assumes "slot_ok U c n slot" "slot k \<noteq> None"
  shows "slot (context_interrupt_unix Linux U c k) = Some (Some 0)"
    and "schedules Linux U c this k k' \<Longrightarrow> slot k' = Some (Some this)"
proof -
  have arm: "0 \<le> rc \<and> slot k1 = Some (Some x)"
    if "sys_epoll_ctl U (ctx_handle c) EPOLL_CTL_MOD (ctx_events c) (Epoll_event {EPOLLOUT, EPOLLONESHOT} x) k = (rc, errno, k1)" for x rc errno k1
    using assms(1) [unfolded slot_ok_def, THEN conjunct1, THEN spec [where x = x], THEN spec [where x = k]] assms(2) that by simp
  obtain rc errno k1 where "sys_epoll_ctl U (ctx_handle c) EPOLL_CTL_MOD (ctx_events c) (Epoll_event {EPOLLOUT, EPOLLONESHOT} 0) k = (rc, errno, k1)"
    by (metis prod_cases3)
  with arm [OF this] show "slot (context_interrupt_unix Linux U c k) = Some (Some 0)" by (simp add: context_interrupt_unix_def)
  obtain rc errno k1 where r: "sys_epoll_ctl U (ctx_handle c) EPOLL_CTL_MOD (ctx_events c) (Epoll_event {EPOLLOUT, EPOLLONESHOT} this) k = (rc, errno, k1)"
    by (metis prod_cases3)
  assume "schedules Linux U c this k k'"
  with r have "k' = k1"
    by (auto simp: schedules_def schedule_suspend_unix_def schedule_make_def event_make_def event.defs schedule_op.defs queue_note_def
        queue_note_linux_def Let_def split: if_splits)
  with arm [OF r] show "slot k' = Some (Some this)" by simp
qed

lemma slot_wait:
  assumes "slot_ok U c n slot" "context_wait_unix U c n k = (r, k')"
  shows "\<exists>es. r = Wait_entries es \<and> (slot k' = slot k \<or> slot k \<noteq> None \<and> slot k' = Some None) \<and>
    (\<forall>x. slot_only U c n slot x \<longrightarrow> x \<in> set es \<longrightarrow> slot k = Some (Some x))"
proof -
  obtain rc errno events k1 where w: "sys_wait U (ctx_handle c) (ucast n) k = (rc, errno, events, k1)" by (metis prod_cases4)
  have ok: "(rc < 0 \<longrightarrow> errno = EINTR U) \<and> (slot k1 = slot k \<or> slot k \<noteq> None \<and> slot k1 = Some None)"
    using assms(1) [unfolded slot_ok_def, THEN conjunct2, THEN spec [where x = k]] w by simp
  then have r: "r = Wait_entries (map nev_pointer (take (nat rc) events))" "k' = k1"
    using assms(2) w by (auto simp: context_wait_unix_def split: if_splits)
  have "slot k = Some (Some x)" if "slot_only U c n slot x" "x \<in> set (map nev_pointer (take (nat rc) events))" for x
    using that(1) [unfolded slot_only_def, THEN spec [where x = k]] that(2) w by simp
  with ok r show ?thesis by blast
qed

abbreviation linux_exec where
  "linux_exec U c n wakes \<equiv> context_exec (context_wait_unix U c n) wakes (context_interrupt_unix Linux U c)"

text \<open>The actions but those that interrupt: the threads, \<open>run\<close> called by more threads, and the kernel.\<close>

definition quietly :: "('k run_act \<Rightarrow> 'k context_machine \<Rightarrow> 'k context_machine option) \<Rightarrow> 'k run_act \<Rightarrow> 'k context_machine \<Rightarrow> 'k context_machine option" where
  "quietly exec a m = (case a of Stop_flag \<Rightarrow> None | Stop_interrupt \<Rightarrow> None | Interrupt \<Rightarrow> None | _ \<Rightarrow> exec a m)"

text \<open>Once the slot does not hold the interrupt and no thread has seen one, none will.\<close>

definition deaf :: "('k \<Rightarrow> nat option option) \<Rightarrow> nat set \<Rightarrow> 'k context_machine \<Rightarrow> bool" where
  "deaf slot T m \<longleftrightarrow> slot (cm_kern m) \<noteq> Some (Some 0) \<and> (\<forall>t. \<not> alarmed (cm_pc m t)) \<and> (\<forall>t\<in>T. counted (cm_pc m t)) \<and> 0 < cm_stops m"

lemma deaf_goto:
  assumes "deaf slot T m" "\<not> alarmed p" "counted (cm_pc m t) \<longrightarrow> counted p"
    and "cm_pc m' = cm_pc m" "cm_stops m' = cm_stops m" "slot (cm_kern m') \<noteq> Some (Some 0)"
  shows "deaf slot T (run_goto t p m')"
  using assms by (simp add: deaf_def run_goto_def)

lemma deaf_step:
  assumes "slot_ok U c n slot" "slot_only U c n slot 0"
    and env: "\<And>k k'. env k k' \<Longrightarrow> slot k' = Some (Some 0) \<Longrightarrow> slot k = Some (Some 0)"
    and d: "deaf slot T m" and step: "quietly (linux_exec U c n wakes env) a m = Some m'"
  shows "deaf slot T m'"
proof -
  have quiet: "slot (cm_kern m) \<noteq> Some (Some 0)" and calm: "\<not> alarmed (cm_pc m t)" for t
    using d by (simp_all add: deaf_def)
  note goto = deaf_goto [OF d]
  show ?thesis
  proof (cases a)
    case (Run t)
    then have "m' = run_goto t Run_add (m\<lparr>cm_index := (cm_index m)(t := True)\<rparr>)" "\<not> counted (cm_pc m t)"
      using step by (auto simp: quietly_def run_begin_def split: run_pc.splits)
    then show ?thesis using quiet by (simp add: goto)
  next
    case (Step t)
    then have exec: "linux_exec U c n wakes env (Step t) m = Some m'" using step by (simp add: quietly_def)
    show ?thesis
    proof (cases "cm_pc m t")
      case Run_wait
      obtain r k where w: "context_wait_unix U c n (cm_kern m) = (r, k)" by (metis prod.exhaust)
      from slot_wait [OF assms(1) w] assms(2) obtain es where es: "r = Wait_entries es"
        "slot k = slot (cm_kern m) \<or> slot k = Some None" "0 \<in> set es \<longrightarrow> slot (cm_kern m) = Some (Some 0)"
        by blast
      then have "slot k \<noteq> Some (Some 0)" "0 \<notin> set es" using quiet by auto
      moreover have "m' = run_goto t (Run_entries es False) (m\<lparr>cm_kern := k, cm_taken := cm_taken m @ filter (\<lambda>e. e \<noteq> 0) es\<rparr>)"
        using exec Run_wait w es(1) by (simp add: run_wait_def split: if_splits)
      ultimately show ?thesis by (simp add: goto)
    next
      case (Run_entries es i)
      with calm [of t] have "\<not> i" "0 \<notin> set es" by simp_all
      with exec Run_entries quiet show ?thesis by (cases es) (auto intro: goto)
    next
      case Run_add
      then have "m' = run_goto t Run_wait (m\<lparr>cm_state := cm_state m + thread_count_increment\<rparr>)" using exec by (simp add: run_add_def)
      then show ?thesis using quiet by (simp add: goto)
    qed (use exec calm [of t] in simp_all)
  next
    case (Kernel k)
    then have "env (cm_kern m) k" "m' = m\<lparr>cm_kern := k\<rparr>" using step by (simp_all add: quietly_def split: if_splits)
    with env quiet d show ?thesis unfolding deaf_def by simp metis
  qed (use step in \<open>simp_all add: quietly_def\<close>)
qed

lemma deaf_reach:
  assumes "slot_ok U c n slot" "slot_only U c n slot 0"
    and "\<And>k k'. env k k' \<Longrightarrow> slot k' = Some (Some 0) \<Longrightarrow> slot k = Some (Some 0)"
    and "deaf slot T m1" "reach (\<lambda>s. s = m1) (act_step (quietly (linux_exec U c n wakes env))) m2"
  shows "deaf slot T m2"
  using assms(5)
proof (induction rule: reach.induct)
  case (reach_step s t)
  from reach_step.hyps(2) obtain a where "quietly (linux_exec U c n wakes env) a s = Some t" by blast
  show ?case
  proof (rule deaf_step [OF assms(1,2)])
    show "env k k' \<Longrightarrow> slot k' = Some (Some 0) \<Longrightarrow> slot k = Some (Some 0)" for k k' by (rule assms(3))
  qed fact+
qed (use assms(4) in simp)

text \<open>Once the slot does not hold \<open>p\<close>, no wait returns it.\<close>

definition dropped :: "('k \<Rightarrow> nat option option) \<Rightarrow> nat \<Rightarrow> nat \<Rightarrow> 'k context_machine \<Rightarrow> bool" where
  "dropped slot p j m \<longleftrightarrow> slot (cm_kern m) \<noteq> None \<and> slot (cm_kern m) \<noteq> Some (Some p) \<and> count (mset (cm_taken m)) p = j"

lemma dropped_goto:
  assumes "dropped slot p j m'"
  shows "dropped slot p j (run_goto t q m')"
  using assms by (simp add: dropped_def run_goto_def)

lemma dropped_same:
  assumes "dropped slot p j m" "cm_kern m' = cm_kern m" "cm_taken m' = cm_taken m"
  shows "dropped slot p j m'"
  using assms by (simp add: dropped_def)

lemma dropped_step:
  assumes "slot_ok U c n slot" "slot_only U c n slot p" "p \<noteq> 0"
    and env: "\<And>k k'. env k k' \<Longrightarrow> slot k \<noteq> None \<Longrightarrow> slot k' \<noteq> None"
      "\<And>k k'. env k k' \<Longrightarrow> slot k' = Some (Some p) \<Longrightarrow> slot k = Some (Some p)"
    and d: "dropped slot p j m" and step: "linux_exec U c n wakes env a m = Some m'"
  shows "dropped slot p j m'"
proof -
  have slot: "slot (cm_kern m) \<noteq> None" "slot (cm_kern m) \<noteq> Some (Some p)" using d by (simp_all add: dropped_def)
  have int: "dropped slot p j (m\<lparr>cm_kern := context_interrupt_unix Linux U c (cm_kern m)\<rparr>)"
    using slot_arm(1) [OF assms(1) slot(1)] d assms(3) by (simp add: dropped_def)
  show ?thesis
  proof (cases a)
    case (Run t)
    with d step show ?thesis by (auto simp: run_begin_def intro!: dropped_goto elim: dropped_same split: run_pc.splits)
  next
    case (Step t)
    show ?thesis
    proof (cases "cm_pc m t")
      case Run_wait
      obtain r k where w: "context_wait_unix U c n (cm_kern m) = (r, k)" by (metis prod.exhaust)
      from slot_wait [OF assms(1) w] assms(2) obtain es where es: "r = Wait_entries es"
        "slot k = slot (cm_kern m) \<or> slot k = Some None" "p \<in> set es \<longrightarrow> slot (cm_kern m) = Some (Some p)"
        by blast
      then have "p \<notin> set (filter (\<lambda>e. e \<noteq> 0) es)" using slot by auto
      then have "count (mset (filter (\<lambda>e. e \<noteq> 0) es)) p = 0" by (simp only: count_mset_0_iff not_False_eq_True)
      moreover have "m' = run_goto t (Run_entries es False) (m\<lparr>cm_kern := k, cm_taken := cm_taken m @ filter (\<lambda>e. e \<noteq> 0) es\<rparr>)"
        using step Step Run_wait w es(1) by (simp add: run_wait_def split: if_splits)
      ultimately show ?thesis using d es(2) by (auto simp: dropped_def run_goto_def)
    next
      case (Run_entries es i)
      have l: "dropped slot p j (m\<lparr>cm_log := x\<rparr>)" for x by (rule dropped_same [OF d]) simp_all
      from Step step Run_entries d show ?thesis
        by (cases es) (auto intro: dropped_goto l split: if_splits)
    next
      case (Run_interrupt ec)
      with Step step int show ?thesis by (auto simp: run_interrupt_def intro: dropped_goto)
    qed (use Step step d in \<open>auto simp: run_add_def run_load_def run_sub_def run_clear_def intro!: dropped_goto elim: dropped_same\<close>)
  next
    case (Kernel k)
    then have "env (cm_kern m) k" "m' = m\<lparr>cm_kern := k\<rparr>" using step by (simp_all split: if_splits)
    with env slot d show ?thesis unfolding dropped_def by simp metis
  next
    case Stop_interrupt
    with int step show ?thesis by (auto elim: dropped_same split: if_splits)
  qed (use step d int in \<open>auto elim: dropped_same\<close>)
qed

lemma dropped_reach:
  assumes "slot_ok U c n slot" "slot_only U c n slot p" "p \<noteq> 0"
    and "\<And>k k'. env k k' \<Longrightarrow> slot k \<noteq> None \<Longrightarrow> slot k' \<noteq> None"
    and "\<And>k k'. env k k' \<Longrightarrow> slot k' = Some (Some p) \<Longrightarrow> slot k = Some (Some p)"
    and "dropped slot p j m1" "reach (\<lambda>s. s = m1) (act_step (linux_exec U c n wakes env)) m2"
  shows "dropped slot p j m2"
  using assms(7)
proof (induction rule: reach.induct)
  case (reach_step s t)
  from reach_step.hyps(2) obtain a where "linux_exec U c n wakes env a s = Some t" by blast
  show ?case
  proof (rule dropped_step [OF assms(1-3)])
    show "env k k' \<Longrightarrow> slot k \<noteq> None \<Longrightarrow> slot k' \<noteq> None" for k k' by (rule assms(4))
    show "env k k' \<Longrightarrow> slot k' = Some (Some p) \<Longrightarrow> slot k = Some (Some p)" for k k' by (rule assms(5))
  qed fact+
qed (use assms(6) in simp)

text \<open>The two orders.\<close>

lemma stop_then_schedule:
  assumes slot: "slot_ok U c n slot" "p \<noteq> 0" and m: "slot (cm_kern m) \<noteq> None" "\<forall>t. \<not> alarmed (cm_pc m t)"
    and run: "run_acts (linux_exec U c n wakes (schedules Linux U c p)) [Stop_flag, Stop_interrupt, Kernel k] m = Some m1"
  shows "deaf slot {t. counted (cm_pc m t)} m1"
proof -
  from run have s: "schedules Linux U c p (context_interrupt_unix Linux U c (cm_kern m)) k"
    and m1: "cm_kern m1 = k" "cm_pc m1 = cm_pc m" "0 < cm_stops m1"
    by (auto split: if_splits)
  have "slot k = Some (Some p)" by (rule slot_arm(2) [OF slot(1) _ s]) (simp add: slot_arm(1) [OF slot(1) m(1)])
  then show ?thesis using m1 m(2) slot(2) by (simp add: deaf_def)
qed

lemma schedule_then_interrupt:
  assumes slot: "slot_ok U c n slot" "p \<noteq> 0" and m: "slot (cm_kern m) \<noteq> None"
    and run: "run_acts (linux_exec U c n wakes (schedules Linux U c p)) [Kernel k, Interrupt] m = Some m1"
  shows "dropped slot p (count (mset (cm_taken m)) p) m1"
proof -
  from run have s: "schedules Linux U c p (cm_kern m) k"
    and m1: "cm_kern m1 = context_interrupt_unix Linux U c k" "cm_taken m1 = cm_taken m"
    by (auto split: if_splits)
  have "slot k \<noteq> None" using slot_arm(2) [OF slot(1) m s] by simp
  then show ?thesis using m1 slot_arm(1) [OF slot(1)] slot(2) by (simp add: dropped_def)
qed

text \<open>
  C30: a wake-up can be lost on Linux, on every kernel whose \<open>epoll\<close> keeps one pointer for the context's event descriptor. Whatever threads
  are in \<open>run\<close>, none of which has seen an interrupt: if \<open>stop\<close> is called and, before a thread waits again, an event is scheduled, then in every
  continuation in which nobody interrupts once more no thread ever leaves \<open>run\<close>, although the stop flag is set. The other way round, if an event is
  scheduled and the context is interrupted before a thread waits, then in every continuation, further interrupts included, in which the event is
  not scheduled again no wait returns it: it is never resumed.
\<close>

theorem context_lost_wakeup:
  assumes slot: "slot_ok U c n slot" "slot_only U c n slot 0" "slot_only U c n slot p" "p \<noteq> 0"
    and env: "\<And>k k'. env k k' \<Longrightarrow> slot k \<noteq> None \<Longrightarrow> slot k' \<noteq> None"
      "\<And>k k' x. env k k' \<Longrightarrow> x = 0 \<or> x = p \<Longrightarrow> slot k' = Some (Some x) \<Longrightarrow> slot k = Some (Some x)"
    and m: "slot (cm_kern m) \<noteq> None" "\<forall>t. \<not> alarmed (cm_pc m t)"
  shows "(\<forall>k m1 m2. run_acts (linux_exec U c n wakes (schedules Linux U c p)) [Stop_flag, Stop_interrupt, Kernel k] m = Some m1 \<and>
        reach (\<lambda>s. s = m1) (act_step (quietly (linux_exec U c n wakes env))) m2 \<longrightarrow>
        0 < cm_stops m2 \<and> (\<forall>t. \<not> alarmed (cm_pc m2 t) \<and> (counted (cm_pc m t) \<longrightarrow> counted (cm_pc m2 t)))) \<and>
     (\<forall>k m1 m2. run_acts (linux_exec U c n wakes (schedules Linux U c p)) [Kernel k, Interrupt] m = Some m1 \<and>
        reach (\<lambda>s. s = m1) (act_step (linux_exec U c n wakes env)) m2 \<longrightarrow>
        count (mset (cm_taken m2)) p = count (mset (cm_taken m)) p)"
proof (intro conjI allI impI; elim conjE)
  fix k m1 m2 t
  assume run: "run_acts (linux_exec U c n wakes (schedules Linux U c p)) [Stop_flag, Stop_interrupt, Kernel k] m = Some m1"
    and r: "reach (\<lambda>s. s = m1) (act_step (quietly (linux_exec U c n wakes env))) m2"
  have "deaf slot {t. counted (cm_pc m t)} m2"
    by (rule deaf_reach [OF slot(1,2) _ stop_then_schedule [OF slot(1,4) m run] r]) (rule env(2), auto)
  then show "0 < cm_stops m2" "\<not> alarmed (cm_pc m2 t)" "counted (cm_pc m t) \<Longrightarrow> counted (cm_pc m2 t)"
    by (simp_all add: deaf_def)
next
  fix k m1 m2
  assume run: "run_acts (linux_exec U c n wakes (schedules Linux U c p)) [Kernel k, Interrupt] m = Some m1"
    and r: "reach (\<lambda>s. s = m1) (act_step (linux_exec U c n wakes env)) m2"
  have "dropped slot p (count (mset (cm_taken m)) p) m2"
    by (rule dropped_reach [OF slot(1,3,4) env(1) _ schedule_then_interrupt [OF slot(1,4) m(1) run] r]) (assumption, assumption, rule env(2), auto)
  then show "count (mset (cm_taken m2)) p = count (mset (cm_taken m)) p" by (simp add: dropped_def)
qed

lemma eventfd_slot:
  "slot_ok eventfd_unix demo_context n Some" "slot_only eventfd_unix demo_context n Some x"
  "schedules Linux eventfd_unix demo_context p k (Some p)"
  by (auto simp: slot_ok_def slot_only_def eventfd_calls schedules_def schedule_suspend_unix_def queue_defs split: option.splits)

text \<open>
  On the kernel above, where \<open>stop\<close> alone does reach every thread, a thread takes the event scheduled after \<open>stop\<close> and waits again, for ever;
  and an event scheduled before an interrupt is not there when the thread goes to wait again.
\<close>

abbreviation eventfd_exec where
  "eventfd_exec \<equiv> linux_exec eventfd_unix demo_context 1 (\<lambda>k. k \<noteq> None)"

theorem context_lost_wakeup_witness:
  "(\<exists>m m1 m2. run_acts (eventfd_exec (=)) [Run 0, Step 0] (context_start None) = Some m \<and>
       run_acts (eventfd_exec (schedules Linux eventfd_unix demo_context 100)) [Stop_flag, Stop_interrupt, Kernel (Some 100)] m = Some m1 \<and>
       run_acts (quietly (eventfd_exec (=))) [Step 0, Step 0, Step 0] m1 = Some m2 \<and>
       0 < cm_stops m2 \<and> cm_log m2 = [100] \<and> counted (cm_pc m2 0) \<and> eventfd_exec (=) (Step 0) m2 = None) \<and>
   (\<exists>m m1 m2. run_acts (eventfd_exec (=)) [Run 0, Step 0] (context_start None) = Some m \<and>
       run_acts (eventfd_exec (schedules Linux eventfd_unix demo_context 100)) [Kernel (Some 100), Interrupt] m = Some m1 \<and>
       run_acts (eventfd_exec (=)) [Step 0, Step 0, Step 0, Step 0] m1 = Some m2 \<and>
       count (mset (cm_taken m2)) 100 = 0 \<and> eventfd_exec (=) (Step 0) m2 = None)"
proof -
  note ev = context_start_def run_defs run_goto_def context_wait_unix_def context_interrupt_unix_def eventfd_calls ice_const
    fetch_stop_def quietly_def eventfd_slot(3)
  obtain m where m: "run_acts (eventfd_exec (=)) [Run 0, Step 0] (context_start None) = Some m" "cm_kern m = None"
    "cm_pc m = (\<lambda>_. Idle)(0 := Run_wait)" "cm_state m = 2" "cm_stops m = 0" "cm_log m = []" "cm_taken m = []" "cm_stopping m = 0"
    by (simp add: ev)
  have idle: "\<forall>t. \<not> alarmed (cm_pc m t)" and in_run: "counted (cm_pc m 0)" by (simp_all add: m(3))
  have slot: "Some (cm_kern m) \<noteq> None" by simp
  note lost = context_lost_wakeup [OF eventfd_slot(1) eventfd_slot(2) eventfd_slot(2), where p = 100 and env = "(=)" and m = m
      and wakes = "\<lambda>k. k \<noteq> None" and n = 1]
  obtain m1 m2 where a: "run_acts (eventfd_exec (schedules Linux eventfd_unix demo_context 100)) [Stop_flag, Stop_interrupt, Kernel (Some 100)] m = Some m1"
    "run_acts (quietly (eventfd_exec (=))) [Step 0, Step 0, Step 0] m1 = Some m2" "cm_log m2 = [100]" "eventfd_exec (=) (Step 0) m2 = None"
    using m(2-) by (simp add: ev)
  have "reach (\<lambda>s. s = m1) (act_step (quietly (eventfd_exec (=)))) m2"
    by (rule run_acts_reach [OF a(2)]) (simp add: reach.reach_init)
  with lost [THEN conjunct1] a(1) slot idle in_run have l: "0 < cm_stops m2" "counted (cm_pc m2 0)" by auto
  obtain n1 n2 where b: "run_acts (eventfd_exec (schedules Linux eventfd_unix demo_context 100)) [Kernel (Some 100), Interrupt] m = Some n1"
    "run_acts (eventfd_exec (=)) [Step 0, Step 0, Step 0, Step 0] n1 = Some n2" "eventfd_exec (=) (Step 0) n2 = None"
    using m(2-) by (simp add: ev)
  have "reach (\<lambda>s. s = n1) (act_step (eventfd_exec (=))) n2"
    by (rule run_acts_reach [OF b(2)]) (simp add: reach.reach_init)
  with lost [THEN conjunct2] b(1) slot idle m(7) have "count (mset (cm_taken n2)) 100 = 0" by auto
  with m(1) a b l show ?thesis by blast
qed

section \<open>The descriptors of a context\<close>

text \<open>
  What construction and destruction rely on, for the set \<open>fds\<close> of open descriptors: the calls that make one open a fresh one or fail,
  registration opens and closes nothing, and \<open>close\<close> closes its descriptor, except that an interrupted close may leave it open;
  it is not interrupted for ever.
\<close>

definition opens_ok :: "('k \<Rightarrow> int set) \<Rightarrow> ('k \<Rightarrow> int \<times> int \<times> 'k) \<Rightarrow> bool" where
  "opens_ok fds call \<longleftrightarrow>
     (\<forall>k. case call k of (h, errno, k') \<Rightarrow>
        if h = -1 then fds k' = fds k else h \<notin> fds k \<and> fds k' = insert h (fds k))"

definition fds_ok :: "'k usys \<Rightarrow> ('k \<Rightarrow> int set) \<Rightarrow> bool" where
  "fds_ok U fds \<longleftrightarrow>
     opens_ok fds (sys_epoll_create1 U) \<and> opens_ok fds (sys_eventfd U) \<and> opens_ok fds (sys_kqueue U) \<and>
     (\<forall>c p h e k. fds (snd (snd (sys_epoll_ctl U c p h e k))) = fds k) \<and>
     (\<forall>c e k. fds (snd (snd (sys_kevent U c e k))) = fds k) \<and>
     (\<forall>h k. case sys_close U h k of (rc, errno, k') \<Rightarrow>
        fds k' = fds k - {h} \<or> rc \<noteq> 0 \<and> errno = EINTR U \<and> fds k' = fds k) \<and>
     (\<forall>h k. \<exists>n. interrupted_at_most (close_again U h) n k)"

lemma fds_okD:
  assumes "fds_ok U fds"
  shows "opens_ok fds (sys_epoll_create1 U)" "opens_ok fds (sys_eventfd U)" "opens_ok fds (sys_kqueue U)"
    "sys_epoll_ctl U c p h e k = (rc, errno, k') \<Longrightarrow> fds k' = fds k"
    "sys_kevent U c e k = (rc, errno, k') \<Longrightarrow> fds k' = fds k"
    "sys_close U h k = (rc, errno, k') \<Longrightarrow> fds k' = fds k - {h} \<or> rc \<noteq> 0 \<and> errno = EINTR U \<and> fds k' = fds k"
    "\<exists>n. interrupted_at_most (close_again U h) n k"
proof -
  note a = assms [unfolded fds_ok_def]
  note a' = a [THEN conjunct2, THEN conjunct2, THEN conjunct2]
  show "opens_ok fds (sys_epoll_create1 U)" "opens_ok fds (sys_eventfd U)" "opens_ok fds (sys_kqueue U)"
    using a by blast+
  show "sys_epoll_ctl U c p h e k = (rc, errno, k') \<Longrightarrow> fds k' = fds k"
    using spec [OF spec [OF spec [OF spec [OF spec [OF a' [THEN conjunct1], of c], of p], of h], of e], of k] by simp
  show "sys_kevent U c e k = (rc, errno, k') \<Longrightarrow> fds k' = fds k"
    using spec [OF spec [OF spec [OF a' [THEN conjunct2, THEN conjunct1], of c], of e], of k] by simp
  show "sys_close U h k = (rc, errno, k') \<Longrightarrow> fds k' = fds k - {h} \<or> rc \<noteq> 0 \<and> errno = EINTR U \<and> fds k' = fds k"
    using spec [OF spec [OF a' [THEN conjunct2, THEN conjunct2, THEN conjunct1], of h], of k] by simp
  show "\<exists>n. interrupted_at_most (close_again U h) n k"
    using spec [OF spec [OF a' [THEN conjunct2, THEN conjunct2, THEN conjunct2], of h], of k] .
qed

lemma close_loop_closes:
  assumes "fds_ok U fds"
  shows "\<exists>k'. close_loop U h k = Some k' \<and> fds k' = fds k - {h}"
proof -
  have "\<exists>k'. close_loop U h k = Some k' \<and> fds k' = fds k - {h}" if "interrupted_at_most (close_again U h) n k" for n k
    using that
  proof (induction n arbitrary: k)
    case 0
    obtain rc errno k' where r: "sys_close U h k = (rc, errno, k')" by (metis prod_cases3)
    with fds_okD(6) [OF assms r] 0 show ?case by (subst close_loop.simps) (auto simp: close_again_def)
  next
    case (Suc n)
    obtain rc errno k' where r: "sys_close U h k = (rc, errno, k')" by (metis prod_cases3)
    note c = fds_okD(6) [OF assms r]
    show ?case
    proof (cases "rc \<noteq> 0 \<and> errno = EINTR U")
      case True
      have "close_again U h k = (True, k')" using r True by (simp add: close_again_def)
      with Suc.prems have "interrupted_at_most (close_again U h) n k'" by simp
      from Suc.IH [OF this] r c True show ?thesis by (subst close_loop.simps) auto
    next
      case False
      with r c show ?thesis by (subst close_loop.simps) auto
    qed
  qed
  then show ?thesis using fds_okD(7) [OF assms, of h k] by blast
qed

lemma opens_okD:
  assumes "opens_ok fds call" "call k = (h, errno, k')"
  shows "h = -1 \<Longrightarrow> fds k' = fds k" "h \<noteq> -1 \<Longrightarrow> h \<notin> fds k" "h \<noteq> -1 \<Longrightarrow> fds k' = insert h (fds k)"
  using spec [OF assms(1) [unfolded opens_ok_def], of k] assms(2) by (auto split: if_splits)

definition context_make_unix :: "unix \<Rightarrow> 'k usys \<Rightarrow> 'k \<Rightarrow> ((exn + ice_context) \<times> 'k) option" where
  "context_make_unix u U k = (case u of Linux \<Rightarrow> context_make_linux U k | FreeBSD \<Rightarrow> context_make_bsd U k)"

lemma context_make_linux_law:
  assumes ok: "fds_ok U fds"
  shows "\<exists>r k'. context_make_linux U k = Some (r, k') \<and>
           (case r of
              Inl x \<Rightarrow> fds k' = fds k
            | Inr c \<Rightarrow> ctx_state c = 0 \<and> ctx_handle c \<noteq> -1 \<and> ctx_events c \<noteq> -1 \<and> ctx_handle c \<noteq> ctx_events c \<and>
                fds k' = {ctx_handle c, ctx_events c} \<union> fds k \<and> fds k \<inter> {ctx_handle c, ctx_events c} = {})"
proof -
  obtain handle errno1 k1 where r1: "sys_epoll_create1 U k = (handle, errno1, k1)" by (metis prod_cases3)
  note c1 = opens_okD [OF fds_okD(1) [OF ok], OF r1]
  show ?thesis
  proof (cases "handle = -1")
    case True
    with c1 r1 show ?thesis by (simp add: context_make_linux_def)
  next
    case h: False
    obtain events errno2 k2 where r2: "sys_eventfd U k1 = (events, errno2, k2)" by (metis prod_cases3)
    note c2 = opens_okD [OF fds_okD(2) [OF ok], OF r2]
    have k1: "handle \<notin> fds k" "fds k1 = insert handle (fds k)" using c1 h by auto
    show ?thesis
    proof (cases "events = -1")
      case True
      obtain k3 where "close_loop U handle k2 = Some k3" "fds k3 = fds k2 - {handle}"
        using close_loop_closes [OF ok] by blast
      with True h r1 r2 c2 k1 show ?thesis by (auto simp: context_make_linux_def)
    next
      case e: False
      obtain rc errno3 k3 where r3: "sys_epoll_ctl U handle EPOLL_CTL_ADD events (Epoll_event {EPOLLONESHOT} 0) k2 = (rc, errno3, k3)"
        by (metis prod_cases3)
      have k3: "fds k3 = insert events (insert handle (fds k))" "events \<notin> insert handle (fds k)"
        using c2 e k1 fds_okD(4) [OF ok r3] by auto
      show ?thesis
      proof (cases "rc < 0")
        case True
        obtain k4 where k4: "close_loop U events k3 = Some k4" "fds k4 = fds k3 - {events}"
          using close_loop_closes [OF ok] by blast
        obtain k5 where k5: "close_loop U handle k4 = Some k5" "fds k5 = fds k4 - {handle}"
          using close_loop_closes [OF ok] by blast
        have "fds k5 = fds k" using k3 k4 k5 k1 by auto
        with True h e r1 r2 r3 k4 k5 show ?thesis by (simp add: context_make_linux_def)
      next
        case False
        with h e r1 r2 r3 k3 k1 show ?thesis by (auto simp: context_make_linux_def)
      qed
    qed
  qed
qed

lemma context_make_bsd_law:
  assumes ok: "fds_ok U fds"
  shows "\<exists>r k'. context_make_bsd U k = Some (r, k') \<and>
           (case r of
              Inl x \<Rightarrow> fds k' = fds k
            | Inr c \<Rightarrow> ctx_state c = 0 \<and> ctx_handle c \<noteq> -1 \<and> ctx_events c = -1 \<and>
                fds k' = insert (ctx_handle c) (fds k) \<and> ctx_handle c \<notin> fds k)"
proof -
  obtain handle errno1 k1 where r1: "sys_kqueue U k = (handle, errno1, k1)" by (metis prod_cases3)
  note c1 = opens_okD [OF fds_okD(3) [OF ok], OF r1]
  show ?thesis
  proof (cases "handle = -1")
    case True
    with c1 r1 show ?thesis by (simp add: context_make_bsd_def)
  next
    case h: False
    obtain rc errno2 k2 where r2: "sys_kevent U handle (Kevent 0 EVFILT_USER {EV_ADD, EV_CLEAR} {} 0) k1 = (rc, errno2, k2)"
      by (metis prod_cases3)
    have k2: "handle \<notin> fds k" "fds k2 = insert handle (fds k)"
      using c1 h fds_okD(5) [OF ok r2] by auto
    obtain k3 where "close_loop U handle k2 = Some k3" "fds k3 = fds k2 - {handle}"
      using close_loop_closes [OF ok] by blast
    with h r1 r2 k2 show ?thesis by (cases "rc < 0") (auto simp: context_make_bsd_def)
  qed
qed

lemma context_dtor_law:
  assumes ok: "fds_ok U fds"
  shows "\<exists>k2. context_dtor_unix u U c k1 = Some k2 \<and>
    fds k2 = fds k1 - (if u = Linux \<and> ctx_events c \<noteq> -1 then {ctx_events c} else {}) - (if ctx_handle c \<noteq> -1 then {ctx_handle c} else {})"
proof -
  obtain k2 where k2: "(if u = Linux \<and> ctx_events c \<noteq> -1 then close_loop U (ctx_events c) k1 else Some k1) = Some k2"
    "fds k2 = fds k1 - (if u = Linux \<and> ctx_events c \<noteq> -1 then {ctx_events c} else {})"
    using close_loop_closes [OF ok, of "ctx_events c" k1] by (cases "u = Linux \<and> ctx_events c \<noteq> -1") auto
  obtain k3 where "close_loop U (ctx_handle c) k2 = Some k3" "fds k3 = fds k2 - {ctx_handle c}"
    using close_loop_closes [OF ok] by blast
  with k2 show ?thesis unfolding context_dtor_unix_def by auto
qed

text \<open>
  C29: a context owns what it opens. On Linux and FreeBSD the constructor always ends; if it throws, the descriptors open are
  those open before, and if it does not, the context has opened new ones, its state word is 0, and destroying it closes
  exactly those.
\<close>

theorem context_lifetime:
  assumes "fds_ok U fds"
  shows "\<exists>r k1. context_make_unix u U k = Some (r, k1) \<and>
           (case r of
              Inl x \<Rightarrow> fds k1 = fds k
            | Inr c \<Rightarrow> ctx_state c = 0 \<and> fds k \<subset> fds k1 \<and>
                (\<exists>k2. context_dtor_unix u U c k1 = Some k2 \<and> fds k2 = fds k))"
proof (cases u)
  case Linux
  from context_make_linux_law [OF assms, of k] obtain r k1 where r: "context_make_linux U k = Some (r, k1)"
    and c: "case r of Inl x \<Rightarrow> fds k1 = fds k
      | Inr c \<Rightarrow> ctx_state c = 0 \<and> ctx_handle c \<noteq> -1 \<and> ctx_events c \<noteq> -1 \<and> ctx_handle c \<noteq> ctx_events c \<and>
          fds k1 = {ctx_handle c, ctx_events c} \<union> fds k \<and> fds k \<inter> {ctx_handle c, ctx_events c} = {}" by blast
  have "\<exists>k2. context_dtor_unix u U c k1 = Some k2 \<and> fds k2 = fds k" if "r = Inr c" for c
    using context_dtor_law [OF assms, of u c k1] that c Linux by auto
  with r c Linux show ?thesis by (auto simp: context_make_unix_def split: sum.splits)
next
  case FreeBSD
  from context_make_bsd_law [OF assms, of k] obtain r k1 where r: "context_make_bsd U k = Some (r, k1)"
    and c: "case r of Inl x \<Rightarrow> fds k1 = fds k
      | Inr c \<Rightarrow> ctx_state c = 0 \<and> ctx_handle c \<noteq> -1 \<and> ctx_events c = -1 \<and>
                fds k1 = insert (ctx_handle c) (fds k) \<and> ctx_handle c \<notin> fds k" by blast
  have "\<exists>k2. context_dtor_unix u U c k1 = Some k2 \<and> fds k2 = fds k" if "r = Inr c" for c
    using context_dtor_law [OF assms, of u c k1] that c FreeBSD by auto
  with r c FreeBSD show ?thesis by (auto simp: context_make_unix_def split: sum.splits)
qed

text \<open>
  A kernel with a list of open descriptors, in which every second \<open>close\<close> is interrupted; \<open>eventfd\<close> fails when
  four are open.
\<close>

definition fresh_fd :: "int list \<Rightarrow> int" where
  "fresh_fd fds = 1 + fold max fds 2"

lemma fresh_fd: "fresh_fd fds \<notin> set fds" "fresh_fd fds \<noteq> -1"
proof -
  have "x \<le> fold max fds a \<and> (\<forall>y\<in>set fds. y \<le> fold max fds a)" if "x \<le> a" for x a :: int
    using that by (induction fds arbitrary: a x) (auto simp: max.coboundedI1 max.coboundedI2)
  from this [of 2 2] show "fresh_fd fds \<notin> set fds" "fresh_fd fds \<noteq> -1"
    by (auto simp: fresh_fd_def)
qed

definition files_unix :: "(int list \<times> bool) usys" where
  "files_unix = failing_unix
     \<lparr>sys_epoll_create1 := \<lambda>(fds, i). (fresh_fd fds, 0, fresh_fd fds # fds, i),
      sys_eventfd := \<lambda>(fds, i). (if length fds \<ge> 4 then (-1, 24, fds, i) else (fresh_fd fds, 0, fresh_fd fds # fds, i)),
      sys_epoll_ctl := \<lambda>c p h e k. (0, 0, k),
      sys_close := \<lambda>h (fds, i). (if i then (0, 0, removeAll h fds, False) else (-1, 4, fds, True))\<rparr>"

lemma files_ok: "fds_ok files_unix (\<lambda>k. set (fst k))"
proof -
  have "interrupted_at_most (close_again files_unix h) 1 (fds, i)" for h fds i
    by (auto simp: close_again_def files_unix_def failing_unix_def)
  then have "\<exists>n. interrupted_at_most (close_again files_unix h) n k" for h k by (metis prod.exhaust)
  then show ?thesis
    unfolding fds_ok_def opens_ok_def by (auto simp: files_unix_def failing_unix_def fresh_fd)
qed

lemma context_lifetime_witness:
  "\<exists>c k1 k2. context_make_unix Linux files_unix ([0, 1], False) = Some (Inr c, k1) \<and> ctx_handle c = 3 \<and> ctx_events c = 4 \<and>
     context_dtor_unix Linux files_unix c k1 = Some k2 \<and> set (fst k2) = {0, 1}"
proof -
  obtain c k1 where c: "context_make_unix Linux files_unix ([0, 1], False) = Some (Inr c, k1)" "ctx_handle c = 3" "ctx_events c = 4"
    by (simp add: context_make_unix_def context_make_linux_def files_unix_def failing_unix_def fresh_fd_def)
  from context_lifetime [OF files_ok, of Linux "([0, 1], False)"] c show ?thesis by auto
qed

section \<open>Destroying a context that has stopped\<close>

text \<open>
  \<open>stop\<close> can return true too early. It counts a thread as gone after \<open>fetch_sub\<close>, but the thread still calls
  \<open>interrupt\<close> on the context's handle: there is a state in which \<open>stop\<close> returns true and the destructor's assertion holds while a
  thread is about to do so.
\<close>

lemma context_stop_early:
  "\<exists>m. run_acts (context_exec (context_wait_win port_win 9 1) (\<lambda>q. q \<noteq> []) (context_interrupt_win port_win 9) port_env)
         [Run 0, Step 0, Stop_flag, Stop_interrupt, Step 0, Step 0, Step 0, Step 0, Step 0, Step 0]
         (context_start []) = Some m \<and>
       stop_result (cm_state m) \<and> context_dtor_assert (cm_state m) \<and> cm_pc m 0 = Run_interrupt ec_none"
  by (simp add: context_start_def run_defs run_goto_def context_wait_win_def context_interrupt_win_def
      port_calls ice_const fetch_stop_def stop_result_def thread_count_def context_dtor_assert_def)

end
