(* ===== verification/Ice_Objects.thy ===== *)
theory Ice_Objects
  imports Ice_Context
begin

text \<open>
  The event loop together with the objects it dispatches, for any platform and any kind of objects. A state is the machine of the threads in
  \<open>run\<close> (\<open>Ice_Context\<close>) and the suspended objects by address; an action is one of that machine, where a dispatched entry calls
  \<open>await_resume\<close> of the object at the address, or a coroutine that awaits an object it has constructed. A dispatch runs as one step: once
  \<open>suspend\<close> has made the object known to the kernel again, the code does not touch it any more. An address under which no object is
  suspended is memory the coroutine may have given back: dispatching it is \<open>lp_fault\<close>. \<open>lp_made\<close> and \<open>lp_done\<close> keep the object at
  an address as it was constructed and as its coroutine found it when it went on.

  The locale \<open>object_loop\<close> says what has to hold between the kernel, the suspended objects and the entries the threads have taken for the
  loop to be safe, and gives the invariant of the machine. \<open>Ice_Loop_Run\<close> provides it on Unix, \<open>Ice_Loop_Win\<close> on Windows.
\<close>

section \<open>The machine\<close>

text \<open>
  The virtual calls of the objects of type \<open>'o\<close>: \<open>co_await\<close> up to the suspension, at an address and by a coroutine, and \<open>await_resume\<close>;
  both say whether the coroutine goes on. Then the coroutine that waits, and what may be awaited where.
\<close>

record ('o, 'w) virtuals =
  vt_begin :: "nat \<Rightarrow> nat \<Rightarrow> 'o \<times> 'w \<Rightarrow> (bool \<times> 'o \<times> 'w) option"
  vt_resume :: "nat \<Rightarrow> 'o \<times> 'w \<Rightarrow> (bool \<times> 'o \<times> 'w) option"
  vt_awaiter :: "'o \<Rightarrow> nat"
  vt_guard :: "'w \<Rightarrow> 'o \<Rightarrow> bool"

text \<open>A call on an object of a class, as a call on an object of any class: \<open>C\<close> is what the virtual table pointer tells.\<close>

definition op_wrap ::
  "('e \<Rightarrow> 'o) \<Rightarrow> ('e \<times> 'w \<Rightarrow> (bool \<times> 'e \<times> 'w) option) \<Rightarrow> 'e \<times> 'w \<Rightarrow> (bool \<times> 'o \<times> 'w) option" where
  "op_wrap C f s = map_option (\<lambda>(b, e, w). (b, C e, w)) (f s)"

lemma op_wrap_law: "op_wrap C f s = Some (b, x, w) \<Longrightarrow> \<exists>e. x = C e \<and> f s = Some (b, e, w)"
  by (auto simp: op_wrap_def)

record ('o, 'w) objects =
  lp_run :: "'w context_machine"
  lp_ops :: "nat \<Rightarrow> 'o option"
  lp_made :: "nat \<Rightarrow> 'o"
  lp_done :: "nat \<Rightarrow> 'o"
  lp_started :: "(nat \<times> nat) list"
  lp_continued :: "(nat \<times> nat) list"
  lp_fault :: bool

text \<open>The event a step of \<open>run\<close> dispatches.\<close>

fun dispatched :: "'w run_act \<Rightarrow> 'w context_machine \<Rightarrow> nat option" where
  "dispatched (Step t) m =
     (case cm_pc m t of Run_entries es i \<Rightarrow> (case es of e # _ \<Rightarrow> if e \<noteq> 0 then Some e else None | [] \<Rightarrow> None) | _ \<Rightarrow> None)"
| "dispatched _ m = None"

definition object_await :: "('o, 'w) virtuals \<Rightarrow> nat \<Rightarrow> nat \<Rightarrow> 'o \<Rightarrow> ('o, 'w) objects \<Rightarrow> ('o, 'w) objects option" where
  "object_await V p a x s =
     (case vt_begin V p a (x, cm_kern (lp_run s)) of
        None \<Rightarrow> None
      | Some (b, x', w) \<Rightarrow>
          Some (s\<lparr>lp_run := (lp_run s)\<lparr>cm_kern := w\<rparr>, lp_ops := (lp_ops s)(p := if b then None else Some x'),
                  lp_made := (lp_made s)(p := x), lp_done := (if b then (lp_done s)(p := x') else lp_done s), lp_started := lp_started s @ [(p, a)],
                  lp_continued := lp_continued s @ (if b then [(p, a)] else [])\<rparr>))"

text \<open>A thread that has moved on to \<open>m\<close> calls \<open>await_resume\<close> of the object at \<open>p\<close>.\<close>

definition object_dispatch :: "('o, 'w) virtuals \<Rightarrow> nat \<Rightarrow> 'w context_machine \<Rightarrow> ('o, 'w) objects \<Rightarrow> ('o, 'w) objects option" where
  "object_dispatch V p m s =
     (case lp_ops s p of
        None \<Rightarrow> Some (s\<lparr>lp_run := m, lp_fault := True\<rparr>)
      | Some x \<Rightarrow>
          (case vt_resume V p (x, cm_kern m) of
             None \<Rightarrow> None
           | Some (b, x', w) \<Rightarrow>
               Some (s\<lparr>lp_run := m\<lparr>cm_kern := w\<rparr>, lp_ops := (lp_ops s)(p := if b then None else Some x'),
                       lp_done := (if b then (lp_done s)(p := x') else lp_done s),
                       lp_continued := lp_continued s @ (if b then [(p, vt_awaiter V x')] else [])\<rparr>)))"

datatype ('o, 'w) object_act = Await nat nat 'o | Loop "'w run_act"

fun object_exec ::
  "('o, 'w) virtuals \<Rightarrow> ('w \<Rightarrow> wait_result \<times> 'w) \<Rightarrow> ('w \<Rightarrow> bool) \<Rightarrow> ('w \<Rightarrow> 'w) \<Rightarrow> ('w \<Rightarrow> 'w \<Rightarrow> bool) \<Rightarrow>
   ('o, 'w) object_act \<Rightarrow> ('o, 'w) objects \<Rightarrow> ('o, 'w) objects option" where
  "object_exec V wait wakes interrupt env (Await p a x) s =
     (if p \<noteq> 0 \<and> lp_ops s p = None \<and> vt_guard V (cm_kern (lp_run s)) x then object_await V p a x s else None)"
| "object_exec V wait wakes interrupt env (Loop act) s =
     (case context_exec wait wakes interrupt env act (lp_run s) of
        None \<Rightarrow> None
      | Some m \<Rightarrow> (case dispatched act (lp_run s) of None \<Rightarrow> Some (s\<lparr>lp_run := m\<rparr>) | Some p \<Rightarrow> object_dispatch V p m s))"

section \<open>The steps of the threads\<close>

definition entries :: "'w context_machine \<Rightarrow> nat multiset" where
  "entries m = sum_counted entries_left (cm_pc m)"

lemma entries_goto:
  assumes "context_inv m" "cm_pc m' = cm_pc m"
  shows "entries (run_goto t p m') + entries_left (cm_pc m t) = entries m + entries_left p"
proof -
  have "finite {u. counted (cm_pc m u)}" using assms(1) by (simp add: context_inv_def)
  from sum_counted_upd [OF this entries_left_uncounted, where t = t and p = p] assms(2)
  show ?thesis by (simp add: entries_def run_goto_def)
qed

lemma entries_kern [simp]: "entries (m\<lparr>cm_kern := w\<rparr>) = entries m"
  by (simp add: entries_def)

text \<open>Counting a pointer among those of distinct registrations.\<close>

lemma count_pointers:
  assumes "distinct fds" "\<And>fd. fd \<in> set fds \<Longrightarrow> ptr fd = p \<longleftrightarrow> fd = fd0"
  shows "count (mset (map ptr fds)) p = (if fd0 \<in> set fds then 1 else 0)"
  using assms by (induction fds) auto

text \<open>What a step that dispatches nothing does to the kernel and to the entries.\<close>

definition quiet_step ::
  "('w \<Rightarrow> wait_result \<times> 'w) \<Rightarrow> ('w \<Rightarrow> 'w) \<Rightarrow> ('w \<Rightarrow> 'w \<Rightarrow> bool) \<Rightarrow> 'w context_machine \<Rightarrow> 'w context_machine \<Rightarrow> bool" where
  "quiet_step wait interrupt env m m' \<longleftrightarrow>
     (cm_kern m' = cm_kern m \<or> cm_kern m' = interrupt (cm_kern m) \<or> env (cm_kern m) (cm_kern m')) \<and> entries m' = entries m \<or>
     (\<exists>r. wait (cm_kern m) = (r, cm_kern m') \<and>
        entries m' = entries m + (case r of Wait_break _ \<Rightarrow> {#} | Wait_entries es \<Rightarrow> mset (filter (\<lambda>e. e \<noteq> 0) es)))"

lemma context_step_dispatch:
  assumes inv: "context_inv m" and step: "context_exec wait wakes interrupt env a m = Some m'" and "dispatched a m = Some p"
  shows "cm_kern m' = cm_kern m \<and> entries m = add_mset p (entries m') \<and> p \<noteq> 0"
proof (cases a)
  case (Step t)
  with assms(3) obtain es i where pc: "cm_pc m t = Run_entries (p # es) i" and p: "p \<noteq> 0"
    by (auto split: run_pc.splits list.splits if_splits)
  with Step step have m': "m' = run_goto t (Run_entries es i) (m\<lparr>cm_log := cm_log m @ [p]\<rparr>)" by simp
  from entries_goto [OF inv, of "m\<lparr>cm_log := cm_log m @ [p]\<rparr>" t "Run_entries es i"] pc p
  have "entries m' + add_mset p (mset (filter (\<lambda>e. e \<noteq> 0) es)) = entries m + mset (filter (\<lambda>e. e \<noteq> 0) es)"
    by (simp add: m')
  then have "entries m = add_mset p (entries m')" by simp
  with m' p show ?thesis by (simp add: run_goto_def)
qed (use assms(3) in auto)

lemma context_step_quiet:
  assumes inv: "context_inv m" and step: "context_exec wait wakes interrupt env a m = Some m'" and "dispatched a m = None"
  shows "quiet_step wait interrupt env m m'"
proof (cases a)
  case (Run t)
  with step obtain pc: "entries_left (cm_pc m t) = {#}" "m' = run_begin t m" by (auto split: run_pc.splits)
  with entries_goto [OF inv, of "m\<lparr>cm_index := (cm_index m)(t := True)\<rparr>" t Run_add] show ?thesis
    by (simp add: quiet_step_def run_begin_def) (simp add: run_goto_def)
next
  case (Step t)
  have goto: "quiet_step wait interrupt env m (run_goto t p n)"
    if "cm_pc n = cm_pc m" "entries_left p = entries_left (cm_pc m t)" "cm_kern n = cm_kern m \<or> cm_kern n = interrupt (cm_kern m)" for p n
    using entries_goto [OF inv that(1), of t p] that(2,3) by (auto simp: quiet_step_def run_goto_def)
  show ?thesis
  proof (cases "cm_pc m t")
    case Run_wait
    obtain r w where r: "wait (cm_kern m) = (r, w)" by (metis prod.exhaust)
    show ?thesis
    proof (cases r)
      case (Wait_break err)
      with Step Run_wait step r entries_goto [OF inv, of "m\<lparr>cm_kern := w\<rparr>" t] show ?thesis
        by (auto simp: quiet_step_def run_wait_def split: if_splits) (simp_all add: run_goto_def)
    next
      case (Wait_entries es)
      with Step Run_wait step r entries_goto [OF inv, of "m\<lparr>cm_kern := w, cm_taken := cm_taken m @ filter (\<lambda>e. e \<noteq> 0) es\<rparr>" t "Run_entries es False"]
      show ?thesis
        by (auto simp: quiet_step_def run_wait_def split: if_splits) (simp_all add: run_goto_def)
    qed
  next
    case (Run_entries es i)
    with Step step assms(3) show ?thesis
      by (cases es) (auto intro!: goto split: if_splits)
  qed (use Step step in \<open>auto simp: run_defs intro!: goto split: if_splits\<close>)
qed (use step in \<open>auto simp: quiet_step_def entries_def split: if_splits\<close>)

section \<open>The invariant of the loop\<close>

text \<open>The suspended coroutines, each with the object it waits for.\<close>

definition suspended :: "('o \<Rightarrow> nat) \<Rightarrow> (nat \<Rightarrow> 'o option) \<Rightarrow> (nat \<times> nat) multiset" where
  "suspended aw ops = image_mset (\<lambda>p. (p, aw (the (ops p)))) (mset_set (dom ops))"

lemma suspended_empty [simp]: "suspended aw (\<lambda>_. None) = {#}"
  by (simp add: suspended_def)

lemma suspended_add:
  assumes "finite (dom ops)" "ops p = None"
  shows "suspended aw (ops(p \<mapsto> x)) = add_mset (p, aw x) (suspended aw ops)"
proof -
  have "image_mset (\<lambda>q. (q, aw (the ((ops(p \<mapsto> x)) q)))) (mset_set (dom ops)) = suspended aw ops"
    unfolding suspended_def using assms by (intro image_mset_cong) (auto simp: dom_def)
  with assms show ?thesis by (simp add: suspended_def domIff)
qed

lemma suspended_del:
  assumes "finite (dom ops)" "ops p = Some x"
  shows "suspended aw ops = add_mset (p, aw x) (suspended aw (ops(p := None)))"
proof -
  have "ops = (ops(p := None))(p \<mapsto> x)" using assms(2) by auto
  then show ?thesis using suspended_add [of "ops(p := None)" p aw x] assms(1) by simp
qed

lemma suspended_same:
  assumes "finite (dom ops)" "ops p = Some x" "aw x' = aw x"
  shows "suspended aw (ops(p \<mapsto> x')) = suspended aw ops"
  using suspended_add [of "ops(p := None)" p aw x'] suspended_del [OF assms(1,2), of aw] assms(1,3) by simp

lemma context_inv_kern [simp]: "context_inv (m\<lparr>cm_kern := w\<rparr>) = context_inv m"
  by (auto intro: context_inv_fields)

text \<open>
  For a relation \<open>holds\<close> between the world, the suspended objects and the entries taken and not looked at, and a relation \<open>same\<close> of what an
  object keeps while it is suspended.
\<close>

definition object_inv ::
  "('o \<Rightarrow> nat) \<Rightarrow> ('o \<Rightarrow> 'o \<Rightarrow> bool) \<Rightarrow> ('w \<Rightarrow> (nat \<Rightarrow> 'o option) \<Rightarrow> nat multiset \<Rightarrow> bool) \<Rightarrow> ('o, 'w) objects \<Rightarrow> bool" where
  "object_inv aw same holds s \<longleftrightarrow>
     context_inv (lp_run s) \<and> \<not> lp_fault s \<and>
     holds (cm_kern (lp_run s)) (lp_ops s) (entries (lp_run s)) \<and>
     finite (dom (lp_ops s)) \<and> mset (lp_started s) = mset (lp_continued s) + suspended aw (lp_ops s) \<and>
     (\<forall>p x. lp_ops s p = Some x \<longrightarrow> same (lp_made s p) x)"

text \<open>
  What must be kept: by awaiting an object that \<open>may\<close> be awaited, by a dispatch that ends the waiting or not, by an interrupt and by a wait;
  and every entry must be a suspended object.
\<close>

definition taken_entries :: "wait_result \<Rightarrow> nat multiset" where
  "taken_entries r = (case r of Wait_break _ \<Rightarrow> {#} | Wait_entries es \<Rightarrow> mset (filter (\<lambda>e. e \<noteq> 0) es))"

locale object_loop =
  fixes V :: "('o, 'w) virtuals"
    and wait :: "'w \<Rightarrow> wait_result \<times> 'w" and interrupt :: "'w \<Rightarrow> 'w"
    and same :: "'o \<Rightarrow> 'o \<Rightarrow> bool"
    and holds :: "'w \<Rightarrow> (nat \<Rightarrow> 'o option) \<Rightarrow> nat multiset \<Rightarrow> bool"
    and may :: "(nat \<Rightarrow> 'o option) \<Rightarrow> 'o \<Rightarrow> bool"
    and ok :: bool
  assumes begin_keeps: "ok \<Longrightarrow> holds w ops left \<Longrightarrow> vt_guard V w x \<Longrightarrow> may ops x \<Longrightarrow> p \<noteq> 0 \<Longrightarrow> ops p = None \<Longrightarrow>
      vt_begin V p a (x, w) = Some (b, x', w') \<Longrightarrow>
      holds w' (ops(p := if b then None else Some x')) left \<and> (\<not> b \<longrightarrow> same x x' \<and> vt_awaiter V x' = a)"
    and entry_suspended: "ok \<Longrightarrow> holds w ops (add_mset p left) \<Longrightarrow> \<exists>x. ops p = Some x"
    and resume_keeps: "ok \<Longrightarrow> holds w ops (add_mset p left) \<Longrightarrow> ops p = Some x \<Longrightarrow> vt_resume V p (x, w) = Some (b, x', w') \<Longrightarrow>
      holds w' (ops(p := if b then None else Some x')) left \<and> same x x' \<and> vt_awaiter V x' = vt_awaiter V x"
    and interrupt_keeps: "ok \<Longrightarrow> holds w ops left \<Longrightarrow> holds (interrupt w) ops left"
    and wait_keeps: "ok \<Longrightarrow> holds w ops left \<Longrightarrow> wait w = (r, w') \<Longrightarrow> holds w' ops (left + taken_entries r)"
    and same_trans: "same x y \<Longrightarrow> same y z \<Longrightarrow> same x z"
begin

lemma object_inv_await:
  assumes ok and inv: "object_inv (vt_awaiter V) same holds s"
    and p: "p \<noteq> 0" "lp_ops s p = None" "vt_guard V (cm_kern (lp_run s)) x" "may (lp_ops s) x"
    and step: "object_await V p a x s = Some s'"
  shows "object_inv (vt_awaiter V) same holds s'"
proof -
  obtain b x' w where b: "vt_begin V p a (x, cm_kern (lp_run s)) = Some (b, x', w)"
    using step by (auto simp: object_await_def split: option.splits)
  have h: "holds (cm_kern (lp_run s)) (lp_ops s) (entries (lp_run s))" and fin: "finite (dom (lp_ops s))"
    using inv by (simp_all add: object_inv_def)
  note res = begin_keeps [OF assms(1) h p(3,4,1,2) b]
  show ?thesis
  proof (cases b)
    case True
    have "(lp_ops s)(p := None) = lp_ops s" using p(2) by auto
    with True step b inv res p(2) show ?thesis by (auto simp: object_await_def object_inv_def)
  next
    case False
    with step b inv res p(2) suspended_add [OF fin p(2), of "vt_awaiter V" x'] show ?thesis
      by (auto simp: object_await_def object_inv_def)
  qed
qed

lemma object_inv_dispatch:
  assumes ok and inv: "object_inv (vt_awaiter V) same holds s" "context_inv m"
    and m: "cm_kern m = cm_kern (lp_run s)" "entries (lp_run s) = add_mset p (entries m)"
    and step: "object_dispatch V p m s = Some s'"
  shows "object_inv (vt_awaiter V) same holds s'"
proof -
  have h: "holds (cm_kern m) (lp_ops s) (add_mset p (entries m))" and fin: "finite (dom (lp_ops s))"
    using inv(1) m by (simp_all add: object_inv_def)
  from entry_suspended [OF assms(1) h] obtain x where x: "lp_ops s p = Some x" by blast
  obtain b x' w where b: "vt_resume V p (x, cm_kern m) = Some (b, x', w)"
    using step x by (auto simp: object_dispatch_def split: option.splits)
  note res = resume_keeps [OF assms(1) h x b]
  show ?thesis
  proof (cases b)
    case True
    with step b inv x res suspended_del [OF fin x, of "vt_awaiter V"] show ?thesis
      by (auto simp: object_dispatch_def object_inv_def split: if_split_asm)
  next
    case False
    have "same (lp_made s p) x'" using res inv(1) x by (auto simp: object_inv_def intro: same_trans)
    with False step b inv x res suspended_same [OF fin x, of "vt_awaiter V" x'] show ?thesis
      by (auto simp: object_dispatch_def object_inv_def split: if_split_asm)
  qed
qed

lemma object_inv_step:
  assumes ok and env: "\<And>w w' ops left. env w w' \<Longrightarrow> holds w ops left \<Longrightarrow> holds w' ops left" and inv: "object_inv (vt_awaiter V) same holds s"
    and may: "\<And>p b x. a = Await p b x \<Longrightarrow> may (lp_ops s) x"
    and step: "object_exec V wait wakes interrupt env a s = Some s'"
  shows "object_inv (vt_awaiter V) same holds s'"
proof (cases a)
  case (Await p aw x)
  with step object_inv_await [OF assms(1) inv, of p x aw s'] may show ?thesis by (auto split: if_splits)
next
  case (Loop act)
  with step obtain m where m: "context_exec wait wakes interrupt env act (lp_run s) = Some m"
    by (auto split: option.splits)
  have old: "context_inv (lp_run s)" using inv by (simp add: object_inv_def)
  have new: "context_inv m" by (rule context_inv_step [OF old m])
  show ?thesis
  proof (cases "dispatched act (lp_run s)")
    case (Some p)
    with Loop step m have "object_dispatch V p m s = Some s'" by simp
    with object_inv_dispatch [OF assms(1) inv new _ _ this] context_step_dispatch [OF old m Some] show ?thesis by blast
  next
    case None
    with Loop step m have s': "s' = s\<lparr>lp_run := m\<rparr>" by simp
    have h: "holds (cm_kern (lp_run s)) (lp_ops s) (entries (lp_run s))" using inv by (simp add: object_inv_def)
    from context_step_quiet [OF old m None] have "holds (cm_kern m) (lp_ops s) (entries m)"
      unfolding quiet_step_def taken_entries_def [symmetric]
      using h interrupt_keeps [OF assms(1) h] wait_keeps [OF assms(1) h] env by auto
    with s' new inv show ?thesis by (simp add: object_inv_def)
  qed
qed

end

end
