(* ===== verification/Ice_Loop.thy ===== *)
theory Ice_Loop
  imports Ice_Udp Ice_Objects
begin

text \<open>
  The operations as the event loop meets them, on Linux and FreeBSD. An event object is known to the kernel by its address only:
  \<open>queue_recv\<close> and \<open>queue_send\<close> store it in the registration, the wait gives it back, and \<open>run\<close> calls the virtual function
  \<open>await_resume\<close> of whatever lies there. Here are the virtual calls on an object of one of the eight classes of
  include/ice/net/tcp/socket.h and include/ice/net/udp/socket.h, and what they do to the registrations.

  The locale \<open>notifier\<close> is what the operations need of a kernel's event queue, for an observation \<open>regs\<close> of its registrations:
  registering, giving up, and that their other calls leave it alone; \<open>Ice_Loop_Linux\<close> provides it by \<open>epoll\<close> and
  \<open>Ice_Loop_Bsd\<close> by \<open>kqueue\<close>. The locale \<open>loop_class\<close> is what a class of operations does to the registrations, and every class is
  one over every \<open>notifier\<close>.
\<close>

section \<open>The event queue of the kernel\<close>

definition natives :: "'a event_scheme \<Rightarrow> int \<times> int" where
  "natives e = (ev_native_context e, ev_native_id e)"

text \<open>The system call of \<open>queue_recv\<close> (\<open>EVFILT_READ\<close>) and \<open>queue_send\<close> (\<open>EVFILT_WRITE\<close>), with the entry it passes.\<close>

definition queue_entry :: "unix \<Rightarrow> ev_filter \<Rightarrow> nat \<Rightarrow> int \<Rightarrow> native_event" where
  "queue_entry u f this fd =
     (case u of
        Linux \<Rightarrow> Epoll_event {if f = EVFILT_READ then EPOLLIN else EPOLLOUT, EPOLLONESHOT} this
      | FreeBSD \<Rightarrow> Kevent fd f {EV_ADD, EV_ONESHOT} {} this)"

definition queue_call :: "unix \<Rightarrow> 'k usys \<Rightarrow> ev_filter \<Rightarrow> nat \<Rightarrow> int \<times> int \<Rightarrow> 'k \<Rightarrow> int \<times> int \<times> 'k" where
  "queue_call u U f this t k =
     (case u of
        Linux \<Rightarrow> sys_epoll_ctl U (fst t) EPOLL_CTL_ADD (snd t) (queue_entry u f this (snd t)) k
      | FreeBSD \<Rightarrow> sys_kevent U (fst t) (queue_entry u f this (snd t)) k)"

text \<open>The calls the operations make besides change no registration.\<close>

definition calls_ok :: "'k usys \<Rightarrow> ('k \<Rightarrow> 'r) \<Rightarrow> bool" where
  "calls_ok U regs \<longleftrightarrow>
     (\<forall>fd n k. case sys_read U fd n k of (_, _, _, k') \<Rightarrow> regs k' = regs k) \<and>
     (\<forall>fd bs k. case sys_write U fd bs k of (_, _, k') \<Rightarrow> regs k' = regs k) \<and>
     (\<forall>fd a n k. case sys_accept4 U fd a n k of (_, _, _, _, k') \<Rightarrow> regs k' = regs k) \<and>
     (\<forall>fd a n k. case sys_connect U fd a n k of (_, _, k') \<Rightarrow> regs k' = regs k) \<and>
     (\<forall>fd l nm n k. case sys_getsockopt U fd l nm n k of (_, _, _, _, k') \<Rightarrow> regs k' = regs k) \<and>
     (\<forall>fd n a l k. case sys_recvfrom U fd n a l k of (_, _, _, _, _, k') \<Rightarrow> regs k' = regs k) \<and>
     (\<forall>fd bs a l k. case sys_sendto U fd bs a l k of (_, _, k') \<Rightarrow> regs k' = regs k)"

lemma calls_okD:
  assumes "calls_ok U regs"
  shows "sys_read U fd n k = (rc, errno, bs, k') \<Longrightarrow> regs k' = regs k"
    and "sys_write U fd bs k = (rc, errno, k') \<Longrightarrow> regs k' = regs k"
    and "sys_accept4 U fd a l k = (rc, errno, a', l', k') \<Longrightarrow> regs k' = regs k"
    and "sys_connect U fd a l k = (rc, errno, k') \<Longrightarrow> regs k' = regs k"
    and "sys_getsockopt U fd lv nm l k = (rc, errno, d, l', k') \<Longrightarrow> regs k' = regs k"
    and "sys_recvfrom U fd n a l k = (rc, errno, bs, a', l', k') \<Longrightarrow> regs k' = regs k"
    and "sys_sendto U fd bs a l k = (rc, errno, k') \<Longrightarrow> regs k' = regs k"
proof -
  note c = assms [unfolded calls_ok_def]
  show "sys_read U fd n k = (rc, errno, bs, k') \<Longrightarrow> regs k' = regs k"
    using c [THEN conjunct1, THEN spec [where x = fd], THEN spec [where x = n], THEN spec [where x = k]] by simp
  show "sys_write U fd bs k = (rc, errno, k') \<Longrightarrow> regs k' = regs k"
    using c [THEN conjunct2, THEN conjunct1, THEN spec [where x = fd], THEN spec [where x = bs], THEN spec [where x = k]] by simp
  show "sys_accept4 U fd a l k = (rc, errno, a', l', k') \<Longrightarrow> regs k' = regs k"
    using c [THEN conjunct2, THEN conjunct2, THEN conjunct1, THEN spec [where x = fd], THEN spec [where x = a], THEN spec [where x = l], THEN spec [where x = k]] by simp
  note c = c [THEN conjunct2, THEN conjunct2, THEN conjunct2]
  show "sys_connect U fd a l k = (rc, errno, k') \<Longrightarrow> regs k' = regs k"
    using c [THEN conjunct1, THEN spec [where x = fd], THEN spec [where x = a], THEN spec [where x = l], THEN spec [where x = k]] by simp
  show "sys_getsockopt U fd lv nm l k = (rc, errno, d, l', k') \<Longrightarrow> regs k' = regs k"
    using c [THEN conjunct2, THEN conjunct1, THEN spec [where x = fd], THEN spec [where x = lv], THEN spec [where x = nm], THEN spec [where x = l], THEN spec [where x = k]] by simp
  note c = c [THEN conjunct2, THEN conjunct2]
  show "sys_recvfrom U fd n a l k = (rc, errno, bs, a', l', k') \<Longrightarrow> regs k' = regs k"
    using c [THEN conjunct1, THEN spec [where x = fd], THEN spec [where x = n], THEN spec [where x = a], THEN spec [where x = l], THEN spec [where x = k]] by simp
  show "sys_sendto U fd bs a l k = (rc, errno, k') \<Longrightarrow> regs k' = regs k"
    using c [THEN conjunct2, THEN spec [where x = fd], THEN spec [where x = bs], THEN spec [where x = a], THEN spec [where x = l], THEN spec [where x = k]] by simp
qed

lemma connect_loop_regs:
  fixes regs :: "'k \<Rightarrow> 'r"
  assumes "calls_ok U regs"
  shows "connect_loop u U h a n k = Some (b, err, k') \<Longrightarrow> regs k' = regs k"
proof -
  assume "connect_loop u U h a n k = Some (b, err, k')"
  then have "calls_ok U regs \<longrightarrow> (case (b, err, k') of (b, err, k') \<Rightarrow> regs k' = regs k)"
  proof (rule connect_loop.raw_induct [where P = "\<lambda>u U h a n k r. calls_ok U regs \<longrightarrow> (case r of (b, err, k') \<Rightarrow> regs k' = regs k)", rotated], intro impI)
    fix loop u U h a n and k :: 'k and r :: "bool \<times> int option \<times> 'k"
    assume IH: "\<And>u U h a n k r. loop u U h a n k = Some r \<Longrightarrow> calls_ok U regs \<longrightarrow> (case r of (b, err, k') \<Rightarrow> regs k' = regs k)"
      and r: "(case sys_connect U h a n k of (rc, errno, k') \<Rightarrow>
        if rc = 0 then Some (True, None, k') else if errno = EINPROGRESS U then Some (False, None, k')
        else if errno = EINTR U then (case u of Linux \<Rightarrow> loop u U h a n k' | FreeBSD \<Rightarrow> Some (False, None, k'))
        else Some (False, Some errno, k')) = Some r"
      and ok: "calls_ok U regs"
    obtain rc errno k1 where c: "sys_connect U h a n k = (rc, errno, k1)" by (metis prod_cases3)
    from calls_okD(4) [OF ok c] r c IH [of u U h a n k1 r] ok
    show "case r of (b, err, k') \<Rightarrow> regs k' = regs k" by (auto split: if_splits unix.splits)
  qed
  with assms show ?thesis by simp
qed

text \<open>
  \<open>registers t f p r r'\<close>: a successful call for the target \<open>t\<close>, a context and a descriptor, in the direction \<open>f\<close> with the pointer \<open>p\<close> takes
  the registrations from \<open>r\<close> to \<open>r'\<close>; \<open>releases t r r'\<close> for \<open>event::remove\<close>, which does nothing on FreeBSD.
\<close>

locale notifier =
  fixes u :: unix and U :: "'k usys" and regs :: "'k \<Rightarrow> 'r"
    and registers :: "int \<times> int \<Rightarrow> ev_filter \<Rightarrow> nat \<Rightarrow> 'r \<Rightarrow> 'r \<Rightarrow> bool"
    and releases :: "int \<times> int \<Rightarrow> 'r \<Rightarrow> 'r \<Rightarrow> bool"
    and ok :: bool
  assumes register_law: "ok \<Longrightarrow> f \<noteq> EVFILT_USER \<Longrightarrow> queue_call u U f this t k = (rc, errno, k') \<Longrightarrow>
      (if rc < 0 then regs k' = regs k \<and> 0 < errno \<and> errno < 2 ^ 28
       else registers t f this (regs k) (regs k') \<and> (u = Linux \<longrightarrow> fst t \<noteq> -1 \<and> snd t \<noteq> -1))"
    and release_law: "ok \<Longrightarrow> u = Linux \<Longrightarrow> sys_epoll_ctl U (fst t) EPOLL_CTL_DEL (snd t) ev k = (rc, errno, k') \<Longrightarrow>
      releases t (regs k) (regs k')"
    and no_release: "u = FreeBSD \<Longrightarrow> releases t r r"
    and calls_keep: "ok \<Longrightarrow> calls_ok U regs"

section \<open>The contract of one class of operations\<close>

text \<open>On Linux a registered event knows what it is registered for.\<close>

definition holds_target :: "unix \<Rightarrow> 'a event_scheme \<Rightarrow> int \<times> int \<Rightarrow> bool" where
  "holds_target u e t \<longleftrightarrow> (u = Linux \<longrightarrow> natives e = t \<and> fst t \<noteq> -1 \<and> snd t \<noteq> -1)"

text \<open>
  \<open>await_ready\<close> and \<open>resume\<close> leave the registrations and the event's own fields alone; \<open>suspend\<close> registers the address of the
  object for the target of the operation, or leaves an error.
\<close>

locale registering =
  fixes u :: unix and regs :: "'k \<Rightarrow> 'r"
    and registers :: "int \<times> int \<Rightarrow> ev_filter \<Rightarrow> nat \<Rightarrow> 'r \<Rightarrow> 'r \<Rightarrow> bool"
    and releases :: "int \<times> int \<Rightarrow> 'r \<Rightarrow> 'r \<Rightarrow> bool"
    and this :: nat
    and ready suspend resume :: "('a event_scheme, ('k, 'm) world_scheme) op_call"
    and remove :: "'a event_scheme \<times> ('k, 'm) world_scheme \<Rightarrow> 'a event_scheme \<times> ('k, 'm) world_scheme"
    and target :: "'a event_scheme \<Rightarrow> int \<times> int" and filt :: ev_filter
    and sane :: "'a event_scheme \<Rightarrow> bool"
  assumes ready_keeps: "sane e \<Longrightarrow> ready (e, w) = Some (b, e', w') \<Longrightarrow>
      regs (w_kern w') = regs (w_kern w) \<and> target e' = target e \<and> natives e' = natives e \<and> ev_awaiter e' = ev_awaiter e \<and>
      (\<not> b \<longrightarrow> sane e')"
    and resume_keeps: "sane e \<Longrightarrow> resume (e, w) = Some (b, e', w') \<Longrightarrow>
      regs (w_kern w') = regs (w_kern w) \<and> target e' = target e \<and> natives e' = natives e \<and> ev_awaiter e' = ev_awaiter e \<and>
      (\<not> b \<longrightarrow> sane e')"
    and suspend_registers: "sane e \<Longrightarrow> suspend (e, w) = Some (b, e', w') \<Longrightarrow>
      sane e' \<and> target e' = target e \<and> ev_awaiter e' = ev_awaiter e \<and>
      (if b then registers (target e) filt this (regs (w_kern w)) (regs (w_kern w')) \<and> holds_target u e' (target e)
       else regs (w_kern w') = regs (w_kern w) \<and> ec_bool (ev_ec e'))"
    and remove_releases: "sane e \<Longrightarrow> holds_target u e (target e) \<Longrightarrow> remove (e, w) = (e', w') \<Longrightarrow>
      sane e' \<and> target e' = target e \<and> ev_awaiter e' = ev_awaiter e \<and> releases (target e) (regs (w_kern w)) (regs (w_kern w'))"
    and awaiter_keeps: "sane e \<Longrightarrow> sane (e\<lparr>ev_awaiter := a\<rparr>) \<and> target (e\<lparr>ev_awaiter := a\<rparr>) = target e"
begin

definition waiting :: "'a event_scheme \<Rightarrow> bool" where
  "waiting e \<longleftrightarrow> sane e \<and> holds_target u e (target e)"

text \<open>Beginning to wait: nothing is registered, or the target is for this object.\<close>

lemma begin_law:
  assumes "sane e" "co_await_begin ready suspend a (e, w) = Some (b, e', w')"
  shows "target e' = target e \<and>
    (if b then regs (w_kern w') = regs (w_kern w)
     else waiting e' \<and> ev_awaiter e' = a \<and> registers (target e) filt this (regs (w_kern w)) (regs (w_kern w')))"
proof -
  obtain r e1 w1 where r: "ready (e, w) = Some (r, e1, w1)"
    using assms(2) by (auto simp: co_await_begin_def split: option.splits)
  note k = ready_keeps [OF assms(1) r]
  show ?thesis
  proof (cases r)
    case True
    with k r assms(2) show ?thesis by (auto simp: co_await_begin_def)
  next
    case False
    with k have s: "sane (e1\<lparr>ev_awaiter := a\<rparr>)" "target (e1\<lparr>ev_awaiter := a\<rparr>) = target e" using awaiter_keeps [of e1 a] by auto
    from False r assms(2) have "suspend (e1\<lparr>ev_awaiter := a\<rparr>, w1) = Some (\<not> b, e', w')"
      by (auto simp: co_await_begin_def event_await_suspend_def)
    from suspend_registers [OF s(1) this] s(2) k show ?thesis by (auto simp: waiting_def split: if_splits)
  qed
qed

text \<open>Where the kernel cannot register the target, an operation that is not ready is given an error and does not wait.\<close>

lemma begin_taken:
  assumes "sane e" "ready (e, w) = Some (False, e1, w1)" "\<And>r. \<not> registers (target e) filt this (regs (w_kern w)) r"
    and "co_await_begin ready suspend a (e, w) = Some (b, e', w')"
  shows "b \<and> ec_bool (ev_ec e') \<and> regs (w_kern w') = regs (w_kern w)"
proof -
  note k = ready_keeps [OF assms(1,2)]
  then have s: "sane (e1\<lparr>ev_awaiter := a\<rparr>)" "target (e1\<lparr>ev_awaiter := a\<rparr>) = target e" using awaiter_keeps [of e1 a] by auto
  from assms(2,4) have "suspend (e1\<lparr>ev_awaiter := a\<rparr>, w1) = Some (\<not> b, e', w')"
    by (auto simp: co_await_begin_def event_await_suspend_def)
  from suspend_registers [OF s(1) this] s(2) k assms(3) show ?thesis by (auto split: if_splits)
qed

text \<open>A dispatch: the registration is given up, and made again if the operation goes on waiting.\<close>

lemma dispatch_law:
  assumes "waiting e" "event_await_resume remove resume suspend (e, w) = Some (b, e', w')"
  shows "target e' = target e \<and> ev_awaiter e' = ev_awaiter e \<and>
    (\<exists>r. releases (target e) (regs (w_kern w)) r \<and>
       (if b then regs (w_kern w') = r else waiting e' \<and> registers (target e) filt this r (regs (w_kern w'))))"
proof -
  obtain e1 w1 where r: "remove (e, w) = (e1, w1)" by (metis prod.exhaust)
  from assms(1) have sane: "sane e" and held: "holds_target u e (target e)" by (auto simp: waiting_def)
  note k1 = remove_releases [OF sane held r]
  obtain d e2 w2 where d: "resume (e1, w1) = Some (d, e2, w2)"
    using assms(2) r by (auto simp: event_await_resume_def split: option.splits)
  from k1 have s1: "sane e1" ..
  note k2 = resume_keeps [OF s1 d]
  show ?thesis
  proof (cases d)
    case True
    with k1 k2 r d assms(2) show ?thesis by (auto simp: event_await_resume_def)
  next
    case False
    with k2 have "sane e2" by simp
    moreover from False r d assms(2) have "suspend (e2, w2) = Some (\<not> b, e', w')"
      by (auto simp: event_await_resume_def split: option.splits)
    ultimately show ?thesis using suspend_registers [of e2 w2 "\<not> b" e' w'] k1 k2
      by (intro conjI exI [of _ "regs (w_kern w1)"]) (auto simp: waiting_def split: if_splits)
  qed
qed

end

section \<open>Objects at addresses\<close>

text \<open>
  An object of one of the classes derived from \<open>event\<close>; its constructor is what the virtual table pointer tells. The TCP operations
  know the memory and the kernel only (\<open>on_world\<close>), the UDP operations the endpoint objects too.
\<close>

datatype operation =
    Accept accept_op
  | Connect connect_op
  | Recv recv_op
  | Send send_op
  | Send_some send_op
  | Udp_recv udp_recv_op
  | Udp_send udp_send_op
  | Udp_send_some udp_send_op

definition on_world ::
  "('e \<times> 'k world \<Rightarrow> (bool \<times> 'e \<times> 'k world) option) \<Rightarrow> 'e \<times> 'k udp_world \<Rightarrow> (bool \<times> 'e \<times> 'k udp_world) option" where
  "on_world f = (\<lambda>(e, w). map_option (\<lambda>(b, e', v). (b, e', w\<lparr>w_mem := w_mem v, w_kern := w_kern v\<rparr>))
     (f (e, \<lparr>w_mem = w_mem w, w_kern = w_kern w\<rparr>)))"

fun op_event :: "operation \<Rightarrow> event" where
  "op_event (Accept e) = event.truncate e"
| "op_event (Connect e) = event.truncate e"
| "op_event (Recv e) = event.truncate e"
| "op_event (Send e) = event.truncate e"
| "op_event (Send_some e) = event.truncate e"
| "op_event (Udp_recv e) = event.truncate e"
| "op_event (Udp_send e) = event.truncate e"
| "op_event (Udp_send_some e) = event.truncate e"

definition accept_target :: "accept_op \<Rightarrow> int \<times> int" where "accept_target e = (ac_context e, ac_socket e)"
definition connect_target :: "connect_op \<Rightarrow> int \<times> int" where "connect_target e = (co_context e, co_socket e)"
definition recv_target :: "recv_op \<Rightarrow> int \<times> int" where "recv_target e = (rc_context e, rc_socket e)"
definition send_target :: "send_op \<Rightarrow> int \<times> int" where "send_target e = (sd_context e, sd_socket e)"
definition udp_recv_target :: "udp_recv_op \<Rightarrow> int \<times> int" where "udp_recv_target e = (ur_context e, ur_socket e)"
definition udp_send_target :: "udp_send_op \<Rightarrow> int \<times> int" where "udp_send_target e = (us_context e, us_socket e)"

lemmas target_defs = accept_target_def connect_target_def recv_target_def send_target_def udp_recv_target_def udp_send_target_def

fun op_target :: "operation \<Rightarrow> int \<times> int" where
  "op_target (Accept e) = accept_target e"
| "op_target (Connect e) = connect_target e"
| "op_target (Recv e) = recv_target e"
| "op_target (Send e) = send_target e"
| "op_target (Send_some e) = send_target e"
| "op_target (Udp_recv e) = udp_recv_target e"
| "op_target (Udp_send e) = udp_send_target e"
| "op_target (Udp_send_some e) = udp_send_target e"

fun op_filter :: "operation \<Rightarrow> ev_filter" where
  "op_filter (Accept e) = EVFILT_READ"
| "op_filter (Connect e) = EVFILT_WRITE"
| "op_filter (Recv e) = EVFILT_READ"
| "op_filter (Send e) = EVFILT_WRITE"
| "op_filter (Send_some e) = EVFILT_WRITE"
| "op_filter (Udp_recv e) = EVFILT_READ"
| "op_filter (Udp_send e) = EVFILT_WRITE"
| "op_filter (Udp_send_some e) = EVFILT_WRITE"

text \<open>The virtual calls: \<open>await_ready\<close>, \<open>co_await\<close> up to the suspension, and \<open>await_resume\<close> of the event.\<close>

fun op_ready :: "unix \<Rightarrow> 'k usys \<Rightarrow> net_abi \<Rightarrow> operation \<times> 'k udp_world \<Rightarrow> (bool \<times> operation \<times> 'k udp_world) option" where
  "op_ready u U A (Accept e, w) = op_wrap Accept (on_world (accept_ready U A)) (e, w)"
| "op_ready u U A (Connect e, w) = op_wrap Connect (on_world (connect_ready u U)) (e, w)"
| "op_ready u U A (Recv e, w) = op_wrap Recv (on_world (recv_ready U)) (e, w)"
| "op_ready u U A (Send e, w) = op_wrap Send (on_world (send_ready U)) (e, w)"
| "op_ready u U A (Send_some e, w) = op_wrap Send_some (on_world (send_some_ready U)) (e, w)"
| "op_ready u U A (Udp_recv e, w) = op_wrap Udp_recv (udp_recv_ready U A) (e, w)"
| "op_ready u U A (Udp_send e, w) = op_wrap Udp_send (udp_send_ready U) (e, w)"
| "op_ready u U A (Udp_send_some e, w) = op_wrap Udp_send_some (udp_send_some_ready U) (e, w)"

fun op_begin :: "unix \<Rightarrow> 'k usys \<Rightarrow> net_abi \<Rightarrow> nat \<Rightarrow> nat \<Rightarrow> operation \<times> 'k udp_world \<Rightarrow> (bool \<times> operation \<times> 'k udp_world) option" where
  "op_begin u U A this a (Accept e, w) =
     op_wrap Accept (on_world (co_await_begin (accept_ready U A) (accept_suspend u U this) a)) (e, w)"
| "op_begin u U A this a (Connect e, w) =
     op_wrap Connect (on_world (co_await_begin (connect_ready u U) (connect_suspend u U this) a)) (e, w)"
| "op_begin u U A this a (Recv e, w) =
     op_wrap Recv (on_world (co_await_begin (recv_ready U) (recv_suspend u U this) a)) (e, w)"
| "op_begin u U A this a (Send e, w) =
     op_wrap Send (on_world (co_await_begin (send_ready U) (send_suspend u U this) a)) (e, w)"
| "op_begin u U A this a (Send_some e, w) =
     op_wrap Send_some (on_world (co_await_begin (send_some_ready U) (send_some_suspend u U this) a)) (e, w)"
| "op_begin u U A this a (Udp_recv e, w) =
     op_wrap Udp_recv (co_await_begin (udp_recv_ready U A) (udp_recv_suspend u U this) a) (e, w)"
| "op_begin u U A this a (Udp_send e, w) =
     op_wrap Udp_send (co_await_begin (udp_send_ready U) (udp_send_suspend u U this) a) (e, w)"
| "op_begin u U A this a (Udp_send_some e, w) =
     op_wrap Udp_send_some (co_await_begin (udp_send_some_ready U) (udp_send_some_suspend u U this) a) (e, w)"

fun op_await_resume :: "unix \<Rightarrow> 'k usys \<Rightarrow> net_abi \<Rightarrow> nat \<Rightarrow> operation \<times> 'k udp_world \<Rightarrow> (bool \<times> operation \<times> 'k udp_world) option" where
  "op_await_resume u U A this (Accept e, w) =
     op_wrap Accept (on_world (event_await_resume (event_remove u U) (accept_resume U A) (accept_suspend u U this))) (e, w)"
| "op_await_resume u U A this (Connect e, w) =
     op_wrap Connect (on_world (event_await_resume (event_remove u U) (connect_resume U A) (connect_suspend u U this))) (e, w)"
| "op_await_resume u U A this (Recv e, w) =
     op_wrap Recv (on_world (event_await_resume (event_remove u U) (recv_resume U) (recv_suspend u U this))) (e, w)"
| "op_await_resume u U A this (Send e, w) =
     op_wrap Send (on_world (event_await_resume (event_remove u U) (send_resume U) (send_suspend u U this))) (e, w)"
| "op_await_resume u U A this (Send_some e, w) =
     op_wrap Send_some (on_world (event_await_resume (event_remove u U) (send_some_resume U) (send_some_suspend u U this))) (e, w)"
| "op_await_resume u U A this (Udp_recv e, w) =
     op_wrap Udp_recv (event_await_resume (event_remove u U) (udp_recv_resume U A) (udp_recv_suspend u U this)) (e, w)"
| "op_await_resume u U A this (Udp_send e, w) =
     op_wrap Udp_send (event_await_resume (event_remove u U) (udp_send_resume U) (udp_send_suspend u U this)) (e, w)"
| "op_await_resume u U A this (Udp_send_some e, w) =
     op_wrap Udp_send_some (event_await_resume (event_remove u U) (udp_send_some_resume U) (udp_send_some_suspend u U this)) (e, w)"

declare op_ready.simps [simp del] op_begin.simps [simp del] op_await_resume.simps [simp del]

fun same_class :: "operation \<Rightarrow> operation \<Rightarrow> bool" where
  "same_class (Accept _) x = (case x of Accept _ \<Rightarrow> True | _ \<Rightarrow> False)"
| "same_class (Connect _) x = (case x of Connect _ \<Rightarrow> True | _ \<Rightarrow> False)"
| "same_class (Recv _) x = (case x of Recv _ \<Rightarrow> True | _ \<Rightarrow> False)"
| "same_class (Send _) x = (case x of Send _ \<Rightarrow> True | _ \<Rightarrow> False)"
| "same_class (Send_some _) x = (case x of Send_some _ \<Rightarrow> True | _ \<Rightarrow> False)"
| "same_class (Udp_recv _) x = (case x of Udp_recv _ \<Rightarrow> True | _ \<Rightarrow> False)"
| "same_class (Udp_send _) x = (case x of Udp_send _ \<Rightarrow> True | _ \<Rightarrow> False)"
| "same_class (Udp_send_some _) x = (case x of Udp_send_some _ \<Rightarrow> True | _ \<Rightarrow> False)"

text \<open>What the constructors make: the client socket of an \<open>accept\<close> holds no descriptor yet.\<close>

definition op_sane :: "operation \<Rightarrow> bool" where
  "op_sane x \<longleftrightarrow> (case x of Accept e \<Rightarrow> sk_handle (ac_client e) = -1 | _ \<Rightarrow> True)"

lemma op_sane_make:
  "op_sane (Accept (accept_make p junk s))" "op_sane (Connect e1)" "op_sane (Recv e2)" "op_sane (Send e3)" "op_sane (Send_some e3)"
  "op_sane (Udp_recv e4)" "op_sane (Udp_send e5)" "op_sane (Udp_send_some e5)"
  by (simp_all add: op_sane_def accept_make_def event.defs accept_op.defs socket_empty_def)

lemma same_class_trans: "same_class x y \<Longrightarrow> same_class y z \<Longrightarrow> same_class x z"
  by (cases x; cases y; cases z) simp_all

lemma same_class_filter: "same_class x y \<Longrightarrow> op_filter y = op_filter x"
  by (cases x; cases y) simp_all

definition op_waiting :: "unix \<Rightarrow> operation \<Rightarrow> bool" where
  "op_waiting u x \<longleftrightarrow> op_sane x \<and> holds_target u (op_event x) (op_target x)"

lemma natives_truncate [simp]: "natives (event.truncate e) = natives e" "ev_awaiter (event.truncate e) = ev_awaiter e"
  "ev_ec (event.truncate e) = ev_ec e" "holds_target u (event.truncate e) t = holds_target u e t"
  by (simp_all add: natives_def event.truncate_def holds_target_def)

definition tcp_world :: "'k udp_world \<Rightarrow> 'k world" where
  "tcp_world w = \<lparr>w_mem = w_mem w, w_kern = w_kern w\<rparr>"

lemma on_world_at:
  assumes "op_wrap C (on_world f) (e, w) = Some (b, x, w')"
  shows "\<exists>e'. x = C e' \<and> f (e, tcp_world w) = Some (b, e', tcp_world w')"
  using assms by (auto simp: op_wrap_def on_world_def tcp_world_def)

section \<open>What an operation does to the registrations\<close>

definition begin_result ::
  "unix \<Rightarrow> (int \<times> int \<Rightarrow> ev_filter \<Rightarrow> nat \<Rightarrow> 'r \<Rightarrow> 'r \<Rightarrow> bool) \<Rightarrow> nat \<Rightarrow> nat \<Rightarrow> operation \<Rightarrow> 'r \<Rightarrow> bool \<Rightarrow> operation \<Rightarrow> 'r \<Rightarrow> bool" where
  "begin_result u registers this a x r b x' r' \<longleftrightarrow> same_class x x' \<and> op_target x' = op_target x \<and>
    (if b then r' = r
     else op_waiting u x' \<and> ev_awaiter (op_event x') = a \<and> registers (op_target x) (op_filter x) this r r')"

definition dispatch_result ::
  "unix \<Rightarrow> (int \<times> int \<Rightarrow> ev_filter \<Rightarrow> nat \<Rightarrow> 'r \<Rightarrow> 'r \<Rightarrow> bool) \<Rightarrow> (int \<times> int \<Rightarrow> 'r \<Rightarrow> 'r \<Rightarrow> bool) \<Rightarrow>
   nat \<Rightarrow> operation \<Rightarrow> 'r \<Rightarrow> bool \<Rightarrow> operation \<Rightarrow> 'r \<Rightarrow> bool" where
  "dispatch_result u registers releases this x r b x' r' \<longleftrightarrow>
    same_class x x' \<and> op_target x' = op_target x \<and> ev_awaiter (op_event x') = ev_awaiter (op_event x) \<and>
    (\<exists>r1. releases (op_target x) r r1 \<and>
       (if b then r' = r1 else op_waiting u x' \<and> registers (op_target x) (op_filter x) this r1 r'))"

text \<open>A class: its constructor among the operations, its part of the world, and that the virtual calls reach its functions.\<close>

locale loop_class = registering u regs registers releases this ready suspend resume remove target filt sane
  for u :: unix and regs :: "'k \<Rightarrow> 'r"
    and registers :: "int \<times> int \<Rightarrow> ev_filter \<Rightarrow> nat \<Rightarrow> 'r \<Rightarrow> 'r \<Rightarrow> bool"
    and releases :: "int \<times> int \<Rightarrow> 'r \<Rightarrow> 'r \<Rightarrow> bool"
    and this :: nat
    and ready suspend resume :: "('a event_scheme, ('k, 'm) world_scheme) op_call"
    and remove :: "'a event_scheme \<times> ('k, 'm) world_scheme \<Rightarrow> 'a event_scheme \<times> ('k, 'm) world_scheme"
    and target :: "'a event_scheme \<Rightarrow> int \<times> int" and filt :: ev_filter
    and sane :: "'a event_scheme \<Rightarrow> bool" +
  fixes U :: "'k usys" and A :: net_abi and ok :: bool
    and C :: "'a event_scheme \<Rightarrow> operation"
    and at :: "'k udp_world \<Rightarrow> ('k, 'm) world_scheme"
  assumes begin_as: "op_begin u U A this a (C e, w) = Some (b, x, w') \<Longrightarrow>
      \<exists>e'. x = C e' \<and> co_await_begin ready suspend a (e, at w) = Some (b, e', at w')"
    and resume_as: "op_await_resume u U A this (C e, w) = Some (b, x, w') \<Longrightarrow>
      \<exists>e'. x = C e' \<and> event_await_resume remove resume suspend (e, at w) = Some (b, e', at w')"
    and ready_as: "op_ready u U A (C e, w) = Some (b, x, w') \<Longrightarrow> \<exists>e'. x = C e' \<and> ready (e, at w) = Some (b, e', at w')"
    and at_kern: "w_kern (at w) = w_kern w"
    and class_as: "same_class (C e) (C e')" "op_target (C e) = target e" "op_filter (C e) = filt" "op_event (C e) = event.truncate e"
      "sane e \<longleftrightarrow> ok \<and> op_sane (C e)"
begin

lemma class_begin:
  assumes "ok" "op_sane (C e)" "op_begin u U A this a (C e, w) = Some (b, x, w')"
  shows "begin_result u registers this a (C e) (regs (w_kern w)) b x (regs (w_kern w'))"
proof -
  from begin_as [OF assms(3)] obtain e' where e': "x = C e'" "co_await_begin ready suspend a (e, at w) = Some (b, e', at w')" by blast
  from assms(1,2) have "sane e" by (simp add: class_as)
  from begin_law [OF this e'(2)] e'(1) show ?thesis
    by (auto simp: begin_result_def op_waiting_def waiting_def class_as at_kern)
qed

lemma class_taken:
  assumes "ok" "op_sane (C e)" "op_ready u U A (C e, w) = Some (False, x1, w1)"
    and "\<And>r. \<not> registers (op_target (C e)) (op_filter (C e)) this (regs (w_kern w)) r"
    and "op_begin u U A this a (C e, w) = Some (b, x, w')"
  shows "b \<and> ec_bool (ev_ec (op_event x)) \<and> same_class (C e) x"
proof -
  from begin_as [OF assms(5)] obtain e' where e': "x = C e'" "co_await_begin ready suspend a (e, at w) = Some (b, e', at w')" by blast
  from ready_as [OF assms(3)] obtain e1 where e1: "ready (e, at w) = Some (False, e1, at w1)" by blast
  from assms(1,2) have "sane e" by (simp add: class_as)
  from begin_taken [OF this e1 _ e'(2)] assms(4) e'(1) show ?thesis by (simp add: class_as at_kern)
qed

lemma class_dispatch:
  assumes "ok" "op_waiting u (C e)" "op_await_resume u U A this (C e, w) = Some (b, x, w')"
  shows "dispatch_result u registers releases this (C e) (regs (w_kern w)) b x (regs (w_kern w'))"
proof -
  from resume_as [OF assms(3)] obtain e'
    where e': "x = C e'" "event_await_resume remove resume suspend (e, at w) = Some (b, e', at w')" by blast
  from assms(1,2) have "waiting e" by (simp add: waiting_def op_waiting_def class_as)
  from dispatch_law [OF this e'(2)] e'(1) show ?thesis
    by (auto simp: dispatch_result_def op_waiting_def waiting_def class_as at_kern)
qed

end

section \<open>The eight classes\<close>

definition queue_result ::
  "unix \<Rightarrow> ('k \<Rightarrow> 'r) \<Rightarrow> ('r \<Rightarrow> 'r \<Rightarrow> bool) \<Rightarrow> int \<times> int \<Rightarrow>
   'a event_scheme \<times> ('k, 'm) world_scheme \<Rightarrow> bool \<times> 'a event_scheme \<times> ('k, 'm) world_scheme \<Rightarrow> bool" where
  "queue_result u regs reg t = (\<lambda>(e, w) (b, e', w').
     (\<exists>c i nev ec. e' = e\<lparr>ev_native_context := c, ev_native_id := i, ev_native := nev, ev_ec := ec\<rparr>) \<and>
     (if b then reg (regs (w_kern w)) (regs (w_kern w')) \<and> holds_target u e' t
      else regs (w_kern w') = regs (w_kern w) \<and> ec_bool (ev_ec e')))"

lemma queue_by_call:
  "queue_recv u U this c fd (e, w) =
     (case queue_call u U EVFILT_READ this (c, fd) (w_kern w) of (rc, errno, k) \<Rightarrow>
        let e1 = (if u = Linux then e\<lparr>ev_native_context := c, ev_native_id := fd, ev_native := queue_entry u EVFILT_READ this fd\<rparr>
                  else e\<lparr>ev_native := queue_entry u EVFILT_READ this fd\<rparr>)
        in if rc < 0 then (False, e1\<lparr>ev_ec := ec_native errno\<rparr>, w\<lparr>w_kern := k\<rparr>) else (True, e1, w\<lparr>w_kern := k\<rparr>))"
  "queue_send u U this c fd (e, w) =
     (case queue_call u U EVFILT_WRITE this (c, fd) (w_kern w) of (rc, errno, k) \<Rightarrow>
        let e1 = (if u = Linux then e\<lparr>ev_native_context := c, ev_native_id := fd, ev_native := queue_entry u EVFILT_WRITE this fd\<rparr>
                  else e\<lparr>ev_native := queue_entry u EVFILT_WRITE this fd\<rparr>)
        in if rc < 0 then (False, e1\<lparr>ev_ec := ec_native errno\<rparr>, w\<lparr>w_kern := k\<rparr>) else (True, e1, w\<lparr>w_kern := k\<rparr>))"
  unfolding queue_recv_def queue_send_def queue_recv_linux_def queue_recv_bsd_def queue_send_linux_def queue_send_bsd_def queue_fail_def queue_call_def
    queue_entry_def Let_def
  by ((cases u; simp cong: if_cong), (cases u; simp cong: if_cong))

context notifier begin

lemma queue_result_law:
  assumes ok
  shows "queue_result u regs (registers (c, fd) EVFILT_READ this) (c, fd) (e, w) (queue_recv u U this c fd (e, w))"
    and "queue_result u regs (registers (c, fd) EVFILT_WRITE this) (c, fd) (e, w) (queue_send u U this c fd (e, w))"
proof -
  have call: "queue_result u regs (registers (c, fd) f this) (c, fd) (e, w)
     (case queue_call u U f this (c, fd) (w_kern w) of (rc, errno, k) \<Rightarrow>
        let e1 = (if u = Linux then e\<lparr>ev_native_context := c, ev_native_id := fd, ev_native := nev\<rparr> else e\<lparr>ev_native := nev\<rparr>)
        in if rc < 0 then (False, e1\<lparr>ev_ec := ec_native errno\<rparr>, w\<lparr>w_kern := k\<rparr>) else (True, e1, w\<lparr>w_kern := k\<rparr>))"
    if "f \<noteq> EVFILT_USER" for f nev
  proof -
    obtain rc errno k where r: "queue_call u U f this (c, fd) (w_kern w) = (rc, errno, k)" by (metis prod_cases3)
    note law = register_law [OF assms that r]
    define e1 where "e1 = (if u = Linux then e\<lparr>ev_native_context := c, ev_native_id := fd, ev_native := nev\<rparr> else e\<lparr>ev_native := nev\<rparr>)"
    have e1: "\<exists>i j. e1\<lparr>ev_ec := ec\<rparr> = e\<lparr>ev_native_context := i, ev_native_id := j, ev_native := nev, ev_ec := ec\<rparr>" for ec
      by (intro exI [of _ "ev_native_context e1"] exI [of _ "ev_native_id e1"]) (simp add: e1_def)
    have nat: "u = Linux \<Longrightarrow> natives e1 = (c, fd)" by (simp add: e1_def natives_def)
    show ?thesis
    proof (cases "rc < 0")
      case True
      with r law e1 [of "ec_native errno"] show ?thesis
        by (auto simp: queue_result_def e1_def [symmetric] Let_def ec_bool_errno)
    next
      case False
      from e1 [of "ev_ec e1"] have "\<exists>i j nev ec. e1 = e\<lparr>ev_native_context := i, ev_native_id := j, ev_native := nev, ev_ec := ec\<rparr>" by simp metis
      with False r law nat show ?thesis by (auto simp: queue_result_def e1_def [symmetric] Let_def holds_target_def)
    qed
  qed
  show "queue_result u regs (registers (c, fd) EVFILT_READ this) (c, fd) (e, w) (queue_recv u U this c fd (e, w))"
    "queue_result u regs (registers (c, fd) EVFILT_WRITE this) (c, fd) (e, w) (queue_send u U this c fd (e, w))"
    unfolding queue_by_call by (rule call, simp)+
qed

lemma remove_law:
  assumes ok "event_remove u U (e, w) = (e', w')" "holds_target u e t"
  shows "\<exists>c i. e' = e\<lparr>ev_native_context := c, ev_native_id := i\<rparr> \<and> releases t (regs (w_kern w)) (regs (w_kern w'))"
proof (cases u)
  case FreeBSD
  with assms no_release show ?thesis
    by (intro exI [of _ "ev_native_context e"] exI [of _ "ev_native_id e"]) (simp add: event_remove_def)
next
  case Linux
  with assms(3) have t: "t = (ev_native_context e, ev_native_id e)" "ev_native_context e \<noteq> -1" "ev_native_id e \<noteq> -1"
    by (auto simp: holds_target_def natives_def)
  obtain rc errno k where d: "sys_epoll_ctl U (ev_native_context e) EPOLL_CTL_DEL (ev_native_id e) (ev_native e) (w_kern w) = (rc, errno, k)"
    by (metis prod_cases3)
  from release_law [OF assms(1) Linux, of t] d t assms(2) Linux show ?thesis
    by (intro exI [of _ "-1"]) (auto simp: event_remove_def event_remove_linux_def)
qed

lemma class_remove:
  assumes "ok" "event_remove u U (e, w) = (e', w')" "holds_target u e (target e)"
    and "\<And>c i. target (e\<lparr>ev_native_context := c, ev_native_id := i\<rparr>) = target e"
    and "\<And>c i. sane (e\<lparr>ev_native_context := c, ev_native_id := i\<rparr>) = sane e" "sane e"
  shows "sane e' \<and> target e' = target e \<and> ev_awaiter e' = ev_awaiter e \<and> releases (target e) (regs (w_kern w)) (regs (w_kern w'))"
  using remove_law [OF assms(1-3)] assms(4-6) by auto

lemma call_laws: "ok \<Longrightarrow> sys_read U fd n k = (rc, errno, bs, k') \<Longrightarrow> regs k' = regs k"
  "ok \<Longrightarrow> sys_write U fd bs k = (rc, errno, k') \<Longrightarrow> regs k' = regs k"
  "ok \<Longrightarrow> sys_accept4 U fd a l k = (rc, errno, a', l', k') \<Longrightarrow> regs k' = regs k"
  "ok \<Longrightarrow> sys_connect U fd a l k = (rc, errno, k') \<Longrightarrow> regs k' = regs k"
  "ok \<Longrightarrow> sys_getsockopt U fd lv nm l k = (rc, errno, d, l', k') \<Longrightarrow> regs k' = regs k"
  "ok \<Longrightarrow> sys_recvfrom U fd n a l k = (rc, errno, bs, a', l', k') \<Longrightarrow> regs k' = regs k"
  "ok \<Longrightarrow> sys_sendto U fd bs a l k = (rc, errno, k') \<Longrightarrow> regs k' = regs k"
  "ok \<Longrightarrow> connect_loop v U h a m k = Some (b, err, k') \<Longrightarrow> regs k' = regs k"
  using calls_okD [OF calls_keep] connect_loop_regs [OF calls_keep] by metis+

end

sublocale notifier < loop_recv: loop_class u regs registers releases this "recv_ready U" "recv_suspend u U this" "recv_resume U"
    "event_remove u U" recv_target EVFILT_READ "\<lambda>e. ok" U A ok Recv "tcp_world"
  for this A
proof (unfold_locales, goal_cases)
  case 1 then show ?case
    by (auto simp: recv_ready_def recv_resume_def Let_def target_defs natives_def dest: call_laws split: prod.splits if_splits option.splits)
next
  case 2 then show ?case
    by (auto simp: recv_ready_def recv_resume_def Let_def target_defs natives_def dest: call_laws split: prod.splits if_splits option.splits)
next
  case (3 e w b e' w')
  then have "queue_result u regs (registers (rc_context e, rc_socket e) EVFILT_READ this) (rc_context e, rc_socket e) (e, w) (b, e', w')"
    using queue_result_law(1) [of "rc_context e" "rc_socket e" this e w] by (simp add: recv_suspend_def)
  with 3 show ?case by (auto simp: queue_result_def target_defs)
next
  case (4 e w e' w') then show ?case
    using class_remove [of e w e' w' recv_target "\<lambda>e. ok"] by (simp add: target_defs)
qed (auto simp: target_defs op_begin.simps op_await_resume.simps op_ready.simps op_sane_def tcp_world_def dest: on_world_at op_wrap_law)

sublocale notifier < loop_send: loop_class u regs registers releases this "send_ready U" "send_suspend u U this" "send_resume U"
    "event_remove u U" send_target EVFILT_WRITE "\<lambda>e. ok" U A ok Send "tcp_world"
  for this A
proof (unfold_locales, goal_cases)
  case 1 then show ?case
    by (auto simp: send_ready_def send_resume_def send_advance_def Let_def target_defs natives_def dest: call_laws split: prod.splits if_splits option.splits)
next
  case 2 then show ?case
    by (auto simp: send_ready_def send_resume_def send_advance_def Let_def target_defs natives_def dest: call_laws split: prod.splits if_splits option.splits)
next
  case (3 e w b e' w')
  then have "queue_result u regs (registers (sd_context e, sd_socket e) EVFILT_WRITE this) (sd_context e, sd_socket e) (e, w) (b, e', w')"
    using queue_result_law(2) [of "sd_context e" "sd_socket e" this e w] by (simp add: send_suspend_def)
  with 3 show ?case by (auto simp: queue_result_def target_defs)
next
  case (4 e w e' w') then show ?case
    using class_remove [of e w e' w' send_target "\<lambda>e. ok"] by (simp add: target_defs)
qed (auto simp: target_defs op_begin.simps op_await_resume.simps op_ready.simps op_sane_def tcp_world_def dest: on_world_at op_wrap_law)

sublocale notifier < loop_send_some: loop_class u regs registers releases this "send_some_ready U" "send_some_suspend u U this" "send_some_resume U"
    "event_remove u U" send_target EVFILT_WRITE "\<lambda>e. ok" U A ok Send_some "tcp_world"
  for this A
proof (unfold_locales, goal_cases)
  case 1 then show ?case
    by (auto simp: send_some_ready_def send_some_resume_def send_advance_def Let_def target_defs natives_def dest: call_laws split: prod.splits if_splits option.splits)
next
  case 2 then show ?case
    by (auto simp: send_some_ready_def send_some_resume_def send_advance_def Let_def target_defs natives_def dest: call_laws split: prod.splits if_splits option.splits)
next
  case (3 e w b e' w')
  then have "queue_result u regs (registers (sd_context e, sd_socket e) EVFILT_WRITE this) (sd_context e, sd_socket e) (e, w) (b, e', w')"
    using queue_result_law(2) [of "sd_context e" "sd_socket e" this e w] by (simp add: send_some_suspend_def)
  with 3 show ?case by (auto simp: queue_result_def target_defs)
next
  case (4 e w e' w') then show ?case
    using class_remove [of e w e' w' send_target "\<lambda>e. ok"] by (simp add: target_defs)
qed (auto simp: target_defs op_begin.simps op_await_resume.simps op_ready.simps op_sane_def tcp_world_def dest: on_world_at op_wrap_law)

sublocale notifier < loop_connect: loop_class u regs registers releases this "connect_ready u U" "connect_suspend u U this" "connect_resume U A"
    "event_remove u U" connect_target EVFILT_WRITE "\<lambda>e. ok" U A ok Connect "tcp_world"
  for this A
proof (unfold_locales, goal_cases)
  case 1 then show ?case
    by (auto simp: connect_ready_def connect_resume_def Let_def target_defs natives_def dest: call_laws split: prod.splits if_splits option.splits)
next
  case 2 then show ?case
    by (auto simp: connect_ready_def connect_resume_def Let_def target_defs natives_def dest: call_laws split: prod.splits if_splits option.splits)
next
  case (3 e w b e' w')
  then have "queue_result u regs (registers (co_context e, co_socket e) EVFILT_WRITE this) (co_context e, co_socket e) (e, w) (b, e', w')"
    using queue_result_law(2) [of "co_context e" "co_socket e" this e w] by (simp add: connect_suspend_def)
  with 3 show ?case by (auto simp: queue_result_def target_defs)
next
  case (4 e w e' w') then show ?case
    using class_remove [of e w e' w' connect_target "\<lambda>e. ok"] by (simp add: target_defs)
qed (auto simp: target_defs op_begin.simps op_await_resume.simps op_ready.simps op_sane_def tcp_world_def dest: on_world_at op_wrap_law)

sublocale notifier < loop_accept: loop_class u regs registers releases this "accept_ready U A" "accept_suspend u U this" "accept_resume U A"
    "event_remove u U" accept_target EVFILT_READ "\<lambda>e. ok \<and> sk_handle (ac_client e) = -1" U A ok Accept "tcp_world"
  for this A
proof (unfold_locales, goal_cases)
  case 1 then show ?case
    by (auto simp: accept_ready_def accept_resume_def handle_reset_unix_def Let_def target_defs natives_def dest: call_laws split: prod.splits if_splits option.splits)
next
  case 2 then show ?case
    by (auto simp: accept_ready_def accept_resume_def handle_reset_unix_def Let_def target_defs natives_def dest: call_laws split: prod.splits if_splits option.splits)
next
  case (3 e w b e' w')
  then have "queue_result u regs (registers (ac_context e, ac_socket e) EVFILT_READ this) (ac_context e, ac_socket e) (e, w) (b, e', w')"
    using queue_result_law(1) [of "ac_context e" "ac_socket e" this e w] by (simp add: accept_suspend_def)
  with 3 show ?case by (auto simp: queue_result_def target_defs)
next
  case (4 e w e' w') then show ?case
    using class_remove [of e w e' w' accept_target "\<lambda>e. ok \<and> sk_handle (ac_client e) = -1"] by (simp add: target_defs)
qed (auto simp: target_defs op_begin.simps op_await_resume.simps op_ready.simps op_sane_def tcp_world_def dest: on_world_at op_wrap_law)

sublocale notifier < loop_udp_recv: loop_class u regs registers releases this "udp_recv_ready U A" "udp_recv_suspend u U this" "udp_recv_resume U A"
    "event_remove u U" udp_recv_target EVFILT_READ "\<lambda>e. ok" U A ok Udp_recv "\<lambda>w. w"
  for this A
proof (unfold_locales, goal_cases)
  case 1 then show ?case
    by (auto simp: udp_recv_ready_def udp_recv_resume_def Let_def target_defs natives_def dest: call_laws split: prod.splits if_splits option.splits)
next
  case 2 then show ?case
    by (auto simp: udp_recv_ready_def udp_recv_resume_def Let_def target_defs natives_def dest: call_laws split: prod.splits if_splits option.splits)
next
  case (3 e w b e' w')
  then have "queue_result u regs (registers (ur_context e, ur_socket e) EVFILT_READ this) (ur_context e, ur_socket e) (e, w) (b, e', w')"
    using queue_result_law(1) [of "ur_context e" "ur_socket e" this e w] by (simp add: udp_recv_suspend_def)
  with 3 show ?case by (auto simp: queue_result_def target_defs)
next
  case (4 e w e' w') then show ?case
    using class_remove [of e w e' w' udp_recv_target "\<lambda>e. ok"] by (simp add: target_defs)
qed (auto simp: target_defs op_begin.simps op_await_resume.simps op_ready.simps op_sane_def tcp_world_def dest: on_world_at op_wrap_law)

sublocale notifier < loop_udp_send: loop_class u regs registers releases this "udp_send_ready U" "udp_send_suspend u U this" "udp_send_resume U"
    "event_remove u U" udp_send_target EVFILT_WRITE "\<lambda>e. ok" U A ok Udp_send "\<lambda>w. w"
  for this A
proof (unfold_locales, goal_cases)
  case 1 then show ?case
    by (auto simp: udp_send_ready_def udp_send_resume_def udp_send_call_def udp_send_advance_def Let_def target_defs natives_def dest: call_laws split: prod.splits if_splits option.splits)
next
  case 2 then show ?case
    by (auto simp: udp_send_ready_def udp_send_resume_def udp_send_call_def udp_send_advance_def Let_def target_defs natives_def dest: call_laws split: prod.splits if_splits option.splits)
next
  case (3 e w b e' w')
  then have "queue_result u regs (registers (us_context e, us_socket e) EVFILT_WRITE this) (us_context e, us_socket e) (e, w) (b, e', w')"
    using queue_result_law(2) [of "us_context e" "us_socket e" this e w] by (simp add: udp_send_suspend_def)
  with 3 show ?case by (auto simp: queue_result_def target_defs)
next
  case (4 e w e' w') then show ?case
    using class_remove [of e w e' w' udp_send_target "\<lambda>e. ok"] by (simp add: target_defs)
qed (auto simp: target_defs op_begin.simps op_await_resume.simps op_ready.simps op_sane_def tcp_world_def dest: on_world_at op_wrap_law)

sublocale notifier < loop_udp_send_some: loop_class u regs registers releases this "udp_send_some_ready U" "udp_send_some_suspend u U this" "udp_send_some_resume U"
    "event_remove u U" udp_send_target EVFILT_WRITE "\<lambda>e. ok" U A ok Udp_send_some "\<lambda>w. w"
  for this A
proof (unfold_locales, goal_cases)
  case 1 then show ?case
    by (auto simp: udp_send_some_ready_def udp_send_some_resume_def udp_send_call_def udp_send_advance_def Let_def target_defs natives_def dest: call_laws split: prod.splits if_splits option.splits)
next
  case 2 then show ?case
    by (auto simp: udp_send_some_ready_def udp_send_some_resume_def udp_send_call_def udp_send_advance_def Let_def target_defs natives_def dest: call_laws split: prod.splits if_splits option.splits)
next
  case (3 e w b e' w')
  then have "queue_result u regs (registers (us_context e, us_socket e) EVFILT_WRITE this) (us_context e, us_socket e) (e, w) (b, e', w')"
    using queue_result_law(2) [of "us_context e" "us_socket e" this e w] by (simp add: udp_send_some_suspend_def)
  with 3 show ?case by (auto simp: queue_result_def target_defs)
next
  case (4 e w e' w') then show ?case
    using class_remove [of e w e' w' udp_send_target "\<lambda>e. ok"] by (simp add: target_defs)
qed (auto simp: target_defs op_begin.simps op_await_resume.simps op_ready.simps op_sane_def tcp_world_def dest: on_world_at op_wrap_law)

section \<open>The laws of an operation\<close>

context notifier begin

lemmas class_begins = loop_accept.class_begin loop_connect.class_begin loop_recv.class_begin loop_send.class_begin loop_send_some.class_begin
  loop_udp_recv.class_begin loop_udp_send.class_begin loop_udp_send_some.class_begin

lemmas class_dispatches = loop_accept.class_dispatch loop_connect.class_dispatch loop_recv.class_dispatch loop_send.class_dispatch
  loop_send_some.class_dispatch loop_udp_recv.class_dispatch loop_udp_send.class_dispatch loop_udp_send_some.class_dispatch

lemma op_begin_law:
  assumes "ok" "op_sane x" "op_begin u U A this a (x, w) = Some (b, x', w')"
  shows "begin_result u registers this a x (regs (w_kern w)) b x' (regs (w_kern w'))"
  using assms by (cases x) (simp_all add: class_begins)

lemma op_dispatch_law:
  assumes "ok" "op_waiting u x" "op_await_resume u U A this (x, w) = Some (b, x', w')"
  shows "dispatch_result u registers releases this x (regs (w_kern w)) b x' (regs (w_kern w'))"
  using assms by (cases x) (simp_all add: class_dispatches)

text \<open>Where its target cannot be registered, an operation that is not ready does not wait: it has an error.\<close>

lemma op_begin_taken:
  assumes "ok" "op_sane x" "op_ready u U A (x, w) = Some (False, x1, w1)"
    and "\<And>r. \<not> registers (op_target x) (op_filter x) this (regs (w_kern w)) r"
    and "op_begin u U A this a (x, w) = Some (b, x', w')"
  shows "b \<and> ec_bool (ev_ec (op_event x')) \<and> same_class x x'"
proof (cases x)
  case (Accept e)
  from loop_accept.class_taken [OF assms [unfolded Accept]] Accept show ?thesis by simp
next
  case (Connect e)
  from loop_connect.class_taken [OF assms [unfolded Connect]] Connect show ?thesis by simp
next
  case (Recv e)
  from loop_recv.class_taken [OF assms [unfolded Recv]] Recv show ?thesis by simp
next
  case (Send e)
  from loop_send.class_taken [OF assms [unfolded Send]] Send show ?thesis by simp
next
  case (Send_some e)
  from loop_send_some.class_taken [OF assms [unfolded Send_some]] Send_some show ?thesis by simp
next
  case (Udp_recv e)
  from loop_udp_recv.class_taken [OF assms [unfolded Udp_recv]] Udp_recv show ?thesis by simp
next
  case (Udp_send e)
  from loop_udp_send.class_taken [OF assms [unfolded Udp_send]] Udp_send show ?thesis by simp
next
  case (Udp_send_some e)
  from loop_udp_send_some.class_taken [OF assms [unfolded Udp_send_some]] Udp_send_some show ?thesis by simp
qed

end

end
