(* ===== verification/Ice_Loop_Run.thy ===== *)
theory Ice_Loop_Run
  imports Ice_Loop Ice_Objects
begin

text \<open>
  The composition of the event loop with the operations of \<open>Ice_Loop\<close>, on Linux and FreeBSD: the machine of \<open>Ice_Objects\<close> with the virtual
  calls of \<open>Ice_Loop\<close>. The locale \<open>loop_tracking\<close> says what has to hold between the registrations, the suspended operations and the entries
  the threads have taken; it provides \<open>object_loop\<close>, and is interpreted for \<open>epoll\<close> in \<open>Ice_Loop_Linux\<close> and for \<open>kqueue\<close> in \<open>Ice_Loop_Bsd\<close>.
\<close>

section \<open>The machine\<close>

type_synonym 'k loop = "(operation, 'k udp_world) objects"

type_synonym 'k loop_act = "(operation, 'k udp_world) object_act"

definition loop_wait :: "'k usys \<Rightarrow> ice_context \<Rightarrow> 64 word \<Rightarrow> 'k udp_world \<Rightarrow> wait_result \<times> 'k udp_world" where
  "loop_wait U c n w = (case context_wait_unix U c n (w_kern w) of (r, k) \<Rightarrow> (r, w\<lparr>w_kern := k\<rparr>))"

definition loop_interrupt :: "unix \<Rightarrow> 'k usys \<Rightarrow> ice_context \<Rightarrow> 'k udp_world \<Rightarrow> 'k udp_world" where
  "loop_interrupt u U c w = w\<lparr>w_kern := context_interrupt_unix u U c (w_kern w)\<rparr>"

text \<open>The operations of sockets of the context \<open>c\<close>.\<close>

definition op_virtuals :: "unix \<Rightarrow> 'k usys \<Rightarrow> net_abi \<Rightarrow> ice_context \<Rightarrow> (operation, 'k udp_world) virtuals" where
  "op_virtuals u U A c =
     \<lparr>vt_begin = op_begin u U A, vt_resume = op_await_resume u U A, vt_awaiter = (\<lambda>x. ev_awaiter (op_event x)),
      vt_guard = (\<lambda>w x. op_sane x \<and> fst (op_target x) = ctx_handle c)\<rparr>"

lemma op_virtuals_simps [simp]:
  "vt_begin (op_virtuals u U A c) = op_begin u U A" "vt_resume (op_virtuals u U A c) = op_await_resume u U A"
  "vt_awaiter (op_virtuals u U A c) = (\<lambda>x. ev_awaiter (op_event x))"
  "vt_guard (op_virtuals u U A c) = (\<lambda>w x. op_sane x \<and> fst (op_target x) = ctx_handle c)"
  by (simp_all add: op_virtuals_def)

definition loop_exec ::
  "unix \<Rightarrow> 'k usys \<Rightarrow> net_abi \<Rightarrow> ice_context \<Rightarrow> 64 word \<Rightarrow> ('k udp_world \<Rightarrow> bool) \<Rightarrow> ('k udp_world \<Rightarrow> 'k udp_world \<Rightarrow> bool) \<Rightarrow>
   'k loop_act \<Rightarrow> 'k loop \<Rightarrow> 'k loop option" where
  "loop_exec u U A c n wakes env = object_exec (op_virtuals u U A c) (loop_wait U c n) wakes (loop_interrupt u U c) env"

abbreviation loop_await where "loop_await u U A c \<equiv> object_await (op_virtuals u U A c)"

abbreviation loop_dispatch where "loop_dispatch u U A c \<equiv> object_dispatch (op_virtuals u U A c)"

lemma loop_exec_simps [simp]:
  "loop_exec u U A c n wakes env (Await p a x) s =
     (if p \<noteq> 0 \<and> lp_ops s p = None \<and> op_sane x \<and> fst (op_target x) = ctx_handle c then loop_await u U A c p a x s else None)"
  "loop_exec u U A c n wakes env (Loop act) s =
     (case context_exec (loop_wait U c n) wakes (loop_interrupt u U c) env act (lp_run s) of
        None \<Rightarrow> None
      | Some m \<Rightarrow> (case dispatched act (lp_run s) of None \<Rightarrow> Some (s\<lparr>lp_run := m\<rparr>) | Some p \<Rightarrow> loop_dispatch u U A c p m s))"
  by (simp_all add: loop_exec_def)

lemmas loop_await_eq = object_await_def [of "op_virtuals u U A c" for u U A c, unfolded op_virtuals_simps]

lemmas loop_dispatch_eq = object_dispatch_def [of "op_virtuals u U A c" for u U A c, unfolded op_virtuals_simps]

text \<open>What happens outside changes no registration.\<close>

definition keeps_regs :: "('k \<Rightarrow> 'r) \<Rightarrow> ('k udp_world \<Rightarrow> 'k udp_world \<Rightarrow> bool) \<Rightarrow> bool" where
  "keeps_regs regs env \<longleftrightarrow> (\<forall>w w'. env w w' \<longrightarrow> regs (w_kern w') = regs (w_kern w))"

section \<open>The invariant of the loop\<close>

abbreviation waiters :: "(nat \<Rightarrow> operation option) \<Rightarrow> (nat \<times> nat) multiset" where
  "waiters \<equiv> suspended (\<lambda>x. ev_awaiter (op_event x))"

definition op_same :: "operation \<Rightarrow> operation \<Rightarrow> bool" where
  "op_same x y \<longleftrightarrow> same_class x y \<and> op_target y = op_target x"

text \<open>
  For a relation \<open>tracked\<close> between the registrations, the suspended operations and the entries taken and not looked at.
\<close>

definition loop_inv ::
  "('k \<Rightarrow> 'r) \<Rightarrow> ('r \<Rightarrow> (nat \<Rightarrow> operation option) \<Rightarrow> nat multiset \<Rightarrow> bool) \<Rightarrow> 'k loop \<Rightarrow> bool" where
  "loop_inv regs tracked = object_inv (\<lambda>x. ev_awaiter (op_event x)) op_same (\<lambda>w. tracked (regs (w_kern w)))"

lemma loop_inv_iff:
  "loop_inv regs tracked s \<longleftrightarrow>
     context_inv (lp_run s) \<and> \<not> lp_fault s \<and>
     tracked (regs (w_kern (cm_kern (lp_run s)))) (lp_ops s) (entries (lp_run s)) \<and>
     finite (dom (lp_ops s)) \<and> mset (lp_started s) = mset (lp_continued s) + waiters (lp_ops s) \<and>
     (\<forall>p x. lp_ops s p = Some x \<longrightarrow> same_class (lp_made s p) x \<and> op_target x = op_target (lp_made s p))"
  by (simp add: loop_inv_def object_inv_def op_same_def)

text \<open>
  What a kernel must keep of it: awaiting an operation that \<open>may\<close> be awaited, a dispatch that ends the waiting or registers again, an
  interrupt and a wait; and that every entry is a suspended operation.
\<close>

locale loop_tracking = notifier u U regs registers releases ok
  for u :: unix and U :: "'k usys" and regs :: "'k \<Rightarrow> 'r"
    and registers :: "int \<times> int \<Rightarrow> ev_filter \<Rightarrow> nat \<Rightarrow> 'r \<Rightarrow> 'r \<Rightarrow> bool"
    and releases :: "int \<times> int \<Rightarrow> 'r \<Rightarrow> 'r \<Rightarrow> bool"
    and ok :: bool +
  fixes c :: ice_context
    and tracked :: "'r \<Rightarrow> (nat \<Rightarrow> operation option) \<Rightarrow> nat multiset \<Rightarrow> bool"
    and may :: "(nat \<Rightarrow> operation option) \<Rightarrow> operation \<Rightarrow> bool"
  assumes entry_suspended: "tracked r ops (add_mset p left) \<Longrightarrow> \<exists>x. ops p = Some x \<and> op_waiting u x \<and> fst (op_target x) = ctx_handle c"
    and track_begin: "tracked r ops left \<Longrightarrow> may ops x \<Longrightarrow> ops p = None \<Longrightarrow> p \<noteq> 0 \<Longrightarrow> op_waiting u x \<Longrightarrow> fst (op_target x) = ctx_handle c \<Longrightarrow>
      registers (op_target x) (op_filter x) p r r' \<Longrightarrow> tracked r' (ops(p \<mapsto> x)) left"
    and track_continue: "tracked r ops (add_mset p left) \<Longrightarrow> ops p = Some x \<Longrightarrow> releases (op_target x) r r' \<Longrightarrow> tracked r' (ops(p := None)) left"
    and track_again: "tracked r ops (add_mset p left) \<Longrightarrow> ops p = Some x \<Longrightarrow> op_waiting u x' \<Longrightarrow> same_class x x' \<Longrightarrow> op_target x' = op_target x \<Longrightarrow>
      releases (op_target x) r r1 \<Longrightarrow> registers (op_target x') (op_filter x') p r1 r' \<Longrightarrow> tracked r' (ops(p \<mapsto> x')) left"
    and track_interrupt: "ok \<Longrightarrow> tracked (regs k) ops left \<Longrightarrow> tracked (regs (context_interrupt_unix u U c k)) ops left"
    and track_wait: "ok \<Longrightarrow> tracked (regs k) ops left \<Longrightarrow> context_wait_unix U c n k = (res, k') \<Longrightarrow>
      tracked (regs k') ops (left + taken_entries res)"
    and may_class: "same_class x y \<Longrightarrow> op_target y = op_target x \<Longrightarrow> may ops x = may ops y"
begin

lemma tracked_begin_law:
  assumes ok "tracked (regs (w_kern w)) ops left" "op_sane x" "fst (op_target x) = ctx_handle c" "may ops x" "p \<noteq> 0" "ops p = None"
    and b: "op_begin u U A p a (x, w) = Some (b, x', w')"
  shows "tracked (regs (w_kern w')) (ops(p := if b then None else Some x')) left \<and> (\<not> b \<longrightarrow> op_same x x' \<and> ev_awaiter (op_event x') = a)"
proof -
  note res = op_begin_law [OF assms(1,3) b, unfolded begin_result_def]
  show ?thesis
  proof (cases b)
    case True
    have "ops(p := None) = ops" using assms(7) by auto
    with True res assms(2) show ?thesis by simp
  next
    case False
    with res have x': "op_waiting u x'" "op_target x' = op_target x" "ev_awaiter (op_event x') = a" "same_class x x'"
      "registers (op_target x') (op_filter x') p (regs (w_kern w)) (regs (w_kern w'))"
      by (auto simp: same_class_filter)
    with may_class [of x x' ops] assms(5) have "may ops x'" by simp
    from track_begin [OF assms(2) this assms(7,6) x'(1) _ x'(5)] x' assms(4) False show ?thesis by (simp add: op_same_def)
  qed
qed

lemma tracked_resume_law:
  assumes ok and t: "tracked (regs (w_kern w)) ops (add_mset p left)" and x: "ops p = Some x"
    and b: "op_await_resume u U A p (x, w) = Some (b, x', w')"
  shows "tracked (regs (w_kern w')) (ops(p := if b then None else Some x')) left \<and> op_same x x' \<and>
    ev_awaiter (op_event x') = ev_awaiter (op_event x)"
proof -
  from entry_suspended [OF t] x have "op_waiting u x" by auto
  from op_dispatch_law [OF assms(1) this b, unfolded dispatch_result_def]
  obtain r1 where res: "same_class x x'" "op_target x' = op_target x" "ev_awaiter (op_event x') = ev_awaiter (op_event x)"
    "releases (op_target x) (regs (w_kern w)) r1"
    "if b then regs (w_kern w') = r1 else op_waiting u x' \<and> registers (op_target x') (op_filter x') p r1 (regs (w_kern w'))"
    by (auto simp: same_class_filter)
  have "tracked (regs (w_kern w')) (ops(p := if b then None else Some x')) left"
  proof (cases b)
    case True
    with res(5) track_continue [OF t x res(4)] show ?thesis by simp
  next
    case False
    with res(5) have "op_waiting u x'" "registers (op_target x') (op_filter x') p r1 (regs (w_kern w'))" by auto
    from track_again [OF t x this(1) res(1,2,4) this(2)] False show ?thesis by simp
  qed
  with res show ?thesis by (simp add: op_same_def)
qed

end

sublocale loop_tracking < tracked_objects: object_loop "op_virtuals u U A c" "loop_wait U c n" "loop_interrupt u U c" op_same
    "\<lambda>w. tracked (regs (w_kern w))" may ok
  for A n
proof (unfold_locales, goal_cases)
  case (1 w ops left x p a b x' w')
  then show ?case using tracked_begin_law [of w ops left x p A a b x' w'] by simp
next
  case (2 w ops p left)
  from entry_suspended [OF 2(2)] show ?case by blast
next
  case (3 w ops p left x b x' w')
  then show ?case using tracked_resume_law [of w ops p left x A b x' w'] by simp
next
  case (4 w ops left)
  from track_interrupt [OF this] show ?case by (simp add: loop_interrupt_def)
next
  case (5 w ops left r w')
  then obtain k' where k': "context_wait_unix U c n (w_kern w) = (r, k')" "w' = w\<lparr>w_kern := k'\<rparr>"
    by (auto simp: loop_wait_def split: prod.splits)
  from track_wait [OF 5(1,2) k'(1)] k'(2) show ?case by simp
qed (auto simp: op_same_def intro: same_class_trans)

context loop_tracking begin

lemma loop_inv_step:
  assumes ok and env: "keeps_regs regs env" and inv: "loop_inv regs tracked s"
    and may: "\<And>p b x. a = Await p b x \<Longrightarrow> may (lp_ops s) x"
    and step: "loop_exec u U A c n wakes env a s = Some s'"
  shows "loop_inv regs tracked s'"
  using tracked_objects.object_inv_step [where env = env and s = s and a = a and A = A and n = n and wakes = wakes and s' = s'] assms by (simp add: loop_inv_def loop_exec_def keeps_regs_def)

end

section \<open>Demonstration operations\<close>

definition demo_recv :: operation where
  "demo_recv = Recv (recv_make (Unix Linux) ((socket_empty sockaddr_zero 7 3)) 1000 8)"

definition demo_send :: operation where
  "demo_send = Send (send_make (Unix Linux) (socket_empty sockaddr_zero 7 3) 2000 8)"

lemmas demo_loop_defs = demo_recv_def demo_send_def demo_context_def context_start_def run_begin_def run_add_def
  run_wait_def run_goto_def loop_await_eq loop_dispatch_eq loop_wait_def context_wait_unix_def op_begin.simps op_await_resume.simps
  op_ready.simps on_world_def op_wrap_def co_await_begin_def recv_ready_def recv_resume_def recv_suspend_def recv_make_def
  send_ready_def send_suspend_def send_make_def send_op.defs send_target_def send_advance_def
  event_await_suspend_def event_await_resume_def event_remove_def event_remove_linux_def queue_recv_def queue_recv_linux_def
  queue_send_def queue_send_linux_def queue_recv_bsd_def queue_send_bsd_def queue_fail_def event_make_def
  event.defs recv_op.defs op_sane_def recv_target_def socket_empty_def buffer_unix_def

end
