(* ===== verification/Ice_Loop_Send.thy ===== *)
theory Ice_Loop_Send
  imports Ice_Loop_Run
begin

text \<open>
  What an operation gives the coroutine that awaits it, inside the event loop: the contract \<open>awaitable\<close> of \<open>Ice_Event\<close> holds for an operation
  by itself; here the operation is one of many, dispatched by the threads of a context. The locale \<open>loop_awaitable\<close> carries the contract over:
  while every step that is not one of the operation's own keeps to its \<open>env\<close>, the operation found when the coroutine goes on satisfies the
  postcondition. It is interpreted for the sending operations, and \<open>send\<close> is followed from its \<open>co_await\<close> to its result.
\<close>

section \<open>Steps beside an operation\<close>

abbreviation loop_world :: "'k loop \<Rightarrow> 'k udp_world" where
  "loop_world s \<equiv> cm_kern (lp_run s)"

text \<open>A step of the loop in which the object at \<open>p\<close> is not awaited again, and is dispatched, or the world changes as \<open>rely\<close> allows.\<close>

definition beside_exec ::
  "nat \<Rightarrow> ('k udp_world \<Rightarrow> 'k udp_world \<Rightarrow> bool) \<Rightarrow> ('k loop_act \<Rightarrow> 'k loop \<Rightarrow> 'k loop option) \<Rightarrow> 'k loop_act \<Rightarrow> 'k loop \<Rightarrow> 'k loop option" where
  "beside_exec p rely exec a s =
     (case exec a s of
        None \<Rightarrow> None
      | Some s' \<Rightarrow>
          if (case a of Await q b x \<Rightarrow> q \<noteq> p \<and> rely (loop_world s) (loop_world s')
              | Loop act \<Rightarrow> dispatched act (lp_run s) = Some p \<or> rely (loop_world s) (loop_world s'))
          then Some s' else None)"

lemma dispatch_kern: "context_exec wait wakes interrupt env a m = Some m' \<Longrightarrow> dispatched a m = Some p \<Longrightarrow> cm_kern m' = cm_kern m"
  by (cases a) (auto simp: run_goto_def split: run_pc.splits list.splits if_splits)

text \<open>Such a step dispatches \<open>p\<close>, or leaves what is at \<open>p\<close> alone.\<close>

lemma beside_cases:
  assumes "beside_exec p rely (loop_exec u U A c n wakes env) a s = Some s'"
  shows "(\<exists>m. cm_kern m = loop_world s \<and> loop_dispatch u U A c p m s = Some s') \<or>
    lp_ops s' p = lp_ops s p \<and> lp_done s' p = lp_done s p \<and> rely (loop_world s) (loop_world s')"
proof (cases a)
  case (Await q b x)
  with assms show ?thesis by (auto simp: beside_exec_def loop_await_eq split: if_splits option.splits)
next
  case (Loop act)
  with assms have exec: "loop_exec u U A c n wakes env (Loop act) s = Some s'"
    and rely: "dispatched act (lp_run s) = Some p \<or> rely (loop_world s) (loop_world s')"
    by (auto simp: beside_exec_def simp del: loop_exec_simps split: option.splits if_splits)
  from exec obtain m where m: "context_exec (loop_wait U c n) wakes (loop_interrupt u U c) env act (lp_run s) = Some m"
    by (auto split: option.splits)
  show ?thesis
  proof (cases "dispatched act (lp_run s)")
    case None
    with m exec rely show ?thesis by auto
  next
    case (Some q)
    note k = dispatch_kern [OF m Some]
    from Some m exec have d: "loop_dispatch u U A c q m s = Some s'" by simp
    show ?thesis
    proof (cases "q = p")
      case True
      with k d show ?thesis by blast
    next
      case False
      with d rely Some show ?thesis by (auto simp: loop_dispatch_eq split: option.splits)
    qed
  qed
qed

section \<open>The contract of an operation in the loop\<close>

locale loop_awaitable = awaitable ready suspend resume remove env pre inv post
  for ready suspend resume :: "('a event_scheme, 'w) op_call"
    and remove :: "'a event_scheme \<times> 'w \<Rightarrow> 'a event_scheme \<times> 'w"
    and env :: "'w \<Rightarrow> 'w \<Rightarrow> bool"
    and pre inv post :: "'a event_scheme \<times> 'w \<Rightarrow> bool" +
  fixes u :: unix and U :: "'k usys" and A :: net_abi and p :: nat
    and C :: "'a event_scheme \<Rightarrow> operation"
    and at :: "'k udp_world \<Rightarrow> 'w"
  assumes begin_at: "op_begin u U A p a (C e, w) = Some (b, x, w') \<Longrightarrow>
      \<exists>e'. x = C e' \<and> co_await_begin ready suspend a (e, at w) = Some (b, e', at w')"
    and resume_at: "op_await_resume u U A p (C e, w) = Some (b, x, w') \<Longrightarrow>
      \<exists>e'. x = C e' \<and> event_await_resume remove resume suspend (e, at w) = Some (b, e', at w')"
    and post_env: "post (e, v) \<Longrightarrow> env v v' \<Longrightarrow> post (e, v')"
begin

definition loop_holds :: "'k loop \<Rightarrow> bool" where
  "loop_holds s \<longleftrightarrow>
     (case lp_ops s p of
        Some x \<Rightarrow> \<exists>e. x = C e \<and> inv (e, at (loop_world s))
      | None \<Rightarrow> \<exists>e. lp_done s p = C e \<and> post (e, at (loop_world s)))"

lemma begin_outcome:
  assumes "pre (e, v)" "co_await_begin ready suspend a (e, v) = Some (b, t)"
  shows "if b then post t else inv t"
proof -
  from ready_law [OF assms(1)] obtain r s where r: "ready (e, v) = Some (r, s)" "if r then post s else inv s" by blast
  show ?thesis
  proof (cases r)
    case True
    with r assms(2) show ?thesis by (auto simp: co_await_begin_def)
  next
    case False
    with r await_begin_law [of s a] assms(2) show ?thesis by (auto simp: co_await_begin_def split: if_splits)
  qed
qed

lemma holds_begin:
  assumes "pre (e, at (loop_world s))" "loop_await u U A c p a (C e) s = Some s'"
  shows "loop_holds s'"
proof -
  obtain b x w where b: "op_begin u U A p a (C e, loop_world s) = Some (b, x, w)"
    using assms(2) by (auto simp: loop_await_eq split: option.splits)
  from begin_at [OF b] obtain e' where e': "x = C e'" "co_await_begin ready suspend a (e, at (loop_world s)) = Some (b, e', at w)" by blast
  from begin_outcome [OF assms(1) e'(2)] b e'(1) assms(2) show ?thesis
    by (auto simp: loop_await_eq loop_holds_def split: if_splits)
qed

lemma holds_dispatch:
  assumes "loop_holds s" "cm_kern m = loop_world s" "loop_dispatch u U A c p m s = Some s'"
  shows "loop_holds s'"
proof (cases "lp_ops s p")
  case None
  with assms show ?thesis by (auto simp: loop_dispatch_eq loop_holds_def)
next
  case (Some x)
  with assms(1) obtain e where e: "x = C e" "inv (e, at (loop_world s))" by (auto simp: loop_holds_def)
  from Some assms(3) obtain b x' w where b: "op_await_resume u U A p (C e, cm_kern m) = Some (b, x', w)"
    by (auto simp: loop_dispatch_eq e(1) split: option.splits)
  from resume_at [OF b] obtain e' where e': "x' = C e'"
    "event_await_resume remove resume suspend (e, at (cm_kern m)) = Some (b, e', at w)" by blast
  from await_resume_law [OF e(2)] e'(2) assms(2) have "if b then post (e', at w) else inv (e', at w)" by auto
  with Some b e(1) e'(1) assms(3) show ?thesis by (auto simp: loop_dispatch_eq loop_holds_def split: if_splits)
qed

text \<open>From the \<open>co_await\<close> on, the operation waits under its invariant, or its coroutine has gone on with its postcondition.\<close>

lemma loop_result:
  assumes "pre (e, at (loop_world s0))" "loop_exec u U A c n wakes lenv (Await p a (C e)) s0 = Some s1"
    and "reach (\<lambda>s. s = s1) (act_step (beside_exec p (\<lambda>w w'. env (at w) (at w')) (loop_exec u U A c n wakes lenv))) s"
  shows "loop_holds s"
  using assms(3)
proof (induction rule: reach.induct)
  case (reach_init s)
  from assms(2) have "loop_await u U A c p a (C e) s0 = Some s1" by (auto split: if_splits)
  with holds_begin [OF assms(1)] reach_init show ?case by simp
next
  case (reach_step s t)
  from reach_step.hyps(2) obtain b where "beside_exec p (\<lambda>w w'. env (at w) (at w')) (loop_exec u U A c n wakes lenv) b s = Some t" by blast
  from beside_cases [OF this] show ?case
  proof (elim disjE exE conjE)
    fix m assume "cm_kern m = loop_world s" "loop_dispatch u U A c p m s = Some t"
    with holds_dispatch [OF reach_step.IH] show ?thesis by blast
  next
    assume "lp_ops t p = lp_ops s p" "lp_done t p = lp_done s p" "env (at (loop_world s)) (at (loop_world t))"
    with reach_step.IH show ?thesis
      by (auto simp: loop_holds_def intro: env_law post_env split: option.splits)
  qed
qed

end

section \<open>The sending operations\<close>

lemma send_post_env: "send_post out fd d bs out0 enough (e, v) \<Longrightarrow> send_env out fd d bs v v' \<Longrightarrow> send_post out fd d bs out0 enough (e, v')"
  by (auto simp: send_post_def intro: send_sent_frame(4))

interpretation delivered_send: loop_awaitable "send_ready U" "send_suspend u U p" "send_resume U" "event_remove u U"
    "send_env out fd d0 bs0" "send_inv u U out fd d0 bs0 out0" "send_inv u U out fd d0 bs0 out0"
    "send_post out fd d0 bs0 out0 (\<lambda>n. n = length bs0)" u U A p Send tcp_world
  for u U A p out fd d0 bs0 out0
  by unfold_locales (auto simp: op_begin.simps op_await_resume.simps dest: on_world_at intro: send_post_env)

interpretation delivered_send_some: loop_awaitable "send_some_ready U" "send_some_suspend u U p" "send_some_resume U" "event_remove u U"
    "send_env out fd d0 bs0" "send_inv u U out fd d0 bs0 out0" "send_inv u U out fd d0 bs0 out0"
    "send_post out fd d0 bs0 out0 (\<lambda>n. 0 < n \<or> bs0 = [])" u U A p Send_some tcp_world
  for u U A p out fd d0 bs0 out0
  by unfold_locales (auto simp: op_begin.simps op_await_resume.simps dest: on_world_at intro: send_post_env)

interpretation delivered_udp_send: loop_awaitable "udp_send_ready U" "udp_send_suspend u U this" "udp_send_resume U" "event_remove u U"
    "udp_send_env sent fd p (ub_data b) (unat (ub_size b))" "udp_send_inv u U sent fd p ep b bs s0"
    "udp_send_inv u U sent fd p ep b bs s0" "udp_send_post sent fd ep b bs s0" u U A this Udp_send "\<lambda>w. w"
  for u U A this sent fd p ep b bs s0
  by unfold_locales
    (auto simp: op_begin.simps op_await_resume.simps udp_send_post_def udp_send_env_def dest: op_wrap_law)

text \<open>
  C8: a coroutine that awaits \<open>send\<close> in a running loop. Whatever threads run the loop and whatever other operations are under way, as long as
  nobody else writes to the socket or changes the data: when the coroutine has gone on, the object it awaited tells it the truth. Either
  \<open>await_resume\<close> returns the size, and the stream has received exactly the bytes, once and in order; or it throws, and the stream has
  received the first \<open>size_\<close> of them.
\<close>

theorem loop_send_delivers:
  assumes "write_ok U out" "register_ok u U (\<lambda>k k'. out (sk_handle sk) k' = out (sk_handle sk) k)"
    and "bs = mem_bytes (w_mem (loop_world s0)) d (unat n)"
    and "loop_exec u U A c m wakes env (Await p a (Send (send_make (Unix u) sk d n))) s0 = Some s1"
    and "reach (\<lambda>s. s = s1) (act_step (beside_exec p (\<lambda>w w'. send_env out (sk_handle sk) d bs (tcp_world w) (tcp_world w'))
           (loop_exec u U A c m wakes env))) s"
    and "lp_ops s p = None"
  shows "\<exists>e. lp_done s p = Send e \<and>
    (let sent = out (sk_handle sk) (w_kern (loop_world s)); before = out (sk_handle sk) (w_kern (loop_world s0)) in
     case send_await_resume e of
       Inr k \<Rightarrow> k = n \<and> sent = before @ bs
     | Inl x \<Rightarrow> exn_what x = ''tcp send'' \<and> unat (sd_size e) \<le> length bs \<and> sent = before @ take (unat (sd_size e)) bs)"
proof -
  have bs: "bs = mem_bytes (w_mem (tcp_world (loop_world s0))) d (unat n)" using assms(3) by (simp add: tcp_world_def)
  have pre: "send_inv u U out (sk_handle sk) d bs (out (sk_handle sk) (w_kern (loop_world s0)))
      (send_make (Unix u) sk d n, tcp_world (loop_world s0))"
    using send_make_inv [OF assms(1,2), of d "tcp_world (loop_world s0)" n "Unix u", folded bs] by (simp add: tcp_world_def)
  from delivered_send.loop_result [OF pre assms(4,5)] assms(6)
  obtain e where e: "lp_done s p = Send e"
    "send_post out (sk_handle sk) d bs (out (sk_handle sk) (w_kern (loop_world s0))) (\<lambda>n. n = length bs) (e, tcp_world (loop_world s))"
    by (auto simp: delivered_send.loop_holds_def)
  have "unat k = length bs \<Longrightarrow> k = n" for k using assms(3) by (simp add: word_unat_eq_iff)
  with e show ?thesis
    by (auto simp: send_post_def send_await_resume_def send_sent_def system_error_def Let_def tcp_world_def)
qed

text \<open>
  A kernel that takes two bytes at a time and blocks once, and whose wait reports the object at 100 every time: one thread, one coroutine
  that sends three bytes.
\<close>

definition polling_unix :: "pipe usys" where
  "polling_unix = pipe_unix\<lparr>sys_wait := \<lambda>h n k. (1, 0, [Epoll_event {EPOLLOUT} 100], k)\<rparr>"

lemma polling_ok: "write_ok polling_unix pipe_out" "register_ok Linux polling_unix (\<lambda>k k'. pipe_out fd k' = pipe_out fd k)"
  using pipe_ok by (simp_all add: write_ok_def register_ok_def polling_unix_def)

definition polling_start :: "pipe loop" where
  "polling_start =
     \<lparr>lp_run = context_start \<lparr>w_mem = of_nat, w_kern = ([], 1), w_endpoints = (\<lambda>_. demo_endpoint)\<rparr>, lp_ops = (\<lambda>_. None),
      lp_made = (\<lambda>_. demo_recv), lp_done = (\<lambda>_. demo_recv), lp_started = [], lp_continued = [], lp_fault = False\<rparr>"

abbreviation polling_exec where
  "polling_exec \<equiv> loop_exec Linux polling_unix demo_abi demo_context 1 (\<lambda>_. True) (=)"

definition polling_acts :: "pipe loop_act list" where
  "polling_acts = [Loop (Run 0), Loop (Step 0), Loop (Step 0), Loop (Step 0), Loop (Step 0), Loop (Step 0), Loop (Step 0)]"

lemma polling_calls:
  "sys_write polling_unix fd bs k =
     (if bs \<noteq> [] \<and> (fd \<noteq> 7 \<or> snd k > 0) then (-1, 11, (fst k, snd k - 1)) else (int (length (take 2 bs)), 0, (fst k @ take 2 bs, snd k)))"
  "sys_epoll_ctl polling_unix c op fd ev k = (0, 0, k)" "sys_wait polling_unix h n k = (1, 0, [Epoll_event {EPOLLOUT} 100], k)"
  "EAGAIN polling_unix = 11" "EINTR polling_unix = 4"
  by (simp_all add: polling_unix_def pipe_unix_def failing_unix_def split: prod.splits)

lemmas polling_defs = polling_start_def polling_acts_def demo_context_def context_start_def run_begin_def run_add_def run_wait_def run_goto_def
  loop_await_eq loop_dispatch_eq loop_wait_def context_wait_unix_def op_begin.simps op_await_resume.simps on_world_def op_wrap_def
  co_await_begin_def send_ready_def send_resume_def send_suspend_def send_make_def send_op.defs send_target_def send_advance_def
  event_await_suspend_def event_await_resume_def event_remove_def event_remove_linux_def queue_send_def queue_send_linux_def
  event_make_def event.defs op_sane_def pipe_socket_def socket_empty_def polling_calls buffer_unix_def

lemma loop_send_delivers_witness:
  "\<exists>s1 s. polling_exec (Await 100 5 (Send (send_make (Unix Linux) pipe_socket 65 3))) polling_start = Some s1 \<and>
     run_acts (beside_exec 100 (\<lambda>w w'. send_env pipe_out 7 65 [65, 66, 67] (tcp_world w) (tcp_world w')) polling_exec) polling_acts s1 = Some s \<and>
     lp_ops s 100 = None \<and> lp_continued s = [(100, 5)] \<and> pipe_out 7 (w_kern (loop_world s)) = [65, 66, 67]"
proof -
  let ?rely = "\<lambda>w w'. send_env pipe_out 7 65 [65, 66, 67] (tcp_world w) (tcp_world w')"
  have rely: "?rely w w'" if "w' = w" for w w' using that by (simp add: send_env_def)
  have h: "sk_handle pipe_socket = 7" by (simp add: pipe_socket_def socket_empty_def)
  have bs: "[65, 66, 67] = mem_bytes (w_mem (loop_world polling_start)) 65 (unat (3 :: 64 word))"
    by (simp add: polling_start_def context_start_def mem_bytes_def upt_rec)
  obtain s1 where s1: "polling_exec (Await 100 5 (Send (send_make (Unix Linux) pipe_socket 65 3))) polling_start = Some s1"
    and run: "\<exists>s. run_acts (beside_exec 100 ?rely polling_exec) polling_acts s1 = Some s \<and> lp_ops s 100 = None \<and> lp_continued s = [(100, 5)] \<and>
      (\<exists>e. lp_done s 100 = Send e \<and> \<not> ec_bool (ev_ec e))"
    by (simp add: polling_defs beside_exec_def rely mem_bytes_def upt_rec Let_def)
  then obtain s e where s: "run_acts (beside_exec 100 ?rely polling_exec) polling_acts s1 = Some s" "lp_ops s 100 = None"
    "lp_continued s = [(100, 5)]" "lp_done s 100 = Send e" "\<not> ec_bool (ev_ec e)" by blast
  have "reach (\<lambda>s. s = s1) (act_step (beside_exec 100 ?rely polling_exec)) s"
    by (rule run_acts_reach [OF s(1)]) (simp add: reach_init)
  from loop_send_delivers [OF polling_ok bs, where sk = pipe_socket, OF s1, unfolded h, OF this s(2)] s s1
  show ?thesis by (auto simp: send_await_resume_def polling_start_def context_start_def pipe_out_def)
qed

end
