(* ===== verification/Ice_Loop_Recv.thy ===== *)
theory Ice_Loop_Recv
  imports Ice_Loop_Send
begin

text \<open>
  The receiving operations and \<open>accept\<close> inside the event loop: the locale \<open>loop_awaitable\<close> of \<open>Ice_Loop_Send\<close> for the rest of the
  eight classes but \<open>connect\<close>, whose result depends on what the kernel reported (\<open>reported_awaitable\<close> in \<open>Ice_Tcp\<close>). The contracts of \<open>Ice_Tcp\<close> and \<open>Ice_Udp\<close> for \<open>recv\<close> fix the whole memory; in a loop other operations fill other buffers
  meanwhile, so here only the bytes of the operation's own buffer are fixed.
\<close>

section \<open>Receiving into a buffer\<close>

definition buffer_bytes :: "unix_buffer \<Rightarrow> (nat \<Rightarrow> byte) \<Rightarrow> byte list" where
  "buffer_bytes b m = mem_bytes m (ub_data b) (unat (ub_size b))"

lemma length_buffer_bytes [simp]: "length (buffer_bytes b m) = unat (ub_size b)"
  by (simp add: buffer_bytes_def)

text \<open>Writing at the start of the buffer: the bytes written, then the old ones.\<close>

lemma buffer_bytes_write:
  assumes "length bs \<le> unat (ub_size b)"
  shows "buffer_bytes b (mem_write (ub_data b) bs m) = bs @ drop (length bs) (buffer_bytes b m)"
  using assms unfolding buffer_bytes_def
  by (intro nth_equalityI) (auto simp: mem_bytes_def mem_write_def nth_append)

definition own_recv_env :: "(int \<Rightarrow> 'k \<Rightarrow> byte list) \<Rightarrow> int \<Rightarrow> unix_buffer \<Rightarrow> 'k world \<Rightarrow> 'k world \<Rightarrow> bool" where
  "own_recv_env inn fd b w w' \<longleftrightarrow>
     inn fd (w_kern w') = inn fd (w_kern w) \<and> buffer_bytes b (w_mem w') = buffer_bytes b (w_mem w)"

lemma own_recv_env_refl [simp]: "own_recv_env inn fd b w w"
  by (simp add: own_recv_env_def)

definition own_recv_inv ::
  "unix \<Rightarrow> 'k usys \<Rightarrow> (int \<Rightarrow> 'k \<Rightarrow> byte list) \<Rightarrow> int \<Rightarrow> unix_buffer \<Rightarrow> byte list \<Rightarrow> byte list \<Rightarrow> recv_op \<times> 'k world \<Rightarrow> bool" where
  "own_recv_inv u U inn fd b in0 old = (\<lambda>s.
     recv_inv u U inn fd b in0 (w_mem (snd s)) s \<and> buffer_bytes b (w_mem (snd s)) = old)"

definition own_recv_post ::
  "(int \<Rightarrow> 'k \<Rightarrow> byte list) \<Rightarrow> int \<Rightarrow> unix_buffer \<Rightarrow> byte list \<Rightarrow> byte list \<Rightarrow> recv_op \<times> 'k world \<Rightarrow> bool" where
  "own_recv_post inn fd b in0 old = (\<lambda>(e, w).
     \<exists>bs. length bs \<le> unat (ub_size b) \<and> inn fd (w_kern w) = in0 @ bs \<and>
       buffer_bytes b (w_mem w) = bs @ drop (length bs) old \<and>
       (if ec_bool (ev_ec e) then bs = [] else unat (ub_size (rc_buffer e)) = length bs))"

lemma own_recv_of_post:
  "recv_post inn fd b in0 mem0 t \<Longrightarrow> buffer_bytes b mem0 = old \<Longrightarrow> own_recv_post inn fd b in0 old t"
  by (auto simp: recv_post_def own_recv_post_def buffer_bytes_write)

lemma own_recv_of_inv:
  "recv_inv u U inn fd b in0 mem0 t \<Longrightarrow> buffer_bytes b mem0 = old \<Longrightarrow> own_recv_inv u U inn fd b in0 old t"
  by (auto simp: recv_inv_def own_recv_inv_def)

lemma own_recv_laws:
  assumes "own_recv_inv u U inn fd b in0 old s"
  shows "\<exists>r t. recv_ready U s = Some (r, t) \<and> (if r then own_recv_post inn fd b in0 old t else own_recv_inv u U inn fd b in0 old t)"
    and "\<exists>r t. recv_suspend u U this s = Some (r, t) \<and> (if r then own_recv_inv u U inn fd b in0 old t else own_recv_post inn fd b in0 old t)"
    and "own_recv_inv u U inn fd b in0 old (event_remove u U s)"
proof -
  have inv: "recv_inv u U inn fd b in0 (w_mem (snd s)) s" and old: "buffer_bytes b (w_mem (snd s)) = old"
    using assms by (auto simp: own_recv_inv_def)
  note of = own_recv_of_post [OF _ old] own_recv_of_inv [OF _ old]
  from recv_ready_law [OF inv]
  show "\<exists>r t. recv_ready U s = Some (r, t) \<and> (if r then own_recv_post inn fd b in0 old t else own_recv_inv u U inn fd b in0 old t)"
    using of by (metis (full_types))
  from recv_suspend_law [OF inv, of this]
  show "\<exists>r t. recv_suspend u U this s = Some (r, t) \<and> (if r then own_recv_inv u U inn fd b in0 old t else own_recv_post inn fd b in0 old t)"
    using of by (metis (full_types))
  show "own_recv_inv u U inn fd b in0 old (event_remove u U s)" by (rule of(2) [OF recv_inv_remove [OF inv]])
qed

interpretation delivered_recv: loop_awaitable "recv_ready U" "recv_suspend u U p" "recv_resume U" "event_remove u U"
    "own_recv_env inn fd b" "own_recv_inv u U inn fd b in0 old" "own_recv_inv u U inn fd b in0 old" "own_recv_post inn fd b in0 old"
    u U A p Recv tcp_world
  for u U A p inn fd b in0 old
  by unfold_locales
    (unfold recv_resume_def, (rule own_recv_laws; assumption)+,
     auto simp: op_begin.simps op_await_resume.simps own_recv_inv_def own_recv_env_def own_recv_post_def recv_inv_def recv_resume_def
       dest: on_world_at)

text \<open>
  C9: A coroutine that awaits \<open>recv\<close> in a running loop. Whatever threads run the loop and whatever other operations are under way, as long as nobody
  else reads from the socket or writes into the buffer: when the coroutine has gone on, either \<open>await_resume\<close> returns a length,
  and exactly that many bytes, at most the buffer's size, have been taken from the stream and lie at the start of the buffer, the rest of which is
  unchanged; or it throws, nothing has been taken and the buffer is unchanged.
\<close>

theorem loop_recv_receives:
  assumes "read_ok U inn" "register_ok u U (\<lambda>k k'. inn (sk_handle sk) k' = inn (sk_handle sk) k)"
    and "loop_exec u U A c m wakes env (Await p a (Recv (recv_make (Unix u) sk d n))) s0 = Some s1"
    and "reach (\<lambda>s. s = s1) (act_step (beside_exec p (\<lambda>w w'. own_recv_env inn (sk_handle sk) (buffer_unix d n) (tcp_world w) (tcp_world w'))
           (loop_exec u U A c m wakes env))) s"
    and "lp_ops s p = None"
  shows "\<exists>e bs. lp_done s p = Recv e \<and>
    inn (sk_handle sk) (w_kern (loop_world s)) = inn (sk_handle sk) (w_kern (loop_world s0)) @ bs \<and>
    mem_bytes (w_mem (loop_world s)) d (unat n) = bs @ drop (length bs) (mem_bytes (w_mem (loop_world s0)) d (unat n)) \<and>
    (case recv_await_resume e of
       Inr k \<Rightarrow> unat k = length bs \<and> length bs \<le> unat n
     | Inl x \<Rightarrow> bs = [] \<and> exn_what x = ''tcp recv'')"
proof -
  let ?fd = "sk_handle sk" and ?b = "buffer_unix d n" and ?w = "tcp_world (loop_world s0)"
  have pre: "own_recv_inv u U inn ?fd ?b (inn ?fd (w_kern ?w)) (buffer_bytes ?b (w_mem ?w)) (recv_make (Unix u) sk d n, ?w)"
    using assms(1,2) by (simp add: own_recv_inv_def recv_inv_def recv_make_def event_make_def event.defs recv_op.defs)
  from delivered_recv.loop_result [OF pre assms(3,4)] assms(5)
  obtain e where e: "lp_done s p = Recv e"
    "own_recv_post inn ?fd ?b (inn ?fd (w_kern ?w)) (buffer_bytes ?b (w_mem ?w)) (e, tcp_world (loop_world s))"
    by (auto simp: delivered_recv.loop_holds_def)
  then obtain bs where "length bs \<le> unat n" "inn ?fd (w_kern (loop_world s)) = inn ?fd (w_kern (loop_world s0)) @ bs"
    "mem_bytes (w_mem (loop_world s)) d (unat n) = bs @ drop (length bs) (mem_bytes (w_mem (loop_world s0)) d (unat n))"
    "if ec_bool (ev_ec e) then bs = [] else unat (ub_size (rc_buffer e)) = length bs"
    by (auto simp: own_recv_post_def buffer_bytes_def buffer_unix_def tcp_world_def)
  with e(1) show ?thesis
    by (intro exI [of _ e] exI [of _ bs]) (auto simp: recv_await_resume_def system_error_def)
qed

text \<open>
  One thread and one coroutine: the first read would block, the wait reports the object at 100, the second read gives two bytes.
\<close>

definition reading_unix :: "(byte list \<times> nat) usys" where
  "reading_unix = source_unix\<lparr>sys_wait := \<lambda>h n k. (1, 0, [Epoll_event {EPOLLIN} 100], k)\<rparr>"

lemma reading_ok: "read_ok reading_unix (\<lambda>fd k. fst k)" "register_ok Linux reading_unix (\<lambda>k k'. fst k' = fst k)"
  using source_ok by (simp_all add: read_ok_def register_ok_def reading_unix_def)

lemma reading_calls:
  "sys_read reading_unix fd n k =
     (if snd k > 0 \<or> n < 2 then (-1, 11, [], (fst k, snd k - 1)) else (2, 0, [72, 84], (fst k @ [72, 84], snd k)))"
  "sys_epoll_ctl reading_unix c op fd ev k = (0, 0, k)" "sys_wait reading_unix h w k = (1, 0, [Epoll_event {EPOLLIN} 100], k)"
  "EAGAIN reading_unix = 11" "EINTR reading_unix = 4" "ECONNRESET reading_unix = 104"
  by (simp_all add: reading_unix_def source_unix_def failing_unix_def split: prod.splits)

definition reading_start :: "(byte list \<times> nat) loop" where
  "reading_start =
     \<lparr>lp_run = context_start \<lparr>w_mem = of_nat, w_kern = ([], 1), w_endpoints = (\<lambda>_. demo_endpoint)\<rparr>, lp_ops = (\<lambda>_. None),
      lp_made = (\<lambda>_. demo_recv), lp_done = (\<lambda>_. demo_recv), lp_started = [], lp_continued = [], lp_fault = False\<rparr>"

abbreviation reading_exec where
  "reading_exec \<equiv> loop_exec Linux reading_unix demo_abi demo_context 1 (\<lambda>_. True) (=)"

definition reading_acts :: "(byte list \<times> nat) loop_act list" where
  "reading_acts = [Loop (Run 0), Loop (Step 0), Loop (Step 0), Loop (Step 0)]"

lemmas reading_defs = reading_start_def reading_acts_def demo_context_def context_start_def run_begin_def run_add_def run_wait_def run_goto_def
  loop_await_eq loop_dispatch_eq loop_wait_def context_wait_unix_def op_begin.simps op_await_resume.simps on_world_def op_wrap_def
  co_await_begin_def recv_ready_def recv_resume_def recv_suspend_def recv_make_def recv_op.defs recv_target_def
  event_await_suspend_def event_await_resume_def event_remove_def event_remove_linux_def queue_recv_def queue_recv_linux_def
  event_make_def event.defs op_sane_def pipe_socket_def socket_empty_def reading_calls buffer_unix_def

lemma loop_recv_receives_witness:
  "\<exists>s1 s. reading_exec (Await 100 5 (Recv (recv_make (Unix Linux) pipe_socket 65 4))) reading_start = Some s1 \<and>
     run_acts (beside_exec 100 (\<lambda>w w'. own_recv_env (\<lambda>fd k. fst k) 7 (buffer_unix 65 4) (tcp_world w) (tcp_world w')) reading_exec)
       reading_acts s1 = Some s \<and>
     lp_ops s 100 = None \<and> lp_continued s = [(100, 5)] \<and> mem_bytes (w_mem (loop_world s)) 65 4 = [72, 84, 67, 68]"
proof -
  let ?rely = "\<lambda>w w'. own_recv_env (\<lambda>fd k. fst k) 7 (buffer_unix 65 4) (tcp_world w) (tcp_world w')"
  have h: "sk_handle pipe_socket = 7" by (simp add: pipe_socket_def socket_empty_def)
  obtain s1 where s1: "reading_exec (Await 100 5 (Recv (recv_make (Unix Linux) pipe_socket 65 4))) reading_start = Some s1"
    and run: "\<exists>s. run_acts (beside_exec 100 ?rely reading_exec) reading_acts s1 = Some s \<and> lp_ops s 100 = None \<and> lp_continued s = [(100, 5)] \<and>
      fst (w_kern (loop_world s)) = [72, 84]"
    by (simp add: reading_defs beside_exec_def Let_def)
  then obtain s where s: "run_acts (beside_exec 100 ?rely reading_exec) reading_acts s1 = Some s" "lp_ops s 100 = None"
    "lp_continued s = [(100, 5)]" "fst (w_kern (loop_world s)) = [72, 84]" by blast
  have reach: "reach (\<lambda>s. s = s1) (act_step (beside_exec 100 ?rely reading_exec)) s"
    by (rule run_acts_reach [OF s(1)]) (simp add: reach_init)
  have "fst (w_kern (loop_world reading_start)) = []" "mem_bytes (w_mem (loop_world reading_start)) 65 4 = [65, 66, 67, 68]"
    by (simp_all add: reading_start_def context_start_def mem_bytes_def upt_rec)
  with loop_recv_receives [OF reading_ok(1), where sk = pipe_socket, OF reading_ok(2) s1, unfolded h, OF reach s(2)] s
  have "mem_bytes (w_mem (loop_world s)) 65 4 = [72, 84, 67, 68]" by auto
  with s1 s show ?thesis by blast
qed

section \<open>Accepting and connecting\<close>

interpretation delivered_accept: loop_awaitable "accept_ready U A" "accept_suspend u U p" "accept_resume U A" "event_remove u U"
    "accept_env acc" "accept_inv u U acc c acc0" "accept_inv u U acc c acc0" "accept_post acc c acc0" u U A p Accept tcp_world
  for u U A p acc c acc0
  by unfold_locales
    (auto simp: op_begin.simps op_await_resume.simps accept_post_def accept_env_def dest: on_world_at)

text \<open>
  A coroutine that awaits \<open>accept\<close> in a running loop, while nobody else accepts: when it has gone on, it owns the one descriptor that
  was handed out meanwhile, or an exception and none was.
\<close>

lemma loop_accept_delivers:
  assumes "accept_ok U acc" "register_ok u U (\<lambda>k k'. acc k' = acc k)"
    and "loop_exec u U A c m wakes env (Await p a (Accept (accept_make (Unix u) junk sk))) s0 = Some s1"
    and "reach (\<lambda>s. s = s1) (act_step (beside_exec p (\<lambda>w w'. accept_env acc (tcp_world w) (tcp_world w'))
           (loop_exec u U A c m wakes env))) s"
    and "lp_ops s p = None"
  shows "\<exists>e. lp_done s p = Accept e \<and>
    (case accept_await_resume e of
       Inr client \<Rightarrow> acc (w_kern (loop_world s)) = acc (w_kern (loop_world s0)) @ [sk_handle client] \<and> sk_handle client \<noteq> -1 \<and>
         sk_context client = sk_context sk
     | Inl x \<Rightarrow> acc (w_kern (loop_world s)) = acc (w_kern (loop_world s0)) \<and> exn_what x = ''accept tcp socket'')"
proof -
  let ?w = "tcp_world (loop_world s0)"
  have pre: "accept_inv u U acc (sk_context sk) (acc (w_kern ?w)) (accept_make (Unix u) junk sk, ?w)"
    using assms(1,2) by (simp add: accept_inv_def accept_make_def event_make_def event.defs accept_op.defs socket_empty_def)
  from delivered_accept.loop_result [OF pre assms(3,4)] assms(5)
  obtain e where "lp_done s p = Accept e" "accept_post acc (sk_context sk) (acc (w_kern ?w)) (e, tcp_world (loop_world s))"
    by (auto simp: delivered_accept.loop_holds_def)
  then show ?thesis
    by (auto simp: accept_post_def accept_await_resume_def system_error_def socket_move_def tcp_world_def)
qed

section \<open>Datagrams\<close>

text \<open>Nobody else takes a datagram from the socket, or writes into the buffer or the caller's endpoint.\<close>

definition own_udp_recv_env ::
  "(int \<Rightarrow> 'k \<Rightarrow> datagram list) \<Rightarrow> int \<Rightarrow> nat \<Rightarrow> unix_buffer \<Rightarrow> 'k udp_world \<Rightarrow> 'k udp_world \<Rightarrow> bool" where
  "own_udp_recv_env taken fd p b w w' \<longleftrightarrow>
     taken fd (w_kern w') = taken fd (w_kern w) \<and> w_endpoints w' p = w_endpoints w p \<and>
     buffer_bytes b (w_mem w') = buffer_bytes b (w_mem w)"

definition own_udp_recv_inv ::
  "unix \<Rightarrow> 'k usys \<Rightarrow> (int \<Rightarrow> 'k \<Rightarrow> datagram list) \<Rightarrow> int \<Rightarrow> nat \<Rightarrow> unix_buffer \<Rightarrow> datagram list \<Rightarrow> byte list \<Rightarrow> udp_recv_op \<times> 'k udp_world \<Rightarrow> bool" where
  "own_udp_recv_inv u U taken fd p b t0 old = (\<lambda>s.
     udp_recv_inv u U taken fd p b t0 (w_mem (snd s)) s \<and> buffer_bytes b (w_mem (snd s)) = old)"

definition own_udp_recv_post ::
  "(int \<Rightarrow> 'k \<Rightarrow> datagram list) \<Rightarrow> int \<Rightarrow> nat \<Rightarrow> unix_buffer \<Rightarrow> datagram list \<Rightarrow> byte list \<Rightarrow> udp_recv_op \<times> 'k udp_world \<Rightarrow> bool" where
  "own_udp_recv_post taken fd p b t0 old = (\<lambda>(e, w).
     if ec_bool (ev_ec e) then taken fd (w_kern w) = t0 \<and> buffer_bytes b (w_mem w) = old
     else taken fd (w_kern w) = t0 \<and> buffer_bytes b (w_mem w) = old \<and> ur_size e = 0 \<or>
          (\<exists>a l bs. taken fd (w_kern w) = t0 @ [(a, l, bs)] \<and> buffer_bytes b (w_mem w) = bs @ drop (length bs) old \<and>
             w_endpoints w p = \<lparr>ep_storage = a, ep_size = l\<rparr> \<and> unat (ur_size e) = length bs \<and> length bs \<le> unat (ub_size b)))"

lemma own_udp_recv_of:
  "udp_recv_post taken fd p b t0 mem0 t \<Longrightarrow> buffer_bytes b mem0 = old \<Longrightarrow> own_udp_recv_post taken fd p b t0 old t"
  "udp_recv_inv u U taken fd p b t0 mem0 t \<Longrightarrow> buffer_bytes b mem0 = old \<Longrightarrow> own_udp_recv_inv u U taken fd p b t0 old t"
  by (fastforce simp: udp_recv_post_def own_udp_recv_post_def buffer_bytes_write split: if_splits)
    (auto simp: udp_recv_inv_def own_udp_recv_inv_def)

lemma own_udp_recv_laws:
  assumes "own_udp_recv_inv u U taken fd p b t0 old s"
  shows "\<exists>r t. udp_recv_ready U A s = Some (r, t) \<and> (if r then own_udp_recv_post taken fd p b t0 old t else own_udp_recv_inv u U taken fd p b t0 old t)"
    and "\<exists>r t. udp_recv_suspend u U this s = Some (r, t) \<and>
      (if r then own_udp_recv_inv u U taken fd p b t0 old t else own_udp_recv_post taken fd p b t0 old t)"
    and "own_udp_recv_inv u U taken fd p b t0 old (event_remove u U s)"
proof -
  have inv: "udp_recv_inv u U taken fd p b t0 (w_mem (snd s)) s" and old: "buffer_bytes b (w_mem (snd s)) = old"
    using assms by (auto simp: own_udp_recv_inv_def)
  note of = own_udp_recv_of(1) [OF _ old] own_udp_recv_of(2) [OF _ old]
  from udp_recv_ready_law [OF inv, of A]
  show "\<exists>r t. udp_recv_ready U A s = Some (r, t) \<and> (if r then own_udp_recv_post taken fd p b t0 old t else own_udp_recv_inv u U taken fd p b t0 old t)"
    using of by (metis (full_types))
  from udp_recv_suspend_law [OF inv, of this]
  show "\<exists>r t. udp_recv_suspend u U this s = Some (r, t) \<and>
      (if r then own_udp_recv_inv u U taken fd p b t0 old t else own_udp_recv_post taken fd p b t0 old t)"
    using of by (metis (full_types))
  show "own_udp_recv_inv u U taken fd p b t0 old (event_remove u U s)" by (rule of(2) [OF udp_recv_inv_remove [OF inv]])
qed

interpretation delivered_udp_recv: loop_awaitable "udp_recv_ready U A" "udp_recv_suspend u U this" "udp_recv_resume U A" "event_remove u U"
    "own_udp_recv_env taken fd p b" "own_udp_recv_inv u U taken fd p b t0 old" "own_udp_recv_inv u U taken fd p b t0 old"
    "own_udp_recv_post taken fd p b t0 old" u U A this Udp_recv "\<lambda>w. w"
  for u U A this taken fd p b t0 old
  by unfold_locales
    (unfold udp_recv_resume_def, (rule own_udp_recv_laws; assumption)+,
     auto simp: op_begin.simps op_await_resume.simps own_udp_recv_inv_def own_udp_recv_env_def own_udp_recv_post_def udp_recv_inv_def
       udp_recv_resume_def dest: op_wrap_law)

interpretation delivered_udp_send_some: loop_awaitable "udp_send_some_ready U" "udp_send_some_suspend u U this" "udp_send_some_resume U"
    "event_remove u U" "udp_send_env sent fd p (ub_data b) (unat (ub_size b))" "udp_send_inv u U sent fd p ep b bs s0"
    "udp_send_inv u U sent fd p ep b bs s0" "udp_send_post sent fd ep b bs s0" u U A this Udp_send_some "\<lambda>w. w"
  for u U A this sent fd p ep b bs s0
  by unfold_locales
    (auto simp: op_begin.simps op_await_resume.simps udp_send_post_def udp_send_env_def dest: op_wrap_law)

text \<open>
  A coroutine that awaits \<open>udp::recv\<close> in a running loop: when it has gone on, one datagram has been taken and lies in its buffer, with the
  sender's address in the caller's endpoint; or none was and the length is 0; or it throws, with none taken.
\<close>

lemma loop_udp_recv_datagram:
  assumes "recvfrom_ok U taken" "register_ok u U (\<lambda>k k'. taken (sk_handle sk) k' = taken (sk_handle sk) k)"
    and "loop_exec u U A c m wakes env (Await this a (Udp_recv (udp_recv_make (Unix u) sk p d n))) s0 = Some s1"
    and "reach (\<lambda>s. s = s1) (act_step (beside_exec this (own_udp_recv_env taken (sk_handle sk) p (buffer_unix d n))
           (loop_exec u U A c m wakes env))) s"
    and "lp_ops s this = None"
  shows "\<exists>e. lp_done s this = Udp_recv e \<and>
    own_udp_recv_post taken (sk_handle sk) p (buffer_unix d n) (taken (sk_handle sk) (w_kern (loop_world s0)))
      (mem_bytes (w_mem (loop_world s0)) d (unat n)) (e, loop_world s)"
proof -
  have pre: "own_udp_recv_inv u U taken (sk_handle sk) p (buffer_unix d n) (taken (sk_handle sk) (w_kern (loop_world s0)))
      (mem_bytes (w_mem (loop_world s0)) d (unat n)) (udp_recv_make (Unix u) sk p d n, loop_world s0)"
    using assms(1,2) by (simp add: own_udp_recv_inv_def udp_recv_inv_def udp_recv_make_def event_make_def event.defs udp_recv_op.defs
        buffer_bytes_def buffer_unix_def)
  from delivered_udp_recv.loop_result [OF pre assms(3,4)] assms(5) show ?thesis
    by (simp add: delivered_udp_recv.loop_holds_def)
qed

end
