(* ===== verification/Ice_Loop_Linux.thy ===== *)
theory Ice_Loop_Linux
  imports Ice_Loop_Run
begin

text \<open>
  The event loop on Linux. The kernel is observed through its registrations: for an \<open>epoll\<close> descriptor and a descriptor, the pointer and whether the
  one-shot registration is armed. \<open>epoll_ok\<close> states what \<open>epoll_ctl\<close> and \<open>epoll_wait\<close> do to them as their documentation does
  (adding a registered descriptor fails; a one-shot registration is disarmed when reported and stays registered). It provides
  \<open>notifier\<close> and \<open>loop_tracking\<close>, and the properties of the loop follow.
\<close>

section \<open>Registrations\<close>

type_synonym registrations = "int \<times> int \<Rightarrow> (nat \<times> bool) option"

definition ctl_ok :: "'k usys \<Rightarrow> ('k \<Rightarrow> registrations) \<Rightarrow> bool" where
  "ctl_ok U regs \<longleftrightarrow>
     (\<forall>c fd ev k. case sys_epoll_ctl U c EPOLL_CTL_ADD fd ev k of (rc, errno, k') \<Rightarrow>
        if rc < 0 then regs k' = regs k \<and> 0 < errno \<and> errno < 2 ^ 28
        else c \<noteq> -1 \<and> fd \<noteq> -1 \<and> regs k (c, fd) = None \<and> regs k' = (regs k)((c, fd) \<mapsto> (nev_pointer ev, True))) \<and>
     (\<forall>c fd ev k. case sys_epoll_ctl U c EPOLL_CTL_MOD fd ev k of (rc, errno, k') \<Rightarrow>
        if rc < 0 then regs k' = regs k
        else regs k (c, fd) \<noteq> None \<and> regs k' = (regs k)((c, fd) \<mapsto> (nev_pointer ev, True))) \<and>
     (\<forall>c fd ev k. case sys_epoll_ctl U c EPOLL_CTL_DEL fd ev k of (rc, errno, k') \<Rightarrow>
        regs k' = (regs k)((c, fd) := None))"

text \<open>A wait reports armed registrations, each at most once, and disarms those it reports.\<close>

definition disarm :: "int \<Rightarrow> int list \<Rightarrow> registrations \<Rightarrow> registrations" where
  "disarm h fds r = (\<lambda>x. if fst x = h \<and> snd x \<in> set fds then map_option (\<lambda>v. (fst v, False)) (r x) else r x)"

definition wait_ok :: "'k usys \<Rightarrow> ('k \<Rightarrow> registrations) \<Rightarrow> bool" where
  "wait_ok U regs \<longleftrightarrow>
     (\<forall>h n k. case sys_wait U h n k of (rc, errno, events, k') \<Rightarrow>
        \<exists>fds. distinct fds \<and> length fds = length (take (nat rc) events) \<and>
          (\<forall>i<length fds. regs k (h, fds ! i) = Some (nev_pointer (events ! i), True)) \<and>
          regs k' = disarm h fds (regs k))"

definition epoll_ok :: "'k usys \<Rightarrow> ('k \<Rightarrow> registrations) \<Rightarrow> bool" where
  "epoll_ok U regs \<longleftrightarrow> ctl_ok U regs \<and> wait_ok U regs \<and> calls_ok U regs"

lemma epoll_add:
  assumes "epoll_ok U regs" "sys_epoll_ctl U c EPOLL_CTL_ADD fd ev k = (rc, errno, k')"
  shows "rc < 0 \<Longrightarrow> regs k' = regs k \<and> 0 < errno \<and> errno < 2 ^ 28"
    and "\<not> rc < 0 \<Longrightarrow> c \<noteq> -1 \<and> fd \<noteq> -1 \<and> regs k (c, fd) = None \<and> regs k' = (regs k)((c, fd) \<mapsto> (nev_pointer ev, True))"
  using assms(1) [unfolded epoll_ok_def ctl_ok_def, THEN conjunct1, THEN conjunct1, rule_format, where c = c and fd = fd and ev = ev and k = k]
    assms(2) by simp_all

lemma epoll_mod:
  assumes "epoll_ok U regs" "sys_epoll_ctl U c EPOLL_CTL_MOD fd ev k = (rc, errno, k')"
  shows "regs k' = regs k \<or> regs k (c, fd) \<noteq> None \<and> regs k' = (regs k)((c, fd) \<mapsto> (nev_pointer ev, True))"
  using assms(1) [unfolded epoll_ok_def ctl_ok_def, THEN conjunct1, THEN conjunct2, THEN conjunct1, rule_format, where c = c and fd = fd and ev = ev and k = k]
    assms(2) by (simp split: if_splits)

lemma epoll_del:
  assumes "epoll_ok U regs" "sys_epoll_ctl U c EPOLL_CTL_DEL fd ev k = (rc, errno, k')"
  shows "regs k' = (regs k)((c, fd) := None)"
  using assms(1) [unfolded epoll_ok_def ctl_ok_def, THEN conjunct1, THEN conjunct2, THEN conjunct2, rule_format, where c = c and fd = fd and ev = ev and k = k]
    assms(2) by simp

lemma epoll_wait:
  assumes "epoll_ok U regs" "sys_wait U h n k = (rc, errno, events, k')"
  shows "\<exists>fds. distinct fds \<and> length fds = length (take (nat rc) events) \<and>
          (\<forall>i<length fds. regs k (h, fds ! i) = Some (nev_pointer (events ! i), True)) \<and> regs k' = disarm h fds (regs k)"
  using assms(1) [unfolded epoll_ok_def wait_ok_def, THEN conjunct2, THEN conjunct1, rule_format, where h = h and n = n and k = k]
    assms(2) by simp

lemma epoll_calls: "epoll_ok U regs \<Longrightarrow> calls_ok U regs"
  by (simp add: epoll_ok_def)

definition epoll_registers :: "int \<times> int \<Rightarrow> ev_filter \<Rightarrow> nat \<Rightarrow> registrations \<Rightarrow> registrations \<Rightarrow> bool" where
  "epoll_registers t f p r r' \<longleftrightarrow> r t = None \<and> r' = r(t \<mapsto> (p, True))"

definition epoll_releases :: "int \<times> int \<Rightarrow> registrations \<Rightarrow> registrations \<Rightarrow> bool" where
  "epoll_releases t r r' \<longleftrightarrow> r' = r(t := None)"

lemma queue_call_epoll:
  assumes "epoll_ok U regs" "queue_call Linux U f this t k = (rc, errno, k')"
  shows "if rc < 0 then regs k' = regs k \<and> 0 < errno \<and> errno < 2 ^ 28
    else epoll_registers t f this (regs k) (regs k') \<and> fst t \<noteq> -1 \<and> snd t \<noteq> -1"
proof -
  obtain c fd where t: "t = (c, fd)" by (metis prod.exhaust)
  from epoll_add [OF assms(1) assms(2) [unfolded queue_call_def t, simplified]] show ?thesis
    by (auto simp: t epoll_registers_def queue_entry_def)
qed

interpretation epoll: notifier Linux U regs epoll_registers epoll_releases "epoll_ok U regs"
  for U :: "'k usys" and regs :: "'k \<Rightarrow> registrations"
proof (unfold_locales, goal_cases)
  case (1 f this t k rc errno k')
  from queue_call_epoll [OF 1(1,3)] show ?case by auto
next
  case (2 t ev k rc errno k')
  from epoll_del [OF 2(1,3)] show ?case by (simp add: epoll_releases_def)
qed (simp_all add: epoll_calls)

section \<open>Registrations, suspended operations and entries\<close>

text \<open>
  \<open>left p\<close> is how often the pointer \<open>p\<close> stands in the entries threads have taken and not looked at: for a suspended
  operation, 0 while its registration is armed and 1 when it is not.
\<close>

definition tracked :: "int \<Rightarrow> int \<Rightarrow> registrations \<Rightarrow> (nat \<Rightarrow> operation option) \<Rightarrow> nat multiset \<Rightarrow> bool" where
  "tracked h ev r ops left \<longleftrightarrow>
     (\<exists>q. r (h, ev) = Some (0, q)) \<and>
     (\<forall>p x. ops p = Some x \<longrightarrow> p \<noteq> 0 \<and> op_waiting Linux x \<and> fst (op_target x) = h \<and>
        (\<exists>armed. r (op_target x) = Some (p, armed) \<and> count left p = (if armed then 0 else 1))) \<and>
     (\<forall>fd p q. r (h, fd) = Some (p, q) \<and> p \<noteq> 0 \<longrightarrow> (\<exists>x. ops p = Some x \<and> op_target x = (h, fd))) \<and>
     (\<forall>p. ops p = None \<longrightarrow> count left p = 0)"

lemma trackedD:
  assumes "tracked h ev r ops left"
  shows "\<exists>q. r (h, ev) = Some (0, q)"
    and "ops p = Some x \<Longrightarrow> p \<noteq> 0 \<and> op_waiting Linux x \<and> fst (op_target x) = h \<and>
        (\<exists>armed. r (op_target x) = Some (p, armed) \<and> count left p = (if armed then 0 else 1))"
    and "r (h, fd) = Some (p, q) \<Longrightarrow> p \<noteq> 0 \<Longrightarrow> \<exists>x. ops p = Some x \<and> op_target x = (h, fd)"
    and "ops p = None \<Longrightarrow> count left p = 0"
  using assms unfolding tracked_def by blast+

lemma tracked_begin:
  assumes t: "tracked h ev r ops left" and "ops p = None" "p \<noteq> 0" "op_waiting Linux x" "fst (op_target x) = h"
    and free: "r (op_target x) = None"
  shows "tracked h ev (r(op_target x \<mapsto> (p, True))) (ops(p \<mapsto> x)) left"
proof -
  obtain fd where tg: "op_target x = (h, fd)" using assms(5) by (metis prod.collapse)
  have other: "op_target y \<noteq> op_target x" if "ops q = Some y" for q y
    using trackedD(2) [OF t that] free by auto
  show ?thesis unfolding tracked_def
  proof (intro conjI allI impI)
    show "\<exists>q. (r(op_target x \<mapsto> (p, True))) (h, ev) = Some (0, q)" using trackedD(1) [OF t] free by (auto simp: fun_upd_def)
  next
    fix q y assume q: "(ops(p \<mapsto> x)) q = Some y"
    show "q \<noteq> 0" "op_waiting Linux y" "fst (op_target y) = h"
      using q assms(3-5) trackedD(2) [OF t, of q y] by (auto split: if_splits)
    show "\<exists>armed. (r(op_target x \<mapsto> (p, True))) (op_target y) = Some (q, armed) \<and> count left q = (if armed then 0 else 1)"
    proof (cases "q = p")
      case True
      with q trackedD(4) [OF t assms(2)] show ?thesis by auto
    next
      case False
      with q have "ops q = Some y" by simp
      with trackedD(2) [OF t this] other [OF this] show ?thesis by auto
    qed
  next
    fix fd' q b assume "(r(op_target x \<mapsto> (p, True))) (h, fd') = Some (q, b) \<and> q \<noteq> 0"
    then show "\<exists>y. (ops(p \<mapsto> x)) q = Some y \<and> op_target y = (h, fd')"
      using trackedD(3) [OF t, of fd' q b] assms(2) tg by (cases "(h, fd') = op_target x") auto
  next
    fix q assume "(ops(p \<mapsto> x)) q = None"
    then show "count left q = 0" using trackedD(4) [OF t] by (auto split: if_splits)
  qed
qed

text \<open>A dispatched operation was suspended, and its registration disarmed; it goes, or is registered again.\<close>

lemma tracked_left:
  assumes "tracked h ev r ops (add_mset p left)"
  shows "\<exists>x. ops p = Some x \<and> op_waiting Linux x \<and> fst (op_target x) = h \<and> p \<noteq> 0 \<and> r (op_target x) = Some (p, False) \<and> count left p = 0"
proof -
  from trackedD(4) [OF assms, of p] obtain x where x: "ops p = Some x" by (cases "ops p") auto
  from trackedD(2) [OF assms x] x show ?thesis by (auto simp: not_in_iff split: if_splits)
qed

lemma tracked_continue:
  assumes t: "tracked h ev r ops (add_mset p left)" and x: "ops p = Some x"
  shows "tracked h ev (r(op_target x := None)) (ops(p := None)) left"
proof -
  from tracked_left [OF t] x have l: "fst (op_target x) = h" "p \<noteq> 0" "r (op_target x) = Some (p, False)" "count left p = 0" by auto
  have other: "op_target y \<noteq> op_target x" if "ops q = Some y" "q \<noteq> p" for q y
    using trackedD(2) [OF t that(1)] l(3) that(2) by auto
  show ?thesis unfolding tracked_def
  proof (intro conjI allI impI)
    show "\<exists>q. (r(op_target x := None)) (h, ev) = Some (0, q)" using trackedD(1) [OF t] l by (auto simp: fun_upd_def)
  next
    fix q y assume "(ops(p := None)) q = Some y"
    then have q: "ops q = Some y" "q \<noteq> p" by (auto split: if_splits)
    note y = trackedD(2) [OF t q(1)]
    show "q \<noteq> 0" "op_waiting Linux y" "fst (op_target y) = h" using y by auto
    show "\<exists>armed. (r(op_target x := None)) (op_target y) = Some (q, armed) \<and> count left q = (if armed then 0 else 1)"
      using y other [OF q] q(2) by auto
  next
    fix fd' q b assume "(r(op_target x := None)) (h, fd') = Some (q, b) \<and> q \<noteq> 0"
    then have q: "r (h, fd') = Some (q, b)" "q \<noteq> 0" "(h, fd') \<noteq> op_target x" by (auto split: if_splits)
    from trackedD(3) [OF t q(1,2)] obtain y where "ops q = Some y" "op_target y = (h, fd')" by blast
    with q(3) x show "\<exists>y. (ops(p := None)) q = Some y \<and> op_target y = (h, fd')" by auto
  next
    fix q assume "(ops(p := None)) q = None"
    then show "count left q = 0" using trackedD(4) [OF t, of q] l(4) by (auto split: if_splits)
  qed
qed

lemma tracked_again:
  assumes t: "tracked h ev r ops (add_mset p left)" and x: "ops p = Some x" and "op_waiting Linux x'" "op_target x' = op_target x"
  shows "tracked h ev (r(op_target x \<mapsto> (p, True))) (ops(p \<mapsto> x')) left"
proof -
  from tracked_left [OF t] x have l: "fst (op_target x) = h" "p \<noteq> 0" by auto
  from tracked_begin [OF tracked_continue [OF t x], of p x'] l assms(3,4) show ?thesis by simp
qed

lemma tracked_interrupt:
  assumes t: "tracked h ev r ops left"
  shows "tracked h ev (r((h, ev) \<mapsto> (0, True))) ops left"
proof -
  have other: "op_target x \<noteq> (h, ev)" if "ops p = Some x" for p x
    using trackedD(2) [OF t that] trackedD(1) [OF t] by auto
  show ?thesis unfolding tracked_def
  proof (intro conjI allI impI)
    show "\<exists>q. (r((h, ev) \<mapsto> (0, True))) (h, ev) = Some (0, q)" by (auto intro: exI [of _ True])
  next
    fix p x assume p: "ops p = Some x"
    note x = trackedD(2) [OF t p]
    show "p \<noteq> 0" "op_waiting Linux x" "fst (op_target x) = h" using x by auto
    show "\<exists>armed. (r((h, ev) \<mapsto> (0, True))) (op_target x) = Some (p, armed) \<and> count left p = (if armed then 0 else 1)"
      using x other [OF p] by auto
  next
    fix fd p q assume "(r((h, ev) \<mapsto> (0, True))) (h, fd) = Some (p, q) \<and> p \<noteq> 0"
    then show "\<exists>x. ops p = Some x \<and> op_target x = (h, fd)" using trackedD(3) [OF t, of fd p q] by (auto split: if_splits)
  next
    fix p assume "ops p = None"
    then show "count left p = 0" by (rule trackedD(4) [OF t])
  qed
qed

text \<open>A wait takes the pointers of the registrations it disarms, each once.\<close>

lemma disarm_at: "disarm h fds r (h, fd) = (if fd \<in> set fds then map_option (\<lambda>v. (fst v, False)) (r (h, fd)) else r (h, fd))"
  by (simp add: disarm_def)

lemma tracked_wait:
  assumes t: "tracked h ev r ops left" and fds: "distinct fds"
    and ptr: "\<And>fd. fd \<in> set fds \<Longrightarrow> r (h, fd) = Some (ptr fd, True)"
  shows "tracked h ev (disarm h fds r) ops (left + mset (filter (\<lambda>e. e \<noteq> 0) (map ptr fds)))"
proof -
  have new: "count (mset (filter (\<lambda>e. e \<noteq> 0) (map ptr fds))) p = (if fd \<in> set fds then 1 else 0)"
    if "ops p = Some x" "op_target x = (h, fd)" for p x fd
  proof -
    have "ptr fd' = p \<longleftrightarrow> fd' = fd" if "fd' \<in> set fds" for fd'
    proof
      assume "ptr fd' = p"
      with ptr [OF that] trackedD(3) [OF t, of fd' p True] trackedD(2) [OF t \<open>ops p = Some x\<close>]
      show "fd' = fd" using \<open>ops p = Some x\<close> \<open>op_target x = (h, fd)\<close> by auto
    next
      assume "fd' = fd"
      with ptr [OF that] trackedD(2) [OF t \<open>ops p = Some x\<close>] \<open>op_target x = (h, fd)\<close> show "ptr fd' = p" by auto
    qed
    from count_pointers [OF fds, of ptr p fd, OF this] trackedD(2) [OF t that(1)] show ?thesis by (simp del: count_mset)
  qed
  have none: "count (mset (filter (\<lambda>e. e \<noteq> 0) (map ptr fds))) p = 0" if "ops p = None" for p
  proof -
    have "\<forall>fd\<in>set fds. ptr fd = p \<longrightarrow> p = 0"
      using ptr trackedD(3) [OF t, of _ p True] \<open>ops p = None\<close> by fastforce
    then show ?thesis by (auto simp: count_eq_zero_iff)
  qed
  show ?thesis unfolding tracked_def
  proof (intro conjI allI impI)
    show "\<exists>q. disarm h fds r (h, ev) = Some (0, q)" using trackedD(1) [OF t] by (auto simp: disarm_at)
  next
    fix p x assume p: "ops p = Some x"
    note x = trackedD(2) [OF t p]
    show "p \<noteq> 0" "op_waiting Linux x" "fst (op_target x) = h" using x by auto
    obtain fd where tg: "op_target x = (h, fd)" using x by (metis prod.collapse)
    from x tg obtain armed where a: "r (h, fd) = Some (p, armed)" "count left p = (if armed then 0 else 1)" by auto
    have "armed" if "fd \<in> set fds" using ptr [OF that] a(1) by simp
    with a new [OF p tg]
    show "\<exists>armed. disarm h fds r (op_target x) = Some (p, armed) \<and>
        count (left + mset (filter (\<lambda>e. e \<noteq> 0) (map ptr fds))) p = (if armed then 0 else 1)"
      by (auto simp: tg disarm_at simp del: count_mset)
  next
    fix fd p q assume "disarm h fds r (h, fd) = Some (p, q) \<and> p \<noteq> 0"
    then show "\<exists>x. ops p = Some x \<and> op_target x = (h, fd)"
      using trackedD(3) [OF t, of fd p] by (auto simp: disarm_at split: if_splits)
  next
    fix p assume "ops p = None"
    with none trackedD(4) [OF t] show "count (left + mset (filter (\<lambda>e. e \<noteq> 0) (map ptr fds))) p = 0"
      by (simp del: count_mset)
  qed
qed

section \<open>The invariant of the loop\<close>

lemma tracked_context_wait:
  assumes ok: "epoll_ok U regs" and t: "tracked (ctx_handle c) ev (regs k) ops left" and r: "context_wait_unix U c n k = (r, k')"
  shows "tracked (ctx_handle c) ev (regs k') ops (left + taken_entries r)"
proof -
  obtain rc errno events k1 where k: "sys_wait U (ctx_handle c) (ucast n) k = (rc, errno, events, k1)" by (metis prod_cases4)
  from epoll_wait [OF ok k] obtain fds where fds: "distinct fds" "length fds = length (take (nat rc) events)"
    "\<And>i. i < length fds \<Longrightarrow> regs k (ctx_handle c, fds ! i) = Some (nev_pointer (events ! i), True)"
    "regs k1 = disarm (ctx_handle c) fds (regs k)" by blast
  define ptr where "ptr fd = fst (the (regs k (ctx_handle c, fd)))" for fd
  have ptr: "regs k (ctx_handle c, fd) = Some (ptr fd, True)" if fd: "fd \<in> set fds" for fd
    using fd fds(3) by (auto simp: ptr_def in_set_conv_nth)
  have es: "map nev_pointer (take (nat rc) events) = map ptr fds"
    using fds(2,3) by (intro nth_equalityI) (auto simp: ptr_def)
  note new = tracked_wait [OF t fds(1) ptr, folded fds(4)]
  show ?thesis
  proof (cases "rc < 0 \<and> errno \<noteq> EINTR U")
    case True
    then have "fds = []" using fds(2) by simp
    with True r k new show ?thesis by (auto simp: context_wait_unix_def taken_entries_def)
  next
    case False
    then have "context_wait_unix U c n k = (Wait_entries (map ptr fds), k1)"
      using k es by (auto simp: context_wait_unix_def)
    with r new show ?thesis by (auto simp: taken_entries_def)
  qed
qed

lemma tracked_context_interrupt:
  assumes "epoll_ok U regs" "tracked (ctx_handle c) (ctx_events c) (regs k) ops left"
  shows "tracked (ctx_handle c) (ctx_events c) (regs (context_interrupt_unix Linux U c k)) ops left"
proof -
  obtain rc errno k' where k: "sys_epoll_ctl U (ctx_handle c) EPOLL_CTL_MOD (ctx_events c) (Epoll_event {EPOLLOUT, EPOLLONESHOT} 0) k = (rc, errno, k')"
    by (metis prod_cases3)
  from epoll_mod [OF assms(1) k] assms(2) tracked_interrupt [OF assms(2)] show ?thesis
    by (auto simp: context_interrupt_unix_def k)
qed

interpretation epoll_tracking: loop_tracking Linux U regs epoll_registers epoll_releases "epoll_ok U regs" c
    "tracked (ctx_handle c) (ctx_events c)" "\<lambda>_ _. True"
  for U :: "'k usys" and regs :: "'k \<Rightarrow> registrations" and c
proof (unfold_locales, goal_cases)
  case (1 r ops p left)
  from tracked_left [OF this] show ?case by blast
next
  case (2 r ops left x p r')
  then show ?case using tracked_begin [of "ctx_handle c" "ctx_events c" r ops left p x] by (simp add: epoll_registers_def)
next
  case (3 r ops p left x r')
  then show ?case using tracked_continue [OF 3(1,2)] by (simp add: epoll_releases_def)
next
  case (4 r ops p left x x' r1 r')
  then show ?case using tracked_again [OF 4(1,2), of x'] by (simp add: epoll_releases_def epoll_registers_def)
qed (auto intro: tracked_context_wait tracked_context_interrupt)

text \<open>The loop starts as the constructor leaves the context: the descriptor of the interrupts is registered, without a pointer.\<close>

definition loop_start :: "('k \<Rightarrow> registrations) \<Rightarrow> ice_context \<Rightarrow> 'k loop \<Rightarrow> bool" where
  "loop_start regs c s \<longleftrightarrow>
     (\<exists>w. lp_run s = context_start w \<and> regs (w_kern w) (ctx_handle c, ctx_events c) \<noteq> None \<and>
        (\<forall>fd v. regs (w_kern w) (ctx_handle c, fd) = Some v \<longrightarrow> fst v = 0)) \<and>
     lp_ops s = (\<lambda>_. None) \<and> lp_started s = [] \<and> lp_continued s = [] \<and> \<not> lp_fault s"

lemma loop_inv_start: "loop_start regs c s \<Longrightarrow> loop_inv regs (tracked (ctx_handle c) (ctx_events c)) s"
  unfolding loop_start_def loop_inv_iff
  by (auto simp: context_inv_start tracked_def entries_def suspended_def sum_counted_def)
    (force simp: context_start_def)+

interpretation event_loop: invariant_system "loop_start regs c" "act_step (loop_exec Linux U A c n wakes env)"
    "\<lambda>s. epoll_ok U regs \<and> keeps_regs regs env \<longrightarrow> loop_inv regs (tracked (ctx_handle c) (ctx_events c)) s"
  for regs c U A n wakes env
  by unfold_locales (auto intro: loop_inv_start epoll_tracking.loop_inv_step)

section \<open>Properties\<close>


text \<open>
  C10: objects keep their class. An operation that is suspended is of the class the coroutine constructed at that address, for the context and socket it
  was constructed for, and its own record of the registration (\<open>native_context_\<close>, \<open>native_id_\<close>, what \<open>remove\<close> will give up) is that
  context and socket, never the initial -1; so two suspended operations never share a socket.
\<close>

theorem loop_objects_typed:
  assumes "epoll_ok U regs" "keeps_regs regs env"
    and "reach (loop_start regs c) (act_step (loop_exec Linux U A c n wakes env)) s"
    and "lp_ops s p = Some x"
  shows "same_class (lp_made s p) x \<and> op_target x = op_target (lp_made s p) \<and> fst (op_target x) = ctx_handle c \<and>
    natives (op_event x) = op_target x \<and> snd (op_target x) \<noteq> -1 \<and>
    (\<forall>q y. lp_ops s q = Some y \<and> op_target y = op_target x \<longrightarrow> q = p)"
proof -
  have inv: "loop_inv regs (tracked (ctx_handle c) (ctx_events c)) s" using event_loop.reach_inv [OF assms(3)] assms(1,2) by blast
  then have t: "tracked (ctx_handle c) (ctx_events c) (regs (w_kern (cm_kern (lp_run s)))) (lp_ops s) (entries (lp_run s))"
    by (simp add: loop_inv_iff)
  have "q = p" if "lp_ops s q = Some y" "op_target y = op_target x" for q y
    using trackedD(2) [OF t that(1)] trackedD(2) [OF t assms(4)] that(2) by auto
  moreover have "same_class (lp_made s p) x \<and> op_target x = op_target (lp_made s p)"
    using inv assms(4) unfolding loop_inv_iff by blast
  moreover have "op_waiting Linux x" "fst (op_target x) = ctx_handle c" using trackedD(2) [OF t assms(4)] by blast+
  ultimately show ?thesis unfolding op_waiting_def holds_target_def natives_def by auto
qed

text \<open>
  C11: a socket waits for one thing at a time. While an operation is suspended on a socket, awaiting any other operation on the same socket
  that cannot complete at once fails on Linux, where a descriptor has one registration: the coroutine goes on with an error in the operation,
  and the first operation stays suspended. So a socket cannot be waited on for receiving and for sending at the same time, as the test server
  and the SSH transport's users may.
\<close>

theorem loop_second_wait_fails:
  assumes "epoll_ok U regs" "keeps_regs regs env"
    and "reach (loop_start regs c) (act_step (loop_exec Linux U A c n wakes env)) s"
    and "lp_ops s p = Some x" "op_target y = op_target x"
    and "op_ready Linux U A (y, cm_kern (lp_run s)) = Some (False, y1, w1)"
    and step: "loop_exec Linux U A c n wakes env (Await q a y) s = Some s'"
  shows "lp_ops s' = lp_ops s \<and> lp_continued s' = lp_continued s @ [(q, a)] \<and>
    (\<exists>y' w'. op_begin Linux U A q a (y, cm_kern (lp_run s)) = Some (True, y', w') \<and> same_class y y' \<and> ec_bool (ev_ec (op_event y')))"
proof -
  have inv: "loop_inv regs (tracked (ctx_handle c) (ctx_events c)) s" using event_loop.reach_inv [OF assms(3)] assms(1,2) by blast
  then have "tracked (ctx_handle c) (ctx_events c) (regs (w_kern (cm_kern (lp_run s)))) (lp_ops s) (entries (lp_run s))"
    by (simp add: loop_inv_iff)
  from trackedD(2) [OF this assms(4)] assms(5) have taken: "\<not> epoll_registers (op_target y) (op_filter y) q (regs (w_kern (cm_kern (lp_run s)))) r" for r
    by (auto simp: epoll_registers_def)
  from step have y: "op_sane y" "lp_ops s q = None" and aw: "loop_await Linux U A c q a y s = Some s'" by (auto split: if_splits)
  then obtain b y' w' where b: "op_begin Linux U A q a (y, cm_kern (lp_run s)) = Some (b, y', w')"
    by (auto simp: loop_await_eq split: option.splits)
  from epoll.op_begin_taken [OF assms(1) y(1) assms(6) taken b] b aw y(2) show ?thesis by (auto simp: loop_await_eq)
qed

section \<open>A concrete kernel\<close>

text \<open>
  Registrations, and the bytes that have arrived on descriptor 7, which becomes readable only and is never writable. Its error numbers are
  \<open>EEXIST\<close> (17), \<open>ENOENT\<close> (2) and \<open>EAGAIN\<close> (11).
\<close>

definition epoll_unix :: "(registrations \<times> byte list) usys" where
  "epoll_unix = failing_unix
     \<lparr>sys_epoll_ctl := \<lambda>c op fd ev k.
        (case op of
           EPOLL_CTL_ADD \<Rightarrow>
             if c = -1 \<or> fd = -1 \<or> fst k (c, fd) \<noteq> None then (-1, 17, k)
             else (0, 0, ((fst k)((c, fd) \<mapsto> (nev_pointer ev, True)), snd k))
         | EPOLL_CTL_MOD \<Rightarrow>
             if fst k (c, fd) = None then (-1, 2, k) else (0, 0, ((fst k)((c, fd) \<mapsto> (nev_pointer ev, True)), snd k))
         | EPOLL_CTL_DEL \<Rightarrow>
             if fst k (c, fd) = None then (-1, 2, k) else (0, 0, ((fst k)((c, fd) := None), snd k))),
      sys_wait := \<lambda>h n k.
        (case fst k (h, 7) of
           Some (p, armed) \<Rightarrow>
             if armed \<and> snd k \<noteq> [] then (1, 0, [Epoll_event {EPOLLIN} p], (disarm h [7] (fst k), snd k)) else (0, 0, [], k)
         | None \<Rightarrow> (0, 0, [], k)),
      sys_read := \<lambda>fd n k. (if snd k = [] then (-1, 11, [], k) else (1, 0, [hd (snd k)], (fst k, tl (snd k)))),
      sys_write := \<lambda>fd bs k. (-1, 11, k)\<rparr>"

lemma epoll_unix_calls:
  "sys_epoll_ctl epoll_unix c op fd ev k =
     (case op of
        EPOLL_CTL_ADD \<Rightarrow>
          if c = -1 \<or> fd = -1 \<or> fst k (c, fd) \<noteq> None then (-1, 17, k)
          else (0, 0, ((fst k)((c, fd) \<mapsto> (nev_pointer ev, True)), snd k))
      | EPOLL_CTL_MOD \<Rightarrow>
          if fst k (c, fd) = None then (-1, 2, k) else (0, 0, ((fst k)((c, fd) \<mapsto> (nev_pointer ev, True)), snd k))
      | EPOLL_CTL_DEL \<Rightarrow>
          if fst k (c, fd) = None then (-1, 2, k) else (0, 0, ((fst k)((c, fd) := None), snd k)))"
  "sys_wait epoll_unix h n k =
     (case fst k (h, 7) of
        Some (p, armed) \<Rightarrow>
          if armed \<and> snd k \<noteq> [] then (1, 0, [Epoll_event {EPOLLIN} p], (disarm h [7] (fst k), snd k)) else (0, 0, [], k)
      | None \<Rightarrow> (0, 0, [], k))"
  "sys_read epoll_unix fd m k = (if snd k = [] then (-1, 11, [], k) else (1, 0, [hd (snd k)], (fst k, tl (snd k))))"
  "sys_write epoll_unix fd bs k = (-1, 11, k)"
  "sys_accept4 epoll_unix fd a l k = (-1, 22, a, l, k)" "sys_connect epoll_unix fd a l k = (-1, 22, k)"
  "sys_getsockopt epoll_unix fd lv nm l k = (-1, 22, [], l, k)" "sys_recvfrom epoll_unix fd m a l k = (-1, 22, [], a, l, k)"
  "sys_sendto epoll_unix fd bs a l k = (-1, 22, k)"
  "EAGAIN epoll_unix = 11" "EINTR epoll_unix = 4" "ECONNRESET epoll_unix = 104"
  by (simp_all add: epoll_unix_def failing_unix_def)

lemma epoll_ok_unix: "epoll_ok epoll_unix fst"
proof -
  have "disarm h [] r = r" for h r by (simp add: disarm_def fun_eq_iff)
  then have "wait_ok epoll_unix fst"
    unfolding wait_ok_def
    by (auto simp: epoll_unix_calls split: option.splits intro: exI [of _ "[]"] exI [of _ "[7 :: int]"])
  moreover have "ctl_ok epoll_unix fst" by (auto simp: ctl_ok_def epoll_unix_calls) (metis option.exhaust surj_pair)
  moreover have "calls_ok epoll_unix fst" by (auto simp: calls_ok_def epoll_unix_calls split: prod.splits)
  ultimately show ?thesis by (simp add: epoll_ok_def)
qed

definition epoll_env :: "(registrations \<times> byte list) udp_world \<Rightarrow> (registrations \<times> byte list) udp_world \<Rightarrow> bool" where
  "epoll_env w w' \<longleftrightarrow> fst (w_kern w') = fst (w_kern w)"

lemma keeps_regs_unix: "keeps_regs fst epoll_env"
  by (simp add: keeps_regs_def epoll_env_def)

definition epoll_world :: "byte list \<Rightarrow> registrations \<Rightarrow> (registrations \<times> byte list) udp_world" where
  "epoll_world d r = \<lparr>w_mem = (\<lambda>_. 0), w_kern = (r, d), w_endpoints = (\<lambda>_. demo_endpoint)\<rparr>"

text \<open>One thread waits, a coroutine awaits \<open>recv\<close> on descriptor 7.\<close>

definition loop_demo :: "(registrations \<times> byte list) loop" where
  "loop_demo =
     \<lparr>lp_run = context_start (epoll_world [] [(3, 4) \<mapsto> (0, False)]), lp_ops = (\<lambda>_. None),
      lp_made = (\<lambda>_. Recv (recv_make (Unix Linux) (socket_empty sockaddr_zero (-1) 3) 0 0)),
      lp_done = (\<lambda>_. Recv (recv_make (Unix Linux) (socket_empty sockaddr_zero (-1) 3) 0 0)), lp_started = [], lp_continued = [],
      lp_fault = False\<rparr>"

lemma loop_start_demo: "loop_start fst demo_context loop_demo"
  unfolding loop_start_def loop_demo_def
  by (auto simp: epoll_world_def demo_context_def intro!: exI [of _ "epoll_world [] [(3, 4) \<mapsto> (0, False)]"] split: if_split_asm)

abbreviation demo_exec where
  "demo_exec \<equiv> loop_exec Linux epoll_unix demo_abi demo_context 1 (\<lambda>_. True) epoll_env"

lemmas demo_defs = demo_loop_defs loop_demo_def epoll_world_def epoll_unix_calls

text \<open>The byte arrives, the thread takes the entry and dispatches it, and the coroutine goes on.\<close>

lemma demo_received:
  "\<exists>s. run_acts demo_exec [Loop (Run 0), Loop (Step 0), Await 100 5 demo_recv,
         Loop (Kernel (epoll_world [65] [(3, 4) \<mapsto> (0, False), (3, 7) \<mapsto> (100, True)])), Loop (Step 0), Loop (Step 0)] loop_demo = Some s \<and>
     lp_continued s = [(100, 5)] \<and> w_mem (cm_kern (lp_run s)) 1000 = 65"
  by (simp add: demo_defs epoll_env_def mem_write_def disarm_def)

lemma demo_waits:
  "\<exists>s. run_acts demo_exec [Loop (Run 0), Loop (Step 0), Await 100 5 demo_recv] loop_demo = Some s \<and>
     (\<exists>e. lp_ops s 100 = Some (Recv e) \<and> rc_context e = 3 \<and> rc_socket e = 7) \<and>
     w_kern (cm_kern (lp_run s)) = ([(3, 4) \<mapsto> (0, False), (3, 7) \<mapsto> (100, True)], []) \<and> lp_ops s 200 = None \<and> lp_continued s = []"
  by (simp add: demo_defs)


lemma loop_objects_typed_witness:
  "\<exists>s e. run_acts demo_exec [Loop (Run 0), Loop (Step 0), Await 100 5 demo_recv] loop_demo = Some s \<and>
     lp_ops s 100 = Some (Recv e) \<and> natives (op_event (Recv e)) = (3, 7)"
proof -
  from demo_waits obtain s e where s: "run_acts demo_exec [Loop (Run 0), Loop (Step 0), Await 100 5 demo_recv] loop_demo = Some s"
    "lp_ops s 100 = Some (Recv e)" "rc_context e = 3" "rc_socket e = 7" by blast
  have "reach (loop_start fst demo_context) (act_step demo_exec) s"
    by (rule run_acts_reach [OF s(1)]) (simp add: reach_init loop_start_demo)
  from loop_objects_typed [OF epoll_ok_unix keeps_regs_unix this s(2)] s have "natives (op_event (Recv e)) = (3, 7)"
    by (simp add: recv_target_def)
  with s show ?thesis by blast
qed

text \<open>While \<open>recv\<close> is suspended, \<open>send\<close> on the same socket ends with an exception.\<close>

lemma demo_send_target: "op_target demo_send = (3, 7)"
  by (simp add: demo_defs)

lemma demo_send_ready: "snd (w_kern w) = [] \<Longrightarrow> \<exists>y1 w1. op_ready Linux epoll_unix demo_abi (demo_send, w) = Some (False, y1, w1)"
  by (simp add: demo_defs)

lemma demo_send_taken:
  "w_kern w = ([(3, 4) \<mapsto> (0, False), (3, 7) \<mapsto> (100, True)], []) \<Longrightarrow>
   \<exists>y1 w1. op_begin Linux epoll_unix demo_abi 200 6 (demo_send, w) = Some (True, y1, w1)"
  by (simp add: demo_defs ex_bool_eq)

lemma loop_second_wait_fails_witness:
  "\<exists>s s' y' w'. run_acts demo_exec [Loop (Run 0), Loop (Step 0), Await 100 5 demo_recv] loop_demo = Some s \<and>
     demo_exec (Await 200 6 demo_send) s = Some s' \<and> lp_ops s' = lp_ops s \<and> lp_continued s' = [(200, 6)] \<and>
     op_begin Linux epoll_unix demo_abi 200 6 (demo_send, cm_kern (lp_run s)) = Some (True, y', w') \<and> ec_bool (ev_ec (op_event y'))"
proof -
  from demo_waits obtain s e where s: "run_acts demo_exec [Loop (Run 0), Loop (Step 0), Await 100 5 demo_recv] loop_demo = Some s"
    "lp_ops s 100 = Some (Recv e)" "rc_context e = 3" "rc_socket e = 7"
    "w_kern (cm_kern (lp_run s)) = ([(3, 4) \<mapsto> (0, False), (3, 7) \<mapsto> (100, True)], [])" "lp_ops s 200 = None" "lp_continued s = []"
    by blast
  have r: "reach (loop_start fst demo_context) (act_step demo_exec) s"
    by (rule run_acts_reach [OF s(1)]) (simp add: reach_init loop_start_demo)
  from demo_send_ready [of "cm_kern (lp_run s)"] s(5) obtain y1 w1
    where ready: "op_ready Linux epoll_unix demo_abi (demo_send, cm_kern (lp_run s)) = Some (False, y1, w1)" by auto
  have target: "op_target demo_send = op_target (Recv e)" using s demo_send_target by (simp add: recv_target_def)
  from demo_send_taken [OF s(5)] s(6) demo_send_target obtain s' where s': "demo_exec (Await 200 6 demo_send) s = Some s'"
    by (auto simp: loop_await_eq op_sane_def demo_send_def demo_context_def)
  from loop_second_wait_fails [OF epoll_ok_unix keeps_regs_unix r s(2) target ready s'] s s' show ?thesis by auto
qed

end
