(* ===== verification/Ice_Loop_Bsd.thy ===== *)
theory Ice_Loop_Bsd
  imports Ice_Loop_Run
begin

text \<open>
  The event loop on FreeBSD. The registrations of a \<open>kqueue\<close> are for a descriptor and a filter, so that a socket can wait to receive and to send
  at once; a one-shot registration is deleted when it is reported, and \<open>event::remove\<close> does nothing. Registering what is
  registered already gives no error: the entry takes the new pointer. \<open>kqueue_ok\<close> states this as the documentation of
  \<open>kevent\<close> does. It provides \<open>notifier\<close>, and \<open>loop_tracking\<close> twice: for every use, where an operation may be forgotten by the
  kernel, and for the use in which no coroutine waits for what another one waits for.
\<close>

section \<open>Registrations\<close>

type_synonym kq_key = "int \<times> int \<times> ev_filter"

type_synonym kq_registrations = "kq_key \<Rightarrow> nat option"

text \<open>A wait deletes the one-shot registrations it reports; that of the interrupts, with \<open>EV_CLEAR\<close>, stays.\<close>

definition kq_taken :: "int \<Rightarrow> (int \<times> ev_filter) list \<Rightarrow> kq_registrations \<Rightarrow> kq_registrations" where
  "kq_taken h keys r = (\<lambda>x. if fst x = h \<and> snd x \<in> set keys \<and> snd (snd x) \<noteq> EVFILT_USER then None else r x)"

definition kqueue_ok :: "'k usys \<Rightarrow> ('k \<Rightarrow> kq_registrations) \<Rightarrow> bool" where
  "kqueue_ok U regs \<longleftrightarrow>
     (\<forall>c fd f p k. f \<noteq> EVFILT_USER \<longrightarrow>
        (case sys_kevent U c (Kevent fd f {EV_ADD, EV_ONESHOT} {} p) k of (rc, errno, k') \<Rightarrow>
           if rc < 0 then regs k' = regs k \<and> 0 < errno \<and> errno < 2 ^ 28
           else regs k' = (regs k)((c, fd, f) \<mapsto> p))) \<and>
     (\<forall>c k. case sys_kevent U c (Kevent 0 EVFILT_USER {} {NOTE_TRIGGER} 0) k of (rc, errno, k') \<Rightarrow>
        regs k' = regs k \<or> regs k' = (regs k)((c, 0, EVFILT_USER) \<mapsto> 0)) \<and>
     (\<forall>h n k. case sys_wait U h n k of (rc, errno, events, k') \<Rightarrow>
        \<exists>keys. distinct keys \<and> length keys = length (take (nat rc) events) \<and>
          (\<forall>i<length keys. regs k (h, keys ! i) = Some (nev_pointer (events ! i))) \<and>
          regs k' = kq_taken h keys (regs k)) \<and>
     calls_ok U regs"

lemma kqueue_add:
  assumes "kqueue_ok U regs" "f \<noteq> EVFILT_USER" "sys_kevent U c (Kevent fd f {EV_ADD, EV_ONESHOT} {} p) k = (rc, errno, k')"
  shows "if rc < 0 then regs k' = regs k \<and> 0 < errno \<and> errno < 2 ^ 28 else regs k' = (regs k)((c, fd, f) \<mapsto> p)"
  using assms(1) [unfolded kqueue_ok_def, THEN conjunct1, rule_format, OF assms(2), where c = c and fd = fd and p = p and k = k]
    assms(3) by simp

lemma kqueue_trigger:
  assumes "kqueue_ok U regs" "sys_kevent U c (Kevent 0 EVFILT_USER {} {NOTE_TRIGGER} 0) k = (rc, errno, k')"
  shows "regs k' = regs k \<or> regs k' = (regs k)((c, 0, EVFILT_USER) \<mapsto> 0)"
  using assms(1) [unfolded kqueue_ok_def, THEN conjunct2, THEN conjunct1, THEN spec [where x = c], THEN spec [where x = k]] assms(2) by simp

lemma kqueue_wait:
  assumes "kqueue_ok U regs" "sys_wait U h n k = (rc, errno, events, k')"
  shows "\<exists>keys. distinct keys \<and> length keys = length (take (nat rc) events) \<and>
          (\<forall>i<length keys. regs k (h, keys ! i) = Some (nev_pointer (events ! i))) \<and> regs k' = kq_taken h keys (regs k)"
  using assms(1) [unfolded kqueue_ok_def, THEN conjunct2, THEN conjunct2, THEN conjunct1, THEN spec [where x = h], THEN spec [where x = n], THEN spec [where x = k]]
    assms(2) by simp

lemma kqueue_calls: "kqueue_ok U regs \<Longrightarrow> calls_ok U regs"
  by (simp add: kqueue_ok_def)

definition kq_registers :: "int \<times> int \<Rightarrow> ev_filter \<Rightarrow> nat \<Rightarrow> kq_registrations \<Rightarrow> kq_registrations \<Rightarrow> bool" where
  "kq_registers t f p r r' \<longleftrightarrow> r' = r((fst t, snd t, f) \<mapsto> p)"

definition kq_releases :: "int \<times> int \<Rightarrow> kq_registrations \<Rightarrow> kq_registrations \<Rightarrow> bool" where
  "kq_releases t r r' \<longleftrightarrow> r' = r"

interpretation kqueue: notifier FreeBSD U regs kq_registers kq_releases "kqueue_ok U regs"
  for U :: "'k usys" and regs :: "'k \<Rightarrow> kq_registrations"
proof (unfold_locales, goal_cases)
  case (1 f this t k rc errno k')
  from 1(3) have "sys_kevent U (fst t) (Kevent (snd t) f {EV_ADD, EV_ONESHOT} {} this) k = (rc, errno, k')"
    by (simp add: queue_call_def queue_entry_def)
  from kqueue_add [OF 1(1,2) this] show ?case by (auto simp: kq_registers_def split: if_splits)
qed (simp_all add: kqueue_calls kq_releases_def)

section \<open>Registrations, suspended operations and entries\<close>

definition op_key :: "operation \<Rightarrow> kq_key" where
  "op_key x = (fst (op_target x), snd (op_target x), op_filter x)"

lemma op_filter_not_user [simp]: "op_filter x \<noteq> EVFILT_USER" "EVFILT_USER \<noteq> op_filter x"
  by (cases x; simp)+

lemma op_key_class: "same_class x y \<Longrightarrow> op_target y = op_target x \<Longrightarrow> op_key y = op_key x"
  by (simp add: op_key_def same_class_filter)

text \<open>
  Every pointer of the kernel is to a suspended operation, under its own key; a suspended operation stands at most once among the entries
  taken, and then the kernel does not have it. If operations are awaited one at a time (\<open>alone\<close>), each is in one of
  the two places.
\<close>

definition kq_tracked :: "bool \<Rightarrow> int \<Rightarrow> kq_registrations \<Rightarrow> (nat \<Rightarrow> operation option) \<Rightarrow> nat multiset \<Rightarrow> bool" where
  "kq_tracked alone h r ops left \<longleftrightarrow>
     (\<forall>p x. ops p = Some x \<longrightarrow> p \<noteq> 0 \<and> op_waiting FreeBSD x \<and> fst (op_target x) = h \<and>
        (if r (op_key x) = Some p then count left p = 0 else if alone then count left p = 1 else count left p \<le> 1)) \<and>
     (\<forall>fd f p. r (h, fd, f) = Some p \<and> p \<noteq> 0 \<longrightarrow> (\<exists>x. ops p = Some x \<and> op_key x = (h, fd, f))) \<and>
     (\<forall>p. ops p = None \<longrightarrow> count left p = 0) \<and>
     (alone \<longrightarrow> (\<forall>p q x y. ops p = Some x \<and> ops q = Some y \<and> op_key x = op_key y \<longrightarrow> p = q))"

definition kq_may :: "bool \<Rightarrow> (nat \<Rightarrow> operation option) \<Rightarrow> operation \<Rightarrow> bool" where
  "kq_may alone ops x \<longleftrightarrow> (alone \<longrightarrow> (\<forall>q y. ops q = Some y \<longrightarrow> op_key y \<noteq> op_key x))"

lemma kq_trackedD:
  assumes "kq_tracked alone h r ops left"
  shows "ops p = Some x \<Longrightarrow> p \<noteq> 0 \<and> op_waiting FreeBSD x \<and> fst (op_target x) = h \<and>
        (if r (op_key x) = Some p then count left p = 0 else if alone then count left p = 1 else count left p \<le> 1)"
    and "r (h, fd, f) = Some p \<Longrightarrow> p \<noteq> 0 \<Longrightarrow> \<exists>x. ops p = Some x \<and> op_key x = (h, fd, f)"
    and "ops p = None \<Longrightarrow> count left p = 0"
    and "alone \<Longrightarrow> ops p = Some x \<Longrightarrow> ops q = Some y \<Longrightarrow> op_key x = op_key y \<Longrightarrow> p = q"
  using assms unfolding kq_tracked_def by blast+

lemma kq_trackedI:
  assumes "\<And>p x. ops p = Some x \<Longrightarrow> p \<noteq> 0 \<and> op_waiting FreeBSD x \<and> fst (op_target x) = h"
    and "\<And>p x. ops p = Some x \<Longrightarrow>
      if r (op_key x) = Some p then count left p = 0 else if alone then count left p = 1 else count left p \<le> 1"
    and "\<And>fd f p. r (h, fd, f) = Some p \<Longrightarrow> p \<noteq> 0 \<Longrightarrow> \<exists>x. ops p = Some x \<and> op_key x = (h, fd, f)"
    and "\<And>p. ops p = None \<Longrightarrow> count left p = 0"
    and "\<And>p q x y. alone \<Longrightarrow> ops p = Some x \<Longrightarrow> ops q = Some y \<Longrightarrow> op_key x = op_key y \<Longrightarrow> p = q"
  shows "kq_tracked alone h r ops left"
  using assms unfolding kq_tracked_def by blast

lemma kq_tracked_left:
  assumes "kq_tracked alone h r ops (add_mset p left)"
  shows "\<exists>x. ops p = Some x \<and> op_waiting FreeBSD x \<and> fst (op_target x) = h \<and> p \<noteq> 0 \<and> r (op_key x) \<noteq> Some p \<and> count left p = 0"
proof -
  from kq_trackedD(3) [OF assms, of p] obtain x where x: "ops p = Some x" by (cases "ops p") auto
  from kq_trackedD(1) [OF assms x] x show ?thesis by (auto simp: not_in_iff split: if_splits)
qed

lemma kq_tracked_begin:
  assumes t: "kq_tracked alone h r ops left" and may: "kq_may alone ops x" and p: "ops p = None" "p \<noteq> 0"
    and x: "op_waiting FreeBSD x" "fst (op_target x) = h"
  shows "kq_tracked alone h (r(op_key x \<mapsto> p)) (ops(p \<mapsto> x)) left"
proof (rule kq_trackedI)
  fix q y assume q: "(ops(p \<mapsto> x)) q = Some y"
  show "q \<noteq> 0 \<and> op_waiting FreeBSD y \<and> fst (op_target y) = h"
    using q p(2) x kq_trackedD(1) [OF t, of q y] by (auto split: if_splits)
  show "if (r(op_key x \<mapsto> p)) (op_key y) = Some q then count left q = 0
    else if alone then count left q = 1 else count left q \<le> 1"
  proof (cases "q = p")
    case True
    with q kq_trackedD(3) [OF t p(1)] show ?thesis by auto
  next
    case False
    with q have y: "ops q = Some y" by simp
    have "alone \<Longrightarrow> op_key y \<noteq> op_key x" using may y by (auto simp: kq_may_def)
    with kq_trackedD(1) [OF t y] False show ?thesis by (auto split: if_splits)
  qed
next
  fix fd f q assume q: "(r(op_key x \<mapsto> p)) (h, fd, f) = Some q" "q \<noteq> 0"
  show "\<exists>y. (ops(p \<mapsto> x)) q = Some y \<and> op_key y = (h, fd, f)"
  proof (cases "(h, fd, f) = op_key x")
    case True
    with q show ?thesis by auto
  next
    case False
    with q kq_trackedD(2) [OF t, of fd f q] p(1) show ?thesis by auto
  qed
next
  fix q assume "(ops(p \<mapsto> x)) q = None"
  then show "count left q = 0" using kq_trackedD(3) [OF t] by (auto split: if_splits)
next
  fix q1 q2 y1 y2 assume alone and q: "(ops(p \<mapsto> x)) q1 = Some y1" "(ops(p \<mapsto> x)) q2 = Some y2" "op_key y1 = op_key y2"
  have "op_key y \<noteq> op_key x" if "ops q = Some y" for q y using may \<open>alone\<close> that by (auto simp: kq_may_def)
  with q kq_trackedD(4) [OF t \<open>alone\<close>, of q1 y1 q2 y2] show "q1 = q2" by (fastforce split: if_splits)
qed

lemma kq_tracked_continue:
  assumes t: "kq_tracked alone h r ops (add_mset p left)" and x: "ops p = Some x"
  shows "kq_tracked alone h r (ops(p := None)) left"
proof (rule kq_trackedI)
  from kq_tracked_left [OF t] x have l: "r (op_key x) \<noteq> Some p" "count left p = 0" by auto
  fix q y assume "(ops(p := None)) q = Some y"
  then have q: "ops q = Some y" "q \<noteq> p" by (auto split: if_splits)
  note y = kq_trackedD(1) [OF t q(1)]
  show "q \<noteq> 0 \<and> op_waiting FreeBSD y \<and> fst (op_target y) = h" using y by simp
  show "if r (op_key y) = Some q then count left q = 0 else if alone then count left q = 1 else count left q \<le> 1"
    using y q(2) by (auto split: if_splits)
next
  from kq_tracked_left [OF t] x have l: "r (op_key x) \<noteq> Some p" by auto
  fix fd f q assume q: "r (h, fd, f) = Some q" "q \<noteq> 0"
  from kq_trackedD(2) [OF t q] obtain y where "ops q = Some y" "op_key y = (h, fd, f)" by blast
  with q l x show "\<exists>y. (ops(p := None)) q = Some y \<and> op_key y = (h, fd, f)" by auto
next
  from kq_tracked_left [OF t] have l: "count left p = 0" by auto
  fix q assume "(ops(p := None)) q = None"
  then show "count left q = 0" using kq_trackedD(3) [OF t, of q] l by (auto split: if_splits)
next
  fix q1 q2 y1 y2 assume alone "(ops(p := None)) q1 = Some y1" "(ops(p := None)) q2 = Some y2" "op_key y1 = op_key y2"
  with kq_trackedD(4) [OF t, of q1 y1 q2 y2] show "q1 = q2" by (auto split: if_splits)
qed

lemma kq_tracked_again:
  assumes t: "kq_tracked alone h r ops (add_mset p left)" and x: "ops p = Some x"
    and x': "op_waiting FreeBSD x'" "same_class x x'" "op_target x' = op_target x"
  shows "kq_tracked alone h (r(op_key x' \<mapsto> p)) (ops(p \<mapsto> x')) left"
proof -
  have key: "op_key x' = op_key x" by (rule op_key_class [OF x'(2,3)])
  have "kq_may alone (ops(p := None)) x'"
    using kq_trackedD(4) [OF t _ x] by (auto simp: kq_may_def key)
  from kq_tracked_begin [OF kq_tracked_continue [OF t x] this _ _ x'(1), where p = p] kq_tracked_left [OF t] x x'(3) show ?thesis by simp
qed

lemma kq_tracked_trigger:
  assumes t: "kq_tracked alone h r ops left"
  shows "kq_tracked alone h (r((h, 0, EVFILT_USER) \<mapsto> 0)) ops left"
proof -
  have key: "op_key x \<noteq> (h, 0, EVFILT_USER)" for x by (simp add: op_key_def)
  show ?thesis
  proof (rule kq_trackedI)
    fix p x assume "ops p = Some x"
    note x = kq_trackedD(1) [OF t this]
    then show "p \<noteq> 0 \<and> op_waiting FreeBSD x \<and> fst (op_target x) = h" by simp
    show "if (r((h, 0, EVFILT_USER) \<mapsto> 0)) (op_key x) = Some p then count left p = 0
      else if alone then count left p = 1 else count left p \<le> 1"
      using x key [of x] by (auto split: if_splits)
  next
    fix fd f p assume "(r((h, 0, EVFILT_USER) \<mapsto> 0)) (h, fd, f) = Some p" "p \<noteq> 0"
    then show "\<exists>x. ops p = Some x \<and> op_key x = (h, fd, f)" using kq_trackedD(2) [OF t, of fd f p] by (auto split: if_splits)
  qed (use kq_trackedD(3,4) [OF t] in blast)+
qed

text \<open>A wait takes the pointers of the registrations it reports, each once.\<close>

lemma kq_tracked_wait:
  assumes t: "kq_tracked alone h r ops left" and keys: "distinct keys"
    and ptr: "\<And>key. key \<in> set keys \<Longrightarrow> r (h, key) = Some (ptr key)"
  shows "kq_tracked alone h (kq_taken h keys r) ops (left + mset (filter (\<lambda>e. e \<noteq> 0) (map ptr keys)))"
proof -
  have new: "count (mset (filter (\<lambda>e. e \<noteq> 0) (map ptr keys))) p = (if r (op_key x) = Some p \<and> snd (op_key x) \<in> set keys then 1 else 0)"
    if x: "ops p = Some x" for p x
  proof -
    from kq_trackedD(1) [OF t x] have p: "p \<noteq> 0" and h: "op_key x = (h, snd (op_key x))" by (auto simp: op_key_def)
    have key: "key = snd (op_key x)" if "key \<in> set keys" "ptr key = p" for key
      using kq_trackedD(2) [OF t, of "fst key" "snd key" p] ptr [OF that(1)] that(2) p x by auto
    show ?thesis
    proof (cases "r (op_key x) = Some p \<and> snd (op_key x) \<in> set keys")
      case True
      with ptr [of "snd (op_key x)"] h have "ptr (snd (op_key x)) = p" by auto
      with key True have "ptr k = p \<longleftrightarrow> k = snd (op_key x)" if "k \<in> set keys" for k using that by metis
      from count_pointers [OF keys this] True p show ?thesis by (simp del: count_mset)
    next
      case False
      have "p \<notin> set (map ptr keys)" using False ptr key h by force
      with False show ?thesis by (auto simp: count_eq_zero_iff simp del: count_mset)
    qed
  qed
  have none: "count (mset (filter (\<lambda>e. e \<noteq> 0) (map ptr keys))) p = 0" if "ops p = None" for p
  proof -
    have "\<forall>key\<in>set keys. ptr key = p \<longrightarrow> p = 0"
      using ptr kq_trackedD(2) [OF t, of _ _ p] that by fastforce
    then show ?thesis by (auto simp: count_eq_zero_iff)
  qed
  show ?thesis
  proof (rule kq_trackedI)
    fix p x assume x: "ops p = Some x"
    note p = kq_trackedD(1) [OF t x]
    then show "p \<noteq> 0 \<and> op_waiting FreeBSD x \<and> fst (op_target x) = h" by simp
    have user: "snd (snd (op_key x)) \<noteq> EVFILT_USER" "fst (op_key x) = h" using p by (simp_all add: op_key_def)
    show "if kq_taken h keys r (op_key x) = Some p then count (left + mset (filter (\<lambda>e. e \<noteq> 0) (map ptr keys))) p = 0
      else if alone then count (left + mset (filter (\<lambda>e. e \<noteq> 0) (map ptr keys))) p = 1
      else count (left + mset (filter (\<lambda>e. e \<noteq> 0) (map ptr keys))) p \<le> 1"
      using p new [OF x] user by (auto simp: kq_taken_def simp del: count_mset split: if_splits)
  next
    fix fd f p assume "kq_taken h keys r (h, fd, f) = Some p" "p \<noteq> 0"
    then show "\<exists>x. ops p = Some x \<and> op_key x = (h, fd, f)"
      using kq_trackedD(2) [OF t, of fd f p] by (auto simp: kq_taken_def split: if_splits)
  next
    fix p assume "ops p = None"
    with none kq_trackedD(3) [OF t] show "count (left + mset (filter (\<lambda>e. e \<noteq> 0) (map ptr keys))) p = 0"
      by (simp del: count_mset)
  next
    fix p q x y assume alone "ops p = Some x" "ops q = Some y" "op_key x = op_key y"
    with kq_trackedD(4) [OF t] show "p = q" by blast
  qed
qed

section \<open>The invariant of the loop\<close>

lemma kq_context_wait:
  assumes ok: "kqueue_ok U regs" and t: "kq_tracked alone (ctx_handle c) (regs k) ops left" and r: "context_wait_unix U c n k = (r, k')"
  shows "kq_tracked alone (ctx_handle c) (regs k') ops (left + taken_entries r)"
proof -
  obtain rc errno events k1 where k: "sys_wait U (ctx_handle c) (ucast n) k = (rc, errno, events, k1)" by (metis prod_cases4)
  from kqueue_wait [OF ok k] obtain keys where keys: "distinct keys" "length keys = length (take (nat rc) events)"
    "\<And>i. i < length keys \<Longrightarrow> regs k (ctx_handle c, keys ! i) = Some (nev_pointer (events ! i))"
    "regs k1 = kq_taken (ctx_handle c) keys (regs k)" by blast
  define ptr where "ptr key = the (regs k (ctx_handle c, key))" for key
  have ptr: "regs k (ctx_handle c, key) = Some (ptr key)" if key: "key \<in> set keys" for key
    using key keys(3) by (auto simp: ptr_def in_set_conv_nth)
  have es: "map nev_pointer (take (nat rc) events) = map ptr keys"
    using keys(2,3) by (intro nth_equalityI) (auto simp: ptr_def)
  note new = kq_tracked_wait [OF t keys(1) ptr, folded keys(4)]
  show ?thesis
  proof (cases "rc < 0 \<and> errno \<noteq> EINTR U")
    case True
    then have "keys = []" using keys(2) by simp
    with True r k new show ?thesis by (auto simp: context_wait_unix_def taken_entries_def)
  next
    case False
    then have "context_wait_unix U c n k = (Wait_entries (map ptr keys), k1)"
      using k es by (auto simp: context_wait_unix_def)
    with r new show ?thesis by (auto simp: taken_entries_def)
  qed
qed

lemma kq_context_interrupt:
  assumes "kqueue_ok U regs" "kq_tracked alone (ctx_handle c) (regs k) ops left"
  shows "kq_tracked alone (ctx_handle c) (regs (context_interrupt_unix FreeBSD U c k)) ops left"
proof -
  obtain rc errno k' where k: "sys_kevent U (ctx_handle c) (Kevent 0 EVFILT_USER {} {NOTE_TRIGGER} 0) k = (rc, errno, k')"
    by (metis prod_cases3)
  from kqueue_trigger [OF assms(1) k] assms(2) kq_tracked_trigger [OF assms(2)] show ?thesis
    by (auto simp: context_interrupt_unix_def k)
qed

interpretation kq_tracking: loop_tracking FreeBSD U regs kq_registers kq_releases "kqueue_ok U regs" c
    "kq_tracked alone (ctx_handle c)" "kq_may alone"
  for U :: "'k usys" and regs :: "'k \<Rightarrow> kq_registrations" and c alone
proof (unfold_locales, goal_cases)
  case (1 r ops p left)
  from kq_tracked_left [OF this] show ?case by blast
next
  case (2 r ops left x p r')
  with kq_tracked_begin [OF 2(1-6)] show ?case by (simp add: kq_registers_def op_key_def)
next
  case (3 r ops p left x r')
  with kq_tracked_continue [OF 3(1,2)] show ?case by (simp add: kq_releases_def)
next
  case (4 r ops p left x x' r1 r')
  with kq_tracked_again [OF 4(1-5)] show ?case by (simp add: kq_registers_def kq_releases_def op_key_def)
next
  case (7 x y ops)
  then show ?case by (simp add: kq_may_def op_key_class)
qed (auto intro: kq_context_wait kq_context_interrupt)

text \<open>The loop starts as the constructor leaves the context: the interrupts are registered, without a pointer.\<close>

definition kq_start :: "('k \<Rightarrow> kq_registrations) \<Rightarrow> ice_context \<Rightarrow> 'k loop \<Rightarrow> bool" where
  "kq_start regs c s \<longleftrightarrow>
     (\<exists>w. lp_run s = context_start w \<and> (\<forall>key v. regs (w_kern w) (ctx_handle c, key) = Some v \<longrightarrow> v = 0)) \<and>
     lp_ops s = (\<lambda>_. None) \<and> lp_started s = [] \<and> lp_continued s = [] \<and> \<not> lp_fault s"

lemma kq_inv_start: "kq_start regs c s \<Longrightarrow> loop_inv regs (kq_tracked alone (ctx_handle c)) s"
  unfolding kq_start_def loop_inv_iff
  by (auto simp: context_inv_start kq_tracked_def entries_def suspended_def sum_counted_def)
    (auto simp: context_start_def)

text \<open>The use in which no coroutine awaits what another one waits for already.\<close>

definition alone_exec :: "bool \<Rightarrow> ('k loop_act \<Rightarrow> 'k loop \<Rightarrow> 'k loop option) \<Rightarrow> 'k loop_act \<Rightarrow> 'k loop \<Rightarrow> 'k loop option" where
  "alone_exec alone exec a s =
     (if (case a of Await p b x \<Rightarrow> kq_may alone (lp_ops s) x | Loop _ \<Rightarrow> True) then exec a s else None)"

lemma alone_exec_False [simp]: "alone_exec False exec = exec"
  by (auto simp: alone_exec_def kq_may_def fun_eq_iff split: object_act.splits)

interpretation kq_loop: invariant_system "kq_start regs c" "act_step (alone_exec alone (loop_exec FreeBSD U A c n wakes env))"
    "\<lambda>s. kqueue_ok U regs \<and> keeps_regs regs env \<longrightarrow> loop_inv regs (kq_tracked alone (ctx_handle c)) s"
  for regs c alone U A n wakes env
proof (unfold_locales, goal_cases)
  case (2 s t)
  then obtain a where a: "alone_exec alone (loop_exec FreeBSD U A c n wakes env) a s = Some t" by (auto simp: act_step_def)
  then have "loop_exec FreeBSD U A c n wakes env a s = Some t" "\<And>p b x. a = Await p b x \<Longrightarrow> kq_may alone (lp_ops s) x"
    by (auto simp: alone_exec_def simp del: loop_exec_simps split: if_splits)
  with 2 kq_tracking.loop_inv_step [of U regs env alone c s a] show ?case by blast
qed (auto intro: kq_inv_start)

section \<open>An operation the kernel has forgotten\<close>

definition kq_lost :: "int \<Rightarrow> nat \<Rightarrow> operation \<Rightarrow> kq_registrations \<Rightarrow> (nat \<Rightarrow> operation option) \<Rightarrow> nat multiset \<Rightarrow> bool" where
  "kq_lost h p x r ops left \<longleftrightarrow> ops p = Some x \<and> (\<forall>fd f. r (h, fd, f) \<noteq> Some p) \<and> count left p = 0"

lemma kq_lost_wait:
  assumes "kqueue_ok U regs" "kq_lost (ctx_handle c) p x (regs k) ops left" "p \<noteq> 0" "context_wait_unix U c n k = (r, k')"
  shows "kq_lost (ctx_handle c) p x (regs k') ops (left + taken_entries r)"
proof -
  obtain rc errno events k1 where k: "sys_wait U (ctx_handle c) (ucast n) k = (rc, errno, events, k1)" by (metis prod_cases4)
  from kqueue_wait [OF assms(1) k] obtain keys where keys: "length keys = length (take (nat rc) events)"
    "\<And>i. i < length keys \<Longrightarrow> regs k (ctx_handle c, keys ! i) = Some (nev_pointer (events ! i))"
    "regs k1 = kq_taken (ctx_handle c) keys (regs k)" by blast
  have "p \<notin> set (map nev_pointer (take (nat rc) events))"
  proof
    assume "p \<in> set (map nev_pointer (take (nat rc) events))"
    then obtain i where i: "i < length keys" "p = nev_pointer (events ! i)" by (auto simp: in_set_conv_nth keys(1))
    obtain fd f where "keys ! i = (fd, f)" by (metis prod.exhaust)
    with keys(2) [OF i(1)] i(2) assms(2) show False by (simp add: kq_lost_def)
  qed
  moreover have "regs k1 (ctx_handle c, fd, f) \<noteq> Some p" for fd f
    using keys(3) assms(2) by (simp add: kq_lost_def kq_taken_def)
  ultimately show ?thesis
    using k assms(2,4)
    by (auto simp: context_wait_unix_def kq_lost_def taken_entries_def not_in_iff [symmetric] simp del: count_mset split: if_splits)
qed

lemma kq_lost_interrupt:
  assumes "kqueue_ok U regs" "kq_lost (ctx_handle c) p x (regs k) ops left" "p \<noteq> 0"
  shows "kq_lost (ctx_handle c) p x (regs (context_interrupt_unix FreeBSD U c k)) ops left"
proof -
  obtain rc errno k' where k: "sys_kevent U (ctx_handle c) (Kevent 0 EVFILT_USER {} {NOTE_TRIGGER} 0) k = (rc, errno, k')"
    by (metis prod_cases3)
  from kqueue_trigger [OF assms(1) k] assms(2,3) show ?thesis
    by (auto simp: context_interrupt_unix_def k kq_lost_def split: if_splits)
qed

interpretation kq_forgotten: loop_tracking FreeBSD U regs kq_registers kq_releases "kqueue_ok U regs" c
    "\<lambda>r ops left. kq_tracked False (ctx_handle c) r ops left \<and> kq_lost (ctx_handle c) p x r ops left" "kq_may False"
  for U :: "'k usys" and regs :: "'k \<Rightarrow> kq_registrations" and c p x
proof (unfold_locales, goal_cases)
  case (1 r ops q left)
  with kq_tracking.entry_suspended show ?case by blast
next
  case (2 r ops left y q r')
  then have "kq_tracked False (ctx_handle c) r' (ops(q \<mapsto> y)) left" by (blast intro: kq_tracking.track_begin)
  moreover have "q \<noteq> p" using 2 by (auto simp: kq_lost_def)
  ultimately show ?case using 2 by (auto simp: kq_lost_def kq_registers_def)
next
  case (3 r ops q left y r')
  then have "kq_tracked False (ctx_handle c) r' (ops(q := None)) left" by (blast intro: kq_tracking.track_continue)
  with 3 show ?case by (auto simp: kq_lost_def kq_releases_def split: if_splits)
next
  case (4 r ops q left y y' r1 r')
  then have "kq_tracked False (ctx_handle c) r' (ops(q \<mapsto> y')) left" by (blast intro: kq_tracking.track_again)
  with 4 show ?case by (auto simp: kq_lost_def kq_releases_def kq_registers_def split: if_splits)
next
  case (5 k ops left)
  moreover from 5 have "p \<noteq> 0" using kq_trackedD(1) [of False "ctx_handle c" "regs k" ops left p x] by (simp add: kq_lost_def)
  ultimately show ?case by (simp add: kq_context_interrupt kq_lost_interrupt)
next
  case (6 k ops left n res k')
  moreover from 6 have "p \<noteq> 0" using kq_trackedD(1) [of False "ctx_handle c" "regs k" ops left p x] by (simp add: kq_lost_def)
  ultimately show ?case by (blast intro: kq_context_wait kq_lost_wait)
qed (simp add: kq_may_def)

interpretation kq_forgotten_loop: invariant_system "\<lambda>s. s = s1" "act_step (loop_exec FreeBSD U A c n wakes env)"
    "\<lambda>s. kqueue_ok U regs \<and> keeps_regs regs env \<and>
       loop_inv regs (\<lambda>r ops left. kq_tracked False (ctx_handle c) r ops left \<and> kq_lost (ctx_handle c) p x r ops left) s1 \<longrightarrow>
       loop_inv regs (\<lambda>r ops left. kq_tracked False (ctx_handle c) r ops left \<and> kq_lost (ctx_handle c) p x r ops left) s"
  for s1 U A c n wakes env regs p x
  by unfold_locales (auto simp: kq_may_def act_step_def intro: kq_forgotten.loop_inv_step)

section \<open>Properties\<close>


text \<open>
  C12: a wait that another one takes away. If an operation is suspended on FreeBSD and a second one is awaited on the same socket
  in the same direction and suspends, then the kernel has the second one's address in place of the first one's, and the first coroutine is
  never continued, whatever happens afterwards: its operation stays as it is, in no registration and in no list of entries.
\<close>

theorem kq_second_wait_forgets:
  assumes "kqueue_ok U regs" "keeps_regs regs env"
    and "reach (kq_start regs c) (act_step (loop_exec FreeBSD U A c n wakes env)) s"
    and "lp_ops s p = Some x" "regs (w_kern (cm_kern (lp_run s))) (op_key x) = Some p"
    and "op_key y = op_key x" "loop_exec FreeBSD U A c n wakes env (Await q a y) s = Some s1" "lp_ops s1 q \<noteq> None"
    and "reach (\<lambda>s. s = s1) (act_step (loop_exec FreeBSD U A c n wakes env)) t"
  shows "lp_ops t p = Some x \<and> p \<notin># entries (lp_run t) \<and>
    (\<forall>key. regs (w_kern (cm_kern (lp_run t))) (ctx_handle c, key) \<noteq> Some p)"
proof -
  let ?T = "\<lambda>r ops left. kq_tracked False (ctx_handle c) r ops left \<and> kq_lost (ctx_handle c) p x r ops left"
  let ?r = "regs (w_kern (cm_kern (lp_run s)))"
  have inv: "loop_inv regs (kq_tracked False (ctx_handle c)) s"
    using kq_loop.reach_inv [where alone = False, unfolded alone_exec_False, OF assms(3)] assms(1,2) by blast
  then have tr: "kq_tracked False (ctx_handle c) ?r (lp_ops s) (entries (lp_run s))" by (simp add: loop_inv_iff)
  have inv1: "loop_inv regs (kq_tracked False (ctx_handle c)) s1"
    by (rule kq_tracking.loop_inv_step [OF assms(1,2) inv _ assms(7)]) (simp add: kq_may_def)
  from assms(7) have g: "q \<noteq> 0" "lp_ops s q = None" "op_sane y" "loop_await FreeBSD U A c q a y s = Some s1"
    by (auto split: if_splits)
  obtain b y' w where b: "op_begin FreeBSD U A q a (y, cm_kern (lp_run s)) = Some (b, y', w)"
    and s1: "s1 = s\<lparr>lp_run := (lp_run s)\<lparr>cm_kern := w\<rparr>, lp_ops := (lp_ops s)(q := if b then None else Some y'),
      lp_made := (lp_made s)(q := y), lp_done := (if b then (lp_done s)(q := y') else lp_done s), lp_started := lp_started s @ [(q, a)],
      lp_continued := lp_continued s @ (if b then [(q, a)] else [])\<rparr>"
    using g(4) by (auto simp: loop_await_eq split: option.splits)
  with assms(8) have "\<not> b" by auto
  with kqueue.op_begin_law [OF assms(1) g(3) b]
  have reg: "regs (w_kern w) = ?r(op_key y \<mapsto> q)" by (simp add: begin_result_def kq_registers_def op_key_def)
  have pq: "p \<noteq> q" using assms(4) g(2) by auto
  have "kq_lost (ctx_handle c) p x (regs (w_kern w)) (lp_ops s1) (entries (lp_run s))"
  proof -
    have "?r (ctx_handle c, fd, f) \<noteq> Some p" if "(ctx_handle c, fd, f) \<noteq> op_key x" for fd f
      using kq_trackedD(2) [OF tr, of fd f p] kq_trackedD(1) [OF tr assms(4)] that assms(4) by auto
    with kq_trackedD(1) [OF tr assms(4)] assms(4-6) pq show ?thesis by (auto simp: kq_lost_def reg s1 split: if_splits)
  qed
  with inv1 have "loop_inv regs ?T s1" by (simp add: loop_inv_iff s1)
  with kq_forgotten_loop.reach_inv [OF assms(9), of regs p x] assms(1,2) have "loop_inv regs ?T t" by blast
  then show ?thesis by (simp add: loop_inv_iff kq_lost_def not_in_iff)
qed

section \<open>A concrete kernel\<close>

text \<open>
  Registrations, and the bytes that have arrived on descriptor 7, which becomes readable only and is never writable.
\<close>

definition kq_unix :: "(kq_registrations \<times> byte list) usys" where
  "kq_unix = failing_unix
     \<lparr>sys_kevent := \<lambda>c ev k.
        (case ev of
           Kevent fd f flags ff p \<Rightarrow>
             if EV_ADD \<in> flags \<or> fst k (c, fd, f) \<noteq> None then (0, 0, ((fst k)((c, fd, f) \<mapsto> p), snd k)) else (-1, 2, k)
         | _ \<Rightarrow> (-1, 22, k)),
      sys_wait := \<lambda>h n k.
        (case fst k (h, 7, EVFILT_READ) of
           Some p \<Rightarrow>
             if snd k \<noteq> [] then (1, 0, [Kevent 7 EVFILT_READ {} {} p], (kq_taken h [(7, EVFILT_READ)] (fst k), snd k)) else (0, 0, [], k)
         | None \<Rightarrow> (0, 0, [], k)),
      sys_read := \<lambda>fd n k. (if snd k = [] then (-1, 11, [], k) else (1, 0, [hd (snd k)], (fst k, tl (snd k)))),
      sys_write := \<lambda>fd bs k. (-1, 11, k)\<rparr>"

lemma kq_unix_calls:
  "sys_kevent kq_unix c ev k =
     (case ev of
        Kevent fd f flags ff p \<Rightarrow>
          if EV_ADD \<in> flags \<or> fst k (c, fd, f) \<noteq> None then (0, 0, ((fst k)((c, fd, f) \<mapsto> p), snd k)) else (-1, 2, k)
      | _ \<Rightarrow> (-1, 22, k))"
  "sys_wait kq_unix h n k =
     (case fst k (h, 7, EVFILT_READ) of
        Some p \<Rightarrow>
          if snd k \<noteq> [] then (1, 0, [Kevent 7 EVFILT_READ {} {} p], (kq_taken h [(7, EVFILT_READ)] (fst k), snd k)) else (0, 0, [], k)
      | None \<Rightarrow> (0, 0, [], k))"
  "sys_read kq_unix fd m k = (if snd k = [] then (-1, 11, [], k) else (1, 0, [hd (snd k)], (fst k, tl (snd k))))"
  "sys_write kq_unix fd bs k = (-1, 11, k)"
  "sys_accept4 kq_unix fd a l k = (-1, 22, a, l, k)" "sys_connect kq_unix fd a l k = (-1, 22, k)"
  "sys_getsockopt kq_unix fd lv nm l k = (-1, 22, [], l, k)" "sys_recvfrom kq_unix fd m a l k = (-1, 22, [], a, l, k)"
  "sys_sendto kq_unix fd bs a l k = (-1, 22, k)"
  "EAGAIN kq_unix = 11" "EINTR kq_unix = 4" "ECONNRESET kq_unix = 104"
  by (simp_all add: kq_unix_def failing_unix_def)

lemma kqueue_ok_unix: "kqueue_ok kq_unix fst"
proof -
  have [simp]: "kq_taken h [] r = r" for h r by (simp add: kq_taken_def fun_eq_iff)
  have "calls_ok kq_unix fst" by (auto simp: calls_ok_def kq_unix_calls split: prod.splits)
  moreover have "\<exists>keys. distinct keys \<and> length keys = length (take (nat rc) events) \<and>
      (\<forall>i<length keys. fst k (h, keys ! i) = Some (nev_pointer (events ! i))) \<and> fst k' = kq_taken h keys (fst k)"
    if "sys_wait kq_unix h n k = (rc, errno, events, k')" for h n k rc errno events k'
    using that
    by (auto simp: kq_unix_calls split: option.splits if_splits intro: exI [of _ "[]"] exI [of _ "[(7 :: int, EVFILT_READ)]"])
  ultimately show ?thesis
    unfolding kqueue_ok_def by (auto simp: kq_unix_calls)
qed

definition kq_env :: "(kq_registrations \<times> byte list) udp_world \<Rightarrow> (kq_registrations \<times> byte list) udp_world \<Rightarrow> bool" where
  "kq_env w w' \<longleftrightarrow> fst (w_kern w') = fst (w_kern w)"

lemma keeps_regs_kq: "keeps_regs fst kq_env"
  by (simp add: keeps_regs_def kq_env_def)

definition kq_world :: "byte list \<Rightarrow> kq_registrations \<Rightarrow> (kq_registrations \<times> byte list) udp_world" where
  "kq_world d r = \<lparr>w_mem = (\<lambda>_. 0), w_kern = (r, d), w_endpoints = (\<lambda>_. demo_endpoint)\<rparr>"

definition kq_demo :: "(kq_registrations \<times> byte list) loop" where
  "kq_demo =
     \<lparr>lp_run = context_start (kq_world [] [(3, 0, EVFILT_USER) \<mapsto> 0]), lp_ops = (\<lambda>_. None), lp_made = (\<lambda>_. demo_recv), lp_done = (\<lambda>_. demo_recv),
      lp_started = [], lp_continued = [], lp_fault = False\<rparr>"

lemma kq_start_demo: "kq_start fst demo_context kq_demo"
  unfolding kq_start_def kq_demo_def
  by (auto simp: kq_world_def demo_context_def intro!: exI [of _ "kq_world [] [(3, 0, EVFILT_USER) \<mapsto> 0]"] split: if_split_asm)

abbreviation kq_exec where
  "kq_exec \<equiv> loop_exec FreeBSD kq_unix demo_abi demo_context 1 (\<lambda>_. True) kq_env"

lemmas kq_demo_defs = demo_loop_defs kq_demo_def kq_world_def kq_unix_calls kq_env_def op_key_def

text \<open>One socket waits to receive and to send at once; the receiver is continued, the sender stays registered.\<close>

definition kq_demo_acts :: "(kq_registrations \<times> byte list) loop_act list" where
  "kq_demo_acts =
     [Loop (Run 0), Loop (Step 0), Await 100 5 demo_recv, Await 200 6 demo_send,
      Loop (Kernel (kq_world [65] [(3, 0, EVFILT_USER) \<mapsto> 0, (3, 7, EVFILT_READ) \<mapsto> 100, (3, 7, EVFILT_WRITE) \<mapsto> 200])),
      Loop (Step 0), Loop (Step 0)]"

lemma kq_demo_run:
  "\<exists>s e. run_acts (alone_exec True kq_exec) kq_demo_acts kq_demo = Some s \<and> lp_continued s = [(100, 5)] \<and> lp_ops s 200 = Some (Send e) \<and>
     lp_ops s 100 = None"
  by (simp add: kq_demo_acts_def kq_demo_defs alone_exec_def kq_may_def mem_write_def kq_taken_def)


text \<open>Two coroutines receive from one socket; two bytes arrive, the second coroutine gets one, and the first waits for ever.\<close>

definition kq_first_acts :: "(kq_registrations \<times> byte list) loop_act list" where
  "kq_first_acts = [Loop (Run 0), Loop (Step 0), Await 100 5 demo_recv]"

definition kq_then_acts :: "(kq_registrations \<times> byte list) loop_act list" where
  "kq_then_acts =
     [Loop (Kernel (kq_world [65, 66] [(3, 0, EVFILT_USER) \<mapsto> 0, (3, 7, EVFILT_READ) \<mapsto> 200])), Loop (Step 0), Loop (Step 0), Loop (Step 0),
      Loop (Step 0)]"

lemma kq_second_run:
  "\<exists>s s1 t e. run_acts kq_exec kq_first_acts kq_demo = Some s \<and> lp_ops s 100 = Some (Recv e) \<and>
     fst (w_kern (cm_kern (lp_run s))) (op_key (Recv e)) = Some 100 \<and> op_key demo_recv = op_key (Recv e) \<and>
     kq_exec (Await 200 6 demo_recv) s = Some s1 \<and> lp_ops s1 200 \<noteq> None \<and>
     run_acts kq_exec kq_then_acts s1 = Some t \<and> lp_continued t = [(200, 6)] \<and> snd (w_kern (cm_kern (lp_run t))) = [66]"
  by (simp add: kq_first_acts_def kq_then_acts_def kq_demo_defs mem_write_def kq_taken_def)

lemma kq_second_wait_forgets_witness:
  "\<exists>s s1 t e. run_acts kq_exec kq_first_acts kq_demo = Some s \<and> kq_exec (Await 200 6 demo_recv) s = Some s1 \<and>
     run_acts kq_exec kq_then_acts s1 = Some t \<and> lp_continued t = [(200, 6)] \<and> snd (w_kern (cm_kern (lp_run t))) = [66] \<and>
     lp_ops t 100 = Some (Recv e) \<and> (\<forall>key. fst (w_kern (cm_kern (lp_run t))) (3, key) \<noteq> Some 100)"
proof -
  from kq_second_run obtain s s1 t e where s: "run_acts kq_exec kq_first_acts kq_demo = Some s" "lp_ops s 100 = Some (Recv e)"
    "fst (w_kern (cm_kern (lp_run s))) (op_key (Recv e)) = Some 100" "op_key demo_recv = op_key (Recv e)"
    and s1: "kq_exec (Await 200 6 demo_recv) s = Some s1" "lp_ops s1 200 \<noteq> None"
    and t: "run_acts kq_exec kq_then_acts s1 = Some t" "lp_continued t = [(200, 6)]" "snd (w_kern (cm_kern (lp_run t))) = [66]" by blast
  have r: "reach (kq_start fst demo_context) (act_step kq_exec) s"
    by (rule run_acts_reach [OF s(1)]) (simp add: reach_init kq_start_demo)
  have "reach (\<lambda>s. s = s1) (act_step kq_exec) t"
    by (rule run_acts_reach [OF t(1)]) (simp add: reach_init)
  from kq_second_wait_forgets [OF kqueue_ok_unix keeps_regs_kq r s(2-4) s1 this] s(1) s1(1) t show ?thesis
    by (auto simp: demo_context_def)
qed

end
