(* ===== verification/Ice_Loop_Win.thy ===== *)
theory Ice_Loop_Win
  imports Ice_Udp Ice_Objects
begin

text \<open>
  The event loop on Windows: the machine of \<open>Ice_Objects\<close> with the operations of include/ice/net/tcp/socket.h and
  include/ice/net/udp/socket.h and \<open>schedule\<close>. The kernel knows an operation by its \<open>OVERLAPPED\<close>, the first part of the event object: a call
  that stays pending hands it over, and the completion port gives it back when the call has ended. \<open>iocp_ok\<close> states what is
  documented of completion ports: a call that ends at once queues a packet too, unless the socket has the mode
  \<open>FILE_SKIP_COMPLETION_PORT_ON_SUCCESS\<close>; the socket constructor sets it (\<open>socket_made_skips\<close>), and the loop relies on it.
\<close>

section \<open>The completion port\<close>

text \<open>
  For the port \<open>h\<close> of the context: \<open>assoc k fd\<close> says that the socket \<open>fd\<close> is associated with it, and whether it has the mode; \<open>out k\<close> are
  the pointers of the calls in flight and of the packets queued.
\<close>

definition port_quiet :: "('k \<Rightarrow> whandle \<Rightarrow> bool option) \<Rightarrow> ('k \<Rightarrow> nat multiset) \<Rightarrow> 'k \<Rightarrow> 'k \<Rightarrow> bool" where
  "port_quiet assoc out k k' \<longleftrightarrow> assoc k \<subseteq>\<^sub>m assoc k' \<and> out k' = out k"

definition port_io ::
  "'k wsys \<Rightarrow> ('k \<Rightarrow> whandle \<Rightarrow> bool option) \<Rightarrow> ('k \<Rightarrow> nat multiset) \<Rightarrow> whandle \<Rightarrow> nat \<Rightarrow> 'k \<Rightarrow> bool \<Rightarrow> int \<Rightarrow> 'k \<Rightarrow> bool" where
  "port_io W assoc out fd this k ok rc k' \<longleftrightarrow>
     assoc k \<subseteq>\<^sub>m assoc k' \<and>
     (case assoc k fd of
        None \<Rightarrow> True
      | Some skip \<Rightarrow>
          out k' = (if ok \<and> \<not> skip \<or> \<not> ok \<and> rc = ERROR_IO_PENDING W then add_mset this (out k) else out k))"

definition iocp_ok :: "'k wsys \<Rightarrow> whandle \<Rightarrow> ('k \<Rightarrow> whandle \<Rightarrow> bool option) \<Rightarrow> ('k \<Rightarrow> nat multiset) \<Rightarrow> bool" where
  "iocp_ok W h assoc out \<longleftrightarrow>
     (\<forall>fd c this k. case win_accept W fd c this k of (ok, rc, k') \<Rightarrow> port_io W assoc out fd this k ok rc k') \<and>
     (\<forall>fd a n this k. case win_connect W fd a n this k of (ok, rc, k') \<Rightarrow> port_io W assoc out fd this k ok rc k') \<and>
     (\<forall>fd n this k. case win_recv W fd n this k of (ok, rc, bs, k') \<Rightarrow> port_io W assoc out fd this k ok rc k') \<and>
     (\<forall>fd bs this k. case win_send W fd bs this k of (ok, rc, n, k') \<Rightarrow> port_io W assoc out fd this k ok rc k') \<and>
     (\<forall>fd n a l this k. case win_recvfrom W fd n a l this k of (ok, rc, bs, a', l', k') \<Rightarrow> port_io W assoc out fd this k ok rc k') \<and>
     (\<forall>fd bs a l this k. case win_sendto W fd bs a l this k of (ok, rc, n, k') \<Rightarrow> port_io W assoc out fd this k ok rc k') \<and>
     (\<forall>fd this k. case win_result W fd this k of (ok, rc, n, k') \<Rightarrow> port_quiet assoc out k k') \<and>
     (\<forall>family type protocol k. case win_socket W family type protocol k of (s, err, k') \<Rightarrow>
        (s \<noteq> -1 \<longrightarrow> assoc k s = None) \<and> port_quiet assoc out k k') \<and>
     (\<forall>s k. case win_connect_ex W s k of (ok, err, k') \<Rightarrow> port_quiet assoc out k k') \<and>
     (\<forall>s k. out (win_closesocket W s k) = out k \<and> (\<forall>fd. fd \<noteq> s \<longrightarrow> assoc (win_closesocket W s k) fd = assoc k fd)) \<and>
     (\<forall>p k. case win_post W h p k of (posted, err, k') \<Rightarrow>
        assoc k \<subseteq>\<^sub>m assoc k' \<and> out k' = (if posted then add_mset p (out k) else out k)) \<and>
     (\<forall>n k. case win_wait W h n k of (ok, err, es, k') \<Rightarrow>
        assoc k \<subseteq>\<^sub>m assoc k' \<and> (if ok then mset es \<subseteq># out k \<and> out k' = out k - mset es else out k' = out k))"

lemma iocp_okD:
  assumes "iocp_ok W h assoc out"
  shows "win_accept W fd c this k = (ok, rc, k') \<Longrightarrow> port_io W assoc out fd this k ok rc k'"
    and "win_connect W fd a l this k = (ok, rc, k') \<Longrightarrow> port_io W assoc out fd this k ok rc k'"
    and "win_recv W fd n this k = (ok, rc, bs', k') \<Longrightarrow> port_io W assoc out fd this k ok rc k'"
    and "win_send W fd bs this k = (ok, rc, m, k') \<Longrightarrow> port_io W assoc out fd this k ok rc k'"
    and "win_recvfrom W fd n a l this k = (ok, rc, bs', a', l', k') \<Longrightarrow> port_io W assoc out fd this k ok rc k'"
    and "win_sendto W fd bs a l this k = (ok, rc, m, k') \<Longrightarrow> port_io W assoc out fd this k ok rc k'"
    and "win_result W fd this k = (ok, rc, m, k') \<Longrightarrow> port_quiet assoc out k k'"
    and "win_socket W family type protocol k = (s, rc, k') \<Longrightarrow> (s \<noteq> -1 \<longrightarrow> assoc k s = None) \<and> port_quiet assoc out k k'"
    and "win_connect_ex W s k = (ok, rc, k') \<Longrightarrow> port_quiet assoc out k k'"
    and "out (win_closesocket W s k) = out k" "fd \<noteq> s \<Longrightarrow> assoc (win_closesocket W s k) fd = assoc k fd"
    and "win_post W h p k = (ok, rc, k') \<Longrightarrow> assoc k \<subseteq>\<^sub>m assoc k' \<and> out k' = (if ok then add_mset p (out k) else out k)"
    and "win_wait W h u k = (ok, rc, es, k') \<Longrightarrow>
      assoc k \<subseteq>\<^sub>m assoc k' \<and> (if ok then mset es \<subseteq># out k \<and> out k' = out k - mset es else out k' = out k)"
proof -
  note c = assms [unfolded iocp_ok_def]
  show "win_accept W fd c this k = (ok, rc, k') \<Longrightarrow> port_io W assoc out fd this k ok rc k'"
    using c [THEN conjunct1, THEN spec [where x = fd], THEN spec [where x = c], THEN spec [where x = this], THEN spec [where x = k]] by simp
  note c = c [THEN conjunct2]
  show "win_connect W fd a l this k = (ok, rc, k') \<Longrightarrow> port_io W assoc out fd this k ok rc k'"
    using c [THEN conjunct1, THEN spec [where x = fd], THEN spec [where x = a], THEN spec [where x = l], THEN spec [where x = this], THEN spec [where x = k]] by simp
  note c = c [THEN conjunct2]
  show "win_recv W fd n this k = (ok, rc, bs', k') \<Longrightarrow> port_io W assoc out fd this k ok rc k'"
    using c [THEN conjunct1, THEN spec [where x = fd], THEN spec [where x = n], THEN spec [where x = this], THEN spec [where x = k]] by simp
  note c = c [THEN conjunct2]
  show "win_send W fd bs this k = (ok, rc, m, k') \<Longrightarrow> port_io W assoc out fd this k ok rc k'"
    using c [THEN conjunct1, THEN spec [where x = fd], THEN spec [where x = bs], THEN spec [where x = this], THEN spec [where x = k]] by simp
  note c = c [THEN conjunct2]
  show "win_recvfrom W fd n a l this k = (ok, rc, bs', a', l', k') \<Longrightarrow> port_io W assoc out fd this k ok rc k'"
    using c [THEN conjunct1, THEN spec [where x = fd], THEN spec [where x = n], THEN spec [where x = a], THEN spec [where x = l], THEN spec [where x = this], THEN spec [where x = k]] by simp
  note c = c [THEN conjunct2]
  show "win_sendto W fd bs a l this k = (ok, rc, m, k') \<Longrightarrow> port_io W assoc out fd this k ok rc k'"
    using c [THEN conjunct1, THEN spec [where x = fd], THEN spec [where x = bs], THEN spec [where x = a], THEN spec [where x = l], THEN spec [where x = this], THEN spec [where x = k]] by simp
  note c = c [THEN conjunct2]
  show "win_result W fd this k = (ok, rc, m, k') \<Longrightarrow> port_quiet assoc out k k'"
    using c [THEN conjunct1, THEN spec [where x = fd], THEN spec [where x = this], THEN spec [where x = k]] by simp
  note c = c [THEN conjunct2]
  show "win_socket W family type protocol k = (s, rc, k') \<Longrightarrow> (s \<noteq> -1 \<longrightarrow> assoc k s = None) \<and> port_quiet assoc out k k'"
    using c [THEN conjunct1, THEN spec [where x = family], THEN spec [where x = type], THEN spec [where x = protocol], THEN spec [where x = k]] by simp
  note c = c [THEN conjunct2]
  show "win_connect_ex W s k = (ok, rc, k') \<Longrightarrow> port_quiet assoc out k k'"
    using c [THEN conjunct1, THEN spec [where x = s], THEN spec [where x = k]] by simp
  note c = c [THEN conjunct2]
  show "out (win_closesocket W s k) = out k" "fd \<noteq> s \<Longrightarrow> assoc (win_closesocket W s k) fd = assoc k fd"
    using c [THEN conjunct1, THEN spec [where x = s], THEN spec [where x = k]] by simp_all
  note c = c [THEN conjunct2]
  show "win_post W h p k = (ok, rc, k') \<Longrightarrow> assoc k \<subseteq>\<^sub>m assoc k' \<and> out k' = (if ok then add_mset p (out k) else out k)"
    using c [THEN conjunct1, THEN spec [where x = p], THEN spec [where x = k]] by simp
  show "win_wait W h u k = (ok, rc, es, k') \<Longrightarrow>
      assoc k \<subseteq>\<^sub>m assoc k' \<and> (if ok then mset es \<subseteq># out k \<and> out k' = out k - mset es else out k' = out k)"
    using c [THEN conjunct2, THEN spec [where x = u], THEN spec [where x = k]] by simp
qed

text \<open>What a call of \<open>suspend\<close> may do for a socket with the mode: the pointer is handed over exactly if the call is pending.\<close>

definition port_sent :: "('k \<Rightarrow> whandle \<Rightarrow> bool option) \<Rightarrow> ('k \<Rightarrow> nat multiset) \<Rightarrow> nat \<Rightarrow> bool \<Rightarrow> 'k \<Rightarrow> 'k \<Rightarrow> bool" where
  "port_sent assoc out this pending k k' \<longleftrightarrow>
     assoc k \<subseteq>\<^sub>m assoc k' \<and> out k' = (if pending then add_mset this (out k) else out k)"

lemma port_sent_io:
  "port_io W assoc out fd this k ok rc k' \<Longrightarrow> assoc k fd = Some True \<Longrightarrow> port_sent assoc out this (\<not> ok \<and> rc = ERROR_IO_PENDING W) k k'"
  by (simp add: port_io_def port_sent_def)

lemma port_sent_quiet: "port_quiet assoc out k k' \<longleftrightarrow> port_sent assoc out this False k k'"
  by (simp add: port_quiet_def port_sent_def)

lemma port_sent_after: "port_sent assoc out this False k k1 \<Longrightarrow> port_sent assoc out this b k1 k' \<Longrightarrow> port_sent assoc out this b k k'"
  by (auto simp: port_sent_def intro: map_le_trans)

lemma port_sent_assoc: "port_sent assoc out this b k k' \<Longrightarrow> assoc k fd = Some v \<Longrightarrow> assoc k' fd = Some v"
  by (auto simp: port_sent_def map_le_def dom_def)

lemma map_le_at: "f \<subseteq>\<^sub>m g \<Longrightarrow> f x = Some v \<Longrightarrow> g x = Some v"
  by (auto simp: map_le_def dom_def)

lemma accept_loop_sent:
  fixes assoc :: "'k \<Rightarrow> whandle \<Rightarrow> bool option"
  assumes "iocp_ok W h assoc out"
  shows "accept_loop W fd client this k = Some (b, err, k') \<Longrightarrow> assoc k fd = Some True \<Longrightarrow> port_sent assoc out this b k k'"
proof -
  assume "accept_loop W fd client this k = Some (b, err, k')"
  then have "iocp_ok W h assoc out \<longrightarrow> (case (b, err, k') of (b, err, k') \<Rightarrow> assoc k fd = Some True \<longrightarrow> port_sent assoc out this b k k')"
  proof (rule accept_loop.raw_induct [where P = "\<lambda>W fd client this k r. iocp_ok W h assoc out \<longrightarrow>
      (case r of (b, err, k') \<Rightarrow> assoc k fd = Some True \<longrightarrow> port_sent assoc out this b k k')", rotated], intro impI)
    fix loop W fd client this and k :: 'k and r :: "bool \<times> int option \<times> 'k"
    assume IH: "\<And>W fd client this k r. loop W fd client this k = Some r \<Longrightarrow> iocp_ok W h assoc out \<longrightarrow>
        (case r of (b, err, k') \<Rightarrow> assoc k fd = Some True \<longrightarrow> port_sent assoc out this b k k')"
      and r: "(case win_accept W fd client this k of (ok, rc, k') \<Rightarrow>
        if ok then Some (False, None, k') else if rc = ERROR_IO_PENDING W then Some (True, None, k')
        else if rc \<noteq> WSAECONNRESET W then Some (False, Some rc, k') else loop W fd client this k') = Some r"
      and ok: "iocp_ok W h assoc out"
    obtain b rc k1 where c: "win_accept W fd client this k = (b, rc, k1)" by (metis prod_cases3)
    note io = port_sent_io [OF iocp_okD(1) [OF ok c]]
    show "case r of (b, err, k') \<Rightarrow> assoc k fd = Some True \<longrightarrow> port_sent assoc out this b k k'"
    proof (cases "b \<or> rc = ERROR_IO_PENDING W \<or> rc \<noteq> WSAECONNRESET W")
      case True
      with r c io show ?thesis by (auto split: if_splits)
    next
      case False
      with r c have "loop W fd client this k1 = Some r" by simp
      from IH [OF this] ok io False show ?thesis by (auto intro: port_sent_after port_sent_assoc)
    qed
  qed
  then show "assoc k fd = Some True \<Longrightarrow> port_sent assoc out this b k k'" using assms by simp
qed

lemma send_loop_sent:
  fixes assoc :: "'k \<Rightarrow> whandle \<Rightarrow> bool option"
  assumes "iocp_ok W h assoc out"
  shows "send_suspend_win W this (e, w) = Some (b, e', w') \<Longrightarrow> assoc (w_kern w) (swin_socket e) = Some True \<Longrightarrow>
    port_sent assoc out this b (w_kern w) (w_kern w') \<and> swin_socket e' = swin_socket e \<and> ev_awaiter e' = ev_awaiter e"
proof -
  let ?post = "\<lambda>this (e, w) (b, e', w'). assoc (w_kern w) (swin_socket e) = Some True \<longrightarrow>
    port_sent assoc out this b (w_kern w) (w_kern w') \<and> swin_socket e' = swin_socket e \<and> ev_awaiter e' = ev_awaiter e"
  assume "send_suspend_win W this (e, w) = Some (b, e', w')"
  then have "iocp_ok W h assoc out \<longrightarrow> ?post this (e, w) (b, e', w')"
  proof (rule send_suspend_win.raw_induct [where P = "\<lambda>W this s r. iocp_ok W h assoc out \<longrightarrow> ?post this s r", rotated], intro impI)
    fix loop W this and s :: "send_win_op \<times> 'k world" and r
    assume IH: "\<And>W this s r. loop W this s = Some r \<Longrightarrow> iocp_ok W h assoc out \<longrightarrow> ?post this s r"
      and r: "(case s of (e, w) \<Rightarrow>
        if wb_size (swin_buffer e) > 0 then
          (case send_call_win W this e w of (ok, rc, bytes, k) \<Rightarrow>
             if \<not> ok then
               (if rc \<noteq> ERROR_IO_PENDING W then Some (False, e\<lparr>ev_ec := ec_native rc\<rparr>, w\<lparr>w_kern := k\<rparr>)
                else Some (True, e, w\<lparr>w_kern := k\<rparr>))
             else
               (let e1 = send_advance_win (e\<lparr>swin_bytes := bytes\<rparr>) in
                if bytes = 0 \<or> wb_size (swin_buffer e1) = 0 then Some (False, e1, w\<lparr>w_kern := k\<rparr>)
                else loop W this (e1, w\<lparr>w_kern := k\<rparr>)))
        else Some (False, e, w)) = Some r"
      and ok: "iocp_ok W h assoc out"
    obtain e w where s: "s = (e, w)" by (cases s)
    obtain b rc n k where c: "send_call_win W this e w = (b, rc, n, k)" by (metis prod_cases4)
    let ?e = "send_advance_win (e\<lparr>swin_bytes := n\<rparr>)"
    have e: "swin_socket ?e = swin_socket e" "ev_awaiter ?e = ev_awaiter e" by (simp_all add: send_advance_win_def Let_def)
    note io = port_sent_io [OF iocp_okD(4) [OF ok c [unfolded send_call_win_def]]]
    show "?post this s r"
    proof (cases "wb_size (swin_buffer e) > 0 \<and> b \<and> n \<noteq> 0 \<and> wb_size (swin_buffer ?e) \<noteq> 0")
      case True
      with r c s have "loop W this (?e, w\<lparr>w_kern := k\<rparr>) = Some r" by (simp add: Let_def)
      from IH [OF this] ok io e True show ?thesis
        by (auto simp: s intro: port_sent_after dest: port_sent_assoc)
    next
      case False
      with r c io e show ?thesis by (auto simp: s Let_def port_sent_def [of _ _ _ False "w_kern w" "w_kern w"] split: if_splits)
    qed
  qed
  then show "assoc (w_kern w) (swin_socket e) = Some True \<Longrightarrow> port_sent assoc out this b (w_kern w) (w_kern w') \<and>
    swin_socket e' = swin_socket e \<and> ev_awaiter e' = ev_awaiter e" using assms by simp
qed

lemma udp_send_loop_sent:
  fixes assoc :: "'k \<Rightarrow> whandle \<Rightarrow> bool option"
  assumes "iocp_ok W h assoc out"
  shows "udp_send_loop_win W this ep (e, w) = Some (b, e', w') \<Longrightarrow> assoc (w_kern w) (usw_socket e) = Some True \<Longrightarrow>
    port_sent assoc out this b (w_kern w) (w_kern w') \<and> usw_socket e' = usw_socket e \<and> ev_awaiter e' = ev_awaiter e"
proof -
  let ?post = "\<lambda>this (e, w) (b, e', w'). assoc (w_kern w) (usw_socket e) = Some True \<longrightarrow>
    port_sent assoc out this b (w_kern w) (w_kern w') \<and> usw_socket e' = usw_socket e \<and> ev_awaiter e' = ev_awaiter e"
  assume "udp_send_loop_win W this ep (e, w) = Some (b, e', w')"
  then have "iocp_ok W h assoc out \<longrightarrow> ?post this (e, w) (b, e', w')"
  proof (rule udp_send_loop_win.raw_induct [where P = "\<lambda>W this ep s r. iocp_ok W h assoc out \<longrightarrow> ?post this s r", rotated], intro impI)
    fix loop W this ep and s :: "udp_send_win_op \<times> 'k udp_world" and r
    assume IH: "\<And>W this ep s r. loop W this ep s = Some r \<Longrightarrow> iocp_ok W h assoc out \<longrightarrow> ?post this s r"
      and r: "(case s of (e, w) \<Rightarrow>
        if wb_size (usw_buffer e) > 0 then
          (case udp_send_call_win W this ep e w of (ok, rc, bytes, k) \<Rightarrow>
             if \<not> ok then
               (if rc \<noteq> ERROR_IO_PENDING W then Some (False, e\<lparr>ev_ec := ec_native rc\<rparr>, w\<lparr>w_kern := k\<rparr>)
                else Some (True, e, w\<lparr>w_kern := k\<rparr>))
             else
               (let e1 = udp_send_advance_win (e\<lparr>usw_bytes := bytes\<rparr>) in
                if bytes = 0 \<or> wb_size (usw_buffer e1) = 0 then Some (False, e1, w\<lparr>w_kern := k\<rparr>)
                else loop W this ep (e1, w\<lparr>w_kern := k\<rparr>)))
        else Some (False, e, w)) = Some r"
      and ok: "iocp_ok W h assoc out"
    obtain e w where s: "s = (e, w)" by (cases s)
    obtain b rc n k where c: "udp_send_call_win W this ep e w = (b, rc, n, k)" by (metis prod_cases4)
    let ?e = "udp_send_advance_win (e\<lparr>usw_bytes := n\<rparr>)"
    have e: "usw_socket ?e = usw_socket e" "ev_awaiter ?e = ev_awaiter e" by (simp_all add: udp_send_advance_win_def Let_def)
    note io = port_sent_io [OF iocp_okD(6) [OF ok c [unfolded udp_send_call_win_def]]]
    show "?post this s r"
    proof (cases "wb_size (usw_buffer e) > 0 \<and> b \<and> n \<noteq> 0 \<and> wb_size (usw_buffer ?e) \<noteq> 0")
      case True
      with r c s have "loop W this ep (?e, w\<lparr>w_kern := k\<rparr>) = Some r" by (simp add: Let_def)
      from IH [OF this] ok io e True show ?thesis
        by (auto simp: s intro: port_sent_after dest: port_sent_assoc)
    next
      case False
      with r c io e show ?thesis by (auto simp: s Let_def port_sent_def [of _ _ _ False "w_kern w" "w_kern w"] split: if_splits)
    qed
  qed
  then show "assoc (w_kern w) (usw_socket e) = Some True \<Longrightarrow> port_sent assoc out this b (w_kern w) (w_kern w') \<and>
    usw_socket e' = usw_socket e \<and> ev_awaiter e' = ev_awaiter e" using assms by simp
qed

section \<open>The operations\<close>

text \<open>The world of all operations, and the part of it that each sees.\<close>

record 'k port_world = "'k udp_world" +
  pw_connect_ex :: "error_code option"

definition on_tcp :: "('e, 'k world) op_call \<Rightarrow> ('e, 'k port_world) op_call" where
  "on_tcp f = (\<lambda>(e, w). map_option (\<lambda>(b, e', v). (b, e', w\<lparr>w_mem := w_mem v, w_kern := w_kern v\<rparr>))
     (f (e, \<lparr>w_mem = w_mem w, w_kern = w_kern w\<rparr>)))"

definition on_connect :: "('e, 'k win_world) op_call \<Rightarrow> ('e, 'k port_world) op_call" where
  "on_connect f = (\<lambda>(e, w). map_option (\<lambda>(b, e', v). (b, e', w\<lparr>w_mem := w_mem v, w_kern := w_kern v, pw_connect_ex := w_connect_ex v\<rparr>))
     (f (e, \<lparr>w_mem = w_mem w, w_kern = w_kern w, w_connect_ex = pw_connect_ex w\<rparr>)))"

definition on_udp :: "('e, 'k udp_world) op_call \<Rightarrow> ('e, 'k port_world) op_call" where
  "on_udp f = (\<lambda>(e, w). map_option (\<lambda>(b, e', v). (b, e', w\<lparr>w_mem := w_mem v, w_kern := w_kern v, w_endpoints := w_endpoints v\<rparr>))
     (f (e, \<lparr>w_mem = w_mem w, w_kern = w_kern w, w_endpoints = w_endpoints w\<rparr>)))"

datatype win_operation =
    Win_accept accept_win_op
  | Win_connect connect_win_op
  | Win_recv recv_win_op
  | Win_send send_win_op
  | Win_send_some send_win_op
  | Win_udp_recv udp_recv_win_op
  | Win_udp_send udp_send_win_op
  | Win_udp_send_some udp_send_win_op
  | Win_schedule schedule_op

fun win_event :: "win_operation \<Rightarrow> event" where
  "win_event (Win_accept e) = event.truncate e"
| "win_event (Win_connect e) = event.truncate e"
| "win_event (Win_recv e) = event.truncate e"
| "win_event (Win_send e) = event.truncate e"
| "win_event (Win_send_some e) = event.truncate e"
| "win_event (Win_udp_recv e) = event.truncate e"
| "win_event (Win_udp_send e) = event.truncate e"
| "win_event (Win_udp_send_some e) = event.truncate e"
| "win_event (Win_schedule e) = event.truncate e"

text \<open>The socket whose calls hand the operation over; \<open>schedule\<close> posts it itself.\<close>

fun win_target :: "win_operation \<Rightarrow> whandle option" where
  "win_target (Win_accept e) = Some (awin_socket e)"
| "win_target (Win_connect e) = Some (cwin_socket e)"
| "win_target (Win_recv e) = Some (rwin_socket e)"
| "win_target (Win_send e) = Some (swin_socket e)"
| "win_target (Win_send_some e) = Some (swin_socket e)"
| "win_target (Win_udp_recv e) = Some (urw_socket e)"
| "win_target (Win_udp_send e) = Some (usw_socket e)"
| "win_target (Win_udp_send_some e) = Some (usw_socket e)"
| "win_target (Win_schedule e) = None"

fun win_class :: "win_operation \<Rightarrow> nat" where
  "win_class (Win_accept _) = 0"
| "win_class (Win_connect _) = 1"
| "win_class (Win_recv _) = 2"
| "win_class (Win_send _) = 3"
| "win_class (Win_send_some _) = 4"
| "win_class (Win_udp_recv _) = 5"
| "win_class (Win_udp_send _) = 6"
| "win_class (Win_udp_send_some _) = 7"
| "win_class (Win_schedule _) = 8"

definition win_same :: "win_operation \<Rightarrow> win_operation \<Rightarrow> bool" where
  "win_same x y \<longleftrightarrow> win_class x = win_class y \<and> win_target x = win_target y"

text \<open>The virtual calls: \<open>co_await\<close> up to the suspension, and \<open>await_resume\<close> of the event, which has nothing to remove.\<close>

fun win_begin ::
  "'k wsys \<Rightarrow> net_abi \<Rightarrow> whandle \<Rightarrow> nat \<Rightarrow> nat \<Rightarrow> win_operation \<times> 'k port_world \<Rightarrow> (bool \<times> win_operation \<times> 'k port_world) option" where
  "win_begin W A h this a (Win_accept e, w) =
     op_wrap Win_accept (on_tcp (co_await_begin ready_win (accept_suspend_win W this) a)) (e, w)"
| "win_begin W A h this a (Win_connect e, w) =
     op_wrap Win_connect (on_connect (co_await_begin ready_win (connect_suspend_win W A this) a)) (e, w)"
| "win_begin W A h this a (Win_recv e, w) =
     op_wrap Win_recv (on_tcp (co_await_begin ready_win (recv_suspend_win W this) a)) (e, w)"
| "win_begin W A h this a (Win_send e, w) =
     op_wrap Win_send (on_tcp (co_await_begin ready_win (send_suspend_win W this) a)) (e, w)"
| "win_begin W A h this a (Win_send_some e, w) =
     op_wrap Win_send_some (on_tcp (co_await_begin ready_win (send_some_suspend_win W this) a)) (e, w)"
| "win_begin W A h this a (Win_udp_recv e, w) =
     op_wrap Win_udp_recv (on_udp (co_await_begin ready_win (udp_recv_suspend_win W this) a)) (e, w)"
| "win_begin W A h this a (Win_udp_send e, w) =
     op_wrap Win_udp_send (on_udp (co_await_begin ready_win (udp_send_suspend_win W this) a)) (e, w)"
| "win_begin W A h this a (Win_udp_send_some e, w) =
     op_wrap Win_udp_send_some (on_udp (co_await_begin ready_win (udp_send_some_suspend_win W this) a)) (e, w)"
| "win_begin W A h this a (Win_schedule e, w) =
     op_wrap Win_schedule (on_tcp (co_await_begin schedule_ready (schedule_suspend_win W h this) a)) (e, w)"

fun win_await_resume ::
  "'k wsys \<Rightarrow> net_abi \<Rightarrow> whandle \<Rightarrow> nat \<Rightarrow> win_operation \<times> 'k port_world \<Rightarrow> (bool \<times> win_operation \<times> 'k port_world) option" where
  "win_await_resume W A h this (Win_accept e, w) =
     op_wrap Win_accept (on_tcp (event_await_resume (\<lambda>s. s) (accept_resume_win W A this) (accept_suspend_win W this))) (e, w)"
| "win_await_resume W A h this (Win_connect e, w) =
     op_wrap Win_connect (on_connect (event_await_resume (\<lambda>s. s) (connect_resume_win W this) (connect_suspend_win W A this))) (e, w)"
| "win_await_resume W A h this (Win_recv e, w) =
     op_wrap Win_recv (on_tcp (event_await_resume (\<lambda>s. s) (recv_resume_win W this) (recv_suspend_win W this))) (e, w)"
| "win_await_resume W A h this (Win_send e, w) =
     op_wrap Win_send (on_tcp (event_await_resume (\<lambda>s. s) (send_resume_win W this) (send_suspend_win W this))) (e, w)"
| "win_await_resume W A h this (Win_send_some e, w) =
     op_wrap Win_send_some (on_tcp (event_await_resume (\<lambda>s. s) (send_some_resume_win W this) (send_some_suspend_win W this))) (e, w)"
| "win_await_resume W A h this (Win_udp_recv e, w) =
     op_wrap Win_udp_recv (on_udp (event_await_resume (\<lambda>s. s) (udp_recv_resume_win W this) (udp_recv_suspend_win W this))) (e, w)"
| "win_await_resume W A h this (Win_udp_send e, w) =
     op_wrap Win_udp_send (on_udp (event_await_resume (\<lambda>s. s) (udp_send_resume_win W this) (udp_send_suspend_win W this))) (e, w)"
| "win_await_resume W A h this (Win_udp_send_some e, w) =
     op_wrap Win_udp_send_some (on_udp (event_await_resume (\<lambda>s. s) (udp_send_some_resume_win W this) (udp_send_some_suspend_win W this))) (e, w)"
| "win_await_resume W A h this (Win_schedule e, w) =
     op_wrap Win_schedule (on_tcp (event_await_resume (\<lambda>s. s) schedule_resume (schedule_suspend_win W h this))) (e, w)"

declare win_begin.simps [simp del] win_await_resume.simps [simp del]

section \<open>What an operation does to the completion port\<close>

definition skips :: "('k \<Rightarrow> whandle \<Rightarrow> bool option) \<Rightarrow> 'k \<Rightarrow> whandle option \<Rightarrow> bool" where
  "skips assoc k t \<longleftrightarrow> (case t of None \<Rightarrow> True | Some fd \<Rightarrow> assoc k fd = Some True)"

lemma skips_later: "skips assoc k t \<Longrightarrow> assoc k \<subseteq>\<^sub>m assoc k' \<Longrightarrow> skips assoc k' t"
  by (auto simp: skips_def map_le_def dom_def split: option.splits)

lemma win_event_fields [simp]: "ev_awaiter (event.truncate e) = ev_awaiter e"
  by (simp add: event.truncate_def)

text \<open>
  A class of operations: \<open>suspend\<close> hands the object over exactly if it returns true, \<open>await_ready\<close> and \<open>resume\<close> do not; the virtual calls
  reach its functions.
\<close>

locale port_class =
  fixes W :: "'k wsys" and A :: net_abi and h :: whandle
    and assoc :: "'k \<Rightarrow> whandle \<Rightarrow> bool option" and out :: "'k \<Rightarrow> nat multiset"
    and this :: nat and ok :: bool
    and ready suspend resume :: "('a event_scheme, ('k, 'm) world_scheme) op_call"
    and target :: "'a event_scheme \<Rightarrow> whandle option"
    and C :: "'a event_scheme \<Rightarrow> win_operation" and at :: "'k port_world \<Rightarrow> ('k, 'm) world_scheme"
  assumes ready_keeps: "ready (e, w) = Some (b, e', w') \<Longrightarrow> e' = e \<and> w' = w"
    and suspend_sends: "ok \<Longrightarrow> skips assoc (w_kern w) (target e) \<Longrightarrow> suspend (e, w) = Some (b, e', w') \<Longrightarrow>
      port_sent assoc out this b (w_kern w) (w_kern w') \<and> target e' = target e \<and> ev_awaiter e' = ev_awaiter e"
    and resume_quiet: "ok \<Longrightarrow> resume (e, w) = Some (b, e', w') \<Longrightarrow>
      port_quiet assoc out (w_kern w) (w_kern w') \<and> target e' = target e \<and> ev_awaiter e' = ev_awaiter e"
    and awaiter_target: "target (e\<lparr>ev_awaiter := a\<rparr>) = target e"
    and begin_as: "win_begin W A h this a (C e, v) = Some (b, x, v') \<Longrightarrow>
      \<exists>e'. x = C e' \<and> co_await_begin ready suspend a (e, at v) = Some (b, e', at v')"
    and resume_as: "win_await_resume W A h this (C e, v) = Some (b, x, v') \<Longrightarrow>
      \<exists>e'. x = C e' \<and> event_await_resume (\<lambda>s. s) resume suspend (e, at v) = Some (b, e', at v')"
    and at_kern: "w_kern (at v) = w_kern v"
    and class_as: "win_class (C e) = win_class (C e')" "win_target (C e) = target e" "win_event (C e) = event.truncate e"
begin

lemma port_begin:
  assumes ok "skips assoc (w_kern w) (win_target (C e))" "win_begin W A h this a (C e, w) = Some (b, x, w')"
  shows "win_same (C e) x \<and> port_sent assoc out this (\<not> b) (w_kern w) (w_kern w') \<and> (\<not> b \<longrightarrow> ev_awaiter (win_event x) = a)"
proof -
  from begin_as [OF assms(3)] obtain e' where e': "x = C e'" "co_await_begin ready suspend a (e, at w) = Some (b, e', at w')" by blast
  then obtain r where r: "ready (e, at w) = Some (r, e, at w)"
    using ready_keeps by (auto simp: co_await_begin_def split: option.splits)
  have x: "win_same (C e) x \<longleftrightarrow> target e' = target e" using e'(1) class_as(1) [of e e'] by (auto simp: win_same_def class_as(2))
  show ?thesis
  proof (cases r)
    case True
    with e'(2) r have "b" "e' = e" "at w' = at w" by (auto simp: co_await_begin_def)
    with x at_kern [of w'] at_kern [of w] show ?thesis by (simp add: port_sent_def)
  next
    case False
    with e'(2) r have "suspend (e\<lparr>ev_awaiter := a\<rparr>, at w) = Some (\<not> b, e', at w')" by (auto simp: co_await_begin_def event_await_suspend_def)
    from suspend_sends [OF assms(1) _ this] assms(2) x show ?thesis by (simp add: at_kern class_as e'(1) awaiter_target)
  qed
qed

lemma port_resume:
  assumes ok "skips assoc (w_kern w) (win_target (C e))" "win_await_resume W A h this (C e, w) = Some (b, x, w')"
  shows "win_same (C e) x \<and> port_sent assoc out this (\<not> b) (w_kern w) (w_kern w') \<and> ev_awaiter (win_event x) = ev_awaiter (win_event (C e))"
proof -
  from resume_as [OF assms(3)] obtain e' where e': "x = C e'" "event_await_resume (\<lambda>s. s) resume suspend (e, at w) = Some (b, e', at w')" by blast
  obtain d e1 v1 where d: "resume (e, at w) = Some (d, e1, v1)" using e'(2) by (auto simp: event_await_resume_def split: option.splits)
  note q = resume_quiet [OF assms(1) d]
  have x: "win_same (C e) x \<longleftrightarrow> target e' = target e" using e'(1) class_as(1) [of e e'] by (auto simp: win_same_def class_as(2))
  show ?thesis
  proof (cases d)
    case True
    with e'(2) d have "b" "e' = e1" "at w' = v1" by (auto simp: event_await_resume_def)
    with q x at_kern [of w'] show ?thesis by (auto simp: at_kern class_as e'(1) port_sent_quiet [of assoc out _ _ this])
  next
    case False
    with e'(2) d have s: "suspend (e1, v1) = Some (\<not> b, e', at w')" by (auto simp: event_await_resume_def split: option.splits)
    from q assms(2) have "skips assoc (w_kern v1) (target e1)" by (auto simp: port_quiet_def at_kern class_as intro: skips_later)
    from suspend_sends [OF assms(1) this s] q x show ?thesis
      by (auto simp: at_kern class_as e'(1) port_sent_quiet [of assoc out _ _ this] intro: port_sent_after)
  qed
qed

end

lemma on_part_at:
  "op_wrap C (on_tcp f) (e, w) = Some (b, x, w') \<Longrightarrow>
     \<exists>e'. x = C e' \<and> f (e, \<lparr>w_mem = w_mem w, w_kern = w_kern w\<rparr>) = Some (b, e', \<lparr>w_mem = w_mem w', w_kern = w_kern w'\<rparr>)"
  "op_wrap C1 (on_connect f1) (e1, w) = Some (b, x, w') \<Longrightarrow>
     \<exists>e'. x = C1 e' \<and> f1 (e1, \<lparr>w_mem = w_mem w, w_kern = w_kern w, w_connect_ex = pw_connect_ex w\<rparr>) =
       Some (b, e', \<lparr>w_mem = w_mem w', w_kern = w_kern w', w_connect_ex = pw_connect_ex w'\<rparr>)"
  "op_wrap C2 (on_udp f2) (e2, w) = Some (b, x, w') \<Longrightarrow>
     \<exists>e'. x = C2 e' \<and> f2 (e2, \<lparr>w_mem = w_mem w, w_kern = w_kern w, w_endpoints = w_endpoints w\<rparr>) =
       Some (b, e', \<lparr>w_mem = w_mem w', w_kern = w_kern w', w_endpoints = w_endpoints w'\<rparr>)"
  by (auto simp: op_wrap_def on_tcp_def on_connect_def on_udp_def)

lemma ready_win_keeps: "ready_win (e, w) = Some (b, e', w') \<Longrightarrow> e' = e \<and> w' = w"
  by (simp add: ready_win_def)

lemma connect_ex_quiet:
  assumes "iocp_ok W h assoc out" "connect_ex_make W A k = (ec, k')"
  shows "port_quiet assoc out k k'"
proof -
  obtain s err k1 where s: "win_socket W (AF_INET A) (SOCK_STREAM A) 0 k = (s, err, k1)" by (metis prod_cases3)
  note q = iocp_okD(8) [OF assms(1) s]
  show ?thesis
  proof (cases "s = -1")
    case True
    with s q assms(2) show ?thesis by (auto simp: connect_ex_make_def)
  next
    case False
    obtain ok2 err2 k2 where c: "win_connect_ex W s k1 = (ok2, err2, k2)" by (metis prod_cases3)
    note q2 = iocp_okD(9) [OF assms(1) c]
    have k': "k' = win_closesocket W s k2" using assms(2) s c False by (auto simp: connect_ex_make_def split: if_splits)
    have "assoc k' fd = Some v" if v: "assoc k fd = Some v" for fd v
    proof -
      have "fd \<noteq> s" using v q False by auto
      have "assoc k1 fd = Some v" using q v by (auto simp: port_quiet_def intro: map_le_at)
      then have "assoc k2 fd = Some v" using q2 by (auto simp: port_quiet_def intro: map_le_at)
      with iocp_okD(11) [OF assms(1) \<open>fd \<noteq> s\<close>] show ?thesis by (simp add: k')
    qed
    then have "assoc k \<subseteq>\<^sub>m assoc k'" by (auto simp: map_le_def)
    with q q2 iocp_okD(10) [OF assms(1), of s k2] show ?thesis by (simp add: k' port_quiet_def)
  qed
qed

section \<open>The nine classes\<close>

interpretation port_accept: port_class W A h assoc out this "iocp_ok W h assoc out" ready_win "accept_suspend_win W this"
    "accept_resume_win W A this" "\<lambda>e. Some (awin_socket e)" Win_accept "\<lambda>w. \<lparr>w_mem = w_mem w, w_kern = w_kern w\<rparr>"
  for W :: "'k wsys" and A h assoc out this
proof (unfold_locales, goal_cases)
  case (2 w e b e' w')
  then obtain err where "accept_loop W (awin_socket e) (sk_handle (awin_client e)) this (w_kern w) = Some (b, err, w_kern w')"
    "e' = (case err of None \<Rightarrow> e | Some rc \<Rightarrow> e\<lparr>ev_ec := ec_native rc\<rparr>)" by (auto simp: accept_suspend_win_def split: option.splits prod.splits)
  with accept_loop_sent [OF 2(1)] 2(2) show ?case by (auto simp: skips_def split: option.splits)
next
  case (3 e w b e' w')
  then show ?case by (auto simp: accept_resume_win_def Let_def dest: iocp_okD(7) split: prod.splits if_splits)
qed (auto simp: win_begin.simps win_await_resume.simps dest: ready_win_keeps on_part_at)

interpretation port_recv: port_class W A h assoc out this "iocp_ok W h assoc out" ready_win "recv_suspend_win W this"
    "recv_resume_win W this" "\<lambda>e. Some (rwin_socket e)" Win_recv "\<lambda>w. \<lparr>w_mem = w_mem w, w_kern = w_kern w\<rparr>"
  for W :: "'k wsys" and A h assoc out this
proof (unfold_locales, goal_cases)
  case (2 w e b e' w')
  then show ?case
    by (auto simp: recv_suspend_win_def skips_def Let_def dest!: iocp_okD(3) dest: port_sent_io split: prod.splits if_splits)
next
  case (3 e w b e' w')
  then show ?case by (auto simp: recv_resume_win_def Let_def dest: iocp_okD(7) split: prod.splits if_splits)
qed (auto simp: win_begin.simps win_await_resume.simps dest: ready_win_keeps on_part_at)

interpretation port_send: port_class W A h assoc out this "iocp_ok W h assoc out" ready_win "send_suspend_win W this"
    "send_resume_win W this" "\<lambda>e. Some (swin_socket e)" Win_send "\<lambda>w. \<lparr>w_mem = w_mem w, w_kern = w_kern w\<rparr>"
  for W :: "'k wsys" and A h assoc out this
proof (unfold_locales, goal_cases)
  case (2 w e b e' w')
  with send_loop_sent [OF 2(1,3)] show ?case by (auto simp: skips_def)
next
  case (3 e w b e' w')
  then show ?case by (auto simp: send_resume_win_def send_result_win_def Let_def dest: iocp_okD(7) split: prod.splits if_splits)
qed (auto simp: win_begin.simps win_await_resume.simps dest: ready_win_keeps on_part_at)

interpretation port_send_some: port_class W A h assoc out this "iocp_ok W h assoc out" ready_win "send_some_suspend_win W this"
    "send_some_resume_win W this" "\<lambda>e. Some (swin_socket e)" Win_send_some "\<lambda>w. \<lparr>w_mem = w_mem w, w_kern = w_kern w\<rparr>"
  for W :: "'k wsys" and A h assoc out this
proof (unfold_locales, goal_cases)
  case (2 w e b e' w')
  then show ?case
    by (auto simp: send_some_suspend_win_def send_call_win_def send_advance_win_def skips_def Let_def dest!: iocp_okD(4) dest: port_sent_io split: prod.splits if_splits)
next
  case (3 e w b e' w')
  then show ?case by (auto simp: send_some_resume_win_def send_result_win_def Let_def dest: iocp_okD(7) split: prod.splits if_splits)
qed (auto simp: win_begin.simps win_await_resume.simps dest: ready_win_keeps on_part_at)

interpretation port_udp_recv: port_class W A h assoc out this "iocp_ok W h assoc out" ready_win "udp_recv_suspend_win W this"
    "udp_recv_resume_win W this" "\<lambda>e. Some (urw_socket e)" Win_udp_recv "\<lambda>w. \<lparr>w_mem = w_mem w, w_kern = w_kern w, w_endpoints = w_endpoints w\<rparr>"
  for W :: "'k wsys" and A h assoc out this
proof (unfold_locales, goal_cases)
  case (2 w e b e' w')
  then show ?case
    by (auto simp: udp_recv_suspend_win_def skips_def Let_def dest!: iocp_okD(5) dest: port_sent_io split: prod.splits if_splits)
next
  case (3 e w b e' w')
  then show ?case by (auto simp: udp_recv_resume_win_def Let_def dest: iocp_okD(7) split: prod.splits if_splits)
qed (auto simp: win_begin.simps win_await_resume.simps dest: ready_win_keeps on_part_at)

interpretation port_udp_send: port_class W A h assoc out this "iocp_ok W h assoc out" ready_win "udp_send_suspend_win W this"
    "udp_send_resume_win W this" "\<lambda>e. Some (usw_socket e)" Win_udp_send "\<lambda>w. \<lparr>w_mem = w_mem w, w_kern = w_kern w, w_endpoints = w_endpoints w\<rparr>"
  for W :: "'k wsys" and A h assoc out this
proof (unfold_locales, goal_cases)
  case (2 w e b e' w')
  with udp_send_loop_sent [OF 2(1)] show ?case by (auto simp: skips_def udp_send_suspend_win_def)
next
  case (3 e w b e' w')
  then show ?case by (auto simp: udp_send_resume_win_def udp_send_result_win_def Let_def dest: iocp_okD(7) split: prod.splits if_splits)
qed (auto simp: win_begin.simps win_await_resume.simps dest: ready_win_keeps on_part_at)

interpretation port_udp_send_some: port_class W A h assoc out this "iocp_ok W h assoc out" ready_win "udp_send_some_suspend_win W this"
    "udp_send_some_resume_win W this" "\<lambda>e. Some (usw_socket e)" Win_udp_send_some "\<lambda>w. \<lparr>w_mem = w_mem w, w_kern = w_kern w, w_endpoints = w_endpoints w\<rparr>"
  for W :: "'k wsys" and A h assoc out this
proof (unfold_locales, goal_cases)
  case (2 w e b e' w')
  then show ?case
    by (auto simp: udp_send_some_suspend_win_def udp_send_call_win_def udp_send_advance_win_def skips_def Let_def dest!: iocp_okD(6) dest: port_sent_io split: prod.splits if_splits)
next
  case (3 e w b e' w')
  then show ?case by (auto simp: udp_send_some_resume_win_def udp_send_result_win_def Let_def dest: iocp_okD(7) split: prod.splits if_splits)
qed (auto simp: win_begin.simps win_await_resume.simps dest: ready_win_keeps on_part_at)

interpretation port_connect: port_class W A h assoc out this "iocp_ok W h assoc out" ready_win "connect_suspend_win W A this"
    "connect_resume_win W this" "\<lambda>e. Some (cwin_socket e)" Win_connect "\<lambda>w. \<lparr>w_mem = w_mem w, w_kern = w_kern w, w_connect_ex = pw_connect_ex w\<rparr>"
  for W :: "'k wsys" and A h assoc out this
proof (unfold_locales, goal_cases)
  case (2 w e b e' w')
  define s where "s = (case w_connect_ex w of Some ec \<Rightarrow> (ec, w)
      | None \<Rightarrow> (case connect_ex_make W A (w_kern w) of (ec, k) \<Rightarrow> (ec, w\<lparr>w_kern := k, w_connect_ex := Some ec\<rparr>)))"
  obtain ec w1 where s1: "s = (ec, w1)" by (cases s)
  have q: "port_quiet assoc out (w_kern w) (w_kern w1)"
    using s1 connect_ex_quiet [OF 2(1), of A "w_kern w"] by (auto simp: s_def port_quiet_def split: option.splits prod.splits)
  with 2(2) have a: "assoc (w_kern w1) (cwin_socket e) = Some True" by (auto simp: skips_def port_quiet_def intro: map_le_at)
  obtain ok rc k where c: "win_connect W (cwin_socket e) (ep_storage (cwin_endpoint e)) (ep_size (cwin_endpoint e)) this (w_kern w1) = (ok, rc, k)"
    by (metis prod_cases3)
  note io = port_sent_io [OF iocp_okD(2) [OF 2(1) c] a]
  from 2(3) q c io show ?case
    by (auto simp: connect_suspend_win_def s_def [symmetric] s1 port_sent_quiet [of assoc out _ _ this] intro: port_sent_after split: if_splits)
next
  case (3 e w b e' w')
  then show ?case by (auto simp: connect_resume_win_def Let_def dest: iocp_okD(7) split: prod.splits if_splits)
qed (auto simp: win_begin.simps win_await_resume.simps dest: ready_win_keeps on_part_at)

interpretation port_schedule: port_class W A h assoc out this "iocp_ok W h assoc out" schedule_ready "schedule_suspend_win W h this"
    schedule_resume "\<lambda>e. None" Win_schedule "\<lambda>w. \<lparr>w_mem = w_mem w, w_kern = w_kern w\<rparr>"
  for W :: "'k wsys" and A h assoc out this
proof (unfold_locales, goal_cases)
  case (2 w e b e' w')
  then show ?case by (auto simp: schedule_suspend_win_def port_sent_def dest: iocp_okD(12) split: prod.splits if_splits)
qed (auto simp: schedule_ready_def schedule_resume_def port_quiet_def win_begin.simps win_await_resume.simps dest: on_part_at)

lemma win_begin_law:
  assumes "iocp_ok W h assoc out" "skips assoc (w_kern w) (win_target x)" "win_begin W A h this a (x, w) = Some (b, x', w')"
  shows "win_same x x' \<and> port_sent assoc out this (\<not> b) (w_kern w) (w_kern w') \<and> (\<not> b \<longrightarrow> ev_awaiter (win_event x') = a)"
proof (cases x)
  case (Win_accept e)
  from port_accept.port_begin [OF assms [unfolded this]] this show ?thesis by simp
next
  case (Win_connect e)
  from port_connect.port_begin [OF assms [unfolded this]] this show ?thesis by simp
next
  case (Win_recv e)
  from port_recv.port_begin [OF assms [unfolded this]] this show ?thesis by simp
next
  case (Win_send e)
  from port_send.port_begin [OF assms [unfolded this]] this show ?thesis by simp
next
  case (Win_send_some e)
  from port_send_some.port_begin [OF assms [unfolded this]] this show ?thesis by simp
next
  case (Win_udp_recv e)
  from port_udp_recv.port_begin [OF assms [unfolded this]] this show ?thesis by simp
next
  case (Win_udp_send e)
  from port_udp_send.port_begin [OF assms [unfolded this]] this show ?thesis by simp
next
  case (Win_udp_send_some e)
  from port_udp_send_some.port_begin [OF assms [unfolded this]] this show ?thesis by simp
next
  case (Win_schedule e)
  from port_schedule.port_begin [OF assms [unfolded this]] this show ?thesis by simp
qed

lemma win_resume_law:
  assumes "iocp_ok W h assoc out" "skips assoc (w_kern w) (win_target x)" "win_await_resume W A h this (x, w) = Some (b, x', w')"
  shows "win_same x x' \<and> port_sent assoc out this (\<not> b) (w_kern w) (w_kern w') \<and> ev_awaiter (win_event x') = ev_awaiter (win_event x)"
proof (cases x)
  case (Win_accept e)
  from port_accept.port_resume [OF assms [unfolded this]] this show ?thesis by simp
next
  case (Win_connect e)
  from port_connect.port_resume [OF assms [unfolded this]] this show ?thesis by simp
next
  case (Win_recv e)
  from port_recv.port_resume [OF assms [unfolded this]] this show ?thesis by simp
next
  case (Win_send e)
  from port_send.port_resume [OF assms [unfolded this]] this show ?thesis by simp
next
  case (Win_send_some e)
  from port_send_some.port_resume [OF assms [unfolded this]] this show ?thesis by simp
next
  case (Win_udp_recv e)
  from port_udp_recv.port_resume [OF assms [unfolded this]] this show ?thesis by simp
next
  case (Win_udp_send e)
  from port_udp_send.port_resume [OF assms [unfolded this]] this show ?thesis by simp
next
  case (Win_udp_send_some e)
  from port_udp_send_some.port_resume [OF assms [unfolded this]] this show ?thesis by simp
next
  case (Win_schedule e)
  from port_schedule.port_resume [OF assms [unfolded this]] this show ?thesis by simp
qed

section \<open>The machine\<close>

definition port_wait :: "'k wsys \<Rightarrow> whandle \<Rightarrow> 64 word \<Rightarrow> 'k port_world \<Rightarrow> wait_result \<times> 'k port_world" where
  "port_wait W h n w = (case context_wait_win W h n (w_kern w) of (r, k) \<Rightarrow> (r, w\<lparr>w_kern := k\<rparr>))"

definition port_interrupt :: "'k wsys \<Rightarrow> whandle \<Rightarrow> 'k port_world \<Rightarrow> 'k port_world" where
  "port_interrupt W h w = w\<lparr>w_kern := context_interrupt_win W h (w_kern w)\<rparr>"

text \<open>What may be awaited: operations of sockets that the constructor has associated with the port, and \<open>schedule\<close>.\<close>

definition win_virtuals ::
  "'k wsys \<Rightarrow> net_abi \<Rightarrow> whandle \<Rightarrow> ('k \<Rightarrow> whandle \<Rightarrow> bool option) \<Rightarrow> (win_operation, 'k port_world) virtuals" where
  "win_virtuals W A h assoc =
     \<lparr>vt_begin = win_begin W A h, vt_resume = win_await_resume W A h, vt_awaiter = (\<lambda>x. ev_awaiter (win_event x)),
      vt_guard = (\<lambda>w x. skips assoc (w_kern w) (win_target x))\<rparr>"

definition port_exec ::
  "'k wsys \<Rightarrow> net_abi \<Rightarrow> whandle \<Rightarrow> ('k \<Rightarrow> whandle \<Rightarrow> bool option) \<Rightarrow> 64 word \<Rightarrow> ('k port_world \<Rightarrow> bool) \<Rightarrow>
   ('k port_world \<Rightarrow> 'k port_world \<Rightarrow> bool) \<Rightarrow> (win_operation, 'k port_world) object_act \<Rightarrow>
   (win_operation, 'k port_world) objects \<Rightarrow> (win_operation, 'k port_world) objects option" where
  "port_exec W A h assoc n wakes env = object_exec (win_virtuals W A h assoc) (port_wait W h n) wakes (port_interrupt W h) env"

text \<open>What happens outside closes no socket in use, and adds and takes no pointer to an operation.\<close>

definition port_keeps ::
  "('k \<Rightarrow> whandle \<Rightarrow> bool option) \<Rightarrow> ('k \<Rightarrow> nat multiset) \<Rightarrow> ('k port_world \<Rightarrow> 'k port_world \<Rightarrow> bool) \<Rightarrow> bool" where
  "port_keeps assoc out env \<longleftrightarrow>
     (\<forall>w w'. env w w' \<longrightarrow> assoc (w_kern w) \<subseteq>\<^sub>m assoc (w_kern w') \<and> (\<forall>p. p \<noteq> 0 \<longrightarrow> count (out (w_kern w')) p = count (out (w_kern w)) p))"

text \<open>Each suspended operation is handed over or taken exactly once, and nothing else is.\<close>

definition port_holds ::
  "('k \<Rightarrow> whandle \<Rightarrow> bool option) \<Rightarrow> ('k \<Rightarrow> nat multiset) \<Rightarrow> 'k port_world \<Rightarrow> (nat \<Rightarrow> win_operation option) \<Rightarrow> nat multiset \<Rightarrow> bool" where
  "port_holds assoc out w ops left \<longleftrightarrow>
     ops 0 = None \<and> count left 0 = 0 \<and> (\<forall>p x. ops p = Some x \<longrightarrow> skips assoc (w_kern w) (win_target x)) \<and>
     (\<forall>p. p \<noteq> 0 \<longrightarrow> count (out (w_kern w)) p + count left p = (if ops p = None then 0 else 1))"

lemma port_holdsD:
  assumes "port_holds assoc out w ops left"
  shows "ops 0 = None" "count left 0 = 0" "ops p = Some x \<Longrightarrow> skips assoc (w_kern w) (win_target x)"
    "p \<noteq> 0 \<Longrightarrow> count (out (w_kern w)) p + count left p = (if ops p = None then 0 else 1)"
  using assms unfolding port_holds_def by blast+

lemma port_holds_move:
  assumes "port_holds assoc out w ops left" "assoc (w_kern w) \<subseteq>\<^sub>m assoc (w_kern w')" "count left' 0 = 0"
    and "\<And>p. p \<noteq> 0 \<Longrightarrow> count (out (w_kern w')) p + count left' p = count (out (w_kern w)) p + count left p"
  shows "port_holds assoc out w' ops left'"
  using assms unfolding port_holds_def by (auto intro: skips_later)

text \<open>Handing an operation over, or letting its coroutine go on.\<close>

lemma port_holds_sent:
  assumes h: "port_holds assoc out w ops (left + (if old then {#p#} else {#}))" and p: "p \<noteq> 0" "old \<longleftrightarrow> ops p \<noteq> None"
    and s: "port_sent assoc out p (\<not> b) (w_kern w) (w_kern w')" and x: "skips assoc (w_kern w) (win_target x')"
  shows "port_holds assoc out w' (ops(p := if b then None else Some x')) left"
proof -
  have le: "assoc (w_kern w) \<subseteq>\<^sub>m assoc (w_kern w')" using s by (simp add: port_sent_def)
  have "count (out (w_kern w')) q + count left q = (if (ops(p := if b then None else Some x')) q = None then 0 else 1)" if "q \<noteq> 0" for q
    using port_holdsD(4) [OF h that] p s by (auto simp: port_sent_def split: if_splits)
  moreover have "count left 0 = 0" using port_holdsD(2) [OF h] p(1) by (auto split: if_splits)
  moreover have "skips assoc (w_kern w') (win_target y)" if "(ops(p := if b then None else Some x')) q = Some y" for q y
    using that x port_holdsD(3) [OF h, of q y] le by (auto intro: skips_later split: if_splits)
  ultimately show ?thesis using port_holdsD(1) [OF h] p(1) unfolding port_holds_def by simp
qed

interpretation port_objects: object_loop "win_virtuals W A h assoc" "port_wait W h n" "port_interrupt W h" win_same
    "port_holds assoc out" "\<lambda>_ _. True" "iocp_ok W h assoc out"
  for W :: "'k wsys" and A h assoc n out
proof (unfold_locales, goal_cases)
  case (1 w ops left x p a b x' w')
  then have g: "skips assoc (w_kern w) (win_target x)" and b: "win_begin W A h p a (x, w) = Some (b, x', w')" by (simp_all add: win_virtuals_def)
  note res = win_begin_law [OF 1(1) g b]
  have "skips assoc (w_kern w) (win_target x')" using res g by (simp add: win_same_def)
  from port_holds_sent [of assoc out w ops left False p b w' x', OF _ 1(5) _ _ this] 1 res show ?case by (simp add: win_virtuals_def)
next
  case (2 w ops p left)
  have "p \<noteq> 0" using port_holdsD(2) [OF 2(2)] by (auto split: if_splits)
  from port_holdsD(4) [OF 2(2) this] show ?case by (auto split: if_splits)
next
  case (3 w ops p left x b x' w')
  have p: "p \<noteq> 0" using port_holdsD(2) [OF 3(2)] by (auto split: if_splits)
  note g = port_holdsD(3) [OF 3(2,3)]
  from 3(4) have b: "win_await_resume W A h p (x, w) = Some (b, x', w')" by (simp add: win_virtuals_def)
  note res = win_resume_law [OF 3(1) g b]
  have "skips assoc (w_kern w) (win_target x')" using res g by (simp add: win_same_def)
  from port_holds_sent [of assoc out w ops left True p b w' x', OF _ p _ _ this] 3 res show ?case by (simp add: win_virtuals_def)
next
  case (4 w ops left)
  obtain posted err k where k: "win_post W h 0 (w_kern w) = (posted, err, k)" by (metis prod_cases3)
  from iocp_okD(12) [OF 4(1) k] port_holdsD(2) [OF 4(2)] show ?case
    by (intro port_holds_move [OF 4(2)]) (auto simp: port_interrupt_def context_interrupt_win_def k)
next
  case (5 w ops left r w')
  obtain ok err es k where k: "win_wait W h (ucast n) (w_kern w) = (ok, err, es, k)" by (metis prod_cases4)
  note law = iocp_okD(13) [OF 5(1) k]
  have w': "w' = w\<lparr>w_kern := k\<rparr>" and r: "r = (if ok then Wait_entries es else Wait_break (if err \<noteq> ERROR_ABANDONED_WAIT_0 W then Some err else None))"
    using 5(3) by (auto simp: port_wait_def context_wait_win_def k split: if_splits)
  show ?case
  proof (rule port_holds_move [OF 5(2)])
    show "assoc (w_kern w) \<subseteq>\<^sub>m assoc (w_kern w')" using law by (simp add: w')
    show "count (left + taken_entries r) 0 = 0" using port_holdsD(2) [OF 5(2)] by (auto simp: r taken_entries_def)
    fix p :: nat assume p: "p \<noteq> 0"
    have "count (mset es) p \<le> count (out (w_kern w)) p" if ok using law that by (simp add: mset_subset_eq_count)
    with law p show "count (out (w_kern w')) p + count (left + taken_entries r) p = count (out (w_kern w)) p + count left p"
      by (auto simp: w' r taken_entries_def)
  qed
qed (auto simp: win_same_def)

text \<open>The loop starts with a port that holds no pointer to an object.\<close>

definition port_start :: "('k \<Rightarrow> nat multiset) \<Rightarrow> (win_operation, 'k port_world) objects \<Rightarrow> bool" where
  "port_start out s \<longleftrightarrow>
     (\<exists>w. lp_run s = context_start w \<and> (\<forall>p. p \<noteq> 0 \<longrightarrow> count (out (w_kern w)) p = 0)) \<and>
     lp_ops s = (\<lambda>_. None) \<and> lp_started s = [] \<and> lp_continued s = [] \<and> \<not> lp_fault s"

abbreviation port_inv where
  "port_inv assoc out \<equiv> object_inv (\<lambda>x. ev_awaiter (win_event x)) win_same (port_holds assoc out)"

lemma port_inv_start: "port_start out s \<Longrightarrow> port_inv assoc out s"
  unfolding port_start_def object_inv_def
  by (auto simp: context_inv_start port_holds_def entries_def sum_counted_def) (auto simp: context_start_def)

lemma port_inv_step:
  assumes "iocp_ok W h assoc out" "port_keeps assoc out env" "port_inv assoc out s" "port_exec W A h assoc n wakes env a s = Some s'"
  shows "port_inv assoc out s'"
proof -
  have env: "port_holds assoc out w' ops left" if "env w w'" "port_holds assoc out w ops left" for w w' ops left
    using that assms(2) port_holdsD(2) [OF that(2)] by (intro port_holds_move [OF that(2)]) (auto simp: port_keeps_def)
  have "object_inv (vt_awaiter (win_virtuals W A h assoc)) win_same (port_holds assoc out) s'"
    by (rule port_objects.object_inv_step [OF assms(1) env, where a = a and s = s and A = A and n = n and wakes = wakes])
      (use assms(3,4) in \<open>simp_all add: port_exec_def win_virtuals_def\<close>)
  then show ?thesis by (simp add: win_virtuals_def)
qed

interpretation port_loop: invariant_system "port_start out" "act_step (port_exec W A h assoc n wakes env)"
    "\<lambda>s. iocp_ok W h assoc out \<and> port_keeps assoc out env \<longrightarrow> port_inv assoc out s"
  for out W A h assoc n wakes env
  by unfold_locales (auto intro: port_inv_start port_inv_step)

section \<open>Properties\<close>

text \<open>
  C7: on Windows the kernel and the threads hold exactly the pointers to the operations whose coroutines are suspended. However the threads in
  \<open>run\<close>, the coroutines and the network interleave, and whether a call ends at once, fails or stays pending, no dispatch hits an object that
  is not suspended; for every suspended operation there is exactly one call in flight, packet queued or entry taken, so that its coroutine is
  not forgotten; for every other address there is none, so that a coroutine that goes on may destroy its operation; and the coroutines
  that awaited are those continued, each once for each time it awaited, and those still suspended.
\<close>

theorem port_dispatches_suspended:
  assumes "iocp_ok W h assoc out" "port_keeps assoc out env"
    and "reach (port_start out) (act_step (port_exec W A h assoc n wakes env)) s"
  shows "\<not> lp_fault s \<and>
    (\<forall>p. p \<noteq> 0 \<longrightarrow> count (out (w_kern (cm_kern (lp_run s)))) p + count (entries (lp_run s)) p = (if lp_ops s p = None then 0 else 1)) \<and>
    mset (lp_started s) = mset (lp_continued s) + suspended (\<lambda>x. ev_awaiter (win_event x)) (lp_ops s) \<and>
    (\<forall>p x. lp_ops s p = Some x \<longrightarrow> win_same (lp_made s p) x)"
proof -
  have inv: "port_inv assoc out s" using port_loop.reach_inv [OF assms(3)] assms(1,2) by blast
  then have h: "port_holds assoc out (cm_kern (lp_run s)) (lp_ops s) (entries (lp_run s))" by (simp add: object_inv_def)
  from inv port_holdsD(4) [OF h] show ?thesis by (simp add: object_inv_def)
qed

text \<open>The sockets of the library satisfy what the loop relies on: the constructor associates them with the port and sets the mode.\<close>

definition associates_ok :: "'k wsys \<Rightarrow> whandle \<Rightarrow> ('k \<Rightarrow> whandle \<Rightarrow> bool option) \<Rightarrow> bool" where
  "associates_ok W h assoc \<longleftrightarrow>
     (\<forall>s k. case win_associate W s h k of (ok, err, k') \<Rightarrow> ok \<longrightarrow> assoc k' s = Some False) \<and>
     (\<forall>s k. case win_completion_modes W s k of (ok, err, k') \<Rightarrow> ok \<and> assoc k s \<noteq> None \<longrightarrow> assoc k' s = Some True)"

lemma socket_made_skips:
  assumes "associates_ok W h assoc" "socket_make_win W junk h family type protocol k = (Inr s, k')"
  shows "skips assoc k' (Some (sk_handle s))"
proof -
  obtain fd err k1 where s1: "win_socket W family type protocol k = (fd, err, k1)" by (metis prod_cases3)
  obtain ok2 err2 k2 where s2: "win_associate W fd h k1 = (ok2, err2, k2)" by (metis prod_cases3)
  obtain ok3 err3 k3 where s3: "win_completion_modes W fd k2 = (ok3, err3, k3)" by (metis prod_cases3)
  from assms(2) s1 s2 s3 have ok: "ok2" "ok3" "k' = k3" "sk_handle s = fd" by (auto simp: socket_make_win_def split: if_splits)
  note a = assms(1) [unfolded associates_ok_def]
  have "assoc k2 fd = Some False" using a [THEN conjunct1, THEN spec [where x = fd], THEN spec [where x = k1]] s2 ok by simp
  then show ?thesis using a [THEN conjunct2, THEN spec [where x = fd], THEN spec [where x = k2]] s3 ok by (simp add: skips_def)
qed

section \<open>A concrete port\<close>

text \<open>A receiving call on the socket 3 pends, and its packet is queued at once; one on another socket ends at once with one byte.\<close>

definition packet_win :: "nat list wsys" where
  "packet_win = port_win
     \<lparr>win_recv := \<lambda>fd n this q. if fd = 3 then (False, 997, [], q @ [this]) else (True, 0, [42], q),
      win_result := \<lambda>fd this q. (True, 0, 3, q)\<rparr>"

lemma packet_win_calls:
  "win_recv packet_win fd n this q = (if fd = 3 then (False, 997, [], q @ [this]) else (True, 0, [42], q))"
  "win_result packet_win fd this q = (True, 0, 3, q)" "ERROR_IO_PENDING packet_win = 997"
  "win_post packet_win h p q = (True, 0, q @ [p])" "win_wait packet_win h u q = (True, 0, take (unat u) q, drop (unat u) q)"
  "win_accept packet_win fd c this q = (False, 10022, q)" "win_connect packet_win fd a l this q = (False, 10022, q)"
  "win_send packet_win fd bs this q = (False, 10022, 0, q)" "win_recvfrom packet_win fd n a l this q = (False, 10022, [], a, l, q)"
  "win_sendto packet_win fd bs a l this q = (False, 10022, 0, q)" "win_socket packet_win f t pr q = (-1, 10022, q)"
  "win_connect_ex packet_win s q = (False, 10022, q)" "win_closesocket packet_win s q = q"
  by (simp_all add: packet_win_def port_win_def failing_win_def)

lemma packet_win_ok: "iocp_ok packet_win h (\<lambda>_ _. Some True) mset"
proof -
  have "mset (take i q) \<subseteq># mset q \<and> mset (drop i q) = mset q - mset (take i q)" for i and q :: "nat list"
    by (metis add_diff_cancel_left' append_take_drop_id mset_append mset_subset_eq_add_left)
  then show ?thesis by (simp add: iocp_ok_def packet_win_calls port_io_def port_quiet_def)
qed

definition packet_start :: "(win_operation, nat list port_world) objects" where
  "packet_start =
     \<lparr>lp_run = context_start \<lparr>w_mem = of_nat, w_kern = [], w_endpoints = (\<lambda>_. endpoint_default sockaddr_zero), pw_connect_ex = None\<rparr>,
      lp_ops = (\<lambda>_. None), lp_made = (\<lambda>_. Win_recv (recv_make_win win_demo_socket 1000 8)),
      lp_done = (\<lambda>_. Win_recv (recv_make_win win_demo_socket 1000 8)), lp_started = [], lp_continued = [], lp_fault = False\<rparr>"

abbreviation packet_exec where
  "packet_exec \<equiv> port_exec packet_win demo_abi 9 (\<lambda>_ _. Some True) 1 (\<lambda>w. w_kern w \<noteq> []) (=)"

definition packet_acts :: "(win_operation, nat list port_world) object_act list" where
  "packet_acts =
     [Await 100 5 (Win_recv (recv_make_win (socket_empty sockaddr_zero 3 9) 1000 8)),
      Await 200 6 (Win_recv (recv_make_win (socket_empty sockaddr_zero 4 9) 2000 8)),
      Await 300 7 (Win_recv (recv_make_win (socket_empty sockaddr_zero 3 9) 3000 8)),
      Loop (Run 0), Loop (Step 0), Loop (Step 0), Loop (Step 0)]"

lemmas packet_defs = packet_acts_def packet_start_def port_exec_def win_virtuals_def skips_def object_await_def object_dispatch_def win_begin.simps
  win_await_resume.simps op_wrap_def on_tcp_def co_await_begin_def ready_win_def recv_suspend_win_def recv_resume_win_def recv_make_win_def
  event_await_suspend_def event_await_resume_def event_make_def event.defs recv_win_op.defs socket_empty_def packet_win_calls
  context_start_def run_begin_def run_add_def run_wait_def run_goto_def port_wait_def context_wait_win_def

lemma packet_run:
  "\<exists>s. run_acts packet_exec packet_acts packet_start = Some s \<and> lp_started s = [(100, 5), (200, 6), (300, 7)] \<and>
     lp_continued s = [(200, 6), (100, 5)] \<and> w_kern (cm_kern (lp_run s)) = [300] \<and> lp_ops s 300 \<noteq> None \<and> lp_ops s 100 = None"
  by (simp add: packet_defs)

lemma port_dispatches_suspended_witness:
  "\<exists>s. run_acts packet_exec packet_acts packet_start = Some s \<and> lp_continued s = [(200, 6), (100, 5)] \<and> lp_ops s 300 \<noteq> None \<and>
     \<not> lp_fault s \<and> count (entries (lp_run s)) 300 = 0 \<and> count (entries (lp_run s)) 100 = 0"
proof -
  obtain s where s: "run_acts packet_exec packet_acts packet_start = Some s" "lp_continued s = [(200, 6), (100, 5)]"
    "w_kern (cm_kern (lp_run s)) = [300]" "lp_ops s 300 \<noteq> None" "lp_ops s 100 = None" using packet_run by blast
  have "port_start mset packet_start" by (auto simp: port_start_def packet_start_def)
  then have r: "reach (port_start mset) (act_step packet_exec) s" by (intro run_acts_reach [OF s(1)] reach_init)
  have "port_keeps (\<lambda>_ _. Some True) mset (=)" by (simp add: port_keeps_def)
  from port_dispatches_suspended [OF packet_win_ok this r]
  have d: "\<not> lp_fault s" "\<And>p. p \<noteq> 0 \<Longrightarrow> count (mset [300 :: nat]) p + count (entries (lp_run s)) p = (if lp_ops s p = None then 0 else 1)"
    unfolding s(3) by blast+
  from d(2) [of 300] d(2) [of 100] s(4,5) have "count (entries (lp_run s)) 300 = 0" "count (entries (lp_run s)) 100 = 0" by simp_all
  with d(1) s show ?thesis by blast
qed

end
