(* ===== verification/Ice_Ssh.thy ===== *)
theory Ice_Ssh
  imports Ice_Tcp
begin

text \<open>
  SSH sessions and channels (include/ice/net/ssh, src/ice/net/ssh). The protocol is libssh2's, a third party library: its functions
  are the fields of a record that is a parameter, like the operating system's calls. It does its input and output through two
  callbacks, which lead to the \<open>transport\<close>, an event object: if the socket would block, the callback
  notes the direction and libssh2 returns \<open>LIBSSH2_ERROR_EAGAIN\<close>, whereupon the coroutine awaits the transport and calls the same
  function again. The coroutines of \<open>session\<close> and \<open>channel\<close> are loops of this form; \<open>ssh_exec\<close> is the loop, and each coroutine
  gives one attempt.
\<close>

section \<open>Messages\<close>

text \<open>The cases of \<open>error_category::message\<close>, by the name of the constant without its prefix; the numbers are libssh2's.\<close>

type_synonym ssh_errc = string

definition ssh_messages :: "(ssh_errc \<times> string) list" where
  "ssh_messages =
     [(''NONE'', ''ok''), (''SOCKET_NONE'', ''invalid socket''), (''BANNER_RECV'', ''banner recv error''),
      (''BANNER_SEND'', ''banner send error''), (''INVALID_MAC'', ''invalid mac''), (''KEX_FAILURE'', ''kex error''),
      (''ALLOC'', ''out of memory''), (''SOCKET_SEND'', ''socket send error''),
      (''KEY_EXCHANGE_FAILURE'', ''key exchange error''), (''TIMEOUT'', ''timeout''),
      (''HOSTKEY_INIT'', ''host key importer error''), (''HOSTKEY_SIGN'', ''host key verification error''),
      (''DECRYPT'', ''decrypt error''), (''SOCKET_DISCONNECT'', ''disconnect error''), (''PROTO'', ''protocol error''),
      (''PASSWORD_EXPIRED'', ''password expired''), (''FILE'', ''file error''), (''METHOD_NONE'', ''missing method''),
      (''AUTHENTICATION_FAILED'', ''authentication error''), (''PUBLICKEY_UNVERIFIED'', ''unverified public key''),
      (''CHANNEL_OUTOFORDER'', ''channel out of order''), (''CHANNEL_FAILURE'', ''channel error''),
      (''CHANNEL_REQUEST_DENIED'', ''channel request denied''), (''CHANNEL_UNKNOWN'', ''unknown channel''),
      (''CHANNEL_WINDOW_EXCEEDED'', ''channel window size exceeded''),
      (''CHANNEL_PACKET_EXCEEDED'', ''channel packet size exceeded''), (''CHANNEL_CLOSED'', ''channel closed''),
      (''CHANNEL_EOF_SENT'', ''channel eof sent''), (''SCP_PROTOCOL'', ''scp protocol error''), (''ZLIB'', ''zlib error''),
      (''SOCKET_TIMEOUT'', ''socket timeout''), (''SFTP_PROTOCOL'', ''sftp protocol error''),
      (''REQUEST_DENIED'', ''request denied''), (''METHOD_NOT_SUPPORTED'', ''method not supported''),
      (''INVAL'', ''invalid requested method type''), (''INVALID_POLL_TYPE'', ''invalid poll type''),
      (''PUBLICKEY_PROTOCOL'', ''public key protocol error''), (''EAGAIN'', ''asynchronous operation in progress''),
      (''BUFFER_TOO_SMALL'', ''buffer too small''), (''BAD_USE'', ''bad use''), (''COMPRESS'', ''compress error''),
      (''OUT_OF_BOUNDARY'', ''out of boundary''), (''AGENT_PROTOCOL'', ''agent protocol error''),
      (''SOCKET_RECV'', ''socket recv error''), (''ENCRYPT'', ''encrypt error''), (''BAD_SOCKET'', ''bad socket''),
      (''KNOWN_HOSTS'', ''known hosts error'')]"

definition ssh_message :: "(ssh_errc \<Rightarrow> int) \<Rightarrow> i32 \<Rightarrow> string" where
  "ssh_message num code =
     (case find (\<lambda>(e, _). word_of_int (num e) = code) ssh_messages of
        Some (_, text) \<Rightarrow> text
      | None \<Rightarrow> ''unknown error'')"

text \<open>\<open>domain_error\<close>, a \<open>std::system_error\<close> of the category \<open>ssh\<close>, or an exception of the rest of the library.\<close>

datatype ssh_exn = Domain_error i32 string | Ice_exn exn

section \<open>The transport\<close>

datatype operation = Op_none | Op_recv | Op_send

record transport = event +
  tp_operation :: operation
  tp_context :: int
  tp_socket :: int

definition transport_make :: "os \<Rightarrow> int socket \<Rightarrow> transport" where
  "transport_make p s = event.extend (event_make p) (transport.fields Op_none (sk_context s) (sk_handle s))"

definition transport_suspend :: "unix \<Rightarrow> 'k usys \<Rightarrow> nat \<Rightarrow> (transport, 'k world) op_call" where
  "transport_suspend u U this = (\<lambda>(t, w).
     case tp_operation t of
       Op_recv \<Rightarrow> Some (queue_recv u U this (tp_context t) (tp_socket t) (t, w))
     | Op_send \<Rightarrow> Some (queue_send u U this (tp_context t) (tp_socket t) (t, w))
     | Op_none \<Rightarrow> Some (False, t\<lparr>ev_ec := ec_system (EINVAL U)\<rparr>, w))"

definition transport_resume :: "(transport, 'k world) op_call" where
  "transport_resume = (\<lambda>s. Some (True, s))"

definition transport_await_resume :: "transport \<Rightarrow> exn + unit" where
  "transport_await_resume t = (if ec_bool (ev_ec t) then Inl (system_error (ev_ec t) ''tcp recv'') else Inr ())"

text \<open>The loops around \<open>::recv\<close> and \<open>::send\<close>: the result, \<open>errno\<close>, the bytes.\<close>

partial_function (option) recv_loop :: "'k usys \<Rightarrow> int \<Rightarrow> nat \<Rightarrow> int \<Rightarrow> 'k \<Rightarrow> (int \<times> int \<times> byte list \<times> 'k) option" where
  "recv_loop U h n flags k =
     (case sys_recv U h n flags k of (rc, errno, bytes, k') \<Rightarrow>
        if rc \<ge> 0 then Some (rc, errno, bytes, k')
        else if errno = EINTR U then recv_loop U h n flags k'
        else Some (rc, errno, bytes, k'))"

partial_function (option) send_loop :: "'k usys \<Rightarrow> int \<Rightarrow> byte list \<Rightarrow> int \<Rightarrow> 'k \<Rightarrow> (int \<times> int \<times> 'k) option" where
  "send_loop U h data flags k =
     (case sys_send U h data flags k of (rc, errno, k') \<Rightarrow>
        if rc \<ge> 0 then Some (rc, errno, k')
        else if errno = EINTR U then send_loop U h data flags k'
        else Some (rc, errno, k'))"

declare recv_loop.simps [code] send_loop.simps [code]

definition negative_errno :: "int \<Rightarrow> int" where
  "negative_errno errno = (if errno > 0 then - errno else errno)"

definition on_recv :: "'k usys \<Rightarrow> nat \<Rightarrow> int \<Rightarrow> transport \<times> 'k world \<Rightarrow> (int \<times> byte list \<times> transport \<times> 'k world) option" where
  "on_recv U n flags = (\<lambda>(t, w).
     case recv_loop U (tp_socket t) n flags (w_kern w) of
       None \<Rightarrow> None
     | Some (rc, errno, bytes, k) \<Rightarrow>
         if rc \<ge> 0 then Some (rc, bytes, t, w\<lparr>w_kern := k\<rparr>)
         else Some (negative_errno errno, bytes, t\<lparr>tp_operation := Op_recv\<rparr>, w\<lparr>w_kern := k\<rparr>))"

definition on_send :: "'k usys \<Rightarrow> byte list \<Rightarrow> int \<Rightarrow> transport \<times> 'k world \<Rightarrow> (int \<times> transport \<times> 'k world) option" where
  "on_send U data flags = (\<lambda>(t, w).
     case send_loop U (tp_socket t) data flags (w_kern w) of
       None \<Rightarrow> None
     | Some (rc, errno, k) \<Rightarrow>
         if rc \<ge> 0 then Some (rc, t, w\<lparr>w_kern := k\<rparr>)
         else Some (negative_errno errno, t\<lparr>tp_operation := Op_send\<rparr>, w\<lparr>w_kern := k\<rparr>))"

text \<open>
  The callbacks. \<open>abstract\<close> is the session's pointer to the transport, null after the session's destructor began; then the
  size is cast to \<open>socklen_t\<close> and the flags are not passed on.
\<close>

definition recv_callback ::
  "'k usys \<Rightarrow> int \<Rightarrow> nat \<Rightarrow> 64 word \<Rightarrow> int \<Rightarrow> transport \<times> 'k world \<Rightarrow> (int \<times> byte list \<times> transport \<times> 'k world) option" where
  "recv_callback U socket abstract n flags = (\<lambda>(t, w).
     if abstract = 0 then
       (case sys_recv U socket (unat (ucast n :: u32)) 0 (w_kern w) of
          (rc, errno, bytes, k) \<Rightarrow> Some (rc, bytes, t, w\<lparr>w_kern := k\<rparr>))
     else on_recv U (unat n) flags (t, w))"

definition send_callback ::
  "'k usys \<Rightarrow> int \<Rightarrow> nat \<Rightarrow> byte list \<Rightarrow> int \<Rightarrow> transport \<times> 'k world \<Rightarrow> (int \<times> transport \<times> 'k world) option" where
  "send_callback U socket abstract data flags = (\<lambda>(t, w).
     if abstract = 0 then
       (case sys_send U socket (take (unat (of_nat (length data) :: u32)) data) 0 (w_kern w) of
          (rc, errno, k) \<Rightarrow> Some (rc, t, w\<lparr>w_kern := k\<rparr>))
     else on_send U data flags (t, w))"

section \<open>libssh2\<close>

text \<open>
  Sessions and channels are pointers. A function that may call the callbacks acts on the transport and the world, and does not
  return if a callback does not.
\<close>

datatype ssh_callback = Callback_recv | Callback_send

type_synonym 'k ssh_state = "transport \<times> 'k world"

record 'k libssh2 =
  lib_error :: "ssh_errc \<Rightarrow> int"
  SSH_EXTENDED_DATA_STDERR :: int
  lib_init :: "'k \<Rightarrow> nat \<times> 'k"
  lib_free :: "nat \<Rightarrow> 'k \<Rightarrow> 'k"
  lib_set_abstract :: "nat \<Rightarrow> nat \<Rightarrow> 'k \<Rightarrow> 'k"
  lib_set_callback :: "nat \<Rightarrow> ssh_callback \<Rightarrow> 'k \<Rightarrow> 'k"
  lib_set_blocking :: "nat \<Rightarrow> bool \<Rightarrow> 'k \<Rightarrow> 'k"
  lib_disconnect :: "nat \<Rightarrow> string \<Rightarrow> 'k \<Rightarrow> 'k"
  lib_handshake :: "nat \<Rightarrow> int \<Rightarrow> 'k ssh_state \<Rightarrow> (int \<times> 'k ssh_state) option"
  lib_userauth :: "nat \<Rightarrow> string \<Rightarrow> string \<Rightarrow> 'k ssh_state \<Rightarrow> (int \<times> 'k ssh_state) option"
  lib_open :: "nat \<Rightarrow> 'k ssh_state \<Rightarrow> (nat \<times> 'k ssh_state) option"
  lib_last_error :: "nat \<Rightarrow> 'k \<Rightarrow> int"
  lib_startup :: "nat \<Rightarrow> byte list \<Rightarrow> byte list \<Rightarrow> 'k ssh_state \<Rightarrow> (int \<times> 'k ssh_state) option"
  lib_read :: "nat \<Rightarrow> int \<Rightarrow> nat \<Rightarrow> 'k ssh_state \<Rightarrow> (int \<times> byte list \<times> 'k ssh_state) option"
  lib_write :: "nat \<Rightarrow> int \<Rightarrow> byte list \<Rightarrow> 'k ssh_state \<Rightarrow> (int \<times> 'k ssh_state) option"
  lib_channel_free :: "nat \<Rightarrow> 'k \<Rightarrow> 'k"

abbreviation lib_ok :: "'k libssh2 \<Rightarrow> int" where
  "lib_ok L \<equiv> lib_error L ''NONE''"

abbreviation lib_again :: "'k libssh2 \<Rightarrow> int" where
  "lib_again L \<equiv> lib_error L ''EAGAIN''"

text \<open>
  A libssh2 whose functions do nothing and fail, with its numbers for success and \<open>EAGAIN\<close>: the concrete ones of the witnesses override
  the functions they need.
\<close>

definition idle_lib :: "'k libssh2" where
  "idle_lib =
     \<lparr>lib_error = \<lambda>e. if e = ''NONE'' then 0 else if e = ''EAGAIN'' then -37 else -1, SSH_EXTENDED_DATA_STDERR = 1,
      lib_init = \<lambda>k. (0, k), lib_free = \<lambda>_ k. k, lib_set_abstract = \<lambda>_ _ k. k, lib_set_callback = \<lambda>_ _ k. k,
      lib_set_blocking = \<lambda>_ _ k. k, lib_disconnect = \<lambda>_ _ k. k,
      lib_handshake = \<lambda>_ _ s. Some (-1, s), lib_userauth = \<lambda>_ _ _ s. Some (-1, s), lib_open = \<lambda>_ s. Some (0, s),
      lib_last_error = \<lambda>_ _. -1, lib_startup = \<lambda>_ _ _ s. Some (-1, s), lib_read = \<lambda>_ _ _ s. Some (-1, [], s),
      lib_write = \<lambda>_ _ _ s. Some (-1, s), lib_channel_free = \<lambda>_ k. k\<rparr>"

section \<open>The retry loop\<close>

text \<open>
  What an attempt leads to: \<open>co_return\<close>, an exception, the next iteration at once, or \<open>co_await transport_\<close>. The loop's
  local variables are of type \<open>'l\<close>.
\<close>

datatype 'r verdict = Return 'r | Raise ssh_exn | Repeat | Await

datatype 'r ssh_mode = Co_running | Co_waiting | Co_returned 'r | Co_raised ssh_exn

record ('l, 'r, 'k) ssh_co =
  co_mode :: "'r ssh_mode"
  co_local :: 'l
  co_state :: "'k ssh_state"

definition ssh_start :: "'l \<Rightarrow> 'k ssh_state \<Rightarrow> ('l, 'r, 'k) ssh_co" where
  "ssh_start l s = \<lparr>co_mode = Co_running, co_local = l, co_state = s\<rparr>"

text \<open>The end of \<open>co_await transport_\<close>: \<open>transport::await_resume\<close>, if the coroutine continues.\<close>

definition ssh_resumed :: "bool \<Rightarrow> 'k ssh_state \<Rightarrow> ('l, 'r, 'k) ssh_co \<Rightarrow> ('l, 'r, 'k) ssh_co" where
  "ssh_resumed continued s m =
     m\<lparr>co_state := s,
       co_mode := (if continued then (case transport_await_resume (fst s) of Inl x \<Rightarrow> Co_raised (Ice_exn x) | Inr _ \<Rightarrow> Co_running)
                   else Co_waiting)\<rparr>"

datatype 'k ssh_act = Continue nat | Dispatch_transport | Others "'k world"

fun ssh_exec ::
  "unix \<Rightarrow> 'k usys \<Rightarrow> nat \<Rightarrow> ('l \<times> 'k ssh_state \<Rightarrow> ('r verdict \<times> 'l \<times> 'k ssh_state) option) \<Rightarrow> ('k world \<Rightarrow> 'k world \<Rightarrow> bool) \<Rightarrow>
   'k ssh_act \<Rightarrow> ('l, 'r, 'k) ssh_co \<Rightarrow> ('l, 'r, 'k) ssh_co option" where
  "ssh_exec u U this attempt env (Continue awaiter) m =
     (if co_mode m = Co_running then
        (case attempt (co_local m, co_state m) of
           None \<Rightarrow> None
         | Some (v, l, s) \<Rightarrow>
             let m1 = m\<lparr>co_local := l, co_state := s\<rparr> in
             (case v of
                Return r \<Rightarrow> Some (m1\<lparr>co_mode := Co_returned r\<rparr>)
              | Raise x \<Rightarrow> Some (m1\<lparr>co_mode := Co_raised x\<rparr>)
              | Repeat \<Rightarrow> Some m1
              | Await \<Rightarrow> map_option (\<lambda>(pending, t). ssh_resumed (\<not> pending) t m1)
                  (event_await_suspend (transport_suspend u U this) awaiter s)))
      else None)"
| "ssh_exec u U this attempt env Dispatch_transport m =
     (if co_mode m = Co_waiting then
        map_option (\<lambda>(continued, s). ssh_resumed continued s m)
          (event_await_resume (event_remove u U) transport_resume (transport_suspend u U this) (co_state m))
      else None)"
| "ssh_exec u U this attempt env (Others w) m =
     (if co_mode m \<in> {Co_running, Co_waiting} \<and> env (snd (co_state m)) w
      then Some (m\<lparr>co_state := (fst (co_state m), w)\<rparr>) else None)"

section \<open>Sessions\<close>

record session =
  se_handle :: nat
  se_socket :: "int socket"
  se_transport :: transport

text \<open>
  The constructor; an exception of the socket's constructor destroys \<open>handle_\<close>, and one of the body the transport, the socket and
  \<open>handle_\<close>, whose destructor does nothing for a null pointer. \<open>this\<close> is the address of the transport.
\<close>

definition session_handle_free :: "'k libssh2 \<Rightarrow> nat \<Rightarrow> 'k \<Rightarrow> 'k" where
  "session_handle_free L h k = (if h \<noteq> 0 then lib_free L h k else k)"

definition session_make ::
  "unix \<Rightarrow> 'k usys \<Rightarrow> net_abi \<Rightarrow> 'k libssh2 \<Rightarrow> sockaddr \<Rightarrow> nat \<Rightarrow> int \<Rightarrow> int \<Rightarrow> 'k \<Rightarrow> ((ssh_exn + session) \<times> 'k) option" where
  "session_make u U A L junk this context family k =
     (case lib_init L k of (h, k1) \<Rightarrow>
        (case tcp_socket_unix U A junk context family k1 of
           (Inl x, k2) \<Rightarrow> Some (Inl (Ice_exn x), session_handle_free L h k2)
         | (Inr s, k2) \<Rightarrow>
             if h = 0 then
               map_option (\<lambda>(s', k3). (Inl (Domain_error (word_of_int (lib_error L ''ALLOC'')) ''initialize session''),
                   session_handle_free L h k3)) (socket_close_unix U s k2)
             else
               let k3 = lib_set_abstract L h this k2;
                   k4 = lib_set_callback L h Callback_recv k3;
                   k5 = lib_set_callback L h Callback_send k4;
                   k6 = lib_set_blocking L h False k5
               in Some (Inr \<lparr>se_handle = h, se_socket = s, se_transport = transport_make (Unix u) s\<rparr>, k6)))"

text \<open>The destructor, and then those of the socket and of \<open>handle_\<close>.\<close>

definition session_dtor :: "'k usys \<Rightarrow> 'k libssh2 \<Rightarrow> session \<Rightarrow> 'k \<Rightarrow> 'k option" where
  "session_dtor U L s k =
     (let k1 = lib_set_abstract L (se_handle s) 0 k;
          k2 = lib_disconnect L (se_handle s) ''shutdown'' k1
      in map_option (\<lambda>(_, k3). session_handle_free L (se_handle s) k3) (socket_close_unix U (se_socket s) k2))"

text \<open>\<open>session::connect\<close> after the socket has been connected: the handshake, then the authentication.\<close>

datatype connect_phase = Handshake | Authenticate

definition connect_attempt ::
  "'k libssh2 \<Rightarrow> nat \<Rightarrow> int \<Rightarrow> string \<Rightarrow> string \<Rightarrow> connect_phase \<times> 'k ssh_state \<Rightarrow> (unit verdict \<times> connect_phase \<times> 'k ssh_state) option" where
  "connect_attempt L h socket user pass = (\<lambda>(phase, s).
     case phase of
       Handshake \<Rightarrow>
         map_option (\<lambda>(rc, s').
             if rc = lib_ok L then (Repeat, Authenticate, s')
             else if rc \<noteq> lib_again L then (Raise (Domain_error (word_of_int rc) ''handshake''), Handshake, s')
             else (Await, Handshake, s'))
           (lib_handshake L h socket s)
     | Authenticate \<Rightarrow>
         map_option (\<lambda>(rc, s').
             if rc = lib_ok L then (Return (), Authenticate, s')
             else if rc \<noteq> lib_again L then (Raise (Domain_error (word_of_int rc) ''password authentication''), Authenticate, s')
             else (Await, Authenticate, s'))
           (lib_userauth L h user pass s))"

text \<open>What \<open>co_await socket_.connect(ep)\<close> ended with decides whether the loops are entered.\<close>

definition session_connect_begin ::
  "connect_op \<Rightarrow> transport \<Rightarrow> 'k world \<Rightarrow> (connect_phase, unit, 'k) ssh_co" where
  "session_connect_begin e t w =
     (case connect_await_resume e of
        Inl x \<Rightarrow> \<lparr>co_mode = Co_raised (Ice_exn x), co_local = Handshake, co_state = (t, w)\<rparr>
      | Inr _ \<Rightarrow> ssh_start Handshake (t, w))"

text \<open>Channels: the handle, the session's socket and transport by reference, and the buffer.\<close>

record channel =
  ch_handle :: nat
  ch_buffer :: "byte list"

definition channel_make :: "nat \<Rightarrow> channel" where
  "channel_make h = \<lparr>ch_handle = h, ch_buffer = replicate 1024 0\<rparr>"

definition channel_resize :: "nat \<Rightarrow> channel \<Rightarrow> channel" where
  "channel_resize n c = c\<lparr>ch_buffer := take n (ch_buffer c) @ replicate (n - length (ch_buffer c)) 0\<rparr>"

text \<open>The destructor of a channel's handle; a moved-from channel has a null handle.\<close>

definition channel_dtor :: "'k libssh2 \<Rightarrow> channel \<Rightarrow> 'k \<Rightarrow> 'k" where
  "channel_dtor L c k = (if ch_handle c \<noteq> 0 then lib_channel_free L (ch_handle c) k else k)"

definition open_attempt :: "'k libssh2 \<Rightarrow> nat \<Rightarrow> unit \<times> 'k ssh_state \<Rightarrow> (channel verdict \<times> unit \<times> 'k ssh_state) option" where
  "open_attempt L h = (\<lambda>(l, s).
     map_option (\<lambda>(c, s').
         if c \<noteq> 0 then (Return (channel_make c), l, s')
         else let rc = lib_last_error L h (w_kern (snd s')) in
              if rc \<noteq> lib_again L then (Raise (Domain_error (word_of_int rc) ''open channel''), l, s')
              else (Await, l, s'))
       (lib_open L h s))"

section \<open>Channels\<close>

text \<open>The sizes are cast to \<open>unsigned\<close>; the text of the exception is the one the code gives.\<close>

definition exec_view :: "byte list \<Rightarrow> byte list" where
  "exec_view s = take (unat (of_nat (length s) :: u32)) s"

definition exec_attempt ::
  "'k libssh2 \<Rightarrow> channel \<Rightarrow> byte list \<Rightarrow> byte list \<Rightarrow> unit \<times> 'k ssh_state \<Rightarrow> (unit verdict \<times> unit \<times> 'k ssh_state) option" where
  "exec_attempt L c request command = (\<lambda>(l, s).
     map_option (\<lambda>(rv, s').
         if rv = 0 then (Return (), l, s')
         else if rv \<noteq> lib_again L then (Raise (Domain_error (word_of_int rv) ''read''), l, s')
         else (Await, l, s'))
       (lib_startup L (ch_handle c) (exec_view request) (exec_view command) s))"

datatype ssh_stream = Stream_out | Stream_err

definition stream_id :: "'k libssh2 \<Rightarrow> ssh_stream \<Rightarrow> int" where
  "stream_id L st = (if st = Stream_out then 0 else SSH_EXTENDED_DATA_STDERR L)"

text \<open>\<open>read\<close> returns a view of the buffer; the local state is the channel.\<close>

definition read_attempt ::
  "'k libssh2 \<Rightarrow> ssh_stream \<Rightarrow> channel \<times> 'k ssh_state \<Rightarrow> (byte list verdict \<times> channel \<times> 'k ssh_state) option" where
  "read_attempt L st = (\<lambda>(c, s).
     map_option (\<lambda>(rv, bytes, s').
         let c' = c\<lparr>ch_buffer := bytes @ drop (length bytes) (ch_buffer c)\<rparr> in
         if rv \<ge> 0 then (Return (take (nat rv) (ch_buffer c')), c', s')
         else if rv \<noteq> lib_again L then (Raise (Domain_error (word_of_int rv) ''read''), c', s')
         else (Await, c', s'))
       (lib_read L (ch_handle c) (stream_id L st) (length (ch_buffer c)) s))"

text \<open>\<open>write\<close>; the local state is \<open>written\<close>.\<close>

definition write_attempt ::
  "'k libssh2 \<Rightarrow> nat \<Rightarrow> byte list \<Rightarrow> ssh_stream \<Rightarrow> 64 word \<times> 'k ssh_state \<Rightarrow> (unit verdict \<times> 64 word \<times> 'k ssh_state) option" where
  "write_attempt L h data st = (\<lambda>(written, s).
     if written < of_nat (length data) then
       map_option (\<lambda>(rv, s').
           if rv \<ge> 0 then (Repeat, written + word_of_int rv, s')
           else if rv \<noteq> lib_again L then (Raise (Domain_error (word_of_int rv) ''write''), written, s')
           else (Await, written, s'))
         (lib_write L h (stream_id L st) data s)
     else Some (Return (), written, s))"

section \<open>Correctness of the loop\<close>

text \<open>
  The contract between a coroutine's attempt and the loop. \<open>inv\<close> holds while it runs, \<open>waits\<close> while it is suspended, \<open>post\<close> when it has
  returned and \<open>bad\<close> when it has thrown.
\<close>

locale ssh_loop =
  fixes u :: unix and U :: "'k usys" and this :: nat
    and attempt :: "'l \<times> 'k ssh_state \<Rightarrow> ('r verdict \<times> 'l \<times> 'k ssh_state) option"
    and env :: "'k world \<Rightarrow> 'k world \<Rightarrow> bool"
    and inv :: "'l \<Rightarrow> 'k ssh_state \<Rightarrow> bool"
    and waits :: "'l \<Rightarrow> 'k ssh_state \<Rightarrow> bool"
    and post :: "'r \<Rightarrow> 'l \<Rightarrow> 'k ssh_state \<Rightarrow> bool"
    and bad :: "ssh_exn \<Rightarrow> 'l \<Rightarrow> 'k ssh_state \<Rightarrow> bool"
  assumes attempt_law: "inv l s \<Longrightarrow> attempt (l, s) = Some (v, l', s') \<Longrightarrow>
      (case v of Return r \<Rightarrow> post r l' s' | Raise x \<Rightarrow> bad x l' s' | Repeat \<Rightarrow> inv l' s' | Await \<Rightarrow> waits l' s')"
    and awaiter_law: "waits l (t, w) \<Longrightarrow> waits l (t\<lparr>ev_awaiter := a\<rparr>, w)"
    and suspend_law: "waits l s \<Longrightarrow> transport_suspend u U this s = Some (pending, s') \<Longrightarrow>
      (if pending then waits l s'
       else case transport_await_resume (fst s') of Inl x \<Rightarrow> bad (Ice_exn x) l s' | Inr _ \<Rightarrow> inv l s')"
    and resume_law: "waits l s \<Longrightarrow> (case transport_await_resume (fst s) of Inl x \<Rightarrow> bad (Ice_exn x) l s | Inr _ \<Rightarrow> inv l s)"
    and remove_law: "waits l s \<Longrightarrow> waits l (event_remove u U s)"
    and env_law: "inv l (t, w) \<Longrightarrow> env w w' \<Longrightarrow> inv l (t, w')" "waits l (t, w) \<Longrightarrow> env w w' \<Longrightarrow> waits l (t, w')"
begin

definition co_inv :: "('l, 'r, 'k) ssh_co \<Rightarrow> bool" where
  "co_inv m \<longleftrightarrow>
     (case co_mode m of
        Co_running \<Rightarrow> inv (co_local m) (co_state m)
      | Co_waiting \<Rightarrow> waits (co_local m) (co_state m)
      | Co_returned r \<Rightarrow> post r (co_local m) (co_state m)
      | Co_raised x \<Rightarrow> bad x (co_local m) (co_state m))"

lemma co_inv_resumed:
  assumes "if pending then waits (co_local m) s
    else case transport_await_resume (fst s) of Inl x \<Rightarrow> bad (Ice_exn x) (co_local m) s | Inr _ \<Rightarrow> inv (co_local m) s"
  shows "co_inv (ssh_resumed (\<not> pending) s m)"
  using assms by (simp add: co_inv_def ssh_resumed_def split: if_splits sum.splits)

lemma co_inv_run:
  assumes inv: "co_inv m" and step: "ssh_exec u U this attempt env (Continue a) m = Some m'"
  shows "co_inv m'"
proof -
  from step have run: "co_mode m = Co_running" by (auto split: if_splits)
  with step obtain v l s where at: "attempt (co_local m, co_state m) = Some (v, l, s)"
    by (auto split: option.splits)
  have law: "case v of Return r \<Rightarrow> post r l s | Raise x \<Rightarrow> bad x l s | Repeat \<Rightarrow> inv l s | Await \<Rightarrow> waits l s"
    using attempt_law [OF _ at] inv run by (simp add: co_inv_def)
  show ?thesis
  proof (cases v)
    case Await
    obtain t w where s: "s = (t, w)" by (metis prod.exhaust)
    from step run at Await obtain p s' where p: "transport_suspend u U this (t\<lparr>ev_awaiter := a\<rparr>, w) = Some (p, s')"
      and m': "m' = ssh_resumed (\<not> p) s' (m\<lparr>co_local := l, co_state := s\<rparr>)"
      by (auto simp: s event_await_suspend_def)
    from law Await s have "waits l (t\<lparr>ev_awaiter := a\<rparr>, w)" by (simp add: awaiter_law)
    moreover have "co_local (m\<lparr>co_local := l, co_state := s\<rparr>) = l" by simp
    ultimately show ?thesis using suspend_law [OF _ p] unfolding m' by (intro co_inv_resumed) (simp only:)
  qed (use law step run at in \<open>auto simp: co_inv_def\<close>)
qed

lemma co_inv_dispatch:
  assumes inv: "co_inv m" and step: "ssh_exec u U this attempt env Dispatch_transport m = Some m'"
  shows "co_inv m'"
proof -
  from step have wait: "co_mode m = Co_waiting" by (auto split: if_splits)
  with step have m': "m' = ssh_resumed (\<not> False) (event_remove u U (co_state m)) m"
    by (simp add: event_await_resume_def transport_resume_def)
  have "waits (co_local m) (event_remove u U (co_state m))" using inv wait by (simp add: co_inv_def remove_law)
  from resume_law [OF this] show ?thesis unfolding m' by (intro co_inv_resumed) simp
qed

lemma co_inv_step:
  assumes "co_inv m" "ssh_exec u U this attempt env a m = Some m'"
  shows "co_inv m'"
proof (cases a)
  case (Others w)
  obtain t v where s: "co_state m = (t, v)" by (metis prod.exhaust)
  with Others assms show ?thesis using env_law [of "co_local m" t v w]
    by (auto simp: co_inv_def split: if_splits)
qed (use assms co_inv_run co_inv_dispatch in blast)+

lemma co_reach:
  assumes "inv l s" "reach (\<lambda>m. m = ssh_start l s) (act_step (ssh_exec u U this attempt env)) m"
  shows "co_inv m"
  using assms(2)
proof (induction rule: reach.induct)
  case (reach_init m)
  with assms(1) show ?case by (simp add: co_inv_def ssh_start_def)
next
  case (reach_step m m')
  then show ?case using co_inv_step by (auto simp: act_step_def)
qed

lemma co_returned:
  assumes "inv l s" "reach (\<lambda>m. m = ssh_start l s) (act_step (ssh_exec u U this attempt env)) m"
  shows "co_mode m = Co_returned r \<Longrightarrow> post r (co_local m) (co_state m)"
    and "co_mode m = Co_raised x \<Longrightarrow> bad x (co_local m) (co_state m)"
    and "co_mode m = Co_waiting \<Longrightarrow> waits (co_local m) (co_state m)"
  using co_reach [OF assms] by (simp_all add: co_inv_def)

end

text \<open>Suspending and removing change nothing of the world that registration calls leave alone.\<close>

lemma transport_suspend_obs:
  assumes ok: "register_ok u U (\<lambda>k k'. obs k' = obs k)" and s: "transport_suspend u U this s = Some (p, s')"
  shows "obs (w_kern (snd s')) = obs (w_kern (snd s))"
proof -
  obtain t w where sw: "s = (t, w)" by (metis prod.exhaust)
  let ?I = "\<lambda>s' :: transport \<times> 'a world. obs (w_kern (snd s')) = obs (w_kern w)"
  have q: "case queue_recv u U this c h (t, w) of (b, r) \<Rightarrow> if b then ?I r else ?I r"
    "case queue_send u U this c h (t, w) of (b, r) \<Rightarrow> if b then ?I r else ?I r" for c h
    by (rule queue_law [OF ok, where I = ?I and P = ?I]; simp)+
  show ?thesis
    using s q [of "tp_context t" "tp_socket t"]
    by (cases "tp_operation t") (auto simp: sw transport_suspend_def split: prod.splits)
qed

lemma event_remove_obs:
  assumes ok: "register_ok u U (\<lambda>k k'. obs k' = obs k)"
  shows "obs (w_kern (snd (event_remove u U (s :: 'k ssh_state)))) = obs (w_kern (snd s))"
proof -
  obtain t w where sw: "s = (t, w)" by (metis prod.exhaust)
  have "(\<lambda>s' :: transport \<times> 'k world. obs (w_kern (snd s')) = obs (w_kern w)) (event_remove u U (t, w))"
    by (rule remove_law_of [OF ok]) simp_all
  then show ?thesis by (simp add: sw)
qed

text \<open>A coroutine whose correctness concerns an observation \<open>obs\<close> of the kernel alone.\<close>

locale ssh_observed =
  fixes u :: unix and U :: "'k usys" and this :: nat
    and attempt :: "'l \<times> 'k ssh_state \<Rightarrow> ('r verdict \<times> 'l \<times> 'k ssh_state) option"
    and obs :: "'k \<Rightarrow> 'o"
    and inv :: "'l \<Rightarrow> 'o \<Rightarrow> bool"
    and post :: "'r \<Rightarrow> 'l \<Rightarrow> 'o \<Rightarrow> bool"
  assumes obs_attempt: "inv l (obs (w_kern (snd s))) \<Longrightarrow> attempt (l, s) = Some (v, l', s') \<Longrightarrow>
      (case v of Return r \<Rightarrow> post r l' (obs (w_kern (snd s'))) | _ \<Rightarrow> inv l' (obs (w_kern (snd s'))))"
    and obs_register: "inv l x \<Longrightarrow> register_ok u U (\<lambda>k k'. obs k' = obs k)"

sublocale ssh_observed \<subseteq> ssh_loop u U this attempt "\<lambda>w w'. obs (w_kern w') = obs (w_kern w)"
  "\<lambda>l s. inv l (obs (w_kern (snd s)))" "\<lambda>l s. inv l (obs (w_kern (snd s)))"
  "\<lambda>r l s. post r l (obs (w_kern (snd s)))" "\<lambda>x l s. inv l (obs (w_kern (snd s)))"
proof unfold_locales
  fix l s p s'
  assume inv: "inv l (obs (w_kern (snd s)))" and s: "transport_suspend u U this s = Some (p, s')"
  from transport_suspend_obs [OF obs_register [OF inv] s] inv
  show "if p then inv l (obs (w_kern (snd s')))
    else case transport_await_resume (fst s') of Inl x \<Rightarrow> inv l (obs (w_kern (snd s'))) | Inr _ \<Rightarrow> inv l (obs (w_kern (snd s')))"
    by (simp split: sum.splits)
next
  fix l and s :: "'k ssh_state"
  assume inv: "inv l (obs (w_kern (snd s)))"
  from event_remove_obs [OF obs_register [OF inv], of s] inv show "inv l (obs (w_kern (snd (event_remove u U s))))" by simp
next
  fix l s v l' s'
  assume "inv l (obs (w_kern (snd s)))" "attempt (l, s) = Some (v, l', s')"
  from obs_attempt [OF this]
  show "case v of Return r \<Rightarrow> post r l' (obs (w_kern (snd s'))) | Raise x \<Rightarrow> inv l' (obs (w_kern (snd s')))
      | Repeat \<Rightarrow> inv l' (obs (w_kern (snd s'))) | Await \<Rightarrow> inv l' (obs (w_kern (snd s')))"
    by (cases v) simp_all
qed (simp_all split: sum.splits)

section \<open>Messages\<close>

lemma ssh_messages_keys: "distinct (map fst ssh_messages)"
  by (simp add: ssh_messages_def)

text \<open>
  For any numbering of libssh2's errors that gives different errors different numbers, every error the code knows gets its own
  text, and every other number the text for unknown errors.
\<close>

lemma ssh_message_complete:
  assumes inj: "inj_on (\<lambda>e. word_of_int (num e) :: i32) (fst ` set ssh_messages)"
  shows "((e, text) \<in> set ssh_messages \<longrightarrow> ssh_message num (word_of_int (num e)) = text) \<and>
    (c \<notin> (\<lambda>e. word_of_int (num e)) ` fst ` set ssh_messages \<longrightarrow> ssh_message num c = ''unknown error'')"
proof (intro conjI impI)
  assume x: "(e, text) \<in> set ssh_messages"
  with inj have "\<forall>y\<in>set ssh_messages. (word_of_int (num (fst y)) :: i32) = word_of_int (num e) \<longrightarrow> fst y = e"
    by (force dest: inj_onD)
  from find_keyed [where f = "\<lambda>e. word_of_int (num e) :: i32", OF x this]
  obtain t where t: "(e, t) \<in> set ssh_messages"
    "find (\<lambda>(e', _). (word_of_int (num e') :: i32) = word_of_int (num e)) ssh_messages = Some (e, t)"
    by auto
  with x ssh_messages_keys have "t = text" by (metis eq_key_imp_eq_value)
  with t show "ssh_message num (word_of_int (num e)) = text" by (simp add: ssh_message_def)
next
  assume "c \<notin> (\<lambda>e. word_of_int (num e)) ` fst ` set ssh_messages"
  then have "find (\<lambda>(e', _). (word_of_int (num e') :: i32) = c) ssh_messages = None"
    by (force simp: find_None_iff)
  then show "ssh_message num c = ''unknown error''" by (simp add: ssh_message_def)
qed

definition position_ssh :: "ssh_errc \<Rightarrow> int" where
  "position_ssh e = - int (length (takeWhile (\<lambda>z. z \<noteq> e) (map fst ssh_messages)))"

lemma position_ssh_bound: "- 47 \<le> position_ssh e \<and> position_ssh e \<le> 0"
proof -
  have "length ssh_messages = 47" by (simp add: ssh_messages_def)
  with length_takeWhile_le [of "\<lambda>w. w \<noteq> e" "map fst ssh_messages"] show ?thesis
    by (simp add: position_ssh_def del: takeWhile.simps)
qed

lemma position_ssh_inj: "inj_on (\<lambda>e. word_of_int (position_ssh e) :: i32) (fst ` set ssh_messages)"
proof (rule inj_onI)
  fix x y
  assume xy: "x \<in> fst ` set ssh_messages" "y \<in> fst ` set ssh_messages"
    and eq: "(word_of_int (position_ssh x) :: i32) = word_of_int (position_ssh y)"
  have "(word_of_int (- position_ssh x) :: i32) = word_of_int (- position_ssh y)" using eq by simp
  from word_of_int_small_inj [OF _ _ _ _ this] position_ssh_bound [of x] position_ssh_bound [of y]
  have "position_ssh x = position_ssh y" by simp
  then show "x = y" using takeWhile_index_inj [of x "map fst ssh_messages" y] xy by (simp add: position_ssh_def)
qed

theorem ssh_message_complete_witness:
  "ssh_message position_ssh (word_of_int (position_ssh ''EAGAIN'')) = ''asynchronous operation in progress''"
  using ssh_message_complete [OF position_ssh_inj, of "''EAGAIN''" "''asynchronous operation in progress''" 0]
  by (simp add: ssh_messages_def)

section \<open>Awaiting what libssh2 waits for\<close>

text \<open>
  What a function of libssh2 may do with the transport: call the callbacks, as often as it likes, and change its own data. The flag
  says whether one of them returned \<open>-EAGAIN\<close>. A function that returns \<open>LIBSSH2_ERROR_EAGAIN\<close> does so
  because one did.
\<close>

inductive callbacks :: "'k usys \<Rightarrow> bool \<Rightarrow> 'k ssh_state \<Rightarrow> 'k ssh_state \<Rightarrow> bool" for U where
  callbacks_own: "callbacks U False (t, w) (t, w')"
| callbacks_recv: "callbacks U b s s1 \<Longrightarrow> on_recv U n flags s1 = Some (rc, bytes, s2) \<Longrightarrow> callbacks U (b \<or> rc = - EAGAIN U) s s2"
| callbacks_send: "callbacks U b s s1 \<Longrightarrow> on_send U data flags s1 = Some (rc, s2) \<Longrightarrow> callbacks U (b \<or> rc = - EAGAIN U) s s2"

definition calls_back :: "'k usys \<Rightarrow> ('k \<Rightarrow> int \<Rightarrow> bool) \<Rightarrow> ('k ssh_state \<Rightarrow> (int \<times> 'k ssh_state) option) \<Rightarrow> bool" where
  "calls_back U again call \<longleftrightarrow>
     (\<forall>s rc s'. call s = Some (rc, s') \<longrightarrow> (\<exists>b. callbacks U b s s' \<and> (again (w_kern (snd s')) rc \<longrightarrow> b)))"

text \<open>The functions as calls with an integer result.\<close>

definition open_call :: "'k libssh2 \<Rightarrow> nat \<Rightarrow> 'k ssh_state \<Rightarrow> (int \<times> 'k ssh_state) option" where
  "open_call L h s = map_option (\<lambda>(c, s'). (int c, s')) (lib_open L h s)"

definition read_call :: "'k libssh2 \<Rightarrow> nat \<Rightarrow> int \<Rightarrow> nat \<Rightarrow> 'k ssh_state \<Rightarrow> (int \<times> 'k ssh_state) option" where
  "read_call L h sid n s = map_option (\<lambda>(rv, _, s'). (rv, s')) (lib_read L h sid n s)"

definition lib_calls_back :: "'k usys \<Rightarrow> 'k libssh2 \<Rightarrow> bool" where
  "lib_calls_back U L \<longleftrightarrow>
     (\<forall>h so. calls_back U (\<lambda>_ rc. rc = lib_again L) (lib_handshake L h so)) \<and>
     (\<forall>h user pass. calls_back U (\<lambda>_ rc. rc = lib_again L) (lib_userauth L h user pass)) \<and>
     (\<forall>h. calls_back U (\<lambda>k c. c = 0 \<and> lib_last_error L h k = lib_again L) (open_call L h)) \<and>
     (\<forall>h request command. calls_back U (\<lambda>_ rc. rc = lib_again L) (lib_startup L h request command)) \<and>
     (\<forall>h sid n. calls_back U (\<lambda>_ rc. rc = lib_again L) (read_call L h sid n)) \<and>
     (\<forall>h sid data. calls_back U (\<lambda>_ rc. rc = lib_again L) (lib_write L h sid data))"

lemma negative_errno_again: "errno_ok U \<Longrightarrow> 0 < EAGAIN U"
  by (simp add: errno_ok_def)

lemma callbacks_transport:
  assumes "callbacks U b s s'" "errno_ok U"
  shows "ev_ec (fst s') = ev_ec (fst s) \<and> (b \<longrightarrow> tp_operation (fst s') \<noteq> Op_none)"
  using assms(1)
proof (induction rule: callbacks.induct)
  case (callbacks_own t w w')
  then show ?case by simp
next
  case (callbacks_recv b s s1 n flags rc bytes s2)
  have "ev_ec (fst s2) = ev_ec (fst s1) \<and> (tp_operation (fst s1) \<noteq> Op_none \<longrightarrow> tp_operation (fst s2) \<noteq> Op_none) \<and>
      (rc < 0 \<longrightarrow> tp_operation (fst s2) \<noteq> Op_none)"
    using callbacks_recv.hyps(2) by (cases s1) (auto simp: on_recv_def split: option.splits if_splits)
  with callbacks_recv.IH negative_errno_again [OF assms(2)] show ?case by auto
next
  case (callbacks_send b s s1 data flags rc s2)
  have "ev_ec (fst s2) = ev_ec (fst s1) \<and> (tp_operation (fst s1) \<noteq> Op_none \<longrightarrow> tp_operation (fst s2) \<noteq> Op_none) \<and>
      (rc < 0 \<longrightarrow> tp_operation (fst s2) \<noteq> Op_none)"
    using callbacks_send.hyps(2) by (cases s1) (auto simp: on_send_def split: option.splits if_splits)
  with callbacks_send.IH negative_errno_again [OF assms(2)] show ?case by auto
qed

lemma calls_backD:
  assumes "calls_back U again call" "errno_ok U" "call s = Some (rc, s')" "\<not> ec_bool (ev_ec (fst s))"
  shows "\<not> ec_bool (ev_ec (fst s'))" "again (w_kern (snd s')) rc \<Longrightarrow> tp_operation (fst s') \<noteq> Op_none"
proof -
  obtain b where "callbacks U b s s'" "again (w_kern (snd s')) rc \<longrightarrow> b"
    using assms(1,3) unfolding calls_back_def by blast
  with callbacks_transport [OF this(1) assms(2)] assms(4)
  show "\<not> ec_bool (ev_ec (fst s'))" "again (w_kern (snd s')) rc \<Longrightarrow> tp_operation (fst s') \<noteq> Op_none" by auto
qed

text \<open>An attempt that keeps to this, and the loop around it.\<close>

definition awaits :: "('l \<times> 'k ssh_state \<Rightarrow> ('r verdict \<times> 'l \<times> 'k ssh_state) option) \<Rightarrow> bool" where
  "awaits attempt \<longleftrightarrow>
     (\<forall>l s v l' s'. attempt (l, s) = Some (v, l', s') \<longrightarrow> \<not> ec_bool (ev_ec (fst s)) \<longrightarrow>
        \<not> ec_bool (ev_ec (fst s')) \<and> (v = Await \<longrightarrow> tp_operation (fst s') \<noteq> Op_none) \<and> (\<forall>x. v \<noteq> Raise (Ice_exn x)))"

definition clean_inv ::
  "unix \<Rightarrow> 'k usys \<Rightarrow> ('l \<times> 'k ssh_state \<Rightarrow> ('r verdict \<times> 'l \<times> 'k ssh_state) option) \<Rightarrow> 'l \<Rightarrow> 'k ssh_state \<Rightarrow> bool" where
  "clean_inv u U attempt l s \<longleftrightarrow> awaits attempt \<and> register_ok u U (\<lambda>_ _. True) \<and> \<not> ec_bool (ev_ec (fst s))"

text \<open>The only exception of the library proper is a failed registration of the event, never a wait for nothing.\<close>

definition clean_bad :: "ssh_exn \<Rightarrow> 'l \<Rightarrow> 'k ssh_state \<Rightarrow> bool" where
  "clean_bad x l s \<longleftrightarrow>
     (\<forall>e. x = Ice_exn e \<longrightarrow> (\<exists>errno. 0 < errno \<and> errno < 2 ^ 28 \<and> e = system_error (ec_native errno) ''tcp recv''))"

lemma queue_clean:
  assumes ok: "register_ok u U (\<lambda>_ _. True)" and t: "\<not> ec_bool (ev_ec t)" "tp_operation t \<noteq> Op_none"
    and s: "transport_suspend u U this (t, w) = Some (p, t', w')"
  shows "tp_operation t' \<noteq> Op_none \<and>
    (if p then \<not> ec_bool (ev_ec t')
     else \<exists>errno. 0 < errno \<and> errno < 2 ^ 28 \<and> ev_ec t' = ec_native errno)"
proof -
  have call: "case (case r of (rc, errno, k) \<Rightarrow>
        if rc < 0 then (False, queue_fail errno f, w\<lparr>w_kern := k\<rparr>) else (True, f, w\<lparr>w_kern := k\<rparr>)) of
      (p, t', w') \<Rightarrow> tp_operation t' \<noteq> Op_none \<and> (if p then \<not> ec_bool (ev_ec t')
        else \<exists>errno. 0 < errno \<and> errno < 2 ^ 28 \<and> ev_ec t' = ec_native errno)"
    if "case r of (rc, errno, k) \<Rightarrow> True \<and> (rc < 0 \<longrightarrow> 0 < errno \<and> errno < 2 ^ 28)"
      "ev_ec f = ev_ec t" "tp_operation f = tp_operation t" for r and f :: transport
    using that t by (cases r) (auto simp: queue_fail_def)
  have linux: "case sys_epoll_ctl U a q b n (w_kern w) of (rc, errno, k) \<Rightarrow> True \<and> (rc < 0 \<longrightarrow> 0 < errno \<and> errno < 2 ^ 28)"
    if "u = Linux" for a q b n
    using ok that unfolding register_ok_def by simp
  have bsd: "case sys_kevent U a n (w_kern w) of (rc, errno, k) \<Rightarrow> True \<and> (rc < 0 \<longrightarrow> 0 < errno \<and> errno < 2 ^ 28)"
    if "u = FreeBSD" for a n
    using ok that unfolding register_ok_def by simp
  have recv: "case queue_recv u U this c h (t, w) of (p, t', w') \<Rightarrow> tp_operation t' \<noteq> Op_none \<and> (if p then \<not> ec_bool (ev_ec t')
        else \<exists>errno. 0 < errno \<and> errno < 2 ^ 28 \<and> ev_ec t' = ec_native errno)" for c h
    unfolding queue_recv_def queue_recv_linux_def queue_recv_bsd_def Let_def
    by (cases u; simp only: unix.case prod.case; rule call) (rule linux bsd, assumption, simp, simp)+
  have send: "case queue_send u U this c h (t, w) of (p, t', w') \<Rightarrow> tp_operation t' \<noteq> Op_none \<and> (if p then \<not> ec_bool (ev_ec t')
        else \<exists>errno. 0 < errno \<and> errno < 2 ^ 28 \<and> ev_ec t' = ec_native errno)" for c h
    unfolding queue_send_def queue_send_linux_def queue_send_bsd_def Let_def
    by (cases u; simp only: unix.case prod.case; rule call) (rule linux bsd, assumption, simp, simp)+
  from s t(2) recv [of "tp_context t" "tp_socket t"] send [of "tp_context t" "tp_socket t"] show ?thesis
    by (cases "tp_operation t") (auto simp: transport_suspend_def)
qed

interpretation ssh_clean: ssh_loop u U this attempt "\<lambda>_ _. True" "clean_inv u U attempt"
  "\<lambda>l s. clean_inv u U attempt l s \<and> tp_operation (fst s) \<noteq> Op_none" "\<lambda>_ _ _. True" clean_bad
  for u U this and attempt :: "'l \<times> 'k ssh_state \<Rightarrow> ('r verdict \<times> 'l \<times> 'k ssh_state) option"
proof unfold_locales
  fix l s v l' s'
  assume "clean_inv u U attempt l s" "attempt (l, s) = Some (v, l', s')"
  then have a: "clean_inv u U attempt l' s'" "v = Await \<longrightarrow> tp_operation (fst s') \<noteq> Op_none" "\<forall>x. v \<noteq> Raise (Ice_exn x)"
    unfolding clean_inv_def awaits_def by blast+
  then show "case v of Return r \<Rightarrow> True | Raise x \<Rightarrow> clean_bad x l' s' | Repeat \<Rightarrow> clean_inv u U attempt l' s'
      | Await \<Rightarrow> clean_inv u U attempt l' s' \<and> tp_operation (fst s') \<noteq> Op_none"
    by (cases v) (simp_all add: clean_bad_def)
next
  fix l s p s'
  assume w: "clean_inv u U attempt l s \<and> tp_operation (fst s) \<noteq> Op_none" and s: "transport_suspend u U this s = Some (p, s')"
  obtain t wo t' wo' where e: "s = (t, wo)" "s' = (t', wo')" by (metis prod.exhaust)
  have "tp_operation t' \<noteq> Op_none \<and>
      (if p then \<not> ec_bool (ev_ec t') else \<exists>errno. 0 < errno \<and> errno < 2 ^ 28 \<and> ev_ec t' = ec_native errno)"
    by (rule queue_clean [OF _ _ _ s [unfolded e]]) (use w e in \<open>simp_all add: clean_inv_def\<close>)
  then consider p "tp_operation t' \<noteq> Op_none" "\<not> ec_bool (ev_ec t')"
    | errno where "\<not> p" "0 < errno" "errno < 2 ^ 28" "ev_ec t' = ec_native errno" by (auto split: if_splits)
  then show "if p then clean_inv u U attempt l s' \<and> tp_operation (fst s') \<noteq> Op_none
      else case transport_await_resume (fst s') of Inl x \<Rightarrow> clean_bad (Ice_exn x) l s' | Inr _ \<Rightarrow> clean_inv u U attempt l s'"
  proof cases
    case 1
    with w show ?thesis by (simp add: e clean_inv_def)
  next
    case (2 errno)
    then have "transport_await_resume t' = Inl (system_error (ec_native errno) ''tcp recv'')"
      by (simp add: transport_await_resume_def ec_bool_errno)
    with 2 show ?thesis by (simp add: e clean_bad_def) blast
  qed
next
  fix l s
  assume "clean_inv u U attempt l s \<and> tp_operation (fst s) \<noteq> Op_none"
  then show "case transport_await_resume (fst s) of Inl x \<Rightarrow> clean_bad (Ice_exn x) l s | Inr _ \<Rightarrow> clean_inv u U attempt l s"
    by (simp add: transport_await_resume_def clean_inv_def)
next
  fix l s
  assume w: "clean_inv u U attempt l s \<and> tp_operation (fst s) \<noteq> Op_none"
  obtain t wo where e: "s = (t, wo)" by (metis prod.exhaust)
  have "(\<lambda>s. \<not> ec_bool (ev_ec (fst s)) \<and> tp_operation (fst s) \<noteq> Op_none) (event_remove u U (t, wo))"
    by (rule remove_law_of [where keeps = "\<lambda>_ _. True"]) (use w e in \<open>simp_all add: clean_inv_def\<close>)
  with w show "clean_inv u U attempt l (event_remove u U s) \<and> tp_operation (fst (event_remove u U s)) \<noteq> Op_none"
    by (simp add: e clean_inv_def)
qed (simp_all add: clean_inv_def)


lemma attempts_await:
  assumes "lib_calls_back U L" "errno_ok U"
  shows "awaits (connect_attempt L h so user pass)" "awaits (open_attempt L h)" "awaits (exec_attempt L c request command)"
    "awaits (read_attempt L st)" "awaits (write_attempt L h data st)"
proof -
  note lib = assms(1) [unfolded lib_calls_back_def]
  have calls: "calls_back U (\<lambda>_ rc. rc = lib_again L) (lib_handshake L h so)"
    "calls_back U (\<lambda>_ rc. rc = lib_again L) (lib_userauth L h user pass)"
    "calls_back U (\<lambda>k c. c = 0 \<and> lib_last_error L h k = lib_again L) (open_call L h)"
    "calls_back U (\<lambda>_ rc. rc = lib_again L) (lib_startup L h r d)"
    "calls_back U (\<lambda>_ rc. rc = lib_again L) (read_call L h i n)"
    "calls_back U (\<lambda>_ rc. rc = lib_again L) (lib_write L h i d)" for h so user pass r d i n
    using lib by blast+
  note D = calls [THEN calls_backD(1), OF assms(2)] calls [THEN calls_backD(2), OF assms(2)]
  show "awaits (connect_attempt L h so user pass)"
    unfolding awaits_def connect_attempt_def
    by (auto split: connect_phase.splits if_splits dest: D(1,2,7,8))
  show "awaits (open_attempt L h)"
    unfolding awaits_def open_attempt_def
    using D(3) [of h] D(9) [of h] by (fastforce simp: open_call_def Let_def split: if_splits)
  show "awaits (exec_attempt L c request command)"
    unfolding awaits_def exec_attempt_def by (auto split: if_splits dest: D(4,10))
  show "awaits (read_attempt L st)"
    unfolding awaits_def read_attempt_def
    using D(5) D(11) by (fastforce simp: read_call_def Let_def split: if_splits)
  show "awaits (write_attempt L h data st)"
    unfolding awaits_def write_attempt_def by (auto split: if_splits dest: D(6,12))
qed


text \<open>The runs of a coroutine, with what other threads do to the world while it is not running.\<close>

definition ssh_runs ::
  "unix \<Rightarrow> 'k usys \<Rightarrow> nat \<Rightarrow> ('l \<times> 'k ssh_state \<Rightarrow> ('r verdict \<times> 'l \<times> 'k ssh_state) option) \<Rightarrow> ('k world \<Rightarrow> 'k world \<Rightarrow> bool) \<Rightarrow>
   'l \<Rightarrow> 'k ssh_state \<Rightarrow> ('l, 'r, 'k) ssh_co \<Rightarrow> bool" where
  "ssh_runs u U this attempt env l s = reach (\<lambda>m. m = ssh_start l s) (act_step (ssh_exec u U this attempt env))"

definition waits_right :: "('l, 'r, 'k) ssh_co \<Rightarrow> bool" where
  "waits_right m \<longleftrightarrow>
     (co_mode m = Co_waiting \<longrightarrow> tp_operation (fst (co_state m)) \<noteq> Op_none) \<and>
     (\<forall>e. co_mode m = Co_raised (Ice_exn e) \<longrightarrow>
        (\<exists>errno. 0 < errno \<and> errno < 2 ^ 28 \<and> e = system_error (ec_native errno) ''tcp recv''))"

lemma clean_waits_right:
  assumes "awaits attempt" "register_ok u U (\<lambda>_ _. True)" "\<not> ec_bool (ev_ec (fst s))"
    and "ssh_runs u U this attempt (\<lambda>_ _. True) l s m"
  shows "waits_right m"
proof -
  have "clean_inv u U attempt l s" using assms(1-3) by (simp add: clean_inv_def)
  note co = ssh_clean.co_returned(2,3) [OF this assms(4) [unfolded ssh_runs_def]]
  show ?thesis using co unfolding waits_right_def clean_bad_def by blast
qed


text \<open>
  A concrete libssh2 over a socket that blocks once: writing passes the data to the callback; nothing else succeeds. The kernel's
  state is whether it has blocked, and what was sent.
\<close>

definition ssh_unix :: "(bool \<times> byte list) usys" where
  "ssh_unix = failing_unix\<lparr>
     sys_send := \<lambda>_ bs _ k. if fst k then (int (length bs), 0, (True, snd k @ bs)) else (-1, 11, (True, snd k)),
     sys_epoll_ctl := \<lambda>_ _ _ _ k. (0, 0, k), sys_kevent := \<lambda>_ _ k. (0, 0, k)\<rparr>"

definition ssh_lib :: "(bool \<times> byte list) libssh2" where
  "ssh_lib = idle_lib\<lparr>
     lib_write := \<lambda>_ _ data s. map_option (\<lambda>(rc, s'). (if rc = -11 then -37 else rc, s')) (on_send ssh_unix data 0 s)\<rparr>"

lemma ssh_unix_calls:
  "sys_send ssh_unix fd bs flags k = (if fst k then (int (length bs), 0, (True, snd k @ bs)) else (-1, 11, (True, snd k)))"
  "sys_epoll_ctl ssh_unix c p h e k = (0, 0, k)" "sys_kevent ssh_unix c e k = (0, 0, k)"
  "EAGAIN ssh_unix = 11" "EINTR ssh_unix = 4"
  by (simp_all add: ssh_unix_def failing_unix_def)

lemma ssh_unix_ok: "errno_ok ssh_unix" "register_ok u ssh_unix (\<lambda>k k'. obs k' = obs k)" "register_ok u ssh_unix (\<lambda>_ _. True)"
  by (simp_all add: ssh_unix_def errno_ok_def failing_unix_def register_ok_def split: unix.split)

lemma ssh_send_loop:
  "send_loop ssh_unix h data flags k =
     (if fst k then Some (int (length data), 0, (True, snd k @ data)) else Some (-1, 11, (True, snd k)))"
  by (subst send_loop.simps) (simp add: ssh_unix_calls)

lemma calls_back_own: "(\<And>s rc s'. call s = Some (rc, s') \<Longrightarrow> s' = s \<and> \<not> again (w_kern (snd s)) rc) \<Longrightarrow> calls_back U again call"
  unfolding calls_back_def by (metis callbacks_own prod.exhaust)

lemma ssh_lib_calls: "lib_again ssh_lib = -37" "lib_ok ssh_lib = 0"
  "lib_write ssh_lib h sid data s = map_option (\<lambda>(rc, s'). (if rc = -11 then -37 else rc, s')) (on_send ssh_unix data 0 s)"
  by (simp_all add: ssh_lib_def idle_lib_def)

lemma ssh_lib_calls_back: "lib_calls_back ssh_unix ssh_lib"
proof -
  have w: "calls_back ssh_unix (\<lambda>_ rc. rc = lib_again ssh_lib) (lib_write ssh_lib h sid data)" for h sid data
  proof (unfold calls_back_def, intro allI impI)
    fix s rc s'
    assume "lib_write ssh_lib h sid data s = Some (rc, s')"
    then obtain r where r: "on_send ssh_unix data 0 s = Some (r, s')" "rc = (if r = -11 then -37 else r)"
      by (auto simp: ssh_lib_calls)
    have "r \<noteq> -37"
      using r(1) by (cases s) (auto simp: on_send_def ssh_send_loop negative_errno_def split: if_splits)
    obtain t v where "s = (t, v)" by (metis prod.exhaust)
    then have "callbacks ssh_unix False s s" by (simp add: callbacks_own)
    from callbacks_send [OF this r(1)] r(2) \<open>r \<noteq> -37\<close>
    show "\<exists>b. callbacks ssh_unix b s s' \<and> (rc = lib_again ssh_lib \<longrightarrow> b)" by (auto simp: ssh_lib_calls ssh_unix_calls)
  qed
  show ?thesis
    unfolding lib_calls_back_def
    by (intro conjI allI w calls_back_own) (simp_all add: ssh_lib_def idle_lib_def open_call_def read_call_def)
qed

definition ssh_demo_state :: "(bool \<times> byte list) ssh_state" where
  "ssh_demo_state =
     (transport_make (Unix Linux) ((socket_empty sockaddr_zero (5 :: int) 3)\<lparr>sk_handle := 5\<rparr>), \<lparr>w_mem = \<lambda>_. 0, w_kern = (False, [])\<rparr>)"

definition ssh_demo :: "(64 word, unit, bool \<times> byte list) ssh_co option" where
  "ssh_demo = run_acts (ssh_exec Linux ssh_unix 64 (write_attempt ssh_lib 9 [1, 2, 3] Stream_out) (\<lambda>_ _. True)) [Continue 7]
     (ssh_start 0 ssh_demo_state)"

lemma ssh_demo_waits:
  "\<exists>m. ssh_demo = Some m \<and> co_mode m = Co_waiting"
  by (simp add: ssh_demo_def ssh_demo_state_def ssh_start_def write_attempt_def ssh_lib_calls on_send_def ssh_send_loop
      negative_errno_def event_await_suspend_def transport_suspend_def queue_send_def queue_send_linux_def ssh_unix_calls
      ssh_resumed_def transport_make_def event.defs transport.defs)


section \<open>Writing to a channel\<close>

text \<open>
  What \<open>libssh2_channel_write_ex\<close> promises, for an observation \<open>sent\<close> of the bytes a stream of a channel was given: a
  prefix of the data of the length returned is appended, and nothing if the result is an error.
\<close>

definition sends_ok :: "'k libssh2 \<Rightarrow> (nat \<Rightarrow> int \<Rightarrow> 'k \<Rightarrow> byte list) \<Rightarrow> bool" where
  "sends_ok L sent \<longleftrightarrow>
     (\<forall>h sid data s rc s'. lib_write L h sid data s = Some (rc, s') \<longrightarrow>
        rc \<le> int (length data) \<and> sent h sid (w_kern (snd s')) = sent h sid (w_kern (snd s)) @ take (nat rc) data)"

text \<open>Every write takes all the data.\<close>

definition writes_whole :: "'k libssh2 \<Rightarrow> bool" where
  "writes_whole L \<longleftrightarrow>
     (\<forall>h sid data s rc s'. lib_write L h sid data s = Some (rc, s') \<longrightarrow> rc < 0 \<or> rc = int (length data))"

text \<open>The lengths of the prefixes written so far, each below the size only together with those before it.\<close>

definition write_lengths :: "'k libssh2 \<Rightarrow> byte list \<Rightarrow> nat list \<Rightarrow> bool" where
  "write_lengths L data ns \<longleftrightarrow>
     (\<forall>n\<in>set ns. n \<le> length data) \<and> (ns \<noteq> [] \<longrightarrow> sum_list (butlast ns) < length data) \<and>
     (writes_whole L \<longrightarrow> (\<forall>n\<in>set ns. n = length data))"

definition written_stream :: "byte list \<Rightarrow> byte list \<Rightarrow> nat list \<Rightarrow> byte list" where
  "written_stream sent0 data ns = sent0 @ concat (map (\<lambda>n. take n data) ns)"

definition write_inv ::
  "unix \<Rightarrow> 'k usys \<Rightarrow> 'k libssh2 \<Rightarrow> (nat \<Rightarrow> int \<Rightarrow> 'k \<Rightarrow> byte list) \<Rightarrow> nat \<Rightarrow> int \<Rightarrow> byte list \<Rightarrow> byte list \<Rightarrow> 64 word \<Rightarrow> byte list \<Rightarrow> bool" where
  "write_inv u U L sent h sid data sent0 written out \<longleftrightarrow>
     sends_ok L sent \<and> register_ok u U (\<lambda>k k'. sent h sid k' = sent h sid k) \<and> length data < 2 ^ 63 \<and>
     (\<exists>ns. write_lengths L data ns \<and> unat written = sum_list ns \<and> out = written_stream sent0 data ns)"

definition write_post :: "'k libssh2 \<Rightarrow> byte list \<Rightarrow> byte list \<Rightarrow> byte list \<Rightarrow> bool" where
  "write_post L data sent0 out \<longleftrightarrow>
     (\<exists>ns. write_lengths L data ns \<and> length data \<le> sum_list ns \<and> out = written_stream sent0 data ns)"

lemma write_attempt_law:
  assumes inv: "write_inv u U L sent h (stream_id L st) data sent0 written (sent h (stream_id L st) (w_kern (snd s)))"
    and at: "write_attempt L h data st (written, s) = Some (v, written', s')"
  shows "case v of Return r \<Rightarrow> write_post L data sent0 (sent h (stream_id L st) (w_kern (snd s')))
    | _ \<Rightarrow> write_inv u U L sent h (stream_id L st) data sent0 written' (sent h (stream_id L st) (w_kern (snd s')))"
proof -
  let ?out = "sent h (stream_id L st)"
  from inv obtain ns where ns: "write_lengths L data ns" "unat written = sum_list ns"
      "?out (w_kern (snd s)) = written_stream sent0 data ns"
    and ok: "sends_ok L sent" and len: "length data < 2 ^ 63" by (auto simp: write_inv_def)
  have size: "written < of_nat (length data) \<longleftrightarrow> sum_list ns < length data"
    using len ns(2) by (simp add: word_less_nat_alt unat_of_nat_u64)
  show ?thesis
  proof (cases "written < of_nat (length data)")
    case False
    with at have "v = Return ()" "s' = s" by (simp_all add: write_attempt_def)
    moreover have "write_post L data sent0 (?out (w_kern (snd s)))"
      using ns False size unfolding write_post_def by (intro exI [of _ ns]) simp
    ultimately show ?thesis by simp
  next
    case True
    with at obtain rv where w: "lib_write L h (stream_id L st) data s = Some (rv, s')"
      and v: "(v, written') = (if rv \<ge> 0 then (Repeat, written + word_of_int rv)
        else if rv \<noteq> lib_again L then (Raise (Domain_error (word_of_int rv) ''write''), written) else (Await, written))"
      by (auto simp: write_attempt_def split: if_splits)
    have rv: "rv \<le> int (length data)" "?out (w_kern (snd s')) = ?out (w_kern (snd s)) @ take (nat rv) data"
      using ok w unfolding sends_ok_def by blast+
    have whole: "writes_whole L \<Longrightarrow> rv < 0 \<or> rv = int (length data)" using w unfolding writes_whole_def by blast
    have "write_inv u U L sent h (stream_id L st) data sent0 written' (?out (w_kern (snd s')))"
    proof (cases "rv \<ge> 0")
      case False
      with v rv(2) inv show ?thesis by (auto split: if_splits)
    next
      case True
      have unat: "unat (word_of_int rv :: 64 word) = nat rv" using True rv(1) len by (intro unat_rc) auto
      have "unat (written + word_of_int rv) = sum_list (ns @ [nat rv])"
        using ns(2) unat rv(1) len size \<open>written < of_nat (length data)\<close>
        by (subst unat_add_lem [THEN iffD1]) auto
      moreover have "write_lengths L data (ns @ [nat rv])"
        using ns(1) size \<open>written < of_nat (length data)\<close> rv(1) True whole by (auto simp: write_lengths_def)
      moreover have "?out (w_kern (snd s')) = written_stream sent0 data (ns @ [nat rv])"
        using rv(2) ns(3) by (simp add: written_stream_def)
      moreover have "written' = written + word_of_int rv" using v True by simp
      ultimately show ?thesis using inv unfolding write_inv_def by blast
    qed
    with v show ?thesis by (auto split: if_splits)
  qed
qed

interpretation ssh_write: ssh_observed u U this "write_attempt L h data st" "sent h (stream_id L st)"
  "write_inv u U L sent h (stream_id L st) data sent0" "\<lambda>_ _. write_post L data sent0"
  for u U this L h data st sent0 and sent :: "nat \<Rightarrow> int \<Rightarrow> 'k \<Rightarrow> byte list"
proof unfold_locales
  fix l s v l' s'
  assume "write_inv u U L sent h (stream_id L st) data sent0 l (sent h (stream_id L st) (w_kern (snd s)))"
    and "write_attempt L h data st (l, s) = Some (v, l', s')"
  from write_attempt_law [OF this]
  show "case v of Return r \<Rightarrow> write_post L data sent0 (sent h (stream_id L st) (w_kern (snd s')))
      | _ \<Rightarrow> write_inv u U L sent h (stream_id L st) data sent0 l' (sent h (stream_id L st) (w_kern (snd s')))" .
qed (simp add: write_inv_def)

text \<open>
  C34: when \<open>write\<close> has returned, the channel's stream has been given prefixes of the data, each starting at the beginning, whose
  lengths add up to at least the size, the last being needed for that; if every write takes all it is given, that is the data exactly
  (nothing if it is empty).
\<close>

theorem ssh_write_stream:
  assumes "sends_ok L sent" "register_ok u U (\<lambda>k k'. sent h (stream_id L st) k' = sent h (stream_id L st) k)" "length data < 2 ^ 63"
    and "ssh_runs u U this (write_attempt L h data st)
      (\<lambda>w w'. sent h (stream_id L st) (w_kern w') = sent h (stream_id L st) (w_kern w)) 0 (t, w) m"
    and "co_mode m = Co_returned r"
  shows "(\<exists>ns. (\<forall>n\<in>set ns. n \<le> length data) \<and> (ns \<noteq> [] \<longrightarrow> sum_list (butlast ns) < length data) \<and> length data \<le> sum_list ns \<and>
       sent h (stream_id L st) (w_kern (snd (co_state m))) =
         sent h (stream_id L st) (w_kern w) @ concat (map (\<lambda>n. take n data) ns)) \<and>
    (writes_whole L \<longrightarrow> sent h (stream_id L st) (w_kern (snd (co_state m))) = sent h (stream_id L st) (w_kern w) @ data)"
proof -
  let ?out = "sent h (stream_id L st)"
  have "write_inv u U L sent h (stream_id L st) data (?out (w_kern w)) 0 (?out (w_kern (snd (t, w))))"
    using assms(1-3) unfolding write_inv_def
    by (intro conjI exI [of _ "[]"]) (simp_all add: write_lengths_def written_stream_def)
  from ssh_write.co_returned(1) [OF this assms(4) [unfolded ssh_runs_def] assms(5)]
  obtain ns where ns: "write_lengths L data ns" "length data \<le> sum_list ns"
    "?out (w_kern (snd (co_state m))) = written_stream (?out (w_kern w)) data ns" by (auto simp: write_post_def)
  have whole: "written_stream x data ns = x @ data" if "writes_whole L" for x
  proof (cases ns rule: rev_cases)
    case Nil
    with ns(2) show ?thesis by (simp add: written_stream_def)
  next
    case (snoc ms n)
    with ns(1) that have "n = length data" "\<forall>k\<in>set ms. k = length data" "sum_list ms < length data"
      by (auto simp: write_lengths_def)
    moreover from this have "ms = []" by (cases ms) auto
    ultimately show ?thesis by (simp add: snoc written_stream_def)
  qed
  show ?thesis using ns whole unfolding write_lengths_def written_stream_def by metis
qed

text \<open>
  But every call of \<open>libssh2_channel_write_ex\<close> is given all the data again: if the first takes only a part, the stream gets
  the beginning of the data a second time, and \<open>write\<close> returns successfully.
\<close>

lemma ssh_write_resends:
  assumes "sends_ok L sent" "length data < 2 ^ 63" "0 < n" "n < length data" "length data \<le> n + k" "k \<le> length data"
    and first: "lib_write L h (stream_id L st) data s = Some (int n, s1)"
    and second: "lib_write L h (stream_id L st) data s1 = Some (int k, s2)"
  shows "\<exists>m. run_acts (ssh_exec u U this (write_attempt L h data st) env) [Continue a, Continue a, Continue a] (ssh_start 0 s) = Some m \<and>
    co_mode m = Co_returned () \<and>
    sent h (stream_id L st) (w_kern (snd (co_state m))) =
      sent h (stream_id L st) (w_kern (snd s)) @ take n data @ take k data"
proof -
  have u: "unat (of_nat n :: 64 word) = n" "unat (of_nat (length data) :: 64 word) = length data"
    "unat (of_nat n + of_nat k :: 64 word) = n + k" "unat (0 :: 64 word) = 0"
    using assms(2-6) unat_of_nat_u64 [of "n + k"] by (simp_all add: unat_of_nat_u64)
  have c: "(0 :: 64 word) < of_nat (length data)" "(of_nat n :: 64 word) < of_nat (length data)"
    "\<not> (of_nat n + of_nat k :: 64 word) < of_nat (length data)"
    using u assms(3-6) by (auto simp: word_less_nat_alt)
  have "sent h (stream_id L st) (w_kern (snd s2)) = sent h (stream_id L st) (w_kern (snd s)) @ take n data @ take k data"
    using assms(1) first second unfolding sends_ok_def by (metis append.assoc nat_int)
  with c show ?thesis
    by (simp add: write_attempt_def ssh_start_def first second)
qed


text \<open>The concrete libssh2 above takes all the data; the one here at most two bytes at a time.\<close>

definition short_lib :: "byte list libssh2" where
  "short_lib = idle_lib\<lparr>
     lib_write := \<lambda>_ _ data (t, w). Some (int (min 2 (length data)), t, w\<lparr>w_kern := w_kern w @ take 2 data\<rparr>)\<rparr>"

lemma short_lib_write:
  "lib_write short_lib h sid data (t, w) = Some (int (min 2 (length data)), t, w\<lparr>w_kern := w_kern w @ take 2 data\<rparr>)"
  by (simp add: short_lib_def)

lemma short_lib_sends: "sends_ok short_lib (\<lambda>_ _ k. k)"
  by (auto simp: sends_ok_def short_lib_write min_def)

definition short_state :: "byte list ssh_state" where
  "short_state =
     (transport_make (Unix Linux) ((socket_empty sockaddr_zero (5 :: int) 3)\<lparr>sk_handle := 5\<rparr>), \<lparr>w_mem = \<lambda>_. 0, w_kern = []\<rparr>)"

theorem ssh_write_resends_witness:
  "\<exists>m. run_acts (ssh_exec Linux failing_unix 64 (write_attempt short_lib 9 [10, 20, 30] Stream_out) (\<lambda>_ _. True))
      [Continue 7, Continue 7, Continue 7] (ssh_start 0 short_state) = Some m \<and>
    co_mode m = Co_returned () \<and> w_kern (snd (co_state m)) = [10, 20, 10, 20]"
proof -
  let ?s1 = "(fst short_state, (snd short_state)\<lparr>w_kern := [10, 20]\<rparr>)"
  let ?s2 = "(fst short_state, (snd short_state)\<lparr>w_kern := [10, 20, 10, 20]\<rparr>)"
  have w: "lib_write short_lib 9 (stream_id short_lib Stream_out) [10, 20, 30] short_state = Some (int 2, ?s1)"
    "lib_write short_lib 9 (stream_id short_lib Stream_out) [10, 20, 30] ?s1 = Some (int 2, ?s2)"
    by (simp_all add: short_lib_write short_state_def)
  from ssh_write_resends [OF short_lib_sends _ _ _ _ _ w, of Linux failing_unix 64 "\<lambda>_ _. True" 7]
  show ?thesis by (simp add: short_state_def)
qed

lemma ssh_lib_sends: "sends_ok ssh_lib (\<lambda>_ _. snd)"
  by (auto simp: sends_ok_def ssh_lib_calls on_send_def ssh_send_loop negative_errno_def split: if_splits)

lemma ssh_lib_whole: "writes_whole ssh_lib"
  by (auto simp: writes_whole_def ssh_lib_calls on_send_def ssh_send_loop negative_errno_def split: if_splits)

lemma ssh_write_run:
  "\<exists>m. run_acts (ssh_exec Linux ssh_unix 64 (write_attempt ssh_lib 9 [1, 2, 3] Stream_out) (\<lambda>w w'. snd (w_kern w') = snd (w_kern w)))
      [Continue 7, Dispatch_transport, Continue 7, Continue 7] (ssh_start 0 ssh_demo_state) = Some m \<and> co_mode m = Co_returned ()"
  by (simp add: ssh_demo_state_def ssh_start_def write_attempt_def ssh_lib_calls on_send_def ssh_send_loop
      negative_errno_def event_await_suspend_def event_await_resume_def event_remove_def event_remove_linux_def transport_resume_def
      transport_suspend_def queue_send_def queue_send_linux_def ssh_unix_calls ssh_resumed_def transport_await_resume_def
      transport_make_def event.defs transport.defs event_make_def socket_empty_def)

theorem ssh_write_stream_witness:
  "\<exists>m. run_acts (ssh_exec Linux ssh_unix 64 (write_attempt ssh_lib 9 [1, 2, 3] Stream_out) (\<lambda>w w'. snd (w_kern w') = snd (w_kern w)))
      [Continue 7, Dispatch_transport, Continue 7, Continue 7] (ssh_start 0 ssh_demo_state) = Some m \<and>
    co_mode m = Co_returned () \<and> snd (w_kern (snd (co_state m))) = [1, 2, 3]"
proof -
  obtain m where m: "run_acts (ssh_exec Linux ssh_unix 64 (write_attempt ssh_lib 9 [1, 2, 3] Stream_out)
      (\<lambda>w w'. snd (w_kern w') = snd (w_kern w))) [Continue 7, Dispatch_transport, Continue 7, Continue 7] (ssh_start 0 ssh_demo_state) = Some m"
    "co_mode m = Co_returned ()" using ssh_write_run by blast
  have "ssh_runs Linux ssh_unix 64 (write_attempt ssh_lib 9 [1, 2, 3] Stream_out) (\<lambda>w w'. snd (w_kern w') = snd (w_kern w)) 0
      (fst ssh_demo_state, snd ssh_demo_state) m"
    unfolding ssh_runs_def by (rule run_acts_reach [OF m(1)]) (rule reach.reach_init, simp)
  from ssh_write_stream [OF ssh_lib_sends ssh_unix_ok(2) _ this m(2), THEN conjunct2] ssh_lib_whole m
  show ?thesis by (simp add: ssh_demo_state_def)
qed

end
