(* ===== verification/Ice_Ssh_Session.thy ===== *)
theory Ice_Ssh_Session
  imports Ice_Ssh Ice_Context
begin

text \<open>
  What the coroutines of SSH sessions and channels do for their callers, on Unix: a \<open>read\<close> takes the next bytes of the stream it
  returns, \<open>connect\<close> returns only to an accepted user, and a session frees what it has made. The definitions are those
  of \<open>Ice_Ssh\<close>; here are the contracts of libssh2 these results need, and the interpretations of its loop.
\<close>

section \<open>Reading from a channel\<close>

text \<open>
  What \<open>libssh2_channel_read_ex\<close> promises, for an observation \<open>got\<close> of the bytes that have been taken from a stream of a channel: the
  result is the number of bytes put into the buffer, at most its size, and these are the next ones of the stream.
\<close>

definition reads_ok :: "'k libssh2 \<Rightarrow> (nat \<Rightarrow> int \<Rightarrow> 'k \<Rightarrow> byte list) \<Rightarrow> bool" where
  "reads_ok L got \<longleftrightarrow>
     (\<forall>h sid n s rv bytes s'. lib_read L h sid n s = Some (rv, bytes, s') \<longrightarrow>
        length bytes \<le> n \<and> (rv \<ge> 0 \<longrightarrow> rv = int (length bytes)) \<and> (rv < 0 \<longrightarrow> bytes = []) \<and>
        got h sid (w_kern (snd s')) = got h sid (w_kern (snd s)) @ bytes)"

definition read_inv ::
  "unix \<Rightarrow> 'k usys \<Rightarrow> 'k libssh2 \<Rightarrow> (nat \<Rightarrow> int \<Rightarrow> 'k \<Rightarrow> byte list) \<Rightarrow> int \<Rightarrow> channel \<Rightarrow> byte list \<Rightarrow> channel \<Rightarrow> byte list \<Rightarrow> bool" where
  "read_inv u U L got sid c0 got0 c taken \<longleftrightarrow>
     reads_ok L got \<and> register_ok u U (\<lambda>k k'. got (ch_handle c0) sid k' = got (ch_handle c0) sid k) \<and>
     ch_handle c = ch_handle c0 \<and> length (ch_buffer c) = length (ch_buffer c0) \<and> taken = got0"

definition read_post :: "channel \<Rightarrow> byte list \<Rightarrow> byte list \<Rightarrow> channel \<Rightarrow> byte list \<Rightarrow> bool" where
  "read_post c0 got0 view c taken \<longleftrightarrow>
     taken = got0 @ view \<and> length (ch_buffer c) = length (ch_buffer c0) \<and> length view \<le> length (ch_buffer c) \<and>
     view = take (length view) (ch_buffer c)"

interpretation ssh_read: ssh_observed u U this "read_attempt L st" "got (ch_handle c0) (stream_id L st)"
  "read_inv u U L got (stream_id L st) c0 got0" "read_post c0 got0"
  for u U this L st c0 got0 and got :: "nat \<Rightarrow> int \<Rightarrow> 'k \<Rightarrow> byte list"
proof unfold_locales
  fix c s v c' s'
  let ?got = "got (ch_handle c0) (stream_id L st)"
  assume inv: "read_inv u U L got (stream_id L st) c0 got0 c (?got (w_kern (snd s)))"
    and at: "read_attempt L st (c, s) = Some (v, c', s')"
  from at obtain rv bytes where r: "lib_read L (ch_handle c) (stream_id L st) (length (ch_buffer c)) s = Some (rv, bytes, s')"
    and c': "c' = c\<lparr>ch_buffer := bytes @ drop (length bytes) (ch_buffer c)\<rparr>"
    and v: "v = (if rv \<ge> 0 then Return (take (nat rv) (ch_buffer c'))
      else if rv \<noteq> lib_again L then Raise (Domain_error (word_of_int rv) ''read'') else Await)"
    by (auto simp: read_attempt_def Let_def split: if_splits)
  have ok: "length bytes \<le> length (ch_buffer c)" "rv \<ge> 0 \<Longrightarrow> rv = int (length bytes)" "rv < 0 \<Longrightarrow> bytes = []"
    "?got (w_kern (snd s')) = got0 @ bytes"
    using inv r unfolding read_inv_def reads_ok_def by metis+
  show "case v of Return r \<Rightarrow> read_post c0 got0 r c' (?got (w_kern (snd s')))
    | _ \<Rightarrow> read_inv u U L got (stream_id L st) c0 got0 c' (?got (w_kern (snd s')))"
    using inv ok v c' by (auto simp: read_inv_def read_post_def)
qed (simp add: read_inv_def)

text \<open>
  What \<open>read\<close> returns is a view of the channel's buffer, at most as long as it, that holds the next bytes of the stream, none lost
  and none invented; a \<open>read\<close> that has not returned, or has thrown, has taken nothing.
\<close>

lemma ssh_read_view:
  assumes "reads_ok L got"
    and "register_ok u U (\<lambda>k k'. got (ch_handle c) (stream_id L st) k' = got (ch_handle c) (stream_id L st) k)"
    and "ssh_runs u U this (read_attempt L st)
      (\<lambda>w w'. got (ch_handle c) (stream_id L st) (w_kern w') = got (ch_handle c) (stream_id L st) (w_kern w)) c (t, w) m"
  shows "(\<forall>view. co_mode m = Co_returned view \<longrightarrow>
      got (ch_handle c) (stream_id L st) (w_kern (snd (co_state m))) = got (ch_handle c) (stream_id L st) (w_kern w) @ view \<and>
      length view \<le> length (ch_buffer c) \<and> view = take (length view) (ch_buffer (co_local m))) \<and>
    ((\<exists>x. co_mode m = Co_raised x) \<or> co_mode m = Co_waiting \<longrightarrow>
      got (ch_handle c) (stream_id L st) (w_kern (snd (co_state m))) = got (ch_handle c) (stream_id L st) (w_kern w))"
proof -
  have "read_inv u U L got (stream_id L st) c (got (ch_handle c) (stream_id L st) (w_kern w)) c
      (got (ch_handle c) (stream_id L st) (w_kern (snd (t, w))))"
    using assms(1,2) by (simp add: read_inv_def)
  note co = ssh_read.co_returned [OF this assms(3) [unfolded ssh_runs_def]]
  show ?thesis using co unfolding read_post_def read_inv_def by metis
qed

text \<open>A libssh2 whose channels read from one stream: the bytes taken, and the rest.\<close>

definition source_lib :: "(byte list \<times> byte list) libssh2" where
  "source_lib = idle_lib\<lparr>
     lib_read := \<lambda>_ _ n (t, w). (case w_kern w of (taken, rest) \<Rightarrow>
       Some (int (length (take n rest)), take n rest, t, w\<lparr>w_kern := (taken @ take n rest, drop n rest)\<rparr>))\<rparr>"

lemma source_lib_reads: "reads_ok source_lib (\<lambda>_ _. fst)"
  by (auto simp: reads_ok_def source_lib_def split: prod.splits)

definition source_state :: "(byte list \<times> byte list) ssh_state" where
  "source_state =
     (transport_make (Unix Linux) ((socket_empty sockaddr_zero (5 :: int) 3)\<lparr>sk_handle := 5\<rparr>), \<lparr>w_mem = \<lambda>_. 0, w_kern = ([7], [1, 2, 3])\<rparr>)"

lemma failing_register: "register_ok u failing_unix (\<lambda>k k'. obs k' = obs k)"
  by (simp add: failing_unix_def register_ok_def split: unix.split)

lemma source_run:
  "\<exists>m. run_acts (ssh_exec Linux failing_unix 64 (read_attempt source_lib Stream_out) (\<lambda>w w'. fst (w_kern w') = fst (w_kern w)))
      [Continue 7] (ssh_start \<lparr>ch_handle = 2, ch_buffer = [0, 0]\<rparr> source_state) = Some m \<and> co_mode m = Co_returned [1, 2]"
  by (simp add: ssh_start_def read_attempt_def source_lib_def source_state_def Let_def)

theorem ssh_read_view_witness:
  "\<exists>m. run_acts (ssh_exec Linux failing_unix 64 (read_attempt source_lib Stream_out) (\<lambda>w w'. fst (w_kern w') = fst (w_kern w)))
      [Continue 7] (ssh_start \<lparr>ch_handle = 2, ch_buffer = [0, 0]\<rparr> source_state) = Some m \<and> fst (w_kern (snd (co_state m))) = [7, 1, 2]"
proof -
  obtain m where m: "run_acts (ssh_exec Linux failing_unix 64 (read_attempt source_lib Stream_out)
      (\<lambda>w w'. fst (w_kern w') = fst (w_kern w))) [Continue 7] (ssh_start \<lparr>ch_handle = 2, ch_buffer = [0, 0]\<rparr> source_state) = Some m"
    "co_mode m = Co_returned [1, 2]" using source_run by blast
  have "ssh_runs Linux failing_unix 64 (read_attempt source_lib Stream_out) (\<lambda>w w'. fst (w_kern w') = fst (w_kern w))
      \<lparr>ch_handle = 2, ch_buffer = [0, 0]\<rparr> (fst source_state, snd source_state) m"
    unfolding ssh_runs_def by (rule run_acts_reach [OF m(1)]) (rule reach.reach_init, simp)
  from ssh_read_view [OF source_lib_reads failing_register this] m show ?thesis by (simp add: source_state_def)
qed

section \<open>The order of the steps of a connection\<close>

text \<open>
  For observations of the kernel that tell whether the peer has completed a handshake on the session and whether it has accepted the
  user: a successful handshake gives the first, authentication keeps it and, when successful and called after a handshake, gives the second.
\<close>

definition connects_ok :: "'k libssh2 \<Rightarrow> (nat \<Rightarrow> 'k \<Rightarrow> bool \<times> bool) \<Rightarrow> bool" where
  "connects_ok L peer \<longleftrightarrow>
     (\<forall>h so s s'. lib_handshake L h so s = Some (lib_ok L, s') \<longrightarrow> fst (peer h (w_kern (snd s')))) \<and>
     (\<forall>h user pass s rc s'. lib_userauth L h user pass s = Some (rc, s') \<longrightarrow> fst (peer h (w_kern (snd s))) \<longrightarrow>
        fst (peer h (w_kern (snd s'))) \<and> (rc = lib_ok L \<longrightarrow> snd (peer h (w_kern (snd s')))))"

definition connect_inv ::
  "unix \<Rightarrow> 'k usys \<Rightarrow> 'k libssh2 \<Rightarrow> (nat \<Rightarrow> 'k \<Rightarrow> bool \<times> bool) \<Rightarrow> nat \<Rightarrow> connect_phase \<Rightarrow> bool \<times> bool \<Rightarrow> bool" where
  "connect_inv u U L peer h phase p \<longleftrightarrow>
     connects_ok L peer \<and> register_ok u U (\<lambda>k k'. peer h k' = peer h k) \<and> (phase = Authenticate \<longrightarrow> fst p)"

interpretation ssh_connect: ssh_observed u U this "connect_attempt L h so user pass" "peer h"
  "connect_inv u U L peer h" "\<lambda>_ _ p. fst p \<and> snd p"
  for u U this L h so user pass and peer :: "nat \<Rightarrow> 'k \<Rightarrow> bool \<times> bool"
proof unfold_locales
  fix phase s v phase' s'
  assume inv: "connect_inv u U L peer h phase (peer h (w_kern (snd s)))"
    and at: "connect_attempt L h so user pass (phase, s) = Some (v, phase', s')"
  show "case v of Return r \<Rightarrow> fst (peer h (w_kern (snd s'))) \<and> snd (peer h (w_kern (snd s')))
    | _ \<Rightarrow> connect_inv u U L peer h phase' (peer h (w_kern (snd s')))"
  proof (cases phase)
    case Handshake
    with at obtain rc where r: "lib_handshake L h so s = Some (rc, s')"
      and v: "(v, phase') = (if rc = lib_ok L then (Repeat, Authenticate)
        else if rc \<noteq> lib_again L then (Raise (Domain_error (word_of_int rc) ''handshake''), Handshake) else (Await, Handshake))"
      by (auto simp: connect_attempt_def split: if_splits)
    have "rc = lib_ok L \<longrightarrow> fst (peer h (w_kern (snd s')))" using inv r unfolding connect_inv_def connects_ok_def by blast
    with v inv show ?thesis by (auto simp: connect_inv_def split: if_splits)
  next
    case Authenticate
    with at obtain rc where r: "lib_userauth L h user pass s = Some (rc, s')"
      and v: "(v, phase') = (if rc = lib_ok L then (Return (), Authenticate)
        else if rc \<noteq> lib_again L then (Raise (Domain_error (word_of_int rc) ''password authentication''), Authenticate)
        else (Await, Authenticate))"
      by (auto simp: connect_attempt_def split: if_splits)
    have "fst (peer h (w_kern (snd s'))) \<and> (rc = lib_ok L \<longrightarrow> snd (peer h (w_kern (snd s'))))"
      using inv r Authenticate unfolding connect_inv_def connects_ok_def by blast
    with v inv show ?thesis by (auto simp: connect_inv_def split: if_splits)
  qed
qed (simp add: connect_inv_def)

text \<open>
  C32: \<open>session::connect\<close> returns only if the socket was connected without an error, the handshake was completed and the user was
  then accepted; a failed connection of the socket is rethrown before libssh2 is called at all.
\<close>

theorem ssh_connect_order:
  assumes "connects_ok L peer" "register_ok u U (\<lambda>k k'. peer h k' = peer h k)"
    and "reach (\<lambda>m. m = session_connect_begin e t w)
      (act_step (ssh_exec u U this (connect_attempt L h so user pass) (\<lambda>w w'. peer h (w_kern w') = peer h (w_kern w)))) m"
  shows "(co_mode m = Co_returned r \<longrightarrow> \<not> ec_bool (ev_ec e) \<and> peer h (w_kern (snd (co_state m))) = (True, True)) \<and>
    (ec_bool (ev_ec e) \<longrightarrow> co_mode m = Co_raised (Ice_exn (system_error (ev_ec e) ''connect'')) \<and> co_state m = (t, w))"
proof (cases "ec_bool (ev_ec e)")
  case True
  let ?m = "session_connect_begin e t w :: (connect_phase, unit, 'a) ssh_co"
  have m0: "co_mode ?m = Co_raised (Ice_exn (system_error (ev_ec e) ''connect''))" "co_state ?m = (t, w)"
    using True by (simp_all add: session_connect_begin_def connect_await_resume_def)
  have stuck: "ssh_exec u U this attempt env a ?m = None" for attempt env a
    using m0 by (cases a) simp_all
  have "m = ?m"
    using assms(3) by (induction rule: reach.induct) (auto simp: act_step_def stuck)
  with m0 True show ?thesis by simp
next
  case False
  then have start: "session_connect_begin e t w = ssh_start Handshake (t, w)"
    by (simp add: session_connect_begin_def connect_await_resume_def)
  have "connect_inv u U L peer h Handshake (peer h (w_kern (snd (t, w))))" using assms(1,2) by (simp add: connect_inv_def)
  from ssh_connect.co_returned(1) [OF this assms(3) [unfolded start], of r] False show ?thesis
    by (cases "peer h (w_kern (snd (co_state m)))") auto
qed


text \<open>A peer that completes the handshake at once and accepts one password.\<close>

definition login_lib :: "(bool \<times> bool) libssh2" where
  "login_lib = idle_lib\<lparr>
     lib_handshake := \<lambda>_ _ (t, w). Some (0, t, w\<lparr>w_kern := (True, snd (w_kern w))\<rparr>),
     lib_userauth := \<lambda>_ _ pass (t, w).
       if pass = ''secret'' then Some (0, t, w\<lparr>w_kern := (fst (w_kern w), True)\<rparr>) else Some (-18, t, w)\<rparr>"

lemma login_lib_connects: "connects_ok login_lib (\<lambda>_ k. k)"
  by (auto simp: connects_ok_def login_lib_def idle_lib_def split: if_splits)

definition login_state :: "(bool \<times> bool) ssh_state" where
  "login_state =
     (transport_make (Unix Linux) ((socket_empty sockaddr_zero (5 :: int) 3)\<lparr>sk_handle := 5\<rparr>), \<lparr>w_mem = \<lambda>_. 0, w_kern = (False, False)\<rparr>)"

definition login_socket :: connect_op where
  "login_socket = fst (connect_make (Unix Linux) ((socket_empty sockaddr_zero (5 :: int) 3)\<lparr>sk_handle := 5\<rparr>) (endpoint_default sockaddr_zero))"

lemma login_run:
  "\<exists>m. run_acts (ssh_exec Linux failing_unix 64 (connect_attempt login_lib 1 5 ''me'' ''secret'') (\<lambda>w w'. w_kern w' = w_kern w))
      [Continue 7, Continue 7] (session_connect_begin login_socket (fst login_state) (snd login_state)) = Some m \<and>
    co_mode m = Co_returned ()"
  by (simp add: session_connect_begin_def connect_await_resume_def login_socket_def connect_make_def event.defs connect_op.defs
      event_make_def ssh_start_def connect_attempt_def login_lib_def idle_lib_def login_state_def)

theorem ssh_connect_order_witness:
  "\<exists>m. run_acts (ssh_exec Linux failing_unix 64 (connect_attempt login_lib 1 5 ''me'' ''secret'') (\<lambda>w w'. w_kern w' = w_kern w))
      [Continue 7, Continue 7] (session_connect_begin login_socket (fst login_state) (snd login_state)) = Some m \<and>
    w_kern (snd (co_state m)) = (True, True)"
proof -
  obtain m where m: "run_acts (ssh_exec Linux failing_unix 64 (connect_attempt login_lib 1 5 ''me'' ''secret'')
      (\<lambda>w w'. w_kern w' = w_kern w)) [Continue 7, Continue 7]
      (session_connect_begin login_socket (fst login_state) (snd login_state)) = Some m" "co_mode m = Co_returned ()"
    using login_run by blast
  from ssh_connect_order [OF login_lib_connects failing_register, OF run_acts_reach [OF m(1)]] m
  show ?thesis by (auto intro: reach.reach_init)
qed

section \<open>What a session owns\<close>

text \<open>
  For observations of the kernel that give the open descriptors and the libssh2 sessions that exist: \<open>libssh2_session_init\<close> makes a new
  session or returns null, \<open>libssh2_session_free\<close> removes one, and no other function used here changes either.
\<close>

definition ssh_owns :: "'k usys \<Rightarrow> 'k libssh2 \<Rightarrow> ('k \<Rightarrow> int set) \<Rightarrow> ('k \<Rightarrow> nat set) \<Rightarrow> bool" where
  "ssh_owns U L fds sessions \<longleftrightarrow>
     fds_ok U fds \<and> (\<forall>family type protocol. opens_ok fds (sys_socket U family type protocol)) \<and>
     (\<forall>family type protocol k. sessions (snd (snd (sys_socket U family type protocol k))) = sessions k) \<and>
     (\<forall>h k. sessions (snd (snd (sys_close U h k))) = sessions k) \<and>
     (\<forall>k. case lib_init L k of (h, k') \<Rightarrow>
        fds k' = fds k \<and> (if h = 0 then sessions k' = sessions k else h \<notin> sessions k \<and> sessions k' = insert h (sessions k))) \<and>
     (\<forall>h k. fds (lib_free L h k) = fds k \<and> sessions (lib_free L h k) = sessions k - {h}) \<and>
     (\<forall>h p k. fds (lib_set_abstract L h p k) = fds k \<and> sessions (lib_set_abstract L h p k) = sessions k) \<and>
     (\<forall>h c k. fds (lib_set_callback L h c k) = fds k \<and> sessions (lib_set_callback L h c k) = sessions k) \<and>
     (\<forall>h b k. fds (lib_set_blocking L h b k) = fds k \<and> sessions (lib_set_blocking L h b k) = sessions k) \<and>
     (\<forall>h m k. fds (lib_disconnect L h m k) = fds k \<and> sessions (lib_disconnect L h m k) = sessions k)"

lemma ssh_owns_close:
  assumes "ssh_owns U L fds sessions"
  shows "\<exists>k'. close_loop U h k = Some k' \<and> fds k' = fds k - {h} \<and> sessions k' = sessions k"
proof -
  have own: "fds_ok U fds" "\<forall>h k. sessions (snd (snd (sys_close U h k))) = sessions k"
    using assms by (simp_all add: ssh_owns_def)
  from close_loop_closes [OF own(1), of h k] obtain k' where "close_loop U h k = Some k'" "fds k' = fds k - {h}" by blast
  with close_loop_keeps [OF this(1) own(2)] show ?thesis by blast
qed

lemma ssh_ownsD:
  assumes "ssh_owns U L fds sessions"
  shows "opens_ok fds (sys_socket U family type protocol)"
    and "sessions (snd (snd (sys_socket U family type protocol k))) = sessions k"
    and "lib_init L k = (h, k') \<Longrightarrow>
      fds k' = fds k \<and> (if h = 0 then sessions k' = sessions k else h \<notin> sessions k \<and> sessions k' = insert h (sessions k))"
    and "fds (lib_free L h k) = fds k" "sessions (lib_free L h k) = sessions k - {h}"
    and "fds (lib_set_abstract L h p k) = fds k" "sessions (lib_set_abstract L h p k) = sessions k"
    and "fds (lib_set_callback L h c k) = fds k" "sessions (lib_set_callback L h c k) = sessions k"
    and "fds (lib_set_blocking L h b k) = fds k" "sessions (lib_set_blocking L h b k) = sessions k"
    and "fds (lib_disconnect L h m k) = fds k" "sessions (lib_disconnect L h m k) = sessions k"
proof -
  note a = assms [unfolded ssh_owns_def]
  show "lib_init L k = (h, k') \<Longrightarrow>
      fds k' = fds k \<and> (if h = 0 then sessions k' = sessions k else h \<notin> sessions k \<and> sessions k' = insert h (sessions k))"
    using a [THEN conjunct2, THEN conjunct2, THEN conjunct2, THEN conjunct2, THEN conjunct1, THEN spec, of k] by simp
qed (use assms in \<open>simp_all add: ssh_owns_def\<close>)

text \<open>The destructor of a session that owns the descriptor \<open>fd\<close> and the handle \<open>h\<close> gives up both.\<close>

lemma session_handle_free_owns:
  assumes "ssh_owns U L fds sessions"
  shows "fds (session_handle_free L h k) = fds k" "sessions (session_handle_free L h k) = (if h = 0 then sessions k else sessions k - {h})"
  using ssh_ownsD(4-) [OF assms] by (simp_all add: session_handle_free_def)

lemma ssh_socket_close:
  assumes "ssh_owns U L fds sessions" "sk_handle s \<noteq> -1"
  shows "\<exists>k'. socket_close_unix U s k = Some (s\<lparr>sk_handle := -1\<rparr>, k') \<and> fds k' = fds k - {sk_handle s} \<and> sessions k' = sessions k"
  using ssh_owns_close [OF assms(1), of "sk_handle s" k] assms(2) by (auto simp: socket_close_unix_def)

lemma session_dtor_owns:
  assumes own: "ssh_owns U L fds sessions" and s: "se_handle s \<noteq> 0" "sk_handle (se_socket s) \<noteq> -1"
  shows "\<exists>k'. session_dtor U L s k = Some k' \<and> fds k' = fds k - {sk_handle (se_socket s)} \<and> sessions k' = sessions k - {se_handle s}"
proof -
  define k1 where "k1 = lib_disconnect L (se_handle s) ''shutdown'' (lib_set_abstract L (se_handle s) 0 k)"
  have k1: "fds k1 = fds k" "sessions k1 = sessions k" using ssh_ownsD(4-) [OF own] by (simp_all add: k1_def)
  from ssh_socket_close [OF own s(2), of k1] obtain k2 where "socket_close_unix U (se_socket s) k1 = Some ((se_socket s)\<lparr>sk_handle := -1\<rparr>, k2)"
    "fds k2 = fds k1 - {sk_handle (se_socket s)}" "sessions k2 = sessions k1" by blast
  with k1 s(1) session_handle_free_owns [OF own, of "se_handle s" k2] show ?thesis by (simp add: session_dtor_def k1_def Let_def)
qed

text \<open>
  C35: a session owns its socket and its libssh2 session. The constructor always ends; if it throws, because there is no memory for a
  session or the socket cannot be created, the descriptors and sessions are those that existed before; if it does not, one
  session and one descriptor were made, and the destructor frees exactly those.
\<close>

theorem ssh_session_lifetime:
  assumes own: "ssh_owns U L fds sessions"
  shows "\<exists>r k1. session_make u U A L junk this context family k = Some (r, k1) \<and>
    (case r of
       Inl x \<Rightarrow> fds k1 = fds k \<and> sessions k1 = sessions k
     | Inr s \<Rightarrow> se_handle s \<notin> sessions k \<and> sessions k1 = insert (se_handle s) (sessions k) \<and>
         sk_handle (se_socket s) \<notin> fds k \<and> fds k1 = insert (sk_handle (se_socket s)) (fds k) \<and>
         (\<exists>k2. session_dtor U L s k1 = Some k2 \<and> fds k2 = fds k \<and> sessions k2 = sessions k))"
proof -
  obtain h k1 where init: "lib_init L k = (h, k1)" by (metis prod.exhaust)
  note i = ssh_ownsD(3) [OF own init]
  let ?sock = "sys_socket U family (SOCK_STREAM A OR SOCK_NONBLOCK A) (IPPROTO_TCP A)"
  obtain fd errno k2 where sock: "?sock k1 = (fd, errno, k2)" by (metis prod_cases3)
  have ses: "sessions k2 = sessions k1" using ssh_ownsD(2) [OF own, of _ _ _ k1] sock by (metis snd_conv)
  note o = opens_okD [OF ssh_ownsD(1) [OF own] sock]
  have free: "fds (session_handle_free L h k') = fds k'" "sessions k' = sessions k1 \<Longrightarrow> sessions (session_handle_free L h k') = sessions k" for k'
    using i session_handle_free_owns [OF own] by (auto split: if_splits)
  show ?thesis
  proof (cases "fd = -1")
    case True
    with init sock o(1) i ses free [of k2] show ?thesis
      by (simp add: session_make_def tcp_socket_unix_def socket_make_unix_def)
  next
    case fd: False
    define s where "s = \<lparr>sk_context = context, sk_endpoint = endpoint_default junk, sk_handle = fd, sk_family = family\<rparr>"
    have made: "tcp_socket_unix U A junk context family k1 = (Inr s, k2)"
      using sock fd by (simp add: tcp_socket_unix_def socket_make_unix_def s_def)
    have fresh: "fd \<notin> fds k" "fds k2 = insert fd (fds k)" "sk_handle s = fd" using o(2,3) fd i by (simp_all add: s_def)
    show ?thesis
    proof (cases "h = 0")
      case True
      from ssh_socket_close [OF own, of s k2] fresh(3) fd obtain k3 where "socket_close_unix U s k2 = Some (s\<lparr>sk_handle := -1\<rparr>, k3)"
        "fds k3 = fds k2 - {fd}" "sessions k3 = sessions k2" by auto
      with init made True fresh ses i free [of k3] show ?thesis by (simp add: session_make_def)
    next
      case False
      define k3 where "k3 = lib_set_blocking L h False
        (lib_set_callback L h Callback_send (lib_set_callback L h Callback_recv (lib_set_abstract L h this k2)))"
      define r where "r = \<lparr>se_handle = h, se_socket = s, se_transport = transport_make (Unix u) s\<rparr>"
      have "session_make u U A L junk this context family k = Some (Inr r, k3)"
        using init made False by (simp add: session_make_def k3_def r_def Let_def)
      moreover have "fds k3 = insert fd (fds k)" "sessions k3 = insert h (sessions k)" "h \<notin> sessions k"
        using ssh_ownsD(4-) [OF own] fresh ses i False by (simp_all add: k3_def)
      moreover have "se_handle r = h" "se_socket r = s" by (simp_all add: r_def)
      ultimately show ?thesis using session_dtor_owns [OF own, of r k3] fresh fd False by simp
    qed
  qed
qed


text \<open>A kernel with the lists of open descriptors and of sessions.\<close>

definition fresh_session :: "nat list \<Rightarrow> nat" where
  "fresh_session ss = nat (fresh_fd (map int ss))"

lemma fresh_session: "fresh_session ss \<notin> set ss" "fresh_session ss \<noteq> 0"
proof -
  have "2 \<le> fold max xs (2 :: int)" for xs
  proof -
    have "a \<le> fold max xs a" for a :: int by (induction xs arbitrary: a) (auto intro: order_trans [OF max.cobounded2])
    then show ?thesis .
  qed
  then have pos: "3 \<le> fresh_fd (map int ss)" by (simp add: fresh_fd_def)
  then show "fresh_session ss \<noteq> 0" by (simp add: fresh_session_def)
  show "fresh_session ss \<notin> set ss"
  proof
    assume "fresh_session ss \<in> set ss"
    then have "int (fresh_session ss) \<in> set (map int ss)" by simp
    with pos fresh_fd(1) [of "map int ss"] show False by (simp add: fresh_session_def)
  qed
qed

definition owning_unix :: "(int list \<times> nat list) usys" where
  "owning_unix = failing_unix\<lparr>
     sys_socket := \<lambda>_ _ _ (fds, ss). (fresh_fd fds, 0, fresh_fd fds # fds, ss),
     sys_close := \<lambda>h (fds, ss). (0, 0, removeAll h fds, ss)\<rparr>"

definition owning_lib :: "(int list \<times> nat list) libssh2" where
  "owning_lib = idle_lib\<lparr>
     lib_init := \<lambda>(fds, ss). (fresh_session ss, fds, fresh_session ss # ss),
     lib_free := \<lambda>h (fds, ss). (fds, removeAll h ss)\<rparr>"

lemma owning_ok: "ssh_owns owning_unix owning_lib (\<lambda>k. set (fst k)) (\<lambda>k. set (snd k))"
proof -
  have "interrupted_at_most (close_again owning_unix h) 0 k" for h k
    by (auto simp: close_again_def owning_unix_def failing_unix_def split: prod.splits)
  then have "\<exists>n. interrupted_at_most (close_again owning_unix h) n k" for h k by blast
  then have "fds_ok owning_unix (\<lambda>k. set (fst k))"
    unfolding fds_ok_def opens_ok_def by (auto simp: owning_unix_def failing_unix_def)
  then show ?thesis
    unfolding ssh_owns_def
    by (auto simp: opens_ok_def owning_unix_def owning_lib_def idle_lib_def failing_unix_def fresh_fd fresh_session)
qed

theorem ssh_session_lifetime_witness:
  "\<exists>s k1 k2. session_make Linux owning_unix demo_abi owning_lib sockaddr_zero 64 3 2 ([0, 1], []) = Some (Inr s, k1) \<and>
     se_handle s = 3 \<and> set (fst k1) = {0, 1, 3} \<and> session_dtor owning_unix owning_lib s k1 = Some k2 \<and> set (fst k2) = {0, 1} \<and> snd k2 = []"
proof -
  obtain s k1 where s: "session_make Linux owning_unix demo_abi owning_lib sockaddr_zero 64 3 2 ([0, 1], []) = Some (Inr s, k1)"
    "se_handle s = 3" "set (fst k1) = {0, 1, 3}"
    by (simp add: session_make_def tcp_socket_unix_def socket_make_unix_def owning_unix_def owning_lib_def idle_lib_def failing_unix_def
        fresh_fd_def fresh_session_def insert_commute)
  from ssh_session_lifetime [OF owning_ok, of Linux demo_abi sockaddr_zero 64 3 2 "([0, 1], [])"] s show ?thesis by auto
qed

end
