(* ===== verification/Ice_Ssh_Win.thy ===== *)
theory Ice_Ssh_Win
  imports Ice_Ssh Ice_Tcp_Win
begin

text \<open>
  The transport of SSH sessions on Windows (the \<open>ICE_OS_WIN32\<close> branches of include/ice/net/ssh/transport.h and
  src/ice/net/ssh/transport.cpp). A callback does not use the socket: it prepares an overlapped operation on the transport's own storage and reports
  \<open>-EAGAIN\<close>; awaiting the transport runs the operation; called again, the callback delivers the
  result.
\<close>

section \<open>The transport\<close>

text \<open>
  \<open>storage_\<close> is an array of 4096 bytes at an address; \<open>buffer_\<close> always points to it, so only its size is kept. \<open>einval\<close> is the value of
  \<open>std::errc::invalid_argument\<close>, \<open>again\<close> that of \<open>EAGAIN\<close>.
\<close>

record transport_win = event +
  tw_operation :: operation
  tw_context :: whandle
  tw_socket :: whandle
  tw_storage :: nat
  tw_size :: u32
  tw_ready :: bool
  tw_bytes :: u32
  tw_flags :: u32

definition transport_win_make :: "whandle socket \<Rightarrow> nat \<Rightarrow> transport_win" where
  "transport_win_make s storage =
     event.extend (event_make Win32) (transport_win.fields Op_none (sk_context s) (sk_handle s) storage 4096 False 0 0)"

definition transport_fail_win :: "int \<Rightarrow> transport_win \<Rightarrow> transport_win" where
  "transport_fail_win rc t = t\<lparr>ev_ec := ec_native rc, tw_ready := True\<rparr>"

definition transport_suspend_win :: "'k wsys \<Rightarrow> int \<Rightarrow> nat \<Rightarrow> (transport_win, 'k world) op_call" where
  "transport_suspend_win W einval this = (\<lambda>(t, w).
     case tw_operation t of
       Op_recv \<Rightarrow>
         (case win_recv W (tw_socket t) (unat (tw_size t)) this (w_kern w) of (ok, rc, bytes, k) \<Rightarrow>
            if ok then Some (False, t\<lparr>tw_bytes := of_nat (length bytes), tw_ready := True\<rparr>,
                             w\<lparr>w_mem := mem_write (tw_storage t) bytes (w_mem w), w_kern := k\<rparr>)
            else if rc \<noteq> ERROR_IO_PENDING W then Some (False, transport_fail_win rc t, w\<lparr>w_kern := k\<rparr>)
            else Some (True, t, w\<lparr>w_kern := k\<rparr>))
     | Op_send \<Rightarrow>
         (case win_send W (tw_socket t) (mem_bytes (w_mem w) (tw_storage t) (unat (tw_size t))) this (w_kern w) of (ok, rc, n, k) \<Rightarrow>
            if ok then Some (False, t\<lparr>tw_bytes := n, tw_ready := True\<rparr>, w\<lparr>w_kern := k\<rparr>)
            else if rc \<noteq> ERROR_IO_PENDING W then Some (False, transport_fail_win rc t, w\<lparr>w_kern := k\<rparr>)
            else Some (True, t, w\<lparr>w_kern := k\<rparr>))
     | Op_none \<Rightarrow> Some (False, t\<lparr>ev_ec := ec_system einval\<rparr>, w))"

definition transport_resume_win :: "'k wsys \<Rightarrow> nat \<Rightarrow> (transport_win, 'k world) op_call" where
  "transport_resume_win W this = (\<lambda>(t, w).
     case win_result W (tw_socket t) this (w_kern w) of (ok, rc, n, k) \<Rightarrow>
       let t1 = t\<lparr>tw_bytes := n\<rparr>;
           t2 = (if \<not> ok then t1\<lparr>ev_ec := ec_native rc\<rparr> else t1)
       in Some (True, t2\<lparr>tw_ready := True\<rparr>, w\<lparr>w_kern := k\<rparr>))"

definition on_recv_win :: "int \<Rightarrow> nat \<Rightarrow> transport_win \<times> 'k world \<Rightarrow> int \<times> byte list \<times> transport_win \<times> 'k world" where
  "on_recv_win again n = (\<lambda>(t, w).
     if tw_ready t then
       (int (unat (tw_bytes t)), mem_bytes (w_mem w) (tw_storage t) (unat (tw_bytes t)), t\<lparr>tw_ready := False\<rparr>, w)
     else (negative_errno again, [], t\<lparr>tw_operation := Op_recv, tw_size := of_nat (min n 4096)\<rparr>, w))"

definition on_recv_win_assert :: "nat \<Rightarrow> transport_win \<Rightarrow> bool" where
  "on_recv_win_assert n t \<longleftrightarrow> (tw_ready t \<longrightarrow> unat (tw_bytes t) \<le> n)"

definition on_send_win :: "int \<Rightarrow> byte list \<Rightarrow> transport_win \<times> 'k world \<Rightarrow> int \<times> transport_win \<times> 'k world" where
  "on_send_win again data = (\<lambda>(t, w).
     if tw_ready t then (int (unat (tw_bytes t)), t\<lparr>tw_ready := False\<rparr>, w)
     else (negative_errno again, t\<lparr>tw_operation := Op_send, tw_size := of_nat (min (length data) 4096)\<rparr>,
           w\<lparr>w_mem := mem_write (tw_storage t) (take (min (length data) 4096) data) (w_mem w)\<rparr>))"

text \<open>The assertions of the second call: the count fits, and the data is what was sent.\<close>

definition on_send_win_assert :: "byte list \<Rightarrow> transport_win \<times> 'k world \<Rightarrow> bool" where
  "on_send_win_assert data = (\<lambda>(t, w).
     tw_ready t \<longrightarrow> unat (tw_bytes t) \<le> length data \<and>
       take (unat (tw_bytes t)) data = mem_bytes (w_mem w) (tw_storage t) (unat (tw_bytes t)))"

section \<open>Sending through it\<close>

definition send_prepared :: "byte list \<Rightarrow> transport_win \<times> 'k world \<Rightarrow> bool" where
  "send_prepared data = (\<lambda>(t, w).
     tw_operation t = Op_send \<and> \<not> tw_ready t \<and> unat (tw_size t) = min (length data) 4096 \<and>
     mem_bytes (w_mem w) (tw_storage t) (min (length data) 4096) = take 4096 data)"

text \<open>A send of \<open>n\<close> bytes that has ended.\<close>

definition send_ended :: "byte list \<Rightarrow> u32 \<Rightarrow> transport_win \<times> 'k world \<Rightarrow> bool" where
  "send_ended data n = (\<lambda>(t, w).
     tw_ready t \<and> tw_bytes t = n \<and> mem_bytes (w_mem w) (tw_storage t) (min (length data) 4096) = take 4096 data)"

lemma on_send_prepares:
  assumes "\<not> tw_ready t" "0 < again"
  shows "\<exists>t1 w1. on_send_win again data (t, w) = (- again, t1, w1) \<and> send_prepared data (t1, w1) \<and>
    tw_socket t1 = tw_socket t \<and> ev_ec t1 = ev_ec t \<and> w_kern w1 = w_kern w"
proof -
  have m: "take (min (length data) 4096) data = take 4096 data" by (simp add: min_def)
  have l: "mem_bytes (mem_write (tw_storage t) (take 4096 data) f) (tw_storage t) (min (length data) 4096) = take 4096 data" for f
    using mem_bytes_write_same [of "tw_storage t" "take 4096 data" f] by (simp add: min.commute)
  have "unat (of_nat (min (length data) 4096) :: u32) = min (length data) 4096" by (rule unat_of_nat_u32) simp
  with assms m l show ?thesis by (simp add: on_send_win_def send_prepared_def negative_errno_def)
qed

lemma send_ended_delivers:
  assumes "send_ended data n (t, w)" "unat n \<le> min (length data) 4096"
  shows "on_send_win_assert data (t, w) \<and> on_send_win again data (t, w) = (int (unat n), t\<lparr>tw_ready := False\<rparr>, w)"
proof -
  have e: "tw_ready t" "tw_bytes t = n" "mem_bytes (w_mem w) (tw_storage t) (min (length data) 4096) = take 4096 data"
    using assms(1) by (simp_all add: send_ended_def)
  have "mem_bytes (w_mem w) (tw_storage t) (unat n) = take (unat n) (take 4096 data)"
    using take_mem_bytes [of "unat n" "min (length data) 4096" "w_mem w" "tw_storage t"] assms(2) e(3) by simp
  with e assms(2) show ?thesis by (simp add: on_send_win_assert_def on_send_win_def min_absorb2)
qed


lemma send_prepared_suspend:
  assumes "send_prepared data (t, w)"
  shows "win_send W (tw_socket t) (take 4096 data) this (w_kern w) = (True, rc, n, k) \<Longrightarrow>
      transport_suspend_win W einval this (t, w) = Some (False, t\<lparr>tw_bytes := n, tw_ready := True\<rparr>, w\<lparr>w_kern := k\<rparr>)"
    and "win_send W (tw_socket t) (take 4096 data) this (w_kern w) = (False, ERROR_IO_PENDING W, n, k) \<Longrightarrow>
      transport_suspend_win W einval this (t, w) = Some (True, t, w\<lparr>w_kern := k\<rparr>)"
    and "send_ended data n (t\<lparr>tw_bytes := n, tw_ready := True\<rparr>, w\<lparr>w_kern := k\<rparr>)"
  using assms by (simp_all add: transport_suspend_win_def send_prepared_def send_ended_def)

text \<open>
  On Windows the send callback hands at most 4096 bytes of the data to one overlapped send, whether that ends at once or
  later, and when libssh2 calls it again with the same data, it returns the number of bytes sent, its assertions hold, and it
  is ready for the next send.
\<close>

lemma ssh_win_send:
  assumes "\<not> tw_ready t" "0 < again"
  shows "\<exists>t1 w1. on_send_win again data (t, w) = (- again, t1, w1) \<and>
    (\<forall>rc n k. win_send W (tw_socket t) (take 4096 data) this (w_kern w) = (True, rc, n, k) \<and> unat n \<le> min (length data) 4096 \<longrightarrow>
       (\<exists>t2 w2. transport_suspend_win W einval this (t1, w1) = Some (False, t2, w2) \<and> w_kern w2 = k \<and> ev_ec t2 = ev_ec t \<and>
          on_send_win_assert data (t2, w2) \<and> on_send_win again data (t2, w2) = (int (unat n), t2\<lparr>tw_ready := False\<rparr>, w2))) \<and>
    (\<forall>m k. win_send W (tw_socket t) (take 4096 data) this (w_kern w) = (False, ERROR_IO_PENDING W, m, k) \<longrightarrow>
       transport_suspend_win W einval this (t1, w1) = Some (True, t1, w1\<lparr>w_kern := k\<rparr>) \<and>
       (\<forall>k1 rc n k2. win_result W (tw_socket t) this k1 = (True, rc, n, k2) \<and> unat n \<le> min (length data) 4096 \<longrightarrow>
          (\<exists>t2 w2. transport_resume_win W this (t1, w1\<lparr>w_kern := k1\<rparr>) = Some (True, t2, w2) \<and> ev_ec t2 = ev_ec t \<and>
             on_send_win_assert data (t2, w2) \<and> on_send_win again data (t2, w2) = (int (unat n), t2\<lparr>tw_ready := False\<rparr>, w2))))"
proof -
  obtain t1 w1 where s: "on_send_win again data (t, w) = (- again, t1, w1)" and p: "send_prepared data (t1, w1)"
    and keep: "tw_socket t1 = tw_socket t" "ev_ec t1 = ev_ec t" "w_kern w1 = w_kern w"
    using on_send_prepares [OF assms] by blast
  note suspend = send_prepared_suspend(1,2) [OF p, unfolded keep]
  note ended = send_prepared_suspend(3) [OF p, THEN send_ended_delivers, of n k again for n k]
  have resume: "transport_resume_win W this (t1, w1\<lparr>w_kern := k1\<rparr>) =
      Some (True, t1\<lparr>tw_bytes := n, tw_ready := True\<rparr>, w1\<lparr>w_kern := k2\<rparr>)"
    if "win_result W (tw_socket t) this k1 = (True, rc, n, k2)" for k1 rc n k2
    using that keep(1) by (simp add: transport_resume_win_def)
  show ?thesis
  proof (rule exI [of _ t1], rule exI [of _ w1], intro conjI allI impI)
    show "on_send_win again data (t, w) = (- again, t1, w1)" by (rule s)
  next
    fix rc n k
    assume "win_send W (tw_socket t) (take 4096 data) this (w_kern w) = (True, rc, n, k) \<and> unat n \<le> min (length data) 4096"
    with suspend(1) [of W this rc n k einval] ended [of n k] keep(2)
    show "\<exists>t2 w2. transport_suspend_win W einval this (t1, w1) = Some (False, t2, w2) \<and> w_kern w2 = k \<and> ev_ec t2 = ev_ec t \<and>
        on_send_win_assert data (t2, w2) \<and> on_send_win again data (t2, w2) = (int (unat n), t2\<lparr>tw_ready := False\<rparr>, w2)"
      by (intro exI [of _ "t1\<lparr>tw_bytes := n, tw_ready := True\<rparr>"] exI [of _ "w1\<lparr>w_kern := k\<rparr>"]) simp
  next
    fix m k
    assume "win_send W (tw_socket t) (take 4096 data) this (w_kern w) = (False, ERROR_IO_PENDING W, m, k)"
    then show "transport_suspend_win W einval this (t1, w1) = Some (True, t1, w1\<lparr>w_kern := k\<rparr>)" by (rule suspend(2))
  next
    fix k1 rc n k2
    assume r: "win_result W (tw_socket t) this k1 = (True, rc, n, k2) \<and> unat n \<le> min (length data) 4096"
    with resume [of k1 rc n k2] ended [of n k2] keep(2)
    show "\<exists>t2 w2. transport_resume_win W this (t1, w1\<lparr>w_kern := k1\<rparr>) = Some (True, t2, w2) \<and> ev_ec t2 = ev_ec t \<and>
        on_send_win_assert data (t2, w2) \<and> on_send_win again data (t2, w2) = (int (unat n), t2\<lparr>tw_ready := False\<rparr>, w2)"
      by (intro exI [of _ "t1\<lparr>tw_bytes := n, tw_ready := True\<rparr>"] exI [of _ "w1\<lparr>w_kern := k2\<rparr>"]) simp
  qed
qed

text \<open>A socket that takes two bytes at a time, at once.\<close>

definition ssh_win :: "byte list wsys" where
  "ssh_win = failing_win\<lparr>win_send := \<lambda>_ bs _ k. (True, 0, of_nat (min 2 (length bs)), k @ take 2 bs)\<rparr>"

definition ssh_win_state :: "transport_win \<times> byte list world" where
  "ssh_win_state = (transport_win_make (socket_empty sockaddr_zero 5 3) 1000, \<lparr>w_mem = \<lambda>_. 0, w_kern = []\<rparr>)"

theorem ssh_win_send_witness:
  "\<exists>t1 w1 t2 w2. on_send_win 11 [1, 2, 3] ssh_win_state = (-11, t1, w1) \<and>
     transport_suspend_win ssh_win 22 64 (t1, w1) = Some (False, t2, w2) \<and> w_kern w2 = [1, 2] \<and>
     fst (on_send_win 11 [1, 2, 3] (t2, w2)) = 2"
proof -
  have t: "\<not> tw_ready (fst ssh_win_state)" "tw_socket (fst ssh_win_state) = 5" "w_kern (snd ssh_win_state) = []"
    by (simp_all add: ssh_win_state_def transport_win_make_def event.defs transport_win.defs socket_empty_def)
  have w: "win_send ssh_win 5 (take 4096 [1, 2, 3]) 64 [] = (True, 0, 2, [1, 2])" by (simp add: ssh_win_def failing_win_def)
  obtain t1 w1 where "on_send_win 11 [1, 2, 3] (fst ssh_win_state, snd ssh_win_state) = (- 11, t1, w1)"
    and "\<exists>t2 w2. transport_suspend_win ssh_win 22 64 (t1, w1) = Some (False, t2, w2) \<and> w_kern w2 = [1, 2] \<and>
        on_send_win 11 [1, 2, 3] (t2, w2) = (int (unat (2 :: u32)), t2\<lparr>tw_ready := False\<rparr>, w2)"
    using ssh_win_send [OF t(1), of 11 "[1, 2, 3]" "snd ssh_win_state" ssh_win 64 22, unfolded t(2,3)] w by fastforce
  then show ?thesis by fastforce
qed

text \<open>
  The flag does not say which of the two operations has ended: if libssh2 calls the receive callback after a send, it is given the
  bytes of the send as received.
\<close>

lemma ssh_win_receives_sent:
  assumes "send_ended data n (t, w)" "unat n \<le> min (length data) 4096"
  shows "on_recv_win again limit (t, w) = (int (unat n), take (unat n) data, t\<lparr>tw_ready := False\<rparr>, w)"
proof -
  have e: "tw_ready t" "tw_bytes t = n" "mem_bytes (w_mem w) (tw_storage t) (min (length data) 4096) = take 4096 data"
    using assms(1) by (simp_all add: send_ended_def)
  have "mem_bytes (w_mem w) (tw_storage t) (unat n) = take (unat n) (take 4096 data)"
    using take_mem_bytes [of "unat n" "min (length data) 4096" "w_mem w" "tw_storage t"] assms(2) e(3) by simp
  with e assms(2) show ?thesis by (simp add: on_recv_win_def min_absorb2)
qed

end
