(* ===== verification/Ice_Http.thy ===== *)
theory Ice_Http
  imports Ice_Async Ice_Mutex Ice_Tcp
begin

text \<open>
  The HTTP test server (src/main.cpp): \<open>handle\<close> reads a connection and starts a \<open>respond\<close> task for every blank line; the
  tasks share the connection, one at a time, under an \<open>async_mutex\<close>; at the end of the input \<open>handle\<close> waits for the mutex, and so for
  the tasks before it. Here the mutex is the first-in first-out lock that \<open>Ice_Mutex\<close> shows it to be. Each task has a position of
  its own and gives the peer its bytes piece by piece, as the socket takes them (\<open>Ice_Tcp\<close> and \<open>Ice_Loop_Send\<close> show that one
  \<open>send\<close> gives consecutive pieces of its buffer and returns their total length); nothing but the code keeps two tasks from sending
  at once. Sends and receptions interleave as the kernel decides.
\<close>

section \<open>The response\<close>

definition crlf :: string where
  "crlf = [CHR 0x0D, CHR 0x0A]"

definition g_response :: string where
  "g_response =
     ''HTTP/1.1 200 OK'' @ crlf @
     ''Date: Thu, 19 Apr 2018 04:34:52 GMT'' @ crlf @
     ''Connection: keep-alive'' @ crlf @
     ''Server: ice/0.1.0'' @ crlf @
     ''Content-Type: text/html; charset=utf-8'' @ crlf @
     ''Content-Length: 0'' @ crlf @
     crlf"

definition response_bytes :: "byte list" where
  "response_bytes = map of_char g_response"

section \<open>Reading requests\<close>

text \<open>One character of the input: the new value of \<open>newline\<close>, and whether \<open>respond\<close> is called.\<close>

definition scan_byte :: "bool \<Rightarrow> byte \<Rightarrow> bool \<times> bool" where
  "scan_byte newline b =
     (if b = 13 then (newline, False)
      else if b = 10 then (if newline then (False, True) else (True, False))
      else (False, False))"

fun scan_step :: "bool \<times> nat \<Rightarrow> byte \<Rightarrow> bool \<times> nat" where
  "scan_step (newline, n) b = (case scan_byte newline b of (newline', r) \<Rightarrow> (newline', if r then n + 1 else n))"

definition scan :: "bool \<times> nat \<Rightarrow> byte list \<Rightarrow> bool \<times> nat" where
  "scan = foldl scan_step"

text \<open>The reference: two line feeds in a row.\<close>

fun blank_lines :: "byte list \<Rightarrow> nat" where
  "blank_lines (b # c # bs) = (if b = 10 \<and> c = 10 then Suc (blank_lines bs) else blank_lines (c # bs))"
| "blank_lines _ = 0"

lemma scan_append: "scan st (xs @ ys) = scan (scan st xs) ys"
  by (simp add: scan_def)

lemma scan_blank_lines:
  "snd (scan (newline, n) bs) = n + blank_lines ((if newline then [10] else []) @ filter (\<lambda>b. b \<noteq> 13) bs)"
proof (induction bs arbitrary: newline n)
  case Nil
  then show ?case by (simp add: scan_def)
next
  case (Cons b bs)
  have step: "scan (newline, n) (b # bs) = scan (scan_step (newline, n) b) bs" by (simp add: scan_def)
  have skip: "blank_lines (c # filter (\<lambda>b. b \<noteq> 13) bs) = blank_lines (filter (\<lambda>b. b \<noteq> 13) bs)" if "c \<noteq> 10" for c
    using that by (cases "filter (\<lambda>b. b \<noteq> 13) bs") auto
  show ?case
    unfolding step by (simp add: scan_byte_def Cons.IH skip)
qed

text \<open>
  C39: the scanner responds once for every blank line of the input, that is for every two line feeds with nothing but carriage returns
  between them, not counting a line feed twice; and how the input is cut into the pieces that \<open>recv\<close> returns makes no
  difference.
\<close>

theorem http_scan_requests:
  "snd (scan (False, 0) bs) = blank_lines (filter (\<lambda>b. b \<noteq> 13) bs) \<and>
   foldl scan (False, 0) chunks = scan (False, 0) (concat chunks)"
proof -
  have "foldl scan st chunks = scan st (concat chunks)" for st
    by (induction chunks arbitrary: st) (simp_all add: scan_append, simp add: scan_def)
  with scan_blank_lines [of False 0 bs] show ?thesis by simp
qed

section \<open>A connection\<close>

datatype holder = Responder nat | Handler

datatype http_mode = Reading | Draining | Closed | Aborted

text \<open>
  A \<open>respond\<close> task: in \<open>co_await mutex.scoped_lock_async()\<close>; in \<open>co_await client.send(...)\<close>, with the number of bytes the socket has taken
  so far, the peer being given them as they are taken; or ended, with the number of bytes it got out. \<open>rt_at\<close> is where it was
  called: the number of characters \<open>handle\<close> had looked at.
\<close>

datatype respond_pc = Locking | Sending nat | Responded nat

record respond_task =
  rt_pc :: respond_pc
  rt_at :: nat

text \<open>
  \<open>handle\<close>'s position, its locals \<open>newline\<close> and the characters of the buffer not looked at yet, the mutex (who holds it, who
  waits), the \<open>respond\<close> tasks in the order they were called, the bytes the peer was given, each with the task whose \<open>send\<close> gave it, what was
  printed on stderr, and as history the input. \<open>Draining\<close> is in \<open>co_await mutex.lock_async()\<close>; \<open>Closed\<close> is after
  \<open>co_return\<close>, \<open>Aborted\<close> after an exception of \<open>recv\<close>: both have destroyed the socket and the mutex.
\<close>

record http =
  ht_mode :: http_mode
  ht_newline :: bool
  ht_pending :: "byte list"
  ht_lock :: "holder option \<times> holder list"
  ht_tasks :: "respond_task list"
  ht_out :: "(nat \<times> byte) list"
  ht_cerr :: string
  ht_received :: "byte list"

definition http_start :: http where
  "http_start =
     \<lparr>ht_mode = Reading, ht_newline = False, ht_pending = [], ht_lock = (None, []), ht_tasks = [], ht_out = [], ht_cerr = [],
      ht_received = []\<rparr>"

text \<open>The mutex: a lock operation takes it or joins the queue; \<open>unlock\<close> hands it to the first that waits.\<close>

fun lock_add :: "holder \<Rightarrow> holder option \<times> holder list \<Rightarrow> holder option \<times> holder list" where
  "lock_add x (None, q) = (Some x, q)"
| "lock_add x (Some h, q) = (Some h, q @ [x])"

fun lock_release :: "holder option \<times> holder list \<Rightarrow> holder option \<times> holder list" where
  "lock_release (h, []) = (None, [])"
| "lock_release (h, x # q) = (Some x, q)"

text \<open>\<open>handle\<close>: what \<open>recv\<close> returned (nothing at the end of the input, which takes it to \<open>lock_async\<close>), and one character.\<close>

definition http_recv :: "byte list \<Rightarrow> http \<Rightarrow> http" where
  "http_recv bs s =
     (if bs = [] then s\<lparr>ht_mode := Draining, ht_lock := lock_add Handler (ht_lock s)\<rparr>
      else s\<lparr>ht_pending := bs, ht_received := ht_received s @ bs\<rparr>)"

text \<open>The call of \<open>respond\<close>, up to its first suspension point.\<close>

definition http_respond :: "http \<Rightarrow> http" where
  "http_respond s =
     s\<lparr>ht_tasks := ht_tasks s @ [\<lparr>rt_pc = Locking, rt_at = length (ht_received s) - length (ht_pending s)\<rparr>],
       ht_lock := lock_add (Responder (length (ht_tasks s))) (ht_lock s)\<rparr>"

definition http_scan :: "byte \<Rightarrow> byte list \<Rightarrow> http \<Rightarrow> http" where
  "http_scan b bs s =
     (case scan_byte (ht_newline s) b of (newline, r) \<Rightarrow>
        let s1 = s\<lparr>ht_newline := newline, ht_pending := bs\<rparr> in if r then http_respond s1 else s1)"

text \<open>The position of a task; \<open>None\<close> for a task that was not started.\<close>

definition task_pc :: "nat \<Rightarrow> http \<Rightarrow> respond_pc option" where
  "task_pc i s = (if i < length (ht_tasks s) then Some (rt_pc (ht_tasks s ! i)) else None)"

definition task_goto :: "nat \<Rightarrow> respond_pc \<Rightarrow> http \<Rightarrow> http" where
  "task_goto i p s = s\<lparr>ht_tasks := (ht_tasks s)[i := (ht_tasks s ! i)\<lparr>rt_pc := p\<rparr>]\<rparr>"

text \<open>The awaited lock operation returns to the coroutine that holds the mutex: a task begins to send, \<open>handle\<close> returns.\<close>

definition http_locked :: "http \<Rightarrow> http option" where
  "http_locked s =
     (case fst (ht_lock s) of
        None \<Rightarrow> None
      | Some (Responder i) \<Rightarrow> if task_pc i s = Some Locking then Some (task_goto i (Sending 0) s) else None
      | Some Handler \<Rightarrow> if ht_mode s = Draining then Some (s\<lparr>ht_mode := Closed\<rparr>) else None)"

text \<open>The socket takes the next \<open>m\<close> bytes of task \<open>i\<close>, which is at \<open>n\<close>.\<close>

definition http_write :: "nat \<Rightarrow> nat \<Rightarrow> nat \<Rightarrow> http \<Rightarrow> http" where
  "http_write i n m s = (task_goto i (Sending (n + m)) s)\<lparr>ht_out := ht_out s @ map (Pair i) (take m (drop n response_bytes))\<rparr>"

text \<open>The message of \<open>respond\<close>; \<open>client\<close> is the printed socket.\<close>

definition short_message :: "string \<Rightarrow> nat \<Rightarrow> string" where
  "short_message client n =
     (if n \<noteq> length response_bytes
      then ''could not send response to '' @ client @ '' ('' @ to_string (int n) @ ''/'' @ to_string (int (length response_bytes)) @ '')''
        @ [CHR 0x0A]
      else [])"

text \<open>
  The \<open>send\<close> of task \<open>i\<close> returns \<open>n\<close>: the message, and the destructor of the scoped lock unlocks. It throws: the destructor unlocks as
  the stack unwinds, and the promise's \<open>unhandled_exception\<close> prints.
\<close>

definition http_sent :: "string \<Rightarrow> nat \<Rightarrow> nat \<Rightarrow> http \<Rightarrow> http" where
  "http_sent client i n s =
     (task_goto i (Responded n) s)\<lparr>ht_cerr := ht_cerr s @ short_message client n, ht_lock := lock_release (ht_lock s)\<rparr>"

definition http_send_error :: "(exn \<Rightarrow> string) \<Rightarrow> exn \<Rightarrow> nat \<Rightarrow> nat \<Rightarrow> http \<Rightarrow> http" where
  "http_send_error what e i n s =
     (task_goto i (Responded n) s)\<lparr>ht_lock := lock_release (ht_lock s), ht_cerr := ht_cerr s @ task_finish what (Inl (Sys_exn e))\<rparr>"

text \<open>
  The actions: \<open>recv\<close> returns or throws; the next character is looked at; a lock operation returns; the socket takes bytes of task
  \<open>i\<close>; the \<open>send\<close> of task \<open>i\<close> returns, or throws. What a task does depends on its own position only, not on who holds the mutex. \<open>what\<close>
  gives the text of an exception.
\<close>

datatype http_act = Http_recv "byte list" | Http_recv_error exn | Http_scan | Http_locked | Http_write nat nat | Http_sent nat
  | Http_send_error nat exn

fun http_exec :: "string \<Rightarrow> (exn \<Rightarrow> string) \<Rightarrow> http_act \<Rightarrow> http \<Rightarrow> http option" where
  "http_exec client what (Http_recv bs) s =
     (if ht_mode s = Reading \<and> ht_pending s = [] \<and> length bs \<le> 1024 then Some (http_recv bs s) else None)"
| "http_exec client what (Http_recv_error e) s =
     (if ht_mode s = Reading \<and> ht_pending s = []
      then Some (s\<lparr>ht_mode := Aborted, ht_cerr := ht_cerr s @ task_finish what (Inl (Sys_exn e))\<rparr>) else None)"
| "http_exec client what Http_scan s =
     (case ht_pending s of [] \<Rightarrow> None | b # bs \<Rightarrow> Some (http_scan b bs s))"
| "http_exec client what Http_locked s = (if ht_mode s = Aborted then None else http_locked s)"
| "http_exec client what (Http_write i m) s =
     (case task_pc i s of
        Some (Sending n) \<Rightarrow>
          if ht_mode s \<noteq> Aborted \<and> 0 < m \<and> n + m \<le> length response_bytes then Some (http_write i n m s) else None
      | _ \<Rightarrow> None)"
| "http_exec client what (Http_sent i) s =
     (case task_pc i s of
        Some (Sending n) \<Rightarrow> if ht_mode s \<noteq> Aborted then Some (http_sent client i n s) else None
      | _ \<Rightarrow> None)"
| "http_exec client what (Http_send_error i e) s =
     (case task_pc i s of
        Some (Sending n) \<Rightarrow> if ht_mode s \<noteq> Aborted then Some (http_send_error what e i n s) else None
      | _ \<Rightarrow> None)"

text \<open>A task that still refers to the destroyed socket and mutex.\<close>

fun task_ended :: "respond_pc \<Rightarrow> bool" where
  "task_ended (Responded n) = True"
| "task_ended _ = False"

definition http_dangling :: "http \<Rightarrow> bool" where
  "http_dangling s \<longleftrightarrow> ht_mode s \<in> {Closed, Aborted} \<and> (\<exists>t\<in>set (ht_tasks s). \<not> task_ended (rt_pc t))"

definition lock_list :: "holder option \<times> holder list \<Rightarrow> holder list" where
  "lock_list l = (case fst l of None \<Rightarrow> [] | Some h \<Rightarrow> [h]) @ snd l"

text \<open>The bytes a task has got out, and the output of the tasks one after the other.\<close>

fun pc_sent :: "respond_pc \<Rightarrow> nat" where
  "pc_sent Locking = 0"
| "pc_sent (Sending n) = n"
| "pc_sent (Responded n) = n"

definition http_part :: "respond_task list \<Rightarrow> nat \<Rightarrow> (nat \<times> byte) list" where
  "http_part ts i = map (Pair i) (take (pc_sent (rt_pc (ts ! i))) response_bytes)"

definition http_parts :: "respond_task list \<Rightarrow> (nat \<times> byte) list" where
  "http_parts ts = concat (map (http_part ts) [0..<length ts])"

text \<open>The state in which the first \<open>k\<close> tasks have ended, the next may hold the mutex, and the others wait in the order of their calls.\<close>

definition tasks_at :: "nat \<Rightarrow> respond_task list \<Rightarrow> bool" where
  "tasks_at k ts \<longleftrightarrow>
     k \<le> length ts \<and> (\<forall>i<k. \<exists>n\<le>length response_bytes. rt_pc (ts ! i) = Responded n) \<and>
     (k < length ts \<longrightarrow> rt_pc (ts ! k) = Locking \<or> (\<exists>n\<le>length response_bytes. rt_pc (ts ! k) = Sending n)) \<and>
     (\<forall>i. k < i \<and> i < length ts \<longrightarrow> rt_pc (ts ! i) = Locking)"

definition lock_at :: "nat \<Rightarrow> http \<Rightarrow> bool" where
  "lock_at k s \<longleftrightarrow>
     (fst (ht_lock s) = None \<longrightarrow> snd (ht_lock s) = []) \<and>
     lock_list (ht_lock s) = map Responder [k..<length (ht_tasks s)] @ (if ht_mode s \<in> {Draining, Closed} then [Handler] else []) \<and>
     (ht_mode s = Closed \<longrightarrow> k = length (ht_tasks s))"

definition requests :: "byte list \<Rightarrow> nat" where
  "requests bs = blank_lines (filter (\<lambda>b. b \<noteq> 13) bs)"

text \<open>Task \<open>i\<close> was called at the character that ends the \<open>i\<close>-th blank line, counted from 0.\<close>

definition asked_at :: "byte list \<Rightarrow> nat \<Rightarrow> nat \<Rightarrow> bool" where
  "asked_at received i p \<longleftrightarrow>
     0 < p \<and> p \<le> length received \<and> requests (take p received) = Suc i \<and> requests (take (p - 1) received) = i"

definition input_ok :: "http \<Rightarrow> bool" where
  "input_ok s \<longleftrightarrow>
     (ht_mode s \<noteq> Reading \<longrightarrow> ht_pending s = []) \<and>
     (\<exists>dn. ht_received s = dn @ ht_pending s \<and> scan (False, 0) dn = (ht_newline s, length (ht_tasks s))) \<and>
     (\<forall>i<length (ht_tasks s). asked_at (ht_received s) i (rt_at (ht_tasks s ! i)))"

definition http_inv :: "http \<Rightarrow> bool" where
  "http_inv s \<longleftrightarrow> (\<exists>k. tasks_at k (ht_tasks s) \<and> lock_at k s) \<and> ht_out s = http_parts (ht_tasks s) \<and> input_ok s"

lemma lock_list_add: "fst l = None \<longrightarrow> snd l = [] \<Longrightarrow> lock_list (lock_add x l) = lock_list l @ [x]"
  "fst (lock_add x l) \<noteq> None"
  by (cases l; cases "fst l"; simp add: lock_list_def)+

lemma lock_list_release: "fst l \<noteq> None \<Longrightarrow> lock_list (lock_release l) = tl (lock_list l)"
  "fst (lock_release l) = None \<longrightarrow> snd (lock_release l) = []"
  by (cases l; cases "snd l"; auto simp: lock_list_def)+

lemma lock_list_hd: "fst l = None \<longrightarrow> snd l = [] \<Longrightarrow> fst l = (case lock_list l of [] \<Rightarrow> None | h # _ \<Rightarrow> Some h)"
  by (cases l; cases "fst l"; simp add: lock_list_def)

lemma requests_scan: "snd (scan (False, 0) bs) = requests bs"
  using scan_blank_lines [of False 0 bs] by (simp add: requests_def)

text \<open>Who holds the mutex.\<close>

lemma lock_holder:
  assumes "lock_at k s"
  shows "fst (ht_lock s) = (if k < length (ht_tasks s) then Some (Responder k)
    else if ht_mode s \<in> {Draining, Closed} then Some Handler else None)"
  using assms lock_list_hd [of "ht_lock s"] by (simp add: lock_at_def upt_conv_Cons)

lemma lock_hand_over:
  assumes "lock_at k s" "k < length (ht_tasks s)"
    and "ht_lock t = lock_release (ht_lock s)" "ht_mode t = ht_mode s" "length (ht_tasks t) = length (ht_tasks s)"
  shows "lock_at (Suc k) t"
proof -
  have "fst (ht_lock s) \<noteq> None" using lock_holder [OF assms(1)] assms(2) by simp
  from lock_list_release(1) [OF this] lock_list_release(2) [of "ht_lock s"] assms show ?thesis
    by (auto simp: lock_at_def upt_conv_Cons)
qed

text \<open>A task that sends is the one that holds the mutex.\<close>

lemma sending_current:
  assumes "tasks_at k ts" "i < length ts" "rt_pc (ts ! i) = Sending n"
  shows "i = k \<and> n \<le> length response_bytes"
proof -
  have "\<not> i < k" "\<not> k < i" using assms by (auto simp: tasks_at_def)
  with assms show ?thesis by (auto simp: tasks_at_def)
qed

lemma tasks_at_update:
  assumes "tasks_at k ts" "k < length ts" "p = Locking \<or> (\<exists>n\<le>length response_bytes. p = Sending n)"
  shows "tasks_at k (ts[k := (ts ! k)\<lparr>rt_pc := p\<rparr>])"
  using assms by (auto simp: tasks_at_def nth_list_update)

lemma tasks_at_end:
  assumes "tasks_at k ts" "k < length ts" "n \<le> length response_bytes"
  shows "tasks_at (Suc k) (ts[k := (ts ! k)\<lparr>rt_pc := Responded n\<rparr>])"
  using assms by (auto simp: tasks_at_def nth_list_update less_Suc_eq)

lemma tasks_at_add: "tasks_at k ts \<Longrightarrow> rt_pc t = Locking \<Longrightarrow> tasks_at k (ts @ [t])"
  by (auto simp: tasks_at_def nth_append)

text \<open>The output of the tasks ends with that of the one that holds the mutex.\<close>

lemma http_parts_upto:
  assumes "k < length ts" "\<forall>i. k < i \<and> i < length ts \<longrightarrow> rt_pc (ts ! i) = Locking"
  shows "http_parts ts = concat (map (http_part ts) [0..<k]) @ http_part ts k"
proof -
  have "[0..<length ts] = [0..<k] @ [k] @ [Suc k..<length ts]"
    using assms(1) by (metis append_Cons append_Nil less_imp_add_positive upt_add_eq_append upt_conv_Cons zero_le)
  moreover have "concat (map (http_part ts) [Suc k..<length ts]) = []"
    using assms(2) by (simp add: http_part_def)
  ultimately show ?thesis by (simp add: http_parts_def)
qed

lemma http_parts_update:
  assumes "tasks_at k ts" "k < length ts"
  shows "http_parts (ts[k := (ts ! k)\<lparr>rt_pc := p\<rparr>]) =
    concat (map (http_part ts) [0..<k]) @ map (Pair k) (take (pc_sent p) response_bytes)"
proof -
  let ?ts = "ts[k := (ts ! k)\<lparr>rt_pc := p\<rparr>]"
  have "concat (map (http_part ?ts) [0..<k]) = concat (map (http_part ts) [0..<k])"
    by (rule arg_cong [where f = concat]) (simp add: http_part_def)
  moreover have "http_parts ?ts = concat (map (http_part ?ts) [0..<k]) @ http_part ?ts k"
    by (rule http_parts_upto) (use assms in \<open>auto simp: tasks_at_def\<close>)
  moreover have "http_part ?ts k = map (Pair k) (take (pc_sent p) response_bytes)" using assms(2) by (simp add: http_part_def)
  ultimately show ?thesis by (simp only:)
qed

lemma http_parts_now:
  "tasks_at k ts \<Longrightarrow> k < length ts \<Longrightarrow> http_parts ts =
    concat (map (http_part ts) [0..<k]) @ map (Pair k) (take (pc_sent (rt_pc (ts ! k))) response_bytes)"
  using http_parts_upto [of k ts] by (simp add: tasks_at_def http_part_def)

lemma http_parts_add: "rt_pc t = Locking \<Longrightarrow> http_parts (ts @ [t]) = http_parts ts"
proof -
  assume "rt_pc t = Locking"
  then have "http_part (ts @ [t]) (length ts) = []" by (simp add: http_part_def)
  moreover have "map (http_part (ts @ [t])) [0..<length ts] = map (http_part ts) [0..<length ts]"
    by (rule map_cong) (simp_all add: http_part_def nth_append)
  ultimately show ?thesis unfolding http_parts_def by (simp only: length_append_singleton upt_Suc_append le0 map_append
      concat_append) simp
qed

lemma take_more: "map (Pair i) (take n xs) @ map (Pair i) (take m (drop n xs)) = map (Pair i) (take (n + m) xs)"
  by (simp add: take_add)

text \<open>Each step keeps the invariant.\<close>

lemma input_ok_frame:
  assumes "input_ok s" "ht_received t = ht_received s" "ht_pending t = ht_pending s" "ht_newline t = ht_newline s"
    and "map rt_at (ht_tasks t) = map rt_at (ht_tasks s)" "ht_mode t = ht_mode s"
  shows "input_ok t"
proof -
  have l: "length (ht_tasks t) = length (ht_tasks s)" using assms(5) by (rule map_eq_imp_length_eq)
  have "rt_at (ht_tasks t ! i) = rt_at (ht_tasks s ! i)" if "i < length (ht_tasks s)" for i
    using that assms(5) l by (metis nth_map)
  with assms l show ?thesis by (simp add: input_ok_def)
qed

lemma task_goto_at: "map rt_at (ht_tasks (task_goto i p s)) = map rt_at (ht_tasks s)"
proof (rule nth_equalityI)
  fix j
  assume "j < length (map rt_at (ht_tasks (task_goto i p s)))"
  then show "map rt_at (ht_tasks (task_goto i p s)) ! j = map rt_at (ht_tasks s) ! j"
    by (cases "j = i") (simp_all add: task_goto_def)
qed (simp add: task_goto_def)

lemma http_inv_start: "http_inv http_start"
  by (simp add: http_inv_def http_start_def lock_list_def scan_def tasks_at_def lock_at_def input_ok_def http_parts_def)

lemma asked_at_append: "asked_at received i p \<Longrightarrow> asked_at (received @ bs) i p"
  by (auto simp: asked_at_def)

lemma http_inv_recv:
  assumes inv: "http_inv s" and m: "ht_mode s = Reading" "ht_pending s = []"
  shows "http_inv (http_recv bs s)"
proof -
  obtain k where k: "tasks_at k (ht_tasks s)" "lock_at k s" and o: "ht_out s = http_parts (ht_tasks s)" and i: "input_ok s"
    using inv by (auto simp: http_inv_def)
  have "lock_at k (http_recv bs s)"
    using k m lock_list_add(1) [of "ht_lock s" Handler] lock_list_add(2) [of Handler "ht_lock s"]
    by (auto simp: lock_at_def http_recv_def)
  moreover have "input_ok (http_recv bs s)"
    using i m by (auto simp: input_ok_def http_recv_def asked_at_append)
  ultimately show ?thesis using k(1) o by (auto simp: http_inv_def http_recv_def)
qed

lemma http_inv_scan:
  assumes inv: "http_inv s" and p: "ht_pending s = b # bs"
  shows "http_inv (http_scan b bs s)"
proof -
  obtain k where k: "tasks_at k (ht_tasks s)" "lock_at k s" and o: "ht_out s = http_parts (ht_tasks s)" and i: "input_ok s"
    using inv by (auto simp: http_inv_def)
  have m: "ht_mode s = Reading" using i p by (auto simp: input_ok_def)
  from i p obtain dn where d: "ht_received s = dn @ b # bs" "scan (False, 0) dn = (ht_newline s, length (ht_tasks s))"
    by (auto simp: input_ok_def)
  obtain nl r where sb: "scan_byte (ht_newline s) b = (nl, r)" by (metis prod.exhaust)
  have d': "scan (False, 0) (dn @ [b]) = (nl, if r then length (ht_tasks s) + 1 else length (ht_tasks s))"
    using d sb by (simp add: scan_def)
  let ?t = "http_scan b bs s"
  show ?thesis
  proof (cases r)
    case False
    then have "?t = s\<lparr>ht_newline := nl, ht_pending := bs\<rparr>" using sb by (simp add: http_scan_def)
    moreover have "input_ok (s\<lparr>ht_newline := nl, ht_pending := bs\<rparr>)"
      using i d d' False m by (auto simp: input_ok_def intro: exI [of _ "dn @ [b]"])
    ultimately show ?thesis using k o by (auto simp: http_inv_def lock_at_def)
  next
    case True
    let ?task = "\<lparr>rt_pc = Locking, rt_at = Suc (length dn)\<rparr>"
    have t: "?t = s\<lparr>ht_newline := nl, ht_pending := bs, ht_tasks := ht_tasks s @ [?task],
        ht_lock := lock_add (Responder (length (ht_tasks s))) (ht_lock s)\<rparr>"
      using sb True d(1) by (simp add: http_scan_def http_respond_def)
    have "requests dn = length (ht_tasks s)" "requests (dn @ [b]) = Suc (length (ht_tasks s))"
      using d(2) d' True requests_scan by (metis snd_conv Suc_eq_plus1)+
    then have "asked_at (ht_received s) (length (ht_tasks s)) (Suc (length dn))"
      by (simp add: asked_at_def d(1))
    then have "input_ok ?t" using i m d(1) d' True unfolding t input_ok_def
      by (auto simp: nth_append less_Suc_eq intro: exI [of _ "dn @ [b]"])
    moreover have "lock_at k ?t"
      using k m lock_list_add(1) [of "ht_lock s" "Responder (length (ht_tasks s))"]
        lock_list_add(2) [of "Responder (length (ht_tasks s))" "ht_lock s"] unfolding t by (auto simp: lock_at_def tasks_at_def)
    moreover have "tasks_at k (ht_tasks ?t)" unfolding t using tasks_at_add [OF k(1)] by simp
    moreover have "ht_out ?t = http_parts (ht_tasks ?t)" unfolding t using o http_parts_add by simp
    ultimately show ?thesis by (auto simp: http_inv_def)
  qed
qed

lemma http_inv_locked:
  assumes inv: "http_inv s" and t: "http_locked s = Some t" and m: "ht_mode s \<noteq> Aborted"
  shows "http_inv t"
proof -
  obtain k where k: "tasks_at k (ht_tasks s)" "lock_at k s" and o: "ht_out s = http_parts (ht_tasks s)" and i: "input_ok s"
    using inv by (auto simp: http_inv_def)
  note h = lock_holder [OF k(2)]
  show ?thesis
  proof (cases "k < length (ht_tasks s)")
    case True
    then have g: "t = task_goto k (Sending 0) s" "rt_pc (ht_tasks s ! k) = Locking"
      using t h by (auto simp: http_locked_def task_pc_def split: if_splits)
    have "input_ok t" using i task_goto_at [of k "Sending 0" s] unfolding g(1) by (elim input_ok_frame) (simp_all add: task_goto_def)
    moreover have "lock_at k t" using k(2) unfolding g by (simp add: lock_at_def task_goto_def)
    moreover have "tasks_at k (ht_tasks t)" using tasks_at_update [OF k(1) True] unfolding g by (simp add: task_goto_def)
    moreover have "ht_out t = http_parts (ht_tasks t)"
      using o http_parts_now [OF k(1) True] http_parts_update [OF k(1) True] g(2) unfolding g(1) by (simp add: task_goto_def)
    ultimately show ?thesis by (auto simp: http_inv_def)
  next
    case False
    then have "t = s\<lparr>ht_mode := Closed\<rparr>" "ht_mode s = Draining" "k = length (ht_tasks s)"
      using t h k(1) by (auto simp: http_locked_def tasks_at_def split: if_splits)
    with k o i show ?thesis by (auto simp: http_inv_def lock_at_def input_ok_def)
  qed
qed

lemma http_inv_write:
  assumes inv: "http_inv s" and p: "task_pc i s = Some (Sending n)" and m: "n + m \<le> length response_bytes"
  shows "http_inv (http_write i n m s)"
proof -
  obtain k where k: "tasks_at k (ht_tasks s)" "lock_at k s" and o: "ht_out s = http_parts (ht_tasks s)" and ok: "input_ok s"
    using inv by (auto simp: http_inv_def)
  have len: "i < length (ht_tasks s)" and pc: "rt_pc (ht_tasks s ! i) = Sending n"
    using p by (auto simp: task_pc_def split: if_splits)
  have i: "i = k" using sending_current [OF k(1) len pc] ..
  note l = len [unfolded i] and pk = pc [unfolded i]
  let ?t = "http_write k n m s"
  have "input_ok ?t" using ok task_goto_at [of k "Sending (n + m)" s]
    by (elim input_ok_frame) (simp_all add: http_write_def task_goto_def)
  moreover have "lock_at k ?t" using k(2) by (simp add: lock_at_def http_write_def task_goto_def)
  moreover have "tasks_at k (ht_tasks ?t)" using tasks_at_update [OF k(1) l] m by (simp add: http_write_def task_goto_def)
  moreover have "ht_out ?t = http_parts (ht_tasks ?t)"
    using o http_parts_now [OF k(1) l] http_parts_update [OF k(1) l] pk by (simp add: http_write_def task_goto_def take_more)
  ultimately show ?thesis unfolding i by (auto simp: http_inv_def)
qed

text \<open>The end of a send, by which of the two ways does not matter.\<close>

lemma http_inv_end:
  assumes inv: "http_inv s" and p: "task_pc i s = Some (Sending n)"
    and t: "ht_tasks t = (ht_tasks s)[i := (ht_tasks s ! i)\<lparr>rt_pc := Responded n\<rparr>]" "ht_lock t = lock_release (ht_lock s)"
      "ht_mode t = ht_mode s" "ht_out t = ht_out s" "ht_received t = ht_received s" "ht_pending t = ht_pending s"
      "ht_newline t = ht_newline s"
  shows "http_inv t"
proof -
  obtain k where k: "tasks_at k (ht_tasks s)" "lock_at k s" and o: "ht_out s = http_parts (ht_tasks s)" and ok: "input_ok s"
    using inv by (auto simp: http_inv_def)
  have len: "i < length (ht_tasks s)" and pc: "rt_pc (ht_tasks s ! i) = Sending n"
    using p by (auto simp: task_pc_def split: if_splits)
  have i: "i = k" and n: "n \<le> length response_bytes" using sending_current [OF k(1) len pc] by auto
  note l = len [unfolded i] and pk = pc [unfolded i]
  have "map rt_at (ht_tasks t) = map rt_at (ht_tasks s)"
    using task_goto_at [of i "Responded n" s] t(1) by (simp add: task_goto_def)
  then have "input_ok t" using t by (intro input_ok_frame [OF ok]) simp_all
  moreover have "lock_at (Suc k) t" using lock_hand_over [OF k(2) l] t by simp
  moreover have "tasks_at (Suc k) (ht_tasks t)" using tasks_at_end [OF k(1) l n] t(1) i by simp
  moreover have "ht_out t = http_parts (ht_tasks t)"
    using o http_parts_now [OF k(1) l] http_parts_update [OF k(1) l] pk t(1,4) i by simp
  ultimately show ?thesis by (auto simp: http_inv_def)
qed

lemma http_inv_sent:
  assumes "http_inv s" "task_pc i s = Some (Sending n)"
  shows "http_inv (http_sent client i n s)" "http_inv (http_send_error what e i n s)"
  by (rule http_inv_end [OF assms]; simp add: http_sent_def http_send_error_def task_goto_def)+

lemma http_inv_exec:
  assumes "http_inv s" "http_exec client what a s = Some t"
  shows "http_inv t"
proof (cases a)
  case (Http_recv_error e)
  with assms(2) have "ht_mode s = Reading" "ht_pending s = []"
    "t = s\<lparr>ht_mode := Aborted, ht_cerr := ht_cerr s @ task_finish what (Inl (Sys_exn e))\<rparr>" by (auto split: if_splits)
  with assms(1) show ?thesis by (auto simp: http_inv_def lock_at_def input_ok_def)
next
  case (Http_recv bs)
  with assms http_inv_recv [OF assms(1), of bs] show ?thesis by (simp split: if_splits)
next
  case Http_scan
  with assms http_inv_scan [OF assms(1)] show ?thesis by (simp split: list.splits)
next
  case Http_locked
  with assms http_inv_locked [OF assms(1), of t] show ?thesis by (simp split: if_splits)
next
  case (Http_write i m)
  with assms(2) obtain n where "task_pc i s = Some (Sending n)" "n + m \<le> length response_bytes" "t = http_write i n m s"
    by (auto split: option.splits respond_pc.splits if_splits)
  with http_inv_write [OF assms(1)] show ?thesis by blast
next
  case (Http_sent i)
  with assms(2) obtain n where "task_pc i s = Some (Sending n)" "t = http_sent client i n s"
    by (auto split: option.splits respond_pc.splits if_splits)
  with http_inv_sent(1) [OF assms(1)] show ?thesis by blast
next
  case (Http_send_error i e)
  with assms(2) obtain n where "task_pc i s = Some (Sending n)" "t = http_send_error what e i n s"
    by (auto split: option.splits respond_pc.splits if_splits)
  with http_inv_sent(2) [OF assms(1)] show ?thesis by blast
qed

lemma tasks_whole:
  assumes "\<forall>t\<in>set ts. pc_sent (rt_pc t) = length response_bytes"
  shows "map snd (concat (map (\<lambda>i. map (Pair i) (take (pc_sent (rt_pc (ts ! i))) response_bytes)) [0..<length ts])) =
    concat (replicate (length ts) response_bytes)"
proof -
  have "map (\<lambda>i. map (Pair i) (take (pc_sent (rt_pc (ts ! i))) response_bytes)) [0..<length ts] =
      map (\<lambda>i. map (Pair i) response_bytes) [0..<length ts]"
    using assms by (intro map_cong) simp_all
  moreover have "map snd (concat (map (\<lambda>i. map (Pair i) response_bytes) is)) = concat (replicate (length is) response_bytes)"
    for "is" :: "nat list" by (induction "is") (simp_all add: comp_def)
  ultimately show ?thesis by (simp only: length_upt diff_zero)
qed

interpretation http: invariant_system "\<lambda>s. s = http_start" "act_step (http_exec client what)" http_inv for client what
  by unfold_locales (auto simp: act_step_def http_inv_start intro: http_inv_exec)

text \<open>
  C37: Responses are sent one after the other, in the order of the requests, and never mixed. At every moment the peer has been given the bytes of
  the first task, then those of the second, and so on, each a beginning of the response: the first \<open>k\<close> tasks have ended, at most one
  task behind them is sending, and the others have not begun; this holds although a task sends what it likes once its lock operation has
  returned, and is due to the mutex alone. The \<open>i\<close>-th task answers the \<open>i\<close>-th blank line: it is called at the character that
  ends it. When \<open>handle\<close> has returned after the end of the input, every blank line has been answered by a task that has ended, no task refers to the
  destroyed socket or mutex any more, and if no send fell short the output is exactly that many responses.
\<close>

theorem http_responses:
  assumes "reach (\<lambda>s. s = http_start) (act_step (http_exec client what)) s"
  shows "ht_out s = concat (map (\<lambda>i. map (Pair i) (take (pc_sent (rt_pc (ht_tasks s ! i))) response_bytes)) [0..<length (ht_tasks s)]) \<and>
    (\<exists>k\<le>length (ht_tasks s). (\<forall>i<k. task_ended (rt_pc (ht_tasks s ! i))) \<and>
       (\<forall>i. k < i \<and> i < length (ht_tasks s) \<longrightarrow> rt_pc (ht_tasks s ! i) = Locking)) \<and>
    (\<forall>i<length (ht_tasks s). asked_at (ht_received s) i (rt_at (ht_tasks s ! i))) \<and>
    (ht_mode s = Closed \<longrightarrow>
       length (ht_tasks s) = requests (ht_received s) \<and> (\<forall>t\<in>set (ht_tasks s). task_ended (rt_pc t)) \<and> \<not> http_dangling s \<and>
       ((\<forall>t\<in>set (ht_tasks s). pc_sent (rt_pc t) = length response_bytes) \<longrightarrow>
          map snd (ht_out s) = concat (replicate (requests (ht_received s)) response_bytes)))"
proof -
  note inv = http.reach_inv [OF assms]
  then obtain k where k: "tasks_at k (ht_tasks s)" "lock_at k s" and o: "ht_out s = http_parts (ht_tasks s)" and ok: "input_ok s"
    by (auto simp: http_inv_def)
  have out: "ht_out s = concat (map (\<lambda>i. map (Pair i) (take (pc_sent (rt_pc (ht_tasks s ! i))) response_bytes)) [0..<length (ht_tasks s)])"
    using o unfolding http_parts_def http_part_def .
  moreover have ended: "\<forall>i<k. task_ended (rt_pc (ht_tasks s ! i))"
    using k(1) by (auto simp: tasks_at_def)
  moreover have "k \<le> length (ht_tasks s)" "\<forall>i. k < i \<and> i < length (ht_tasks s) \<longrightarrow> rt_pc (ht_tasks s ! i) = Locking"
    using k(1) by (auto simp: tasks_at_def)
  moreover have "length (ht_tasks s) = requests (ht_received s) \<and> (\<forall>t\<in>set (ht_tasks s). task_ended (rt_pc t))"
    if c: "ht_mode s = Closed"
  proof
    have "scan (False, 0) (ht_received s) = (ht_newline s, length (ht_tasks s))" using ok c by (auto simp: input_ok_def)
    then show "length (ht_tasks s) = requests (ht_received s)" using requests_scan [of "ht_received s"] by simp
    have "k = length (ht_tasks s)" using k(2) c by (simp add: lock_at_def)
    then show "\<forall>t\<in>set (ht_tasks s). task_ended (rt_pc t)" using ended by (metis in_set_conv_nth)
  qed
  moreover have "map snd (ht_out s) = concat (replicate (length (ht_tasks s)) response_bytes)"
    if "\<forall>t\<in>set (ht_tasks s). pc_sent (rt_pc t) = length response_bytes"
    unfolding out by (rule tasks_whole [OF that])
  ultimately show ?thesis using ok by (auto simp: input_ok_def http_dangling_def)
qed

section \<open>The end of a connection\<close>

text \<open>The steps a task still has at most: one for the lock, one for each byte, one for the end of the send.\<close>

fun task_work :: "respond_pc \<Rightarrow> nat" where
  "task_work Locking = length response_bytes + 2"
| "task_work (Sending n) = length response_bytes + 1 - n"
| "task_work (Responded n) = 0"

definition http_work :: "http \<Rightarrow> nat" where
  "http_work s = (\<Sum>t\<leftarrow>ht_tasks s. task_work (rt_pc t)) + (if ht_mode s = Draining then 1 else 0)"

lemma work_update:
  "i < length ts \<Longrightarrow> task_work p < task_work (rt_pc (ts ! i)) \<Longrightarrow>
   (\<Sum>t\<leftarrow>ts[i := (ts ! i)\<lparr>rt_pc := p\<rparr>]. task_work (rt_pc t)) < (\<Sum>t\<leftarrow>ts. task_work (rt_pc t))"
proof (induction ts arbitrary: i)
  case (Cons t ts)
  then show ?case by (cases i) auto
qed simp

text \<open>While \<open>handle\<close> waits, every step uses up some of the work and leaves \<open>handle\<close> waiting or lets it return.\<close>

lemma http_drain_step:
  assumes inv: "http_inv s" and m: "ht_mode s \<in> {Draining, Closed}" and t: "http_exec client what a s = Some t"
  shows "http_work t < http_work s \<and> ht_mode t \<in> {Draining, Closed}"
proof -
  have pend: "ht_pending s = []" and r: "ht_mode s \<noteq> Reading" "ht_mode s \<noteq> Aborted" using inv m by (auto simp: http_inv_def input_ok_def)
  have goto: "(\<Sum>t\<leftarrow>ht_tasks (task_goto i p s). task_work (rt_pc t)) < (\<Sum>t\<leftarrow>ht_tasks s. task_work (rt_pc t))"
    if "task_pc i s = Some q" "task_work p < task_work q" for i p q
    using that work_update [of i "ht_tasks s" p] by (auto simp: task_pc_def task_goto_def split: if_splits)
  have n: "n \<le> length response_bytes" if "task_pc i s = Some (Sending n)" for i n
  proof -
    obtain k where "tasks_at k (ht_tasks s)" using inv by (auto simp: http_inv_def)
    with sending_current that show ?thesis by (auto simp: task_pc_def split: if_splits)
  qed
  show ?thesis
  proof (cases a)
    case Http_locked
    with t r have "http_locked s = Some t" by simp
    then show ?thesis using goto [of _ Locking "Sending 0"] m
      by (auto simp: http_locked_def http_work_def task_goto_def split: option.splits holder.splits if_splits)
  next
    case (Http_write i m')
    with t obtain k where "task_pc i s = Some (Sending k)" "0 < m'" "k + m' \<le> length response_bytes" "t = http_write i k m' s"
      by (auto split: option.splits respond_pc.splits if_splits)
    with goto [of i "Sending k" "Sending (k + m')"] m show ?thesis by (auto simp: http_write_def http_work_def task_goto_def)
  next
    case (Http_sent i)
    with t obtain k where "task_pc i s = Some (Sending k)" "t = http_sent client i k s"
      by (auto split: option.splits respond_pc.splits if_splits)
    with goto [of i "Sending k" "Responded k"] n [of i k] m show ?thesis
      by (auto simp: http_sent_def http_work_def task_goto_def)
  next
    case (Http_send_error i e)
    with t obtain k where "task_pc i s = Some (Sending k)" "t = http_send_error what e i k s"
      by (auto split: option.splits respond_pc.splits if_splits)
    with goto [of i "Sending k" "Responded k"] n [of i k] m show ?thesis
      by (auto simp: http_send_error_def http_work_def task_goto_def)
  qed (use t pend r in auto)
qed

lemma http_drain_run:
  "run_acts (http_exec client what) as s = Some t \<Longrightarrow> http_inv s \<Longrightarrow> ht_mode s \<in> {Draining, Closed} \<Longrightarrow>
   length as + http_work t \<le> http_work s \<and> http_inv t \<and> ht_mode t \<in> {Draining, Closed}"
proof (induction as arbitrary: s)
  case (Cons a as)
  then obtain u where u: "http_exec client what a s = Some u" "run_acts (http_exec client what) as u = Some t"
    by (auto split: option.splits)
  from http_drain_step [OF Cons.prems(2,3) u(1)] Cons.IH [OF u(2) http_inv_exec [OF Cons.prems(2) u(1)]] show ?case by auto
qed simp

text \<open>What a waiting \<open>handle\<close> waits for: its own lock operation, that of one task, or one send.\<close>

lemma http_drain_next:
  assumes inv: "http_inv s" and m: "ht_mode s = Draining"
  shows "http_exec client what Http_locked s \<noteq> None \<or>
    (\<exists>i. http_exec client what (Http_sent i) s \<noteq> None \<and> (\<forall>e. http_exec client what (Http_send_error i e) s \<noteq> None))"
proof -
  obtain k where k: "tasks_at k (ht_tasks s)" "lock_at k s" using inv by (auto simp: http_inv_def)
  show ?thesis
  proof (cases "k < length (ht_tasks s)")
    case True
    then consider "rt_pc (ht_tasks s ! k) = Locking" | n where "rt_pc (ht_tasks s ! k) = Sending n"
      using k(1) by (auto simp: tasks_at_def)
    then show ?thesis
    proof cases
      case 1
      then show ?thesis using lock_holder [OF k(2)] True m by (simp add: http_locked_def task_pc_def)
    next
      case (2 n)
      then have "task_pc k s = Some (Sending n)" using True by (simp add: task_pc_def)
      then have "http_exec client what (Http_sent k) s \<noteq> None" "http_exec client what (Http_send_error k e) s \<noteq> None" for e
        using m by simp_all
      then show ?thesis by blast
    qed
  next
    case False
    then show ?thesis using lock_holder [OF k(2)] m by (simp add: http_locked_def)
  qed
qed

text \<open>
  C38: \<open>handle\<close> does return. After the end of the input nothing is left but the tasks that were called: a run of their steps has
  at most the number of steps that \<open>http_work\<close> counts (the lock, a byte each, the end of the send), whether sends return the whole, fall short or
  throw; until \<open>handle\<close> has returned there is always a lock operation that can return, or a send under way whose end, by return or by exception,
  the run can go on with; and so a run that cannot go on has returned from \<open>handle\<close>, all tasks ended.
\<close>

theorem http_drains:
  assumes "reach (\<lambda>s. s = http_start) (act_step (http_exec client what)) s" "ht_mode s = Draining"
    and "run_acts (http_exec client what) as s = Some t"
  shows "length as \<le> http_work s \<and> ht_mode t \<in> {Draining, Closed} \<and>
    (ht_mode t = Draining \<longrightarrow> http_exec client what Http_locked t \<noteq> None \<or>
       (\<exists>i. http_exec client what (Http_sent i) t \<noteq> None \<and> (\<forall>e. http_exec client what (Http_send_error i e) t \<noteq> None))) \<and>
    ((\<forall>a. http_exec client what a t = None) \<longrightarrow> ht_mode t = Closed \<and> (\<forall>x\<in>set (ht_tasks t). task_ended (rt_pc x)))"
proof -
  have "http_inv s" by (rule http.reach_inv [OF assms(1)])
  from http_drain_run [OF assms(3) this] assms(2)
  have t: "length as \<le> http_work s" "http_inv t" "ht_mode t \<in> {Draining, Closed}" by auto
  note nxt = http_drain_next [OF t(2), of client what]
  have "\<forall>x\<in>set (ht_tasks t). task_ended (rt_pc x)" if c: "ht_mode t = Closed"
  proof -
    obtain k where k: "tasks_at k (ht_tasks t)" "lock_at k t" using t(2) by (auto simp: http_inv_def)
    then have "k = length (ht_tasks t)" using c by (simp add: lock_at_def)
    then have "\<forall>i<length (ht_tasks t). task_ended (rt_pc (ht_tasks t ! i))" using k(1) by (auto simp: tasks_at_def)
    then show ?thesis by (metis in_set_conv_nth)
  qed
  moreover have "ht_mode t = Closed" if "\<forall>a. http_exec client what a t = None"
    using nxt that t(3) by (metis empty_iff insert_iff)
  ultimately show ?thesis using t(1,3) nxt by meson
qed

lemmas http_steps = http_start_def http_recv_def http_scan_def http_respond_def scan_byte_def http_locked_def task_pc_def task_goto_def
  http_write_def http_sent_def http_send_error_def

text \<open>
  But an exception of \<open>recv\<close> leaves \<open>handle\<close> without waiting: the socket and the mutex are destroyed while tasks still send
  on the one and hold the other.
\<close>

lemma http_abort_dangles:
  "\<exists>s. run_acts (http_exec client what) [Http_recv [10, 10], Http_scan, Http_scan, Http_locked, Http_write 0 5, Http_recv_error e] http_start = Some s \<and>
     ht_mode s = Aborted \<and> map rt_pc (ht_tasks s) = [Sending 5] \<and> http_dangling s"
  by (simp add: http_steps http_dangling_def response_bytes_def g_response_def)

text \<open>
  A request in two pieces and another one; the first response is half sent when the second request is read, so that the second task has to
  wait. Then either both are sent in full, or the send of the second throws.
\<close>

definition http_demo :: "http_act list" where
  "http_demo =
     [Http_recv [71, 13, 10, 13], Http_scan, Http_scan, Http_scan, Http_scan, Http_recv [10, 10], Http_scan, Http_locked, Http_write 0 100,
      Http_scan, Http_recv [10], Http_scan, Http_recv []]"

definition http_demo_good :: "http_act list" where
  "http_demo_good = [Http_write 0 58, Http_sent 0, Http_locked, Http_write 1 158, Http_sent 1, Http_locked]"

definition http_demo_bad :: "http_act list" where
  "http_demo_bad = [Http_write 0 58, Http_sent 0, Http_locked, Http_write 1 3, Http_send_error 1 (system_error ec_none ''send''), Http_locked]"

lemma length_response: "length response_bytes = 158"
  by (simp add: response_bytes_def g_response_def crlf_def)

lemma http_demo_run:
  "\<exists>s. run_acts (http_exec client what) http_demo http_start = Some s \<and> ht_mode s = Draining \<and>
     ht_tasks s = [\<lparr>rt_pc = Sending 100, rt_at = 5\<rparr>, \<lparr>rt_pc = Locking, rt_at = 7\<rparr>] \<and> ht_received s = [71, 13, 10, 13, 10, 10, 10] \<and>
     ht_lock s = (Some (Responder 0), [Responder 1, Handler])"
  by (simp add: http_demo_def http_steps length_response)

lemma http_reach:
  "run_acts (http_exec client what) as http_start = Some s \<Longrightarrow> reach (\<lambda>s. s = http_start) (act_step (http_exec client what)) s"
  by (rule run_acts_reach) (auto intro: reach.reach_init)

theorem http_responses_witness:
  "\<exists>s. run_acts (http_exec ''c'' exn_what) (http_demo @ http_demo_good) http_start = Some s \<and> ht_mode s = Closed \<and>
     map snd (ht_out s) = response_bytes @ response_bytes"
proof -
  obtain s0 where s0: "run_acts (http_exec ''c'' exn_what) http_demo http_start = Some s0" "ht_mode s0 = Draining"
    "ht_tasks s0 = [\<lparr>rt_pc = Sending 100, rt_at = 5\<rparr>, \<lparr>rt_pc = Locking, rt_at = 7\<rparr>]" "ht_received s0 = [71, 13, 10, 13, 10, 10, 10]"
    "ht_lock s0 = (Some (Responder 0), [Responder 1, Handler])" using http_demo_run by blast
  obtain s where s: "run_acts (http_exec ''c'' exn_what) http_demo_good s0 = Some s" "ht_mode s = Closed"
    "map rt_pc (ht_tasks s) = [Responded 158, Responded 158]" "ht_received s = [71, 13, 10, 13, 10, 10, 10]"
    using s0(2-) by (simp add: http_demo_good_def http_steps length_response short_message_def)
  have r: "run_acts (http_exec ''c'' exn_what) (http_demo @ http_demo_good) http_start = Some s"
    using s0(1) s(1) by (simp add: run_acts_append)
  have "\<forall>p\<in>set (map rt_pc (ht_tasks s)). pc_sent p = length response_bytes" unfolding s(3) by (simp add: length_response)
  then have w: "\<forall>t\<in>set (ht_tasks s). pc_sent (rt_pc t) = length response_bytes" by simp
  have "requests (ht_received s) = 2" unfolding s(4) by (simp add: requests_def)
  with http_responses [OF http_reach [OF r]] s(2) w have "map snd (ht_out s) = concat (replicate 2 response_bytes)" by auto
  with r s(2) show ?thesis by (auto simp: numeral_2_eq_2)
qed

theorem http_drains_witness:
  "\<exists>s t. run_acts (http_exec ''c'' exn_what) http_demo http_start = Some s \<and> ht_mode s = Draining \<and>
     run_acts (http_exec ''c'' exn_what) http_demo_bad s = Some t \<and> length http_demo_bad \<le> http_work s \<and> ht_mode t = Closed"
proof -
  obtain s0 where s0: "run_acts (http_exec ''c'' exn_what) http_demo http_start = Some s0" "ht_mode s0 = Draining"
    "ht_tasks s0 = [\<lparr>rt_pc = Sending 100, rt_at = 5\<rparr>, \<lparr>rt_pc = Locking, rt_at = 7\<rparr>]" "ht_received s0 = [71, 13, 10, 13, 10, 10, 10]"
    "ht_lock s0 = (Some (Responder 0), [Responder 1, Handler])" using http_demo_run by blast
  obtain s where s: "run_acts (http_exec ''c'' exn_what) http_demo_bad s0 = Some s" "ht_mode s = Closed"
    using s0(2-) by (simp add: http_demo_bad_def http_steps length_response)
  from http_drains [OF http_reach [OF s0(1)] s0(2) s(1)] s0 s show ?thesis by blast
qed

section \<open>The server\<close>

text \<open>
  The beginning of \<open>server\<close> on Unix: the listening socket, or the exception that leaves it, with the socket closed as the stack
  unwinds. The result of \<open>set\<close> is ignored.
\<close>

definition http_close :: "'k usys \<Rightarrow> int socket \<Rightarrow> exn \<Rightarrow> 'k \<Rightarrow> ((exn + int socket) \<times> 'k) option" where
  "http_close U s x k = map_option (\<lambda>(_, k'). (Inl x, k')) (socket_close_unix U s k)"

definition http_listen ::
  "unix \<Rightarrow> 'k usys \<Rightarrow> net_abi \<Rightarrow> int \<Rightarrow> string \<Rightarrow> sockaddr \<Rightarrow> int \<Rightarrow> 'k \<Rightarrow> ((exn + int socket) \<times> 'k) option" where
  "http_listen u U A einval past junk context k =
     (case endpoint_make A einval past junk ''127.0.0.1'' 8080 of
        Inl x \<Rightarrow> Some (Inl x, k)
      | Inr e \<Rightarrow>
          (case tcp_socket_unix U A junk context (endpoint_family A e) k of
             (Inl x, k1) \<Rightarrow> Some (Inl x, k1)
           | (Inr s, k1) \<Rightarrow>
               (case socket_set_option u U A (option_bool Reuse_address True) s k1 of (_, k2) \<Rightarrow>
                  (case socket_bind_unix U e s k2 of
                     None \<Rightarrow> None
                   | Some (Inl x, k3) \<Rightarrow> http_close U s x k3
                   | Some (Inr s', k3) \<Rightarrow>
                       (case tcp_listen_unix u U A 0 s' k3 of
                          (Inl x, k4) \<Rightarrow> http_close U s' x k4
                        | (Inr _, k4) \<Rightarrow> Some (Inr s', k4))))))"

end
