(* ===== verification/Ice_Server.thy ===== *)
theory Ice_Server
  imports Ice_Http Ice_Context
begin

text \<open>
  The accept loop of the HTTP test server and \<open>main\<close> (src/main.cpp). The loop awaits one \<open>accept\<close> operation of \<open>Ice_Tcp\<close> after
  another, each by the protocol of \<open>Ice_Event\<close>, and gives every socket to a \<open>handle\<close> task (\<open>Ice_Http\<close>); an exception
  leaves it through the scope guard that stops the context (\<open>Ice_Context\<close>).
\<close>

section \<open>The accept loop\<close>

datatype server_pc = Serving "int socket" | Server_gone

text \<open>
  The listening socket, the \<open>accept\<close> that is awaited with the world it runs in, the sockets given to \<open>handle\<close>, the calls of \<open>context.stop\<close>, what was
  printed on stderr.
\<close>

record 'k server =
  sv_pc :: server_pc
  sv_await :: "(accept_op \<times> 'k world) awaiting"
  sv_clients :: "int socket list"
  sv_stops :: nat
  sv_cerr :: string

text \<open>\<open>socket.accept()\<close>: a new operation; \<open>junk\<close> is what its storage holds before.\<close>

definition server_accept :: "unix \<Rightarrow> sockaddr \<Rightarrow> int socket \<Rightarrow> 'k world \<Rightarrow> (accept_op \<times> 'k world) awaiting" where
  "server_accept u junk sock w = await_start (accept_make (Unix u) junk sock, w)"

definition server_start :: "unix \<Rightarrow> sockaddr \<Rightarrow> int socket \<Rightarrow> 'k world \<Rightarrow> 'k server" where
  "server_start u junk sock w =
     \<lparr>sv_pc = Serving sock, sv_await = server_accept u junk sock w, sv_clients = [], sv_stops = 0, sv_cerr = []\<rparr>"

text \<open>An exception leaves the body: the scope guard runs, then the promise's \<open>unhandled_exception\<close> prints.\<close>

definition server_leave :: "(exn \<Rightarrow> string) \<Rightarrow> exn \<Rightarrow> 'k server \<Rightarrow> 'k server" where
  "server_leave what x s =
     s\<lparr>sv_pc := Server_gone, sv_stops := sv_stops s + 1, sv_cerr := sv_cerr s @ task_finish what (Inl (Sys_exn x))\<rparr>"

text \<open>
  The awaiter goes on: the result of \<open>accept\<close> is thrown, closing the listening socket, or given to \<open>handle\<close>, and the loop begins
  again. What \<open>handle\<close> does before it suspends is a change of the world.
\<close>

definition server_continue ::
  "unix \<Rightarrow> 'k usys \<Rightarrow> (exn \<Rightarrow> string) \<Rightarrow> sockaddr \<Rightarrow> int socket \<Rightarrow> 'k server \<Rightarrow> 'k server option" where
  "server_continue u U what junk sock s =
     (case aw_state (sv_await s) of (e, w) \<Rightarrow>
        (case accept_await_resume e of
           Inr client \<Rightarrow>
             Some (s\<lparr>sv_clients := sv_clients s @ [client], sv_await := server_accept u junk sock w\<rparr>)
         | Inl x \<Rightarrow>
             (case socket_close_unix U sock (w_kern w) of
                None \<Rightarrow> None
              | Some (_, k) \<Rightarrow>
                  Some (server_leave what x (s\<lparr>sv_await := (sv_await s)\<lparr>aw_state := (e, w\<lparr>w_kern := k\<rparr>)\<rparr>\<rparr>)))))"

datatype 'k server_act = Server_await "'k world await_act" | Server_continue sockaddr

fun server_exec ::
  "unix \<Rightarrow> 'k usys \<Rightarrow> net_abi \<Rightarrow> nat \<Rightarrow> ('k \<Rightarrow> int list) \<Rightarrow> (exn \<Rightarrow> string) \<Rightarrow>
   'k server_act \<Rightarrow> 'k server \<Rightarrow> 'k server option" where
  "server_exec u U A this acc what (Server_await a) s =
     (case sv_pc s of
        Server_gone \<Rightarrow> None
      | Serving sock \<Rightarrow>
          map_option (\<lambda>m. s\<lparr>sv_await := m\<rparr>)
            (await_exec (accept_ready U A) (accept_suspend u U this) (accept_resume U A) (event_remove u U) (accept_env acc)
               a (sv_await s)))"
| "server_exec u U A this acc what (Server_continue junk) s =
     (case sv_pc s of
        Server_gone \<Rightarrow> None
      | Serving sock \<Rightarrow>
          if aw_mode (sv_await s) = Continued then server_continue u U what junk sock s else None)"

section \<open>The beginning of server, and main\<close>

text \<open>\<open>server\<close> up to its first suspension, or to the exception that leaves it.\<close>

definition server_begin ::
  "unix \<Rightarrow> 'k usys \<Rightarrow> net_abi \<Rightarrow> int \<Rightarrow> string \<Rightarrow> sockaddr \<Rightarrow> (exn \<Rightarrow> string) \<Rightarrow> int \<Rightarrow> 'k world \<Rightarrow> 'k server option" where
  "server_begin u U A einval past junk what context w =
     (case http_listen u U A einval past junk context (w_kern w) of
        None \<Rightarrow> None
      | Some (Inr sock, k) \<Rightarrow> Some (server_start u junk sock (w\<lparr>w_kern := k\<rparr>))
      | Some (Inl x, k) \<Rightarrow>
          Some (server_leave what x (server_start u junk (socket_empty junk (-1) context) (w\<lparr>w_kern := k\<rparr>))))"

text \<open>What \<open>main\<close> prints for an exception of the constructor or of \<open>run\<close>.\<close>

definition main_catch :: "(exn \<Rightarrow> string) \<Rightarrow> exn \<Rightarrow> string" where
  "main_catch what x = what x @ [CHR 0x0A]"

text \<open>\<open>main\<close> up to the call of \<open>run\<close>: the context and the server, or what is printed.\<close>

definition main_begin ::
  "unix \<Rightarrow> 'k usys \<Rightarrow> net_abi \<Rightarrow> int \<Rightarrow> string \<Rightarrow> sockaddr \<Rightarrow> (exn \<Rightarrow> string) \<Rightarrow> 'k world \<Rightarrow> (string + ice_context \<times> 'k server) option" where
  "main_begin u U A einval past junk what w =
     (case context_make_unix u U (w_kern w) of
        None \<Rightarrow> None
      | Some (Inl x, k) \<Rightarrow> Some (Inl (main_catch what x))
      | Some (Inr c, k) \<Rightarrow>
          map_option (\<lambda>s. Inr (c, s)) (server_begin u U A einval past junk what (ctx_handle c) (w\<lparr>w_kern := k\<rparr>)))"

text \<open>What the server has done to the context by the time it has left: its calls of \<open>stop\<close>.\<close>

definition stop_acts :: "nat \<Rightarrow> 'k run_act list" where
  "stop_acts n = concat (replicate n [Stop_flag, Stop_interrupt])"

section \<open>No connection is lost or handled twice\<close>

text \<open>
  The descriptors handed out are those of the sockets given to \<open>handle\<close>, in order, and of the operation that has just ended.
\<close>

definition server_inv ::
  "unix \<Rightarrow> 'k usys \<Rightarrow> ('k \<Rightarrow> int list) \<Rightarrow> int \<Rightarrow> int list \<Rightarrow> 'k server \<Rightarrow> bool" where
  "server_inv u U acc context acc0 s \<longleftrightarrow>
     (\<forall>c\<in>set (sv_clients s). sk_handle c \<noteq> -1 \<and> sk_context c = context) \<and>
     (let taken = acc0 @ map sk_handle (sv_clients s); m = sv_await s in
      case sv_pc s of
        Serving sock \<Rightarrow>
          sk_context sock = context \<and> sv_stops s = 0 \<and>
          (case aw_mode m of
             Before \<Rightarrow> accept_inv u U acc context taken (aw_state m) \<and> aw_wakes m = 0
           | Suspended \<Rightarrow> accept_inv u U acc context taken (aw_state m) \<and> aw_wakes m = 0
           | Continued \<Rightarrow> accept_post acc context taken (aw_state m) \<and> aw_wakes m = 1)
      | Server_gone \<Rightarrow> sv_stops s = 1 \<and> acc (w_kern (snd (aw_state m))) = taken)"

definition server_ok :: "unix \<Rightarrow> 'k usys \<Rightarrow> ('k \<Rightarrow> int list) \<Rightarrow> bool" where
  "server_ok u U acc \<longleftrightarrow>
     accept_ok U acc \<and> register_ok u U (\<lambda>k k'. acc k' = acc k) \<and> (\<forall>h k. acc (snd (snd (sys_close U h k))) = acc k)"

lemma accept_inv_make:
  assumes "server_ok u U acc" "acc (w_kern w) = taken" "sk_context sock = context"
  shows "accept_inv u U acc context taken (accept_make (Unix u) junk sock, w)"
  using assms by (simp add: server_ok_def accept_inv_def accept_make_def event_make_def event.defs accept_op.defs socket_empty_def)

lemma server_inv_start:
  "server_ok u U acc \<Longrightarrow> server_inv u U acc (sk_context sock) (acc (w_kern w)) (server_start u junk sock w)"
  by (simp add: server_inv_def server_start_def server_accept_def await_start_def accept_inv_make)

lemma server_inv_continue:
  assumes ok: "server_ok u U acc" and inv: "server_inv u U acc context acc0 s"
    and pc: "sv_pc s = Serving sock" "aw_mode (sv_await s) = Continued"
    and step: "server_continue u U what junk sock s = Some t"
  shows "server_inv u U acc context acc0 t"
proof -
  obtain e w where st: "aw_state (sv_await s) = (e, w)" by (metis prod.exhaust)
  let ?taken = "acc0 @ map sk_handle (sv_clients s)"
  have post: "accept_post acc context ?taken (e, w)" and s: "sk_context sock = context" "sv_stops s = 0"
    "\<forall>c\<in>set (sv_clients s). sk_handle c \<noteq> -1 \<and> sk_context c = context"
    using inv pc st by (simp_all add: server_inv_def Let_def)
  show ?thesis
  proof (cases "ec_bool (ev_ec e)")
    case True
    with step st obtain sock' k where c: "socket_close_unix U sock (w_kern w) = Some (sock', k)"
      and t: "t = server_leave what (system_error (ev_ec e) ''accept tcp socket'') (s\<lparr>sv_await := (sv_await s)\<lparr>aw_state := (e, w\<lparr>w_kern := k\<rparr>)\<rparr>\<rparr>)"
      by (auto simp: server_continue_def accept_await_resume_def split: option.splits)
    have "acc k = acc (w_kern w)"
      using c ok close_loop_keeps [of U "sk_handle sock" "w_kern w" k acc]
      by (auto simp: socket_close_unix_def server_ok_def split: if_splits)
    with post True s t show ?thesis by (simp add: server_inv_def server_leave_def accept_post_def)
  next
    case False
    with step st have t: "t = s\<lparr>sv_clients := sv_clients s @ [fst (socket_move (-1) (ac_client e))],
        sv_await := server_accept u junk sock w\<rparr>"
      by (simp add: server_continue_def accept_await_resume_def)
    with post False s pc accept_inv_make [OF ok _ s(1)] show ?thesis
      by (auto simp: server_inv_def server_accept_def await_start_def accept_post_def socket_move_def)
  qed
qed

lemma server_inv_exec:
  assumes ok: "server_ok u U acc" and inv: "server_inv u U acc context acc0 s"
    and step: "server_exec u U A this acc what a s = Some t"
  shows "server_inv u U acc context acc0 t"
proof -
  from step obtain sock where pc: "sv_pc s = Serving sock" by (cases a; cases "sv_pc s") auto
  show ?thesis
  proof (cases a)
    case (Server_continue junk)
    with step pc have "aw_mode (sv_await s) = Continued" "server_continue u U what junk sock s = Some t"
      by (auto split: if_splits)
    from server_inv_continue [OF ok inv pc this] show ?thesis .
  next
    case (Server_await b)
    with step pc obtain m where m: "await_exec (accept_ready U A) (accept_suspend u U this) (accept_resume U A) (event_remove u U)
        (accept_env acc) b (sv_await s) = Some m" and t: "t = s\<lparr>sv_await := m\<rparr>" by auto
    let ?taken = "acc0 @ map sk_handle (sv_clients s)"
    have "tcp_accept.await_inv u U acc context ?taken (sv_await s)"
      using inv pc by (simp add: tcp_accept.await_inv_def server_inv_def Let_def)
    from tcp_accept.await_inv_step [OF this m] inv pc t show ?thesis
      by (simp add: tcp_accept.await_inv_def server_inv_def Let_def)
  qed
qed

interpretation accept_loop: invariant_system "\<lambda>s. s = server_start u junk sock w" "act_step (server_exec u U A this acc what)"
    "\<lambda>s. server_ok u U acc \<longrightarrow> server_inv u U acc (sk_context sock) (acc (w_kern w)) s"
  for u junk sock w U A this acc what
  by unfold_locales (blast intro: server_inv_start server_inv_exec)+

text \<open>
  C36: the accept loop neither loses a connection nor handles one twice. At any time the descriptors that the system has handed out since the
  server began are, in order, those of the sockets given to \<open>handle\<close>, and while the awaiter has not yet gone on, the one of the \<open>accept\<close> that
  just succeeded. The context is stopped once if an exception has left the server, and else not at all.
\<close>

theorem server_accepts:
  assumes "accept_ok U acc" "register_ok u U (\<lambda>k k'. acc k' = acc k)" "\<forall>h k. acc (snd (snd (sys_close U h k))) = acc k"
    and "reach (\<lambda>s. s = server_start u junk sock w) (act_step (server_exec u U A this acc what)) s"
  shows "\<exists>last. acc (w_kern (snd (aw_state (sv_await s)))) = acc (w_kern w) @ map sk_handle (sv_clients s) @ last \<and>
      (last = [] \<or> aw_mode (sv_await s) = Continued \<and> sv_pc s \<noteq> Server_gone \<and>
         last = [sk_handle (ac_client (fst (aw_state (sv_await s))))]) \<and>
      (\<forall>c\<in>set (sv_clients s). sk_handle c \<noteq> -1 \<and> sk_context c = sk_context sock) \<and>
      sv_stops s = (if sv_pc s = Server_gone then 1 else 0)"
proof -
  have inv: "server_inv u U acc (sk_context sock) (acc (w_kern w)) s"
    using accept_loop.reach_inv [OF assms(4)] assms(1-3) by (simp add: server_ok_def)
  obtain e v where st: "aw_state (sv_await s) = (e, v)" by (metis prod.exhaust)
  show ?thesis
  proof (cases "sv_pc s")
    case Server_gone
    with inv show ?thesis by (intro exI [of _ "[]"]) (simp add: server_inv_def Let_def)
  next
    case (Serving sock')
    show ?thesis
    proof (cases "aw_mode (sv_await s) = Continued \<and> \<not> ec_bool (ev_ec e)")
      case True
      with inv Serving st show ?thesis
        by (intro exI [of _ "[sk_handle (ac_client e)]"]) (simp add: server_inv_def accept_post_def Let_def)
    next
      case False
      with inv Serving st show ?thesis
        by (intro exI [of _ "[]"]; cases "aw_mode (sv_await s)")
          (simp_all add: server_inv_def accept_post_def accept_inv_def Let_def)
    qed
  qed
qed

text \<open>One connection after a wait, then an error: there are too many open files.\<close>

definition busy_unix :: "(int list \<times> nat) usys" where
  "busy_unix = failing_unix
     \<lparr>sys_epoll_ctl := \<lambda>_ _ _ _ k. (0, 0, k),
      sys_close := \<lambda>_ k. (0, 0, k),
      sys_accept4 := \<lambda>fd a n (given, calls).
        if calls = 0 then (-1, 11, a, n, given, 1)
        else if calls = 1 then (9, 0, a\<lparr>sa_port := 5\<rparr>, 16, given @ [9], 2)
        else (-1, 24, a, n, given, calls + 1)\<rparr>"

lemma busy_ok: "accept_ok busy_unix fst" "register_ok Linux busy_unix (\<lambda>k k'. fst k' = fst k)"
  "\<forall>h k. fst (snd (snd (sys_close busy_unix h k))) = fst k"
  by (auto simp: accept_ok_def register_ok_def busy_unix_def failing_unix_def)

definition server_demo :: "(int list \<times> nat) server_act list" where
  "server_demo =
     [Server_await (Co_await 5), Server_await Dispatch, Server_continue (ep_storage demo_endpoint), Server_await (Co_await 5),
      Server_continue (ep_storage demo_endpoint)]"

theorem server_accepts_witness:
  "\<exists>s. run_acts (server_exec Linux busy_unix demo_abi 100 fst exn_what) server_demo
         (server_start Linux (ep_storage demo_endpoint) pipe_socket \<lparr>w_mem = \<lambda>_. 0, w_kern = ([], 0)\<rparr>) = Some s \<and>
       sv_pc s = Server_gone \<and> sv_stops s = 1 \<and> map sk_handle (sv_clients s) = [9]"
proof -
  let ?exec = "server_exec Linux busy_unix demo_abi 100 fst exn_what"
  let ?s0 = "server_start Linux (ep_storage demo_endpoint) pipe_socket \<lparr>w_mem = \<lambda>_. 0 :: byte, w_kern = ([] :: int list, 0 :: nat)\<rparr>"
  obtain s where s: "run_acts ?exec server_demo ?s0 = Some s" "sv_pc s = Server_gone"
    "fst (w_kern (snd (aw_state (sv_await s)))) = [9]"
    by (simp add: server_demo_def server_start_def server_accept_def server_continue_def server_leave_def await_start_def accept_make_def pipe_socket_def
        socket_empty_def event_make_def event.defs accept_op.defs accept_ready_def busy_unix_def failing_unix_def handle_reset_unix_def
        event_await_suspend_def accept_suspend_def queue_defs await_end_def event_await_resume_def event_remove_def
        event_remove_linux_def accept_resume_def Let_def accept_await_resume_def socket_move_def endpoint_copy_def
        socket_close_unix_def close_loop.simps ec_bool_errno)
  have "reach (\<lambda>s. s = ?s0) (act_step ?exec) s"
    by (rule run_acts_reach [OF s(1)]) (simp add: reach_init)
  from server_accepts [OF busy_ok this] s show ?thesis by auto
qed

section \<open>main returns when the server has left\<close>

lemma server_begin_outcome:
  assumes "http_listen u U A einval past junk context (w_kern w) = Some (r, k)"
  shows "\<exists>s. server_begin u U A einval past junk what context w = Some s \<and>
    (case r of
       Inl x \<Rightarrow> sv_pc s = Server_gone \<and> sv_stops s = 1 \<and> sv_cerr s = task_finish what (Inl (Sys_exn x))
     | Inr sock \<Rightarrow> sv_pc s = Serving sock \<and> sv_stops s = 0 \<and> sv_cerr s = [])"
  using assms by (cases r) (simp_all add: server_begin_def server_leave_def server_start_def)

text \<open>The steps of the thread in \<open>run\<close> and of the kernel, after the stops.\<close>

fun running :: "'k run_act \<Rightarrow> bool" where
  "running (Step t) = True"
| "running (Kernel k) = True"
| "running _ = False"

lemma run_entry_keeps_stops [simp]:
  "cm_stops (run_entry es i t m) = cm_stops m" "cm_stopping (run_entry es i t m) = cm_stopping m"
  by (cases es; simp add: run_goto_def)+

lemma running_keeps_stops:
  "run_acts (context_exec wait wakes interrupt env) as m = Some m' \<Longrightarrow> list_all running as \<Longrightarrow>
   cm_stops m' = cm_stops m \<and> cm_stopping m' = cm_stopping m"
proof (induction as arbitrary: m)
  case (Cons a as)
  from Cons.prems(1) obtain m1 where m1: "context_exec wait wakes interrupt env a m = Some m1"
    "run_acts (context_exec wait wakes interrupt env) as m1 = Some m'" by (auto split: option.splits)
  have "cm_stops m1 = cm_stops m \<and> cm_stopping m1 = cm_stopping m"
    using m1(1) Cons.prems(2)
    by (cases a) (auto simp: run_defs run_goto_def split: run_pc.splits if_splits prod.splits wait_result.splits)
  with Cons.IH [OF m1(2)] Cons.prems(2) show ?case by simp
qed simp

lemma stop_acts_run:
  "run_acts (context_exec wait wakes interrupt env) (stop_acts n) m =
     Some (m\<lparr>cm_state := (if n = 0 then cm_state m else cm_state m OR stop_requested_flag),
       cm_kern := (interrupt ^^ n) (cm_kern m), cm_stops := cm_stops m + n\<rparr>)"
proof (induction n arbitrary: m)
  case 0
  then show ?case by (simp add: stop_acts_def)
next
  case (Suc n)
  then show ?case by (simp add: stop_acts_def fetch_stop_def funpow_swap1 or.assoc)
qed

text \<open>
  If the server has left before \<open>main\<close> calls \<open>run\<close>, because the address is taken or for another reason, then \<open>run\<close> does not block:
  wherever it can make no further step, it has returned.
\<close>

lemma main_returns:
  assumes "wake_ok wait wakes interrupt env pending"
    and "sv_stops s = 1"
    and "run_acts (context_exec wait wakes interrupt env) (stop_acts (sv_stops s) @ Run 0 # as) (context_start k) = Some m"
    and "list_all running as" "\<forall>t. context_exec wait wakes interrupt env (Step t) m = None"
  shows "\<forall>t. cm_pc m t = Idle \<or> (\<exists>r. cm_pc m t = Returned r)"
proof -
  let ?exec = "context_exec wait wakes interrupt env"
  obtain m0 where m0: "run_acts ?exec (stop_acts (sv_stops s) @ [Run 0]) (context_start k) = Some m0"
    "cm_stops m0 = 1" "cm_stopping m0 = 0" "run_acts ?exec as m0 = Some m"
    using assms(2,3) by (auto simp: run_acts_append stop_acts_run context_start_def run_begin_def run_goto_def)
  have r: "reach (\<lambda>m. m = context_start k) (act_step ?exec) m"
    by (rule run_acts_reach [OF assms(3)]) (simp add: reach_init)
  have "wake_inv pending m" using context_stop.reach_inv [OF r] assms(1) by blast
  moreover have "0 < cm_stops m" "cm_stopping m = 0" using running_keeps_stops [OF m0(4) assms(4)] m0 by simp_all
  ultimately show ?thesis using stop_strands_none [OF assms(1) _ _ _ assms(5)] by blast
qed

text \<open>On Linux it returns without an exception after one wait.\<close>

lemma main_returns_linux:
  "\<exists>m. run_acts (context_exec (context_wait_unix eventfd_unix demo_context 1) (\<lambda>k. k \<noteq> None)
           (context_interrupt_unix Linux eventfd_unix demo_context) (=))
         (stop_acts 1 @ Run 0 # replicate 8 (Step 0)) (context_start None) = Some m \<and> cm_pc m 0 = Returned (Inr ()) \<and> cm_state m = 1"
  by (simp add: stop_acts_def numeral_eq_Suc context_start_def run_defs run_goto_def context_wait_unix_def context_interrupt_unix_def
      eventfd_calls ice_const fetch_stop_def)

end
