(* ===== verification/Ice_Benchmark.thy ===== *)
theory Ice_Benchmark
  imports Ice_Objects Ice_Async
begin

text \<open>
  The benchmark program src/benchmark.cpp: a task that awaits \<open>context.schedule(queue)\<close> in a loop and then stops the context, started before the same
  thread calls \<open>run\<close>. It composes the event loop of \<open>Ice_Context\<close> with a coroutine that goes back to the kernel from inside a
  dispatch. How often the library's measuring loop is repeated is a parameter. What the program needs of a platform is the locale
  \<open>scheduler\<close>; Linux and Windows provide it. What \<open>kevent\<close> makes of the flags of a registration that is added again is not
  documented, so FreeBSD is left out.
\<close>

section \<open>The program\<close>

text \<open>The platform: the constructor of \<open>schedule\<close> (is the context current, queue), its \<open>suspend\<close>, \<open>remove\<close>, and the context's calls.\<close>

record 'w platform =
  pf_make :: "bool \<Rightarrow> bool \<Rightarrow> schedule_op"
  pf_suspend :: "(schedule_op, 'w) op_call"
  pf_remove :: "schedule_op \<times> 'w \<Rightarrow> schedule_op \<times> 'w"
  pf_wait :: "'w \<Rightarrow> wait_result \<times> 'w"
  pf_wakes :: "'w \<Rightarrow> bool"
  pf_interrupt :: "'w \<Rightarrow> 'w"

text \<open>
  The thread, the repetitions the measuring loop has left after the one it is in, the operation awaited, the awaits that have returned, how often the
  task was suspended, and what was printed.
\<close>

record 'w bench =
  bn_run :: "'w context_machine"
  bn_left :: nat
  bn_op :: "schedule_op option"
  bn_awaits :: nat
  bn_suspends :: nat
  bn_cerr :: string

definition bench_start :: "'w \<Rightarrow> 'w bench" where
  "bench_start w = \<lparr>bn_run = context_start w, bn_left = 0, bn_op = None, bn_awaits = 0, bn_suspends = 0, bn_cerr = []\<rparr>"

definition bench_stop :: "'w platform \<Rightarrow> 'w bench \<Rightarrow> 'w bench" where
  "bench_stop P s =
     s\<lparr>bn_op := None,
       bn_run := (bn_run s)\<lparr>cm_state := snd (fetch_stop (cm_state (bn_run s))), cm_kern := pf_interrupt P (cm_kern (bn_run s)),
         cm_stops := cm_stops (bn_run s) + 1\<rparr>\<rparr>"

text \<open>An exception leaves the task: it is printed, and the context is not stopped.\<close>

definition bench_throw :: "(exn \<Rightarrow> string) \<Rightarrow> exn \<Rightarrow> 'w bench \<Rightarrow> 'w bench" where
  "bench_throw what x s = s\<lparr>bn_op := None, bn_left := 0, bn_cerr := bn_cerr s @ task_finish what (Inl (Sys_exn x))\<rparr>"

text \<open>The task from the top of its loop, with \<open>n\<close> repetitions to come, to its next suspension or its end; \<open>a\<close> is its coroutine.\<close>

fun bench_body :: "'w platform \<Rightarrow> (exn \<Rightarrow> string) \<Rightarrow> nat \<Rightarrow> bool \<Rightarrow> nat \<Rightarrow> 'w bench \<Rightarrow> 'w bench option" where
  "bench_body P what a queue 0 s = Some (bench_stop P s)"
| "bench_body P what a queue (Suc n) s =
     (case co_await_begin schedule_ready (pf_suspend P) a (pf_make P (cm_index (bn_run s) 0) queue, cm_kern (bn_run s)) of
        None \<Rightarrow> None
      | Some (b, e, w) \<Rightarrow>
          let s1 = s\<lparr>bn_run := (bn_run s)\<lparr>cm_kern := w\<rparr>\<rparr> in
          if \<not> b then Some (s1\<lparr>bn_op := Some e, bn_left := n, bn_suspends := bn_suspends s + 1\<rparr>)
          else (case schedule_await_resume e of
                  Inl x \<Rightarrow> Some (bench_throw what x s1)
                | Inr _ \<Rightarrow> bench_body P what a queue n (s1\<lparr>bn_awaits := bn_awaits s + 1\<rparr>)))"

text \<open>The thread, moved on to \<open>m\<close>, dispatches the entry \<open>p\<close>: the operation at \<open>this\<close>, or nothing that lives (\<open>None\<close>).\<close>

definition bench_dispatch ::
  "'w platform \<Rightarrow> (exn \<Rightarrow> string) \<Rightarrow> nat \<Rightarrow> nat \<Rightarrow> bool \<Rightarrow> nat \<Rightarrow> 'w context_machine \<Rightarrow> 'w bench \<Rightarrow> 'w bench option" where
  "bench_dispatch P what this a queue p m s =
     (case bn_op s of
        None \<Rightarrow> None
      | Some e \<Rightarrow>
          if p \<noteq> this then None
          else (case event_await_resume (pf_remove P) schedule_resume (pf_suspend P) (e, cm_kern m) of
                  None \<Rightarrow> None
                | Some (b, e', w) \<Rightarrow>
                    let s1 = s\<lparr>bn_run := m\<lparr>cm_kern := w\<rparr>\<rparr> in
                    if \<not> b then Some (s1\<lparr>bn_op := Some e'\<rparr>)
                    else (case schedule_await_resume e' of
                            Inl x \<Rightarrow> Some (bench_throw what x s1)
                          | Inr _ \<Rightarrow> bench_body P what a queue (bn_left s) (s1\<lparr>bn_awaits := bn_awaits s + 1\<rparr>))))"

definition bench_exec ::
  "'w platform \<Rightarrow> (exn \<Rightarrow> string) \<Rightarrow> nat \<Rightarrow> nat \<Rightarrow> bool \<Rightarrow> 'w run_act \<Rightarrow> 'w bench \<Rightarrow> 'w bench option" where
  "bench_exec P what this a queue act s =
     (case context_exec (pf_wait P) (pf_wakes P) (pf_interrupt P) (=) act (bn_run s) of
        None \<Rightarrow> None
      | Some m \<Rightarrow>
          (case dispatched act (bn_run s) of
             None \<Rightarrow> Some (s\<lparr>bn_run := m\<rparr>)
           | Some p \<Rightarrow> bench_dispatch P what this a queue p m s))"

text \<open>The two platforms, for a context made on them.\<close>

definition bench_linux :: "'k usys \<Rightarrow> ('k \<Rightarrow> bool) \<Rightarrow> ice_context \<Rightarrow> nat \<Rightarrow> 'k world platform" where
  "bench_linux U wakes c this =
     \<lparr>pf_make = schedule_make (Unix Linux) c, pf_suspend = schedule_suspend_unix Linux U this, pf_remove = event_remove Linux U,
      pf_wait = (\<lambda>w. case context_wait_unix U c 1 (w_kern w) of (r, k) \<Rightarrow> (r, w\<lparr>w_kern := k\<rparr>)),
      pf_wakes = (\<lambda>w. wakes (w_kern w)),
      pf_interrupt = (\<lambda>w. w\<lparr>w_kern := context_interrupt_unix Linux U c (w_kern w)\<rparr>)\<rparr>"

definition bench_win :: "'k wsys \<Rightarrow> ('k \<Rightarrow> bool) \<Rightarrow> whandle \<Rightarrow> nat \<Rightarrow> 'k world platform" where
  "bench_win W wakes h this =
     \<lparr>pf_make = schedule_make Win32 \<lparr>ctx_state = 0, ctx_handle = 0, ctx_events = 0\<rparr>, pf_suspend = schedule_suspend_win W h this, pf_remove = (\<lambda>s. s),
      pf_wait = (\<lambda>w. case context_wait_win W h 1 (w_kern w) of (r, k) \<Rightarrow> (r, w\<lparr>w_kern := k\<rparr>)),
      pf_wakes = (\<lambda>w. wakes (w_kern w)),
      pf_interrupt = (\<lambda>w. w\<lparr>w_kern := context_interrupt_win W h (w_kern w)\<rparr>)\<rparr>"

text \<open>
  \<open>context_schedule\<close> and \<open>context_schedule_queue\<close> up to the call of \<open>run\<close>: the context is constructed, or its exception thrown, and the
  task runs to its first suspension.
\<close>

definition context_schedule ::
  "'k usys \<Rightarrow> (ice_context \<Rightarrow> 'k \<Rightarrow> bool) \<Rightarrow> (exn \<Rightarrow> string) \<Rightarrow> nat \<Rightarrow> nat \<Rightarrow> bool \<Rightarrow> nat \<Rightarrow> 'k world \<Rightarrow>
   (exn + ice_context \<times> 'k world bench) option" where
  "context_schedule U wakes what this a queue n w =
     (case context_make_unix Linux U (w_kern w) of
        None \<Rightarrow> None
      | Some (Inl x, k) \<Rightarrow> Some (Inl x)
      | Some (Inr c, k) \<Rightarrow>
          map_option (\<lambda>s. Inr (c, s)) (bench_body (bench_linux U (wakes c) c this) what a queue n (bench_start (w\<lparr>w_kern := k\<rparr>))))"

section \<open>What the program needs of the platform\<close>

text \<open>
  Nothing is pending, or exactly one pointer is: scheduling and interrupting post one, a wait takes it, unless it is interrupted,
  which does not happen for ever.
\<close>

definition wait_again :: "'w platform \<Rightarrow> 'w \<Rightarrow> bool \<times> 'w" where
  "wait_again P w = (case pf_wait P w of (r, w') \<Rightarrow> (r = Wait_entries [], w'))"

locale scheduler =
  fixes P :: "'w platform" and this :: nat and idle :: "'w \<Rightarrow> bool" and posted :: "nat \<Rightarrow> 'w \<Rightarrow> bool" and ok :: bool
  assumes this_pos: "ok \<Longrightarrow> this \<noteq> 0"
    and suspend_posts: "ok \<Longrightarrow> idle w \<Longrightarrow> \<exists>e w'. pf_suspend P ((pf_make P current queue)\<lparr>ev_awaiter := a\<rparr>, w) = Some (True, e, w') \<and>
      posted this w' \<and> \<not> ec_bool (ev_ec e) \<and> (\<forall>v. pf_remove P (e, v) = (e, v))"
    and make_ready: "sc_ready (pf_make P current queue) = (\<not> queue \<and> current)" "\<not> ec_bool (ev_ec (pf_make P current queue))"
    and interrupt_posts: "ok \<Longrightarrow> idle w \<Longrightarrow> posted 0 (pf_interrupt P w)"
    and wait_takes: "ok \<Longrightarrow> posted p w \<Longrightarrow> pf_wakes P w \<and>
      (case pf_wait P w of (r, w') \<Rightarrow> r = Wait_entries [p] \<and> idle w' \<or> r = Wait_entries [] \<and> posted p w')"
    and wait_ends: "ok \<Longrightarrow> posted p w \<Longrightarrow> \<exists>n. interrupted_at_most (wait_again P) n w"

section \<open>The program ends\<close>

text \<open>Steps of the one thread, and what is followed along them.\<close>

definition bench_steps ::
  "'w platform \<Rightarrow> (exn \<Rightarrow> string) \<Rightarrow> nat \<Rightarrow> nat \<Rightarrow> bool \<Rightarrow> 'w bench \<Rightarrow> 'w bench \<Rightarrow> bool" where
  "bench_steps P what this a queue s t \<longleftrightarrow> (\<exists>k. run_acts (bench_exec P what this a queue) (replicate k (Step 0)) s = Some t)"

lemma bench_steps_trans: "bench_steps P what this a queue s t \<Longrightarrow> bench_steps P what this a queue t v \<Longrightarrow> bench_steps P what this a queue s v"
  unfolding bench_steps_def by (elim exE, rename_tac j k, rule_tac x = "j + k" in exI) (simp add: replicate_add run_acts_append)

lemma bench_steps_one: "bench_exec P what this a queue (Step 0) s = Some t \<Longrightarrow> bench_steps P what this a queue s t"
  unfolding bench_steps_def by (rule exI [of _ 1]) simp

definition bench_view :: "'w bench \<Rightarrow> run_pc \<times> u32 \<times> bool \<times> nat \<times> nat \<times> string" where
  "bench_view s = (cm_pc (bn_run s) 0, cm_state (bn_run s), cm_index (bn_run s) 0, bn_awaits s, bn_suspends s, bn_cerr s)"

context scheduler begin

definition good :: "schedule_op \<Rightarrow> bool" where
  "good e \<longleftrightarrow> \<not> ec_bool (ev_ec e) \<and> (\<forall>v. pf_remove P (e, v) = (e, v))"

abbreviation steps where
  "steps what a queue \<equiv> bench_steps P what this a queue"

text \<open>A repetition suspends the task if it is queued or if no thread runs yet.\<close>

lemma body_suspends:
  assumes ok "idle (cm_kern (bn_run s))" "queue \<or> \<not> cm_index (bn_run s) 0"
  shows "\<exists>t e. bench_body P what a queue (Suc n) s = Some t \<and> bn_op t = Some e \<and> good e \<and> bn_left t = n \<and> posted this (cm_kern (bn_run t)) \<and>
    (case bench_view s of (pc, st, i, aw, su, err) \<Rightarrow> bench_view t = (pc, st, i, aw, su + 1, err))"
proof -
  obtain e w where e: "pf_suspend P ((pf_make P (cm_index (bn_run s) 0) queue)\<lparr>ev_awaiter := a\<rparr>, cm_kern (bn_run s)) = Some (True, e, w)"
    "posted this w" "good e"
    using suspend_posts [OF assms(1,2), where current = "cm_index (bn_run s) 0" and queue = queue and a = a] by (auto simp: good_def)
  have "co_await_begin schedule_ready (pf_suspend P) a (pf_make P (cm_index (bn_run s) 0) queue, cm_kern (bn_run s)) = Some (False, e, w)"
    using assms(3) e(1) by (auto simp: co_await_begin_def schedule_ready_def make_ready event_await_suspend_def)
  with e show ?thesis by (simp add: bench_view_def)
qed

text \<open>Otherwise it takes no call of the kernel, and the task goes on to its end.\<close>

lemma body_runs:
  assumes ok "idle (cm_kern (bn_run s))" "\<not> queue" "cm_index (bn_run s) 0"
  shows "\<exists>t. bench_body P what a queue n s = Some t \<and> posted 0 (cm_kern (bn_run t)) \<and>
    (case bench_view s of (pc, st, i, aw, su, err) \<Rightarrow> bench_view t = (pc, st OR stop_requested_flag, i, aw + n, su, err))"
  using assms(2,4)
proof (induction n arbitrary: s)
  case 0
  with interrupt_posts [OF assms(1)] show ?case by (simp add: bench_stop_def bench_view_def fetch_stop_def)
next
  case (Suc n)
  let ?s = "s\<lparr>bn_awaits := bn_awaits s + 1\<rparr>"
  have "co_await_begin schedule_ready (pf_suspend P) a (pf_make P (cm_index (bn_run s) 0) queue, cm_kern (bn_run s)) =
      Some (True, pf_make P (cm_index (bn_run s) 0) queue, cm_kern (bn_run s))"
    using assms(3) Suc.prems by (simp add: co_await_begin_def schedule_ready_def make_ready)
  then have "bench_body P what a queue (Suc n) s = bench_body P what a queue n ?s"
    using make_ready(2) by (simp add: schedule_await_resume_def)
  moreover from Suc.IH [of ?s] Suc.prems obtain t where "bench_body P what a queue n ?s = Some t" "posted 0 (cm_kern (bn_run t))"
    "case bench_view ?s of (pc, st, i, aw, su, err) \<Rightarrow> bench_view t = (pc, st OR stop_requested_flag, i, aw + n, su, err)" by auto
  ultimately show ?case by (simp add: bench_view_def)
qed

text \<open>A wait takes what is posted.\<close>

lemma wait_phase:
  assumes ok "posted p (cm_kern (bn_run s))" "cm_pc (bn_run s) 0 = Run_wait"
  shows "\<exists>t. steps what a queue s t \<and> idle (cm_kern (bn_run t)) \<and> bn_op t = bn_op s \<and> bn_left t = bn_left s \<and>
    bench_view t = (Run_entries [p] False, snd (bench_view s))"
proof -
  obtain n where "interrupted_at_most (wait_again P) n (cm_kern (bn_run s))" using wait_ends [OF assms(1,2)] by blast
  then show ?thesis using assms(2,3)
  proof (induction n arbitrary: s)
    case (0 s)
    obtain r w where r: "pf_wait P (cm_kern (bn_run s)) = (r, w)" by (metis prod.exhaust)
    from 0 r wait_takes [OF assms(1) "0"(2)] have w: "r = Wait_entries [p]" "idle w" "pf_wakes P (cm_kern (bn_run s))"
      by (auto simp: wait_again_def)
    let ?t = "s\<lparr>bn_run := run_wait (pf_wait P) 0 (bn_run s)\<rparr>"
    have "bench_exec P what this a queue (Step 0) s = Some ?t"
      using 0 w by (simp add: bench_exec_def)
    from bench_steps_one [OF this] show ?case
      by (rule exI [of _ ?t, OF conjI]) (use w r in \<open>simp add: run_wait_def run_goto_def bench_view_def\<close>)
  next
    case (Suc n)
    obtain r w where r: "pf_wait P (cm_kern (bn_run s)) = (r, w)" by (metis prod.exhaust)
    let ?t = "s\<lparr>bn_run := run_wait (pf_wait P) 0 (bn_run s)\<rparr>"
    note wt = wait_takes [OF assms(1) Suc.prems(2)]
    have s1: "bench_exec P what this a queue (Step 0) s = Some ?t"
      using Suc.prems wt by (simp add: bench_exec_def)
    show ?case
    proof (cases "r = Wait_entries [p]")
      case True
      with wt r have "idle w" by auto
      with True r show ?thesis
        by (intro exI [of _ ?t] conjI bench_steps_one [OF s1]) (simp_all add: run_wait_def run_goto_def bench_view_def)
    next
      case False
      with wt r have w: "r = Wait_entries []" "posted p w" by auto
      have wa: "wait_again P (cm_kern (bn_run s)) = (True, w)" using w r by (simp add: wait_again_def)
      let ?v = "?t\<lparr>bn_run := run_goto 0 Run_wait (bn_run ?t)\<rparr>"
      have "bench_exec P what this a queue (Step 0) ?t = Some ?v"
        using w r by (simp add: bench_exec_def run_wait_def) (simp add: run_goto_def)
      with s1 have v: "steps what a queue s ?v" by (blast intro: bench_steps_trans bench_steps_one)
      have "interrupted_at_most (wait_again P) n (cm_kern (bn_run ?v))" "posted p (cm_kern (bn_run ?v))" "cm_pc (bn_run ?v) 0 = Run_wait"
        using Suc.prems(1) w r wa by (simp_all add: run_wait_def run_goto_def)
      from Suc.IH [OF this] obtain t where "steps what a queue ?v t" "idle (cm_kern (bn_run t))" "bn_op t = bn_op ?v"
        "bn_left t = bn_left ?v" "bench_view t = (Run_entries [p] False, snd (bench_view ?v))" by blast
      with v w r show ?thesis
        by (intro exI [of _ t]) (auto simp: run_wait_def run_goto_def bench_view_def intro: bench_steps_trans)
    qed
  qed
qed

lemma dispatch_phase:
  assumes ok "idle (cm_kern (bn_run s))" "cm_pc (bn_run s) 0 = Run_entries [this] False" "bn_op s = Some e" "good e"
  shows "bench_exec P what this a queue (Step 0) s = bench_body P what a queue (bn_left s)
    (s\<lparr>bn_run := run_goto 0 (Run_entries [] False) ((bn_run s)\<lparr>cm_log := cm_log (bn_run s) @ [this]\<rparr>), bn_awaits := bn_awaits s + 1\<rparr>)"
proof -
  have "event_await_resume (pf_remove P) schedule_resume (pf_suspend P) (e, w) = Some (True, e, w)" for w
    using assms(5) by (simp add: event_await_resume_def schedule_resume_def good_def)
  moreover have "schedule_await_resume e = Inr ()" using assms(5) by (simp add: schedule_await_resume_def good_def)
  ultimately show ?thesis
    using assms(3,4) this_pos [OF assms(1)] by (simp add: bench_exec_def bench_dispatch_def run_goto_def)
qed

lemma wait_next:
  assumes "cm_pc (bn_run s) 0 = Run_entries [] False"
  shows "steps what a queue s (s\<lparr>bn_run := run_goto 0 Run_wait (bn_run s)\<rparr>)"
  using assms by (intro bench_steps_one) (simp add: bench_exec_def)

lemma wait_after:
  assumes "steps what a queue s s1" "bench_exec P what this a queue (Step 0) s1 = Some c" "cm_pc (bn_run c) 0 = Run_entries [] False"
  shows "steps what a queue s (c\<lparr>bn_run := run_goto 0 Run_wait (bn_run c)\<rparr>)"
  by (rule bench_steps_trans [OF bench_steps_trans [OF assms(1) bench_steps_one [OF assms(2)]] wait_next [OF assms(3)]])

text \<open>From the suspension with \<open>n\<close> repetitions after it to the interrupt that \<open>stop\<close> has posted.\<close>

lemma rounds:
  assumes ok
  shows "posted this (cm_kern (bn_run s)) \<Longrightarrow> bn_op s = Some e \<Longrightarrow> good e \<Longrightarrow> bn_left s = n \<Longrightarrow>
    bench_view s = (Run_wait, 2, True, aw, su, err) \<Longrightarrow>
    \<exists>t. steps what a queue s t \<and> posted 0 (cm_kern (bn_run t)) \<and>
      bench_view t = (Run_wait, 3, True, aw + n + 1, su + (if queue then n else 0), err)"
proof (induction n arbitrary: s e aw su)
  case (0 s e aw su)
  have pc: "cm_pc (bn_run s) 0 = Run_wait" using "0"(5) by (simp add: bench_view_def)
  from wait_phase [OF assms "0"(1) pc, where what = what and a = a and queue = queue] obtain s1 where s1: "steps what a queue s s1" "idle (cm_kern (bn_run s1))" "bn_op s1 = Some e"
    "bn_left s1 = 0" "bench_view s1 = (Run_entries [this] False, 2, True, aw, su, err)" using 0 by auto
  let ?b = "s1\<lparr>bn_run := run_goto 0 (Run_entries [] False) ((bn_run s1)\<lparr>cm_log := cm_log (bn_run s1) @ [this]\<rparr>), bn_awaits := bn_awaits s1 + 1\<rparr>"
  let ?c = "bench_stop P ?b" and ?d = "\<lambda>c. c\<lparr>bn_run := run_goto 0 Run_wait (bn_run c)\<rparr>"
  have "cm_pc (bn_run s1) 0 = Run_entries [this] False" using s1(5) by (simp add: bench_view_def)
  from dispatch_phase [OF assms s1(2) this s1(3) "0"(3), of what a queue] s1(4)
  have "bench_exec P what this a queue (Step 0) s1 = Some ?c" by simp
  moreover have "cm_pc (bn_run ?c) 0 = Run_entries [] False" by (simp add: bench_stop_def run_goto_def)
  ultimately have "steps what a queue s (?d ?c)"
    by (rule wait_after [OF s1(1)])
  moreover have "posted 0 (cm_kern (bn_run (?d ?c)))" using interrupt_posts [OF assms s1(2)] by (simp add: bench_stop_def run_goto_def)
  moreover have "bench_view (?d ?c) = (Run_wait, 3, True, aw + 0 + 1, su + (if queue then 0 else 0), err)"
    using s1(5) by (simp add: bench_view_def bench_stop_def run_goto_def fetch_stop_def ice_const)
  ultimately show ?case by blast
next
  case (Suc n s e aw su)
  have pc: "cm_pc (bn_run s) 0 = Run_wait" using Suc.prems by (simp add: bench_view_def)
  from wait_phase [OF assms Suc.prems(1) pc, where what = what and a = a and queue = queue] obtain s1 where s1: "steps what a queue s s1" "idle (cm_kern (bn_run s1))" "bn_op s1 = Some e"
    "bn_left s1 = Suc n" "bench_view s1 = (Run_entries [this] False, 2, True, aw, su, err)" using Suc.prems by auto
  let ?b = "s1\<lparr>bn_run := run_goto 0 (Run_entries [] False) ((bn_run s1)\<lparr>cm_log := cm_log (bn_run s1) @ [this]\<rparr>), bn_awaits := bn_awaits s1 + 1\<rparr>"
  let ?d = "\<lambda>c. c\<lparr>bn_run := run_goto 0 Run_wait (bn_run c)\<rparr>"
  have "cm_pc (bn_run s1) 0 = Run_entries [this] False" using s1(5) by (simp add: bench_view_def)
  from dispatch_phase [OF assms s1(2) this s1(3) Suc.prems(3), of what a queue] s1(4)
  have step: "bench_exec P what this a queue (Step 0) s1 = bench_body P what a queue (Suc n) ?b" by simp
  have b: "idle (cm_kern (bn_run ?b))" "bench_view ?b = (Run_entries [] False, 2, True, aw + 1, su, err)" "cm_index (bn_run ?b) 0"
    using s1(2,5) by (simp_all add: bench_view_def run_goto_def)
  show ?case
  proof (cases queue)
    case True
    from body_suspends [OF assms b(1), of queue what a n] True obtain c e'
      where c: "bench_body P what a queue (Suc n) ?b = Some c" "bn_op c = Some e'" "good e'" "bn_left c = n" "posted this (cm_kern (bn_run c))"
        "bench_view c = (Run_entries [] False, 2, True, aw + 1, su + 1, err)" unfolding b(2) by auto
    have d: "posted this (cm_kern (bn_run (?d c)))" "bn_op (?d c) = Some e'" "bn_left (?d c) = n"
      "bench_view (?d c) = (Run_wait, 2, True, aw + 1, su + 1, err)"
      using c by (simp_all add: bench_view_def run_goto_def)
    from Suc.IH [OF d(1,2) c(3) d(3,4)] obtain t where "steps what a queue (?d c) t" "posted 0 (cm_kern (bn_run t))"
      "bench_view t = (Run_wait, 3, True, aw + 1 + n + 1, su + 1 + (if queue then n else 0), err)" by blast
    moreover have "steps what a queue s (?d c)"
      by (rule wait_after [OF s1(1) trans [OF step c(1)]]) (use c in \<open>simp add: bench_view_def\<close>)
    ultimately show ?thesis using True by (intro exI [of _ t]) (auto intro: bench_steps_trans)
  next
    case False
    from body_runs [OF assms b(1) False b(3), of what a "Suc n"] obtain c
      where c: "bench_body P what a queue (Suc n) ?b = Some c" "posted 0 (cm_kern (bn_run c))"
        "bench_view c = (Run_entries [] False, 2 OR stop_requested_flag, True, aw + 1 + Suc n, su, err)" unfolding b(2) by auto
    have "steps what a queue s (?d c)"
      by (rule wait_after [OF s1(1) trans [OF step c(1)]]) (use c in \<open>simp add: bench_view_def\<close>)
    moreover have "posted 0 (cm_kern (bn_run (?d c)))" "bench_view (?d c) = (Run_wait, 3, True, aw + Suc n + 1, su + (if queue then Suc n else 0), err)"
      using c(2,3) False by (simp_all add: bench_view_def run_goto_def ice_const)
    ultimately show ?thesis by blast
  qed
qed

text \<open>After the stop, \<open>run\<close> returns.\<close>

lemma run_returns:
  assumes ok "posted 0 (cm_kern (bn_run s))" "bench_view s = (Run_wait, 3, True, aw, su, err)"
  shows "\<exists>t. steps what a queue s t \<and> bench_view t = (Returned (Inr ()), 1, False, aw, su, err)"
proof -
  have "cm_pc (bn_run s) 0 = Run_wait" using assms(3) by (simp add: bench_view_def)
  from wait_phase [OF assms(1,2) this, where what = what and a = a and queue = queue] assms(3) obtain s1 where s1: "steps what a queue s s1"
    "bench_view s1 = (Run_entries [0] False, 3, True, aw, su, err)" by auto
  have "\<exists>t. run_acts (bench_exec P what this a queue) (replicate 6 (Step 0)) s1 = Some t \<and>
      bench_view t = (Returned (Inr ()), 1, False, aw, su, err)"
    using s1(2) by (simp add: numeral_eq_Suc bench_exec_def bench_view_def run_defs run_goto_def ice_const ec_bool_def ec_none_def)
  then obtain t where "steps what a queue s1 t" "bench_view t = (Returned (Inr ()), 1, False, aw, su, err)"
    unfolding bench_steps_def by blast
  with s1(1) show ?thesis by (blast intro: bench_steps_trans)
qed

text \<open>The whole program: the task before \<open>run\<close>, then \<open>run\<close>.\<close>

lemma program_returns:
  assumes ok "idle w"
  shows "\<exists>s k t. bench_body P what a queue n (bench_start w) = Some s \<and>
    run_acts (bench_exec P what this a queue) (Run 0 # replicate k (Step 0)) s = Some t \<and>
    bench_view t = (Returned (Inr ()), 1, False, n, if queue then n else min 1 n, [])"
proof -
  have i: "idle (cm_kern (bn_run (bench_start w)))" "\<not> cm_index (bn_run (bench_start w)) 0" "bench_view (bench_start w) = (Idle, 0, False, 0, 0, [])"
    using assms(2) by (simp_all add: bench_start_def context_start_def bench_view_def)
  have enter: "\<exists>v. run_acts (bench_exec P what this a queue) [Run 0, Step 0] s = Some v \<and> bn_op v = bn_op s \<and> bn_left v = bn_left s \<and>
      cm_kern (bn_run v) = cm_kern (bn_run s) \<and> bench_view v = (Run_wait, st + 2, True, aw, su, err)"
    if "bench_view s = (Idle, st, False, aw, su, err)" for s st aw su err
    using that by (simp add: bench_exec_def bench_view_def run_defs run_goto_def ice_const)
  have finish: "\<exists>k t. run_acts (bench_exec P what this a queue) (Run 0 # replicate k (Step 0)) s = Some t \<and> bench_view t = view"
    if "run_acts (bench_exec P what this a queue) [Run 0, Step 0] s = Some v" "steps what a queue v t" "bench_view t = view" for s v t view
  proof -
    from that(2) obtain k where k: "run_acts (bench_exec P what this a queue) (replicate k (Step 0)) v = Some t" by (auto simp: bench_steps_def)
    have "run_acts (bench_exec P what this a queue) ([Run 0, Step 0] @ replicate k (Step 0)) s = Some t"
      using that(1) k by (simp only: run_acts_append) simp
    with that(3) show ?thesis by (intro exI [of _ "Suc k"] exI [of _ t]) simp
  qed
  show ?thesis
  proof (cases n)
    case 0
    let ?s = "bench_stop P (bench_start w)"
    have v: "bench_view ?s = (Idle, 1, False, 0, 0, [])" using i(3) by (simp add: bench_view_def bench_stop_def fetch_stop_def ice_const)
    from enter [OF v] obtain v where v: "run_acts (bench_exec P what this a queue) [Run 0, Step 0] ?s = Some v"
      "cm_kern (bn_run v) = cm_kern (bn_run ?s)" "bench_view v = (Run_wait, 3, True, 0, 0, [])" by auto
    have "posted 0 (cm_kern (bn_run v))" using interrupt_posts [OF assms(1) i(1)] v(2) by (simp add: bench_stop_def)
    from run_returns [OF assms(1) this v(3), where what = what and a = a and queue = queue] obtain t
      where "steps what a queue v t" "bench_view t = (Returned (Inr ()), 1, False, n, if queue then n else min 1 n, [])" using 0 by auto
    moreover have "bench_body P what a queue n (bench_start w) = Some ?s" using 0 by simp
    ultimately show ?thesis using finish [OF v(1)] by blast
  next
    case (Suc m)
    from body_suspends [OF assms(1) i(1), of queue what a m] i(2,3) obtain s e
      where s: "bench_body P what a queue n (bench_start w) = Some s" "bn_op s = Some e" "good e" "bn_left s = m"
        "posted this (cm_kern (bn_run s))" "bench_view s = (Idle, 0, False, 0, 1, [])" unfolding Suc by auto
    from enter [OF s(6)] s obtain v where v: "run_acts (bench_exec P what this a queue) [Run 0, Step 0] s = Some v"
      "bn_op v = Some e" "bn_left v = m" "posted this (cm_kern (bn_run v))" "bench_view v = (Run_wait, 2, True, 0, 1, [])" by auto
    from rounds [OF assms(1) v(4,2) s(3) v(3,5), where what = what and a = a and queue = queue] obtain t1 where t1: "steps what a queue v t1" "posted 0 (cm_kern (bn_run t1))"
      "bench_view t1 = (Run_wait, 3, True, n, if queue then n else 1, [])" using Suc by (auto split: if_splits)
    from run_returns [OF assms(1) t1(2,3), where what = what and a = a and queue = queue] obtain t where "steps what a queue t1 t"
      "bench_view t = (Returned (Inr ()), 1, False, n, if queue then n else min 1 n, [])" using Suc by auto
    with finish [OF v(1) bench_steps_trans [OF t1(1)]] s(1) show ?thesis by blast
  qed
qed

end

text \<open>
  But if the first \<open>schedule\<close> fails, the exception is printed, nobody stops the context, and \<open>run\<close> blocks: there is nothing to wait for.
\<close>

lemma bench_failure_blocks:
  assumes "\<not> sc_ready (pf_make P False queue)"
    and "pf_suspend P ((pf_make P False queue)\<lparr>ev_awaiter := a\<rparr>, w) = Some (False, e, w')" "ec_bool (ev_ec e)" "\<not> pf_wakes P w'"
  shows "\<exists>s t. bench_body P what a queue (Suc n) (bench_start w) = Some s \<and>
    run_acts (bench_exec P what this a queue) [Run 0, Step 0] s = Some t \<and> cm_pc (bn_run t) 0 = Run_wait \<and>
    bench_exec P what this a queue (Step 0) t = None \<and> bn_cerr t = task_finish what (Inl (Sys_exn (system_error (ev_ec e) ''schedule'')))"
proof -
  have "co_await_begin schedule_ready (pf_suspend P) a (pf_make P False queue, w) = Some (True, e, w')"
    using assms(1,2) by (simp add: co_await_begin_def schedule_ready_def event_await_suspend_def)
  with assms(3,4) show ?thesis
    by (simp add: bench_start_def context_start_def schedule_await_resume_def bench_throw_def bench_exec_def run_defs run_goto_def)
qed

section \<open>Linux\<close>

text \<open>
  The one descriptor registered with an \<open>epoll\<close>, the context's \<open>eventfd\<close>, which can always be written to: \<open>note (h, fd)\<close> is \<open>None\<close> unless
  \<open>fd\<close> alone is registered with \<open>h\<close>, \<open>Some None\<close> while its registration is disarmed and \<open>Some (Some p)\<close> while it is armed with the pointer \<open>p\<close>.
  A wait reports it, disarming it, or is interrupted, but not for ever.
\<close>

definition epoll_again :: "'k usys \<Rightarrow> int \<Rightarrow> 'k \<Rightarrow> bool \<times> 'k" where
  "epoll_again U h k = (case sys_wait U h 1 k of (rc, errno, events, k') \<Rightarrow> (rc < 0 \<and> errno = EINTR U, k'))"

definition note_ok :: "'k usys \<Rightarrow> (int \<times> int \<Rightarrow> 'k \<Rightarrow> nat option option) \<Rightarrow> bool" where
  "note_ok U note \<longleftrightarrow>
     (\<forall>h fd k. case sys_epoll_ctl U h EPOLL_CTL_ADD fd (Epoll_event {EPOLLONESHOT} 0) k of (rc, errno, k') \<Rightarrow>
        0 \<le> rc \<longrightarrow> note (h, fd) k' = Some None) \<and>
     (\<forall>h fd p k. note (h, fd) k \<noteq> None \<longrightarrow>
        (case sys_epoll_ctl U h EPOLL_CTL_MOD fd (Epoll_event {EPOLLOUT, EPOLLONESHOT} p) k of (rc, errno, k') \<Rightarrow>
           0 \<le> rc \<and> note (h, fd) k' = Some (Some p))) \<and>
     (\<forall>h fd p k. note (h, fd) k = Some (Some p) \<longrightarrow>
        (case sys_wait U h 1 k of (rc, errno, events, k') \<Rightarrow>
           rc < 0 \<and> errno = EINTR U \<and> note (h, fd) k' = Some (Some p) \<or>
           rc = 1 \<and> map nev_pointer events = [p] \<and> note (h, fd) k' = Some None) \<and>
        (\<exists>n. interrupted_at_most (epoll_again U h) n k))"

lemma note_okD:
  assumes "note_ok U note"
  shows "sys_epoll_ctl U h EPOLL_CTL_ADD fd (Epoll_event {EPOLLONESHOT} 0) k = (rc, errno, k') \<Longrightarrow> 0 \<le> rc \<Longrightarrow> note (h, fd) k' = Some None"
    and "note (h, fd) k \<noteq> None \<Longrightarrow> sys_epoll_ctl U h EPOLL_CTL_MOD fd (Epoll_event {EPOLLOUT, EPOLLONESHOT} p) k = (rc, errno, k') \<Longrightarrow>
      0 \<le> rc \<and> note (h, fd) k' = Some (Some p)"
    and "note (h, fd) k = Some (Some p) \<Longrightarrow> sys_wait U h 1 k = (rc, errno, events, k') \<Longrightarrow>
      rc < 0 \<and> errno = EINTR U \<and> note (h, fd) k' = Some (Some p) \<or> rc = 1 \<and> map nev_pointer events = [p] \<and> note (h, fd) k' = Some None"
    and "note (h, fd) k = Some (Some p) \<Longrightarrow> \<exists>n. interrupted_at_most (epoll_again U h) n k"
proof -
  note a = assms [unfolded note_ok_def]
  show "sys_epoll_ctl U h EPOLL_CTL_ADD fd (Epoll_event {EPOLLONESHOT} 0) k = (rc, errno, k') \<Longrightarrow> 0 \<le> rc \<Longrightarrow> note (h, fd) k' = Some None"
    using a [THEN conjunct1, THEN spec [where x = h], THEN spec [where x = fd], THEN spec [where x = k]] by simp
  note b = a [THEN conjunct2, THEN conjunct1, THEN spec [where x = h], THEN spec [where x = fd], THEN spec [where x = p], THEN spec [where x = k]]
  show "note (h, fd) k \<noteq> None \<Longrightarrow> sys_epoll_ctl U h EPOLL_CTL_MOD fd (Epoll_event {EPOLLOUT, EPOLLONESHOT} p) k = (rc, errno, k') \<Longrightarrow>
      0 \<le> rc \<and> note (h, fd) k' = Some (Some p)" using b by simp
  note c = a [THEN conjunct2, THEN conjunct2, THEN spec [where x = h], THEN spec [where x = fd], THEN spec [where x = p], THEN spec [where x = k]]
  show "note (h, fd) k = Some (Some p) \<Longrightarrow> sys_wait U h 1 k = (rc, errno, events, k') \<Longrightarrow>
      rc < 0 \<and> errno = EINTR U \<and> note (h, fd) k' = Some (Some p) \<or> rc = 1 \<and> map nev_pointer events = [p] \<and> note (h, fd) k' = Some None"
    using c by simp
  show "note (h, fd) k = Some (Some p) \<Longrightarrow> \<exists>n. interrupted_at_most (epoll_again U h) n k" using c by simp
qed

definition note_armed :: "(int \<times> int \<Rightarrow> 'k \<Rightarrow> nat option option) \<Rightarrow> ice_context \<Rightarrow> 'k \<Rightarrow> bool" where
  "note_armed note c k = (case note (ctx_handle c, ctx_events c) k of Some (Some p) \<Rightarrow> True | _ \<Rightarrow> False)"

definition note_is :: "(int \<times> int \<Rightarrow> 'k \<Rightarrow> nat option option) \<Rightarrow> ice_context \<Rightarrow> nat option \<Rightarrow> 'k world \<Rightarrow> bool" where
  "note_is note c v w \<longleftrightarrow> note (ctx_handle c, ctx_events c) (w_kern w) = Some v"

lemma linux_wait_takes:
  assumes ok: "note_ok U note" and p: "note_is note c (Some p) w"
  shows "case pf_wait (bench_linux U (note_armed note c) c this) w of (r, w') \<Rightarrow>
    r = Wait_entries [p] \<and> note_is note c None w' \<or> r = Wait_entries [] \<and> note_is note c (Some p) w' \<and> fst (epoll_again U (ctx_handle c) (w_kern w)) \<and>
      w_kern w' = snd (epoll_again U (ctx_handle c) (w_kern w))"
proof -
  obtain rc errno events k' where k: "sys_wait U (ctx_handle c) 1 (w_kern w) = (rc, errno, events, k')" by (metis prod_cases4)
  from note_okD(3) [OF ok p [unfolded note_is_def] k]
  show ?thesis
  proof (elim disjE conjE)
    assume "rc < 0" "errno = EINTR U" "note (ctx_handle c, ctx_events c) k' = Some (Some p)"
    with k show ?thesis by (simp add: bench_linux_def context_wait_unix_def note_is_def epoll_again_def)
  next
    assume a: "rc = 1" "map nev_pointer events = [p]" "note (ctx_handle c, ctx_events c) k' = Some None"
    then obtain e where "events = [e]" "nev_pointer e = p" by auto
    with a k show ?thesis by (simp add: bench_linux_def context_wait_unix_def note_is_def)
  qed
qed

lemma linux_wait_ends:
  assumes ok: "note_ok U note"
  shows "interrupted_at_most (epoll_again U (ctx_handle c)) n (w_kern w) \<Longrightarrow> note_is note c (Some p) w \<Longrightarrow>
    interrupted_at_most (wait_again (bench_linux U (note_armed note c) c this)) n w"
proof (induction n arbitrary: w)
  case 0
  with linux_wait_takes [OF ok "0"(2), of this] show ?case by (auto simp: wait_again_def split: prod.splits)
next
  case (Suc n)
  obtain r w' where r: "pf_wait (bench_linux U (note_armed note c) c this) w = (r, w')" by (metis prod.exhaust)
  show ?case
  proof (cases "r = Wait_entries []")
    case True
    with linux_wait_takes [OF ok Suc.prems(2), of this] r
    have w': "note_is note c (Some p) w'" "fst (epoll_again U (ctx_handle c) (w_kern w))" "w_kern w' = snd (epoll_again U (ctx_handle c) (w_kern w))"
      by auto
    then have "interrupted_at_most (epoll_again U (ctx_handle c)) n (w_kern w')" using Suc.prems(1) by (auto split: prod.splits)
    from Suc.IH [OF this w'(1)] r show ?thesis by (simp add: wait_again_def [abs_def])
  next
    case False
    with r show ?thesis by (simp add: wait_again_def)
  qed
qed

interpretation linux_bench: scheduler "bench_linux U (note_armed reg c) c this" this "note_is reg c None" "\<lambda>p. note_is reg c (Some p)"
    "note_ok U reg \<and> this \<noteq> 0"
  for U :: "'k usys" and reg c this
proof (unfold_locales, goal_cases)
  case 1 then show ?case by simp
next
  case (2 w current queue a)
  obtain rc errno k' where k: "sys_epoll_ctl U (ctx_handle c) EPOLL_CTL_MOD (ctx_events c) (Epoll_event {EPOLLOUT, EPOLLONESHOT} this) (w_kern w) = (rc, errno, k')"
    by (metis prod_cases3)
  have "note_ok U reg" "reg (ctx_handle c, ctx_events c) (w_kern w) \<noteq> None" using 2 by (auto simp: note_is_def)
  from note_okD(2) [OF this k] k show ?case
    by (auto simp: bench_linux_def schedule_suspend_unix_def schedule_make_def event_make_def event.defs schedule_op.defs queue_note_def
        queue_note_linux_def note_is_def event_remove_def event_remove_linux_def)
next
  case (5 w)
  obtain rc errno k' where k: "sys_epoll_ctl U (ctx_handle c) EPOLL_CTL_MOD (ctx_events c) (Epoll_event {EPOLLOUT, EPOLLONESHOT} 0) (w_kern w) = (rc, errno, k')"
    by (metis prod_cases3)
  have "note_ok U reg" "reg (ctx_handle c, ctx_events c) (w_kern w) \<noteq> None" using 5 by (auto simp: note_is_def)
  from note_okD(2) [OF this k] k show ?case
    by (simp add: bench_linux_def context_interrupt_unix_def note_is_def)
next
  case (6 p w)
  then have ok: "note_ok U reg" by simp
  from linux_wait_takes [OF ok 6(2), of this] 6(2) show ?case
    by (auto simp: note_is_def note_armed_def bench_linux_def [of U "note_armed reg c" c this] split: prod.splits)
next
  case (7 p w)
  then have ok: "note_ok U reg" by simp
  from note_okD(4) [OF ok 7(2) [unfolded note_is_def]] linux_wait_ends [OF ok _ 7(2)] show ?case by blast
qed (simp_all add: bench_linux_def schedule_make_def event_make_def event.defs schedule_op.defs)

lemma context_make_idle:
  assumes "note_ok U note" "context_make_unix Linux U k = Some (Inr c, k')"
  shows "note (ctx_handle c, ctx_events c) k' = Some None"
  using assms(2) note_okD(1) [OF assms(1)]
  by (auto simp: context_make_unix_def context_make_linux_def map_option_case split: prod.splits if_splits option.splits)

text \<open>
  C40: the benchmark program ends on Linux. Whenever the context can be constructed, and however the waits are interrupted, the task makes
  all its repetitions, prints nothing and stops the context; \<open>run\<close>, called by the same thread, returns without an exception, and the assertion of
  the context's destructor holds. With \<open>queue\<close> every repetition goes through the kernel; without, only the first does, since
  it is made before the thread is in \<open>run\<close>.
\<close>

theorem benchmark_returns:
  assumes "note_ok U note" "this \<noteq> 0" "context_make_unix Linux U (w_kern w) = Some (Inr c, k0)"
  shows "\<exists>s k t. context_schedule U (note_armed note) what this a queue n w = Some (Inr (c, s)) \<and>
    run_acts (bench_exec (bench_linux U (note_armed note c) c this) what this a queue) (Run 0 # replicate k (Step 0)) s = Some t \<and>
    cm_pc (bn_run t) 0 = Returned (Inr ()) \<and> context_dtor_assert (cm_state (bn_run t)) \<and>
    bn_awaits t = n \<and> bn_suspends t = (if queue then n else min 1 n) \<and> bn_cerr t = []"
proof -
  let ?w = "w\<lparr>w_kern := k0\<rparr>"
  have "note_is note c None ?w" using context_make_idle [OF assms(1,3)] by (simp add: note_is_def)
  from linux_bench.program_returns [OF conjI [OF assms(1,2)] this] obtain s k t
    where s: "bench_body (bench_linux U (note_armed note c) c this) what a queue n (bench_start ?w) = Some s"
      "run_acts (bench_exec (bench_linux U (note_armed note c) c this) what this a queue) (Run 0 # replicate k (Step 0)) s = Some t"
      "bench_view t = (Returned (Inr ()), 1, False, n, if queue then n else min 1 n, [])" by blast
  have "context_dtor_assert 1" by (simp add: context_dtor_assert_def fetch_stop_def thread_count_def ice_const)
  with s assms(3) show ?thesis
    by (intro exI [of _ s] exI [of _ k] exI [of _ t]) (simp add: context_schedule_def bench_view_def)
qed

text \<open>A kernel whose first two waits are interrupted.\<close>

definition bench_unix :: "(nat option option \<times> nat) usys" where
  "bench_unix = failing_unix
     \<lparr>sys_epoll_create1 := \<lambda>k. (3, 0, k), sys_eventfd := \<lambda>k. (4, 0, k),
      sys_epoll_ctl := \<lambda>c op fd e k. (0, 0, (Some (if op = EPOLL_CTL_MOD then Some (nev_pointer e) else None), snd k)),
      sys_wait := \<lambda>h n k.
        if snd k > 0 then (-1, 4, [], (fst k, snd k - 1))
        else (case fst k of Some (Some p) \<Rightarrow> (1, 0, [Epoll_event {EPOLLOUT} p], (Some None, 0)) | _ \<Rightarrow> (0, 0, [], k))\<rparr>"

lemma bench_unix_calls:
  "sys_epoll_create1 bench_unix k = (3, 0, k)" "sys_eventfd bench_unix k = (4, 0, k)"
  "sys_epoll_ctl bench_unix c op fd e k = (0, 0, (Some (if op = EPOLL_CTL_MOD then Some (nev_pointer e) else None), snd k))"
  "sys_wait bench_unix h m k =
    (if snd k > 0 then (-1, 4, [], (fst k, snd k - 1))
     else (case fst k of Some (Some p) \<Rightarrow> (1, 0, [Epoll_event {EPOLLOUT} p], (Some None, 0)) | _ \<Rightarrow> (0, 0, [], k)))"
  "EINTR bench_unix = 4"
  by (simp_all add: bench_unix_def failing_unix_def)

lemma bench_unix_ok: "note_ok bench_unix (\<lambda>t. fst)"
proof -
  have "interrupted_at_most (epoll_again bench_unix h) (snd k) k" if "fst k = Some (Some p)" for h k p
    using that
  proof (induction "snd k" arbitrary: k)
    case 0
    then show ?case by (simp add: epoll_again_def bench_unix_calls)
  next
    case (Suc n)
    then have "interrupted_at_most (epoll_again bench_unix h) n (fst k, n)" by auto
    moreover have "epoll_again bench_unix h k = (True, fst k, n)" using Suc(2) by (simp add: epoll_again_def bench_unix_calls)
    ultimately show ?case using Suc(2) [symmetric] by simp
  qed
  then have "\<exists>n. interrupted_at_most (epoll_again bench_unix h) n (Some (Some p), b)" for h p b by (metis fst_conv)
  then show ?thesis by (simp add: note_ok_def bench_unix_calls)
qed

lemma benchmark_returns_witness:
  "\<exists>s k t. context_schedule bench_unix (note_armed (\<lambda>t. fst)) exn_what 100 5 True 3 \<lparr>w_mem = \<lambda>_. 0, w_kern = (None, 2)\<rparr> =
       Some (Inr (demo_context, s)) \<and>
     run_acts (bench_exec (bench_linux bench_unix (note_armed (\<lambda>t. fst) demo_context) demo_context 100) exn_what 100 5 True)
       (Run 0 # replicate k (Step 0)) s = Some t \<and>
     cm_pc (bn_run t) 0 = Returned (Inr ()) \<and> bn_awaits t = 3 \<and> bn_suspends t = 3"
proof -
  have "context_make_unix Linux bench_unix (w_kern \<lparr>w_mem = \<lambda>_. 0, w_kern = (None, 2)\<rparr>) = Some (Inr demo_context, (Some None, 2))"
    by (simp add: context_make_unix_def context_make_linux_def bench_unix_calls demo_context_def)
  from benchmark_returns [OF bench_unix_ok _ this, where this = 100 and what = exn_what and a = 5 and queue = True and n = 3] show ?thesis by auto
qed

section \<open>Windows\<close>

text \<open>The packets queued at a completion port: posting adds one, a wait for one entry takes the first.\<close>

definition port_ok :: "'k wsys \<Rightarrow> (whandle \<Rightarrow> 'k \<Rightarrow> nat list) \<Rightarrow> bool" where
  "port_ok W packets \<longleftrightarrow>
     (\<forall>h p k. case win_post W h p k of (posted, err, k') \<Rightarrow> posted \<and> packets h k' = packets h k @ [p]) \<and>
     (\<forall>h p q k. packets h k = p # q \<longrightarrow>
        (case win_wait W h 1 k of (posted, err, es, k') \<Rightarrow> posted \<and> es = [p] \<and> packets h k' = q))"

lemma port_okD:
  assumes "port_ok W packets"
  shows "win_post W h p k = (r, err, k') \<Longrightarrow> r \<and> packets h k' = packets h k @ [p]"
    and "packets h k = p # q \<Longrightarrow> win_wait W h 1 k = (r, err, es, k') \<Longrightarrow> r \<and> es = [p] \<and> packets h k' = q"
proof -
  note a = assms [unfolded port_ok_def]
  show "win_post W h p k = (r, err, k') \<Longrightarrow> r \<and> packets h k' = packets h k @ [p]"
    using a [THEN conjunct1, THEN spec [where x = h], THEN spec [where x = p], THEN spec [where x = k]] by simp
  show "packets h k = p # q \<Longrightarrow> win_wait W h 1 k = (r, err, es, k') \<Longrightarrow> r \<and> es = [p] \<and> packets h k' = q"
    using a [THEN conjunct2, THEN spec [where x = h], THEN spec [where x = p], THEN spec [where x = q], THEN spec [where x = k]] by simp
qed

definition packets_are :: "(whandle \<Rightarrow> 'k \<Rightarrow> nat list) \<Rightarrow> whandle \<Rightarrow> nat list \<Rightarrow> 'k world \<Rightarrow> bool" where
  "packets_are packets h q w \<longleftrightarrow> packets h (w_kern w) = q"

interpretation win_bench: scheduler "bench_win W (\<lambda>k. packets h k \<noteq> []) h this" this "packets_are packets h []" "\<lambda>p. packets_are packets h [p]"
    "port_ok W packets \<and> this \<noteq> 0"
  for W :: "'k wsys" and packets h this
proof (unfold_locales, goal_cases)
  case 1 then show ?case by simp
next
  case (2 w current queue a)
  obtain r err k' where k: "win_post W h this (w_kern w) = (r, err, k')" by (metis prod_cases3)
  from 2 port_okD(1) [OF _ k] have "r \<and> packets h k' = packets h (w_kern w) @ [this]" by blast
  with 2 k show ?case
    by (simp add: bench_win_def schedule_suspend_win_def schedule_make_def event_make_def event.defs schedule_op.defs packets_are_def)
next
  case (5 w)
  obtain r err k' where k: "win_post W h 0 (w_kern w) = (r, err, k')" by (metis prod_cases3)
  from 5 port_okD(1) [OF _ k] have "packets h k' = packets h (w_kern w) @ [0]" by blast
  with 5 k show ?case by (simp add: bench_win_def context_interrupt_win_def packets_are_def)
next
  case (6 p w)
  obtain r err es k' where k: "win_wait W h 1 (w_kern w) = (r, err, es, k')" by (metis prod_cases4)
  from 6 have "port_ok W packets" "packets h (w_kern w) = [p]" by (simp_all add: packets_are_def)
  from port_okD(2) [OF this k] have "r \<and> es = [p] \<and> packets h k' = []" .
  with 6 k show ?case by (simp add: bench_win_def context_wait_win_def packets_are_def)
next
  case (7 p w)
  obtain r err es k' where k: "win_wait W h 1 (w_kern w) = (r, err, es, k')" by (metis prod_cases4)
  from 7 have "port_ok W packets" "packets h (w_kern w) = [p]" by (simp_all add: packets_are_def)
  from port_okD(2) [OF this k] have "r \<and> es = [p]" by blast
  with k have "interrupted_at_most (wait_again (bench_win W (\<lambda>k. packets h k \<noteq> []) h this)) 0 w"
    by (simp add: wait_again_def bench_win_def context_wait_win_def)
  then show ?case by blast
qed (simp_all add: bench_win_def schedule_make_def event_make_def event.defs schedule_op.defs)

text \<open>The same program on Windows, from a completion port with no packet.\<close>

lemma benchmark_returns_win:
  assumes "port_ok W packets" "this \<noteq> 0" "packets h (w_kern w) = []"
  shows "\<exists>s k t. bench_body (bench_win W (\<lambda>k. packets h k \<noteq> []) h this) what a queue n (bench_start w) = Some s \<and>
    run_acts (bench_exec (bench_win W (\<lambda>k. packets h k \<noteq> []) h this) what this a queue) (Run 0 # replicate k (Step 0)) s = Some t \<and>
    cm_pc (bn_run t) 0 = Returned (Inr ()) \<and> bn_awaits t = n \<and> bn_suspends t = (if queue then n else min 1 n) \<and> bn_cerr t = []"
proof -
  have "packets_are packets h [] w" using assms(3) by (simp add: packets_are_def)
  from win_bench.program_returns [OF conjI [OF assms(1,2)] this, where what = what and a = a and queue = queue and n = n]
  obtain s k t where "bench_body (bench_win W (\<lambda>k. packets h k \<noteq> []) h this) what a queue n (bench_start w) = Some s"
    "run_acts (bench_exec (bench_win W (\<lambda>k. packets h k \<noteq> []) h this) what this a queue) (Run 0 # replicate k (Step 0)) s = Some t"
    "bench_view t = (Returned (Inr ()), 1, False, n, if queue then n else min 1 n, [])" by blast
  then show ?thesis by (intro exI [of _ s] exI [of _ k] exI [of _ t]) (simp add: bench_view_def)
qed

lemma port_ok_port: "port_ok port_win (\<lambda>h k. k)"
  by (simp add: port_ok_def port_calls)

lemma benchmark_returns_win_demo:
  "\<exists>s k t. bench_body (bench_win port_win (\<lambda>k. k \<noteq> []) 7 100) exn_what 5 False 3 (bench_start \<lparr>w_mem = \<lambda>_. 0, w_kern = []\<rparr>) = Some s \<and>
    run_acts (bench_exec (bench_win port_win (\<lambda>k. k \<noteq> []) 7 100) exn_what 100 5 False) (Run 0 # replicate k (Step 0)) s = Some t \<and>
    cm_pc (bn_run t) 0 = Returned (Inr ()) \<and> bn_awaits t = 3 \<and> bn_suspends t = 1"
  using benchmark_returns_win [OF port_ok_port, where this = 100 and h = 7 and w = "\<lparr>w_mem = \<lambda>_. 0, w_kern = []\<rparr>"
      and what = exn_what and a = 5 and queue = False and n = 3] by auto

end
