(* ===== verification/Ice_Res_Handle.thy ===== *)
theory Ice_Res_Handle
  imports Ice_Owner
begin

text \<open>
  The sketch of a general handle class in res/handle.cpp: a resource and a deleter object, which knows the null value. An operation gives
  the handles it leaves and the resources it has handed to the deleter, in order.
\<close>

section \<open>Deleters\<close>

text \<open>What \<open>write_null\<close> writes and \<open>is_null\<close> compares with, and what \<open>operator()\<close> prints.\<close>

record 'p deleter =
  dl_null :: 'p
  dl_prints :: "'p \<Rightarrow> string"

definition default_handle_deleter :: "'p \<Rightarrow> 'p deleter" where
  "default_handle_deleter null = \<lparr>dl_null = null, dl_prints = \<lambda>_. []\<rparr>"

definition my_empty_int_deleter :: "i32 deleter" where
  "my_empty_int_deleter = \<lparr>dl_null = 0, dl_prints = \<lambda>_. []\<rparr>"

definition my_stateful_int_deleter :: "i32 \<Rightarrow> i32 deleter" where
  "my_stateful_int_deleter null =
     \<lparr>dl_null = null,
      dl_prints = \<lambda>h. if h <s null then ''Less than the null value on deletion'' @ [CHR 0x0A] else []\<rparr>"

definition stateful_null_value :: i32 where
  "stateful_null_value = 24"

section \<open>Handles\<close>

record 'p res_handle =
  rh_deleter :: "'p deleter"
  rh_res :: 'p

text \<open>The constructors; the default constructor leaves \<open>res\<close> as it finds it.\<close>

definition rh_default :: "'p deleter \<Rightarrow> 'p \<Rightarrow> 'p res_handle" where
  "rh_default d junk = \<lparr>rh_deleter = d, rh_res = junk\<rparr>"

definition rh_make :: "'p \<Rightarrow> 'p deleter \<Rightarrow> 'p res_handle" where
  "rh_make h d = \<lparr>rh_deleter = d, rh_res = h\<rparr>"

definition rh_make_null :: "'p deleter \<Rightarrow> 'p res_handle" where
  "rh_make_null d = \<lparr>rh_deleter = d, rh_res = dl_null d\<rparr>"

definition rh_is_null :: "'p res_handle \<Rightarrow> bool" where
  "rh_is_null h \<longleftrightarrow> rh_res h = dl_null (rh_deleter h)"

text \<open>\<open>explicit operator bool\<close>.\<close>

definition rh_bool :: "'p res_handle \<Rightarrow> bool" where
  "rh_bool h = rh_is_null h"

definition rh_get_null :: "'p res_handle \<Rightarrow> 'p" where
  "rh_get_null h = dl_null (rh_deleter h)"

definition rh_reset :: "'p \<Rightarrow> 'p res_handle \<Rightarrow> 'p res_handle \<times> 'p list" where
  "rh_reset p h = (h\<lparr>rh_res := p\<rparr>, if rh_is_null h then [] else [rh_res h])"

definition rh_reset_null :: "'p res_handle \<Rightarrow> 'p res_handle \<times> 'p list" where
  "rh_reset_null h = (h\<lparr>rh_res := rh_get_null h\<rparr>, if rh_is_null h then [] else [rh_res h])"

definition rh_release :: "'p res_handle \<Rightarrow> 'p \<times> 'p res_handle" where
  "rh_release h = (rh_res h, h\<lparr>rh_res := rh_get_null h\<rparr>)"

text \<open>The move constructor: the new handle, and the one moved from.\<close>

definition rh_move_ctor :: "'p res_handle \<Rightarrow> 'p res_handle \<times> 'p res_handle \<times> 'p list" where
  "rh_move_ctor mov =
     (let new = \<lparr>rh_deleter = rh_deleter mov, rh_res = rh_res mov\<rparr> in
      case rh_reset (rh_get_null mov) mov of (mov', deleted) \<Rightarrow> (new, mov', deleted))"

definition rh_move_assign :: "'p res_handle \<Rightarrow> 'p res_handle \<Rightarrow> 'p res_handle \<times> 'p res_handle \<times> 'p list" where
  "rh_move_assign left right =
     (case rh_release right of (p, right') \<Rightarrow>
        case rh_reset p left of (left', deleted) \<Rightarrow> (left', right', deleted))"

text \<open>The same when both sides are one object.\<close>

definition rh_self_assign :: "'p res_handle \<Rightarrow> 'p res_handle \<times> 'p list" where
  "rh_self_assign h = (case rh_release h of (p, h') \<Rightarrow> rh_reset p h')"

definition rh_swap :: "'p res_handle \<Rightarrow> 'p res_handle \<Rightarrow> 'p res_handle \<times> 'p res_handle" where
  "rh_swap h other =
     (h\<lparr>rh_deleter := rh_deleter other, rh_res := rh_res other\<rparr>, other\<lparr>rh_deleter := rh_deleter h, rh_res := rh_res h\<rparr>)"

definition rh_dtor :: "'p res_handle \<Rightarrow> 'p res_handle \<times> 'p list" where
  "rh_dtor h = (h\<lparr>rh_res := rh_get_null h\<rparr>, if rh_is_null h then [] else [rh_res h])"

text \<open>
  The comparisons; \<open>handle == nullptr\<close> compares with the null pointer, the others with \<open>nullptr\<close> compare with the deleter's null value.
\<close>

definition rh_eq :: "'p res_handle \<Rightarrow> 'p res_handle \<Rightarrow> bool" where
  "rh_eq left right \<longleftrightarrow> rh_res left = rh_res right"

definition rh_null_eq :: "'p res_handle \<Rightarrow> bool" where
  "rh_null_eq left \<longleftrightarrow> rh_res left = rh_get_null left"

definition rh_eq_ptr :: "'p res_handle \<Rightarrow> 'p \<Rightarrow> bool" where
  "rh_eq_ptr left right \<longleftrightarrow> rh_res left = right"

definition rh_neq :: "'p res_handle \<Rightarrow> 'p res_handle \<Rightarrow> bool" where
  "rh_neq left right \<longleftrightarrow> rh_res left \<noteq> rh_res right"

definition rh_null_neq :: "'p res_handle \<Rightarrow> bool" where
  "rh_null_neq left \<longleftrightarrow> rh_res left \<noteq> rh_get_null left"

definition rh_neq_ptr :: "'p res_handle \<Rightarrow> 'p \<Rightarrow> bool" where
  "rh_neq_ptr left right \<longleftrightarrow> rh_res left \<noteq> right"

text \<open>
  The type of \<open>res\<close>: the deleter's \<open>pointer\<close> if it has one, else the resource type. The constructors that make the deleter from
  arguments, the assignments of a resource and of \<open>nullptr\<close>, and the observers.
\<close>

definition pointer_type :: "'t \<Rightarrow> 't option \<Rightarrow> 't" where
  "pointer_type T dx_pointer = (case dx_pointer of Some p \<Rightarrow> p | None \<Rightarrow> T)"

definition rh_make_args :: "'p \<Rightarrow> ('a \<Rightarrow> 'p deleter) \<Rightarrow> 'a \<Rightarrow> 'p res_handle" where
  "rh_make_args h dx dx_args = rh_make h (dx dx_args)"

definition rh_make_null_args :: "('a \<Rightarrow> 'p deleter) \<Rightarrow> 'a \<Rightarrow> 'p res_handle" where
  "rh_make_null_args dx dx_args = rh_make_null (dx dx_args)"

definition rh_assign :: "'p \<Rightarrow> 'p res_handle \<Rightarrow> 'p res_handle \<times> 'p list" where
  "rh_assign right h = rh_reset right h"

definition rh_assign_null :: "'p res_handle \<Rightarrow> 'p res_handle \<times> 'p list" where
  "rh_assign_null h = rh_reset_null h"

definition rh_get :: "'p res_handle \<Rightarrow> 'p" where
  "rh_get h = rh_res h"

definition rh_get_deleter :: "'p res_handle \<Rightarrow> 'p deleter" where
  "rh_get_deleter h = rh_deleter h"

lemma rh_assignments:
  "rh_get (fst (rh_assign p h)) = p" "rh_is_null (fst (rh_assign_null h))"
  "snd (rh_assign p h) = (if rh_is_null h then [] else [rh_get h])" "snd (rh_assign_null h) = snd (rh_assign p h)"
  "rh_get_deleter (fst (rh_assign p h)) = rh_get_deleter h"
  "rh_null_eq (rh_make_null_args mk a)" "rh_eq_ptr (rh_make_args p mk a) p"
  by (simp_all add: rh_assign_def rh_assign_null_def rh_get_def rh_get_deleter_def rh_reset_def rh_reset_null_def rh_is_null_def
      rh_get_null_def rh_null_eq_def rh_eq_ptr_def rh_make_args_def rh_make_null_args_def rh_make_def rh_make_null_def)

text \<open>
  What \<open>main\<close> prints, given the sizes of \<open>handle<int, my_empty_int_deleter>\<close> and \<open>handle<int, my_stateful_int_deleter>\<close>: the
  first line names \<open>handle<int>\<close> and has the size of the former. At the end the handles are destroyed in reverse order.
\<close>

definition res_main :: "i32 \<Rightarrow> i32 \<Rightarrow> nat \<Rightarrow> nat \<Rightarrow> (nat \<Rightarrow> string) \<Rightarrow> string" where
  "res_main junk1 junk2 sz_empty sz_stateful show_nat =
     (let h1 = rh_default (default_handle_deleter 0) junk1;
          h2 = rh_default my_empty_int_deleter junk2;
          h3 = rh_make 0 (my_stateful_int_deleter 25);
          ended = \<lambda>h. concat (map (dl_prints (rh_deleter h)) (snd (rh_dtor h)))
      in ''sizeof(handle<int>) == '' @ show_nat sz_empty @ [CHR 0x0A] @
         ''sizeof(handle<int, my_empty_int_deleter>) == '' @ show_nat sz_empty @ [CHR 0x0A] @
         ''sizeof(handle<int, my_stateful_int_deleter>) == '' @ show_nat sz_stateful @ [CHR 0x0A] @
         ended h3 @ ended h2 @ ended h1)"

section \<open>Programs over handles\<close>

text \<open>
  The objects of a program that share a deleter, by address, and everything that was deleted, with whether the move constructor did it.
\<close>

record 'p res_pool =
  rp_res :: "nat \<Rightarrow> 'p"
  rp_log :: "(bool \<times> 'p) list"

definition pool_make :: "'p deleter \<Rightarrow> nat \<Rightarrow> 'p \<Rightarrow> 'p res_pool \<Rightarrow> 'p res_pool" where
  "pool_make d t v s = s\<lparr>rp_res := (rp_res s)(t := rh_res (rh_make v d))\<rparr>"

definition pool_move_ctor :: "'p deleter \<Rightarrow> nat \<Rightarrow> nat \<Rightarrow> 'p res_pool \<Rightarrow> 'p res_pool" where
  "pool_move_ctor d t f s =
     (case rh_move_ctor (rh_make (rp_res s f) d) of (new, mov, deleted) \<Rightarrow>
        s\<lparr>rp_res := (rp_res s)(t := rh_res new, f := rh_res mov), rp_log := rp_log s @ map (Pair True) deleted\<rparr>)"

definition pool_move_assign :: "'p deleter \<Rightarrow> nat \<Rightarrow> nat \<Rightarrow> 'p res_pool \<Rightarrow> 'p res_pool" where
  "pool_move_assign d t f s =
     (if t = f then
        (case rh_self_assign (rh_make (rp_res s t) d) of (h, deleted) \<Rightarrow>
           s\<lparr>rp_res := (rp_res s)(t := rh_res h), rp_log := rp_log s @ map (Pair False) deleted\<rparr>)
      else
        (case rh_move_assign (rh_make (rp_res s t) d) (rh_make (rp_res s f) d) of (left, right, deleted) \<Rightarrow>
           s\<lparr>rp_res := (rp_res s)(t := rh_res left, f := rh_res right), rp_log := rp_log s @ map (Pair False) deleted\<rparr>))"

definition pool_dtor :: "'p deleter \<Rightarrow> nat \<Rightarrow> 'p res_pool \<Rightarrow> 'p res_pool" where
  "pool_dtor d t s =
     (case rh_dtor (rh_make (rp_res s t) d) of (h, deleted) \<Rightarrow>
        s\<lparr>rp_res := (rp_res s)(t := rh_res h), rp_log := rp_log s @ map (Pair False) deleted\<rparr>)"

definition rp_deleted :: "'p res_pool \<Rightarrow> 'p list" where
  "rp_deleted s = map snd (rp_log s)"

definition rp_moved :: "'p res_pool \<Rightarrow> 'p list" where
  "rp_moved s = map snd (filter fst (rp_log s))"

text \<open>What the other operations deleted.\<close>

definition rp_closed :: "'p res_pool \<Rightarrow> 'p list" where
  "rp_closed s = map snd (filter (\<lambda>x. \<not> fst x) (rp_log s))"

lemma rp_deleted_split: "mset (rp_deleted s) = mset (rp_closed s) + mset (rp_moved s)"
proof -
  have "mset (map snd xs) = mset (map snd (filter (\<lambda>x. \<not> fst x) xs)) + mset (map snd (filter fst xs))"
    for xs :: "(bool \<times> 'a) list"
    by (induction xs) auto
  then show ?thesis unfolding rp_deleted_def rp_closed_def rp_moved_def .
qed

lemmas rh_defs = rh_make_def rh_is_null_def rh_get_null_def rh_reset_def rh_release_def rh_move_ctor_def rh_move_assign_def
  rh_self_assign_def rh_dtor_def

lemmas pool_defs = pool_make_def pool_move_ctor_def pool_move_assign_def pool_dtor_def rp_closed_def

text \<open>But for what the move constructor deletes, the class keeps the contract of the library's owners.\<close>

interpretation res_handle: move_only "dl_null d" rp_res rp_closed "pool_make d" "pool_move_ctor d" "Some (pool_move_assign d)" "pool_dtor d"
  for d :: "'p deleter"
  by unfold_locales (auto simp: pool_defs rh_defs keep_def Let_def)

text \<open>
  In every program that makes, moves, assigns and destroys handles, what was deleted and what is still held is what was put into
  handles and, once more, every resource that was moved by the move constructor. So without move constructions every resource is
  deleted exactly once or still held.
\<close>

lemma res_handle_resources:
  assumes "run_acts (own_step (pool_make d) (pool_move_ctor d) (Some (pool_move_assign d)) (pool_dtor d)) cs ([], s0) = Some (live, s)"
    and "rp_log s0 = []"
  shows "owned (dl_null d) (rp_res s) live + mset (rp_deleted s) = acquired (dl_null d) cs + mset (rp_moved s)"
proof -
  have "rp_closed s0 = []" using assms(2) by (simp add: rp_closed_def)
  from res_handle.run_exactly_once [OF assms(1) this] rp_deleted_split [of s] show ?thesis
    by (metis union_assoc)
qed

theorem res_handle_resources_witness:
  "\<exists>live s. run_acts (own_step (pool_make my_empty_int_deleter) (pool_move_ctor my_empty_int_deleter)
        (Some (pool_move_assign my_empty_int_deleter)) (pool_dtor my_empty_int_deleter))
      [Make 1 7, Make 2 8, Move_assign 2 1, Move_assign 2 2, Destroy 1, Destroy 2] ([], \<lparr>rp_res = \<lambda>_. 0, rp_log = []\<rparr>) = Some (live, s) \<and>
    rp_deleted s = [8, 7] \<and> owned 0 (rp_res s) live + mset (rp_deleted s) = {#7, 8#}"
proof -
  let ?cs = "[Make 1 7, Make 2 8, Move_assign 2 1, Move_assign 2 2, Destroy 1, Destroy 2] :: i32 own_cmd list"
  obtain live s where r: "run_acts (own_step (pool_make my_empty_int_deleter) (pool_move_ctor my_empty_int_deleter)
      (Some (pool_move_assign my_empty_int_deleter)) (pool_dtor my_empty_int_deleter)) ?cs ([], \<lparr>rp_res = \<lambda>_. 0, rp_log = []\<rparr>) =
      Some (live, s)" and c: "rp_deleted s = [8, 7]" "rp_moved s = []"
    by (simp add: pool_defs rh_defs my_empty_int_deleter_def rp_deleted_def rp_moved_def)
  have "dl_null my_empty_int_deleter = 0" by (simp add: my_empty_int_deleter_def)
  with res_handle_resources [OF r] r c show ?thesis by auto
qed

text \<open>
  The move constructor does not move: it deletes the resource that the new handle then holds, and destroying the new handle deletes
  it a second time. And \<open>operator bool\<close> is true for null handles only.
\<close>

lemma res_handle_move_deletes:
  "(v \<noteq> dl_null d \<longrightarrow>
     (\<exists>live s. run_acts (own_step (pool_make d) (pool_move_ctor d) (Some (pool_move_assign d)) (pool_dtor d))
         [Make 1 v, Move_ctor 2 1, Destroy 2, Destroy 1] ([], \<lparr>rp_res = \<lambda>_. dl_null d, rp_log = []\<rparr>) = Some (live, s) \<and>
       rp_deleted s = [v, v])) \<and>
   rh_bool (rh_make v d) = (v = dl_null d)"
  by (simp add: pool_defs rh_defs rp_deleted_def rh_bool_def)

theorem res_handle_move_deletes_witness:
  "\<exists>live s. run_acts (own_step (pool_make my_empty_int_deleter) (pool_move_ctor my_empty_int_deleter)
        (Some (pool_move_assign my_empty_int_deleter)) (pool_dtor my_empty_int_deleter))
      [Make 1 7, Move_ctor 2 1, Destroy 2, Destroy 1] ([], \<lparr>rp_res = \<lambda>_. dl_null my_empty_int_deleter, rp_log = []\<rparr>) = Some (live, s) \<and>
    rp_deleted s = [7, 7]"
proof -
  have "(7 :: i32) \<noteq> dl_null my_empty_int_deleter" by (simp add: my_empty_int_deleter_def)
  with res_handle_move_deletes [of 7 my_empty_int_deleter] show ?thesis by blast
qed

text \<open>The comparisons agree with each other; the program prints the message of the handle whose resource is below its null value.\<close>

lemma rh_comparisons:
  "rh_neq l r = (\<not> rh_eq l r)" "rh_null_neq l = (\<not> rh_null_eq l)" "rh_neq_ptr l p = (\<not> rh_eq_ptr l p)" "rh_null_eq l = rh_is_null l"
  by (simp_all add: rh_neq_def rh_eq_def rh_null_neq_def rh_null_eq_def rh_neq_ptr_def rh_eq_ptr_def rh_is_null_def rh_get_null_def)

lemma res_main_message:
  "res_main junk1 junk2 sz_empty sz_stateful show_nat =
     ''sizeof(handle<int>) == '' @ show_nat sz_empty @ [CHR 0x0A] @
     ''sizeof(handle<int, my_empty_int_deleter>) == '' @ show_nat sz_empty @ [CHR 0x0A] @
     ''sizeof(handle<int, my_stateful_int_deleter>) == '' @ show_nat sz_stateful @ [CHR 0x0A] @
     ''Less than the null value on deletion'' @ [CHR 0x0A]"
proof -
  have "(0 :: i32) <s 25" by (simp add: word_sless_alt)
  then show ?thesis
    by (simp add: res_main_def rh_defs rh_default_def default_handle_deleter_def my_empty_int_deleter_def my_stateful_int_deleter_def
        Let_def)
qed

end
