(* ===== verification/Spec2Isabelle.thy ===== *)
theory Spec2Isabelle
  imports Ice_Error Ice_Handle Ice_Mutex Ice_Async Ice_Async_Gen Ice_Async_Iter Ice_Event Ice_Net Ice_Tcp Ice_Tcp_Win Ice_Udp
    Ice_Context Ice_Loop_Recv Ice_Loop_Linux Ice_Loop_Bsd Ice_Loop_Win Ice_Ssh_Session Ice_Ssh_Win Ice_Http Ice_Server Ice_Benchmark Ice_Res_Handle
begin

text \<open>
  ice is an asynchronous C++ networking library: coroutines that await operations on sockets, over epoll on Linux, kqueue on
  FreeBSD and I/O completion ports on Windows. This development models the library under include/ice and src/ice, the HTTP test
  server src/main.cpp, the benchmark program src/benchmark.cpp and the sketch res/handle.cpp.
  This file only loads it; all paths below are relative to the root of the repository's sources.

  \<^bold>\<open>How the parts interact.\<close> A \<open>context\<close> owns an event queue of the kernel; threads call \<open>run\<close>, which waits for entries and
  calls \<open>await_resume\<close> of the \<open>event\<close> each entry points to. Every asynchronous operation (\<open>tcp::recv\<close>, \<open>udp::send\<close>, \<open>schedule\<close>,
  \<open>ssh::transport\<close>, ...) derives from \<open>event\<close>: awaiting it calls \<open>await_ready\<close>, then \<open>suspend\<close>, which registers it with the
  kernel; \<open>await_resume\<close> takes the registration back, tries the operation again by \<open>resume\<close> and continues the coroutine or registers
  again. The coroutine types \<open>task\<close>, \<open>async\<close>, \<open>generator\<close>, \<open>async_generator\<close> and the \<open>async_mutex\<close> (include/ice/async.h) are independent of
  the context. The SSH session runs libssh2 over a TCP socket, with its callbacks doing the transport. Errors travel as \<open>error_code\<close>
  inside an event and as exceptions out of it.

  \<^bold>\<open>The theories.\<close> Each opens with a text that says what it holds.

  \<^item> \<open>Ice_Prelude\<close>: platforms, widths, memory, the collection \<open>ice_const\<close> of the constants' values; reachability; machines given by an
    action function (\<open>run_acts\<close>); the locales \<open>invariant_system\<close> and \<open>refinement\<close>, the contracts of an inductive invariant and
    of a forward simulation.
  \<^item> \<open>Ice_Error\<close>: error codes as one 32-bit word, the three categories with their message tables, exceptions (include/ice/error.h,
    src/ice/error.cpp).
  \<^item> \<open>Ice_Owner\<close>: the locale \<open>move_only\<close>, the interface of the classes that own one resource; interpreted for \<open>handle\<close> and \<open>scope_exit\<close> in
    \<open>Ice_Handle\<close> (handle.h, scope.h, utility.h, utility.cpp), for \<open>async\<close> and \<open>generator\<close> in \<open>Ice_Async\<close>, for \<open>async_generator\<close> in
    \<open>Ice_Async_Iter\<close>, for \<open>async_mutex_lock\<close> in \<open>Ice_Mutex\<close>.
  \<^item> \<open>Ice_Mutex\<close>, \<open>Ice_Async\<close>, \<open>Ice_Async_Gen\<close>, \<open>Ice_Async_Iter\<close>: include/ice/async.h. The mutex, the rendezvous of an
    awaiter with a completing coroutine and the producer and consumer of an \<open>async_generator\<close> are machines whose actions are single
    accesses to shared memory, so that a run is an interleaving; \<open>Ice_Async_Iter\<close> relates the surrounding objects to them.
  \<^item> \<open>Ice_Sys\<close>: the system calls, as records of functions on an abstract kernel state (\<open>usys\<close> on Unix, \<open>wsys\<close> on Windows), and the
    retry loops. \<open>Ice_Event\<close>: \<open>event\<close> (event.h, event.cpp), \<open>await_exec\<close>, the protocol of one await, and the locale \<open>awaitable\<close>, what
    an operation's three functions promise to it.
  \<^item> \<open>Ice_Net\<close>: endpoints, options, buffers, the socket base class (include/ice/net, src/ice/net). \<open>Ice_Tcp\<close>, \<open>Ice_Tcp_Win\<close>, \<open>Ice_Udp\<close>: the
    operations of the two protocols, with an interpretation of \<open>awaitable\<close> for each operation.
  \<^item> \<open>Ice_Context\<close>: construction, destruction, \<open>run\<close>, \<open>stop\<close>, \<open>interrupt\<close> and \<open>schedule\<close>, and the machine of the threads of one context
    (context.h, context.cpp).
  \<^item> \<open>Ice_Objects\<close>: the composition of the loop with the objects it dispatches, for any objects and any kernel: the machine of \<open>Ice_Context\<close>
    together with the suspended objects by address, and the locale \<open>object_loop\<close>, the contract under which no dispatch hits an object that is
    not suspended.
  \<^item> \<open>Ice_Loop\<close>, \<open>Ice_Loop_Run\<close>, \<open>Ice_Loop_Linux\<close>, \<open>Ice_Loop_Bsd\<close>, \<open>Ice_Loop_Send\<close>, \<open>Ice_Loop_Recv\<close>: that machine on Linux and
    FreeBSD. \<open>Ice_Loop\<close> has the virtual calls on an operation, the locale \<open>notifier\<close> of a kernel's event queue and, over it, the
    locales \<open>registering\<close> and \<open>loop_class\<close> with an instance for each of the eight operation classes. The locale \<open>loop_tracking\<close> of
    \<open>Ice_Loop_Run\<close> relates registrations, suspended operations and entries, and provides \<open>object_loop\<close>. \<open>Ice_Loop_Linux\<close> interprets
    \<open>notifier\<close> and \<open>loop_tracking\<close> by \<open>epoll\<close>, \<open>Ice_Loop_Bsd\<close> by \<open>kqueue\<close>. \<open>Ice_Loop_Send\<close> carries \<open>awaitable\<close> over to
    the machine (the locale \<open>loop_awaitable\<close>), interpreted there and in \<open>Ice_Loop_Recv\<close> for the eight classes.
  \<^item> \<open>Ice_Loop_Win\<close>: the machine on Windows. The locale \<open>port_class\<close> is what a class of operations does to a completion port; it is
    interpreted for the eight classes and \<open>schedule\<close>, and \<open>object_loop\<close> for all of them.
  \<^item> \<open>Ice_Ssh\<close>, \<open>Ice_Ssh_Session\<close>, \<open>Ice_Ssh_Win\<close>: sessions, channels and the transport (include/ice/net/ssh, src/ice/net/ssh).
  \<^item> \<open>Ice_Http\<close>, \<open>Ice_Server\<close>: \<open>respond\<close>, \<open>handle\<close>, \<open>server\<close> and \<open>main\<close> of src/main.cpp. \<open>Ice_Benchmark\<close>: src/benchmark.cpp, a coroutine that goes back
    to the kernel from inside a dispatch; what it needs of a platform is the locale \<open>scheduler\<close>, which Linux and Windows provide.
    \<open>Ice_Res_Handle\<close>: res/handle.cpp.

  \<^bold>\<open>State and operations.\<close> A class is a record with the source's members, its functions are definitions with the
  source's names (with a suffix for the platform or the class where they clash). Objects that are moved or destroyed live at addresses, as
  functions from \<open>nat\<close>. Integers keep their width where the code depends on it: \<open>error_code\<close>, the state word of the context, the
  state of the mutex, buffer sizes and the casts of sizes; the results and errno values of system calls are unbounded integers that the
  contracts bound. A raised exception is the left case of a sum, a loop that may not end is a \<open>partial_function\<close> whose
  value \<open>None\<close> is not returning, and so is an undefined operation where the text says so. A failed assertion is a
  position of its own (\<open>Aborted\<close>, \<open>C_error\<close>) that the properties show to be unreachable.

  \<^bold>\<open>What is proved.\<close>

  \<^item> The mutex: exclusion, refinement of a first-in first-out lock, safety of every assertion and pointer access, a bounded hand-over,
    and when it may be destroyed.
  \<^item> Coroutines: an awaiter of \<open>async\<close> is continued exactly once and after the result is there; an \<open>async_generator\<close> loses and repeats no value,
    neither side is stranded, and its frame is destroyed once; the iterators of \<open>generator\<close> give the values of its body; frames and
    handles are released exactly once.
  \<^item> Error codes: the round trip through the combined word, the comparison operators, the texts.
  \<^item> Operations: \<open>send\<close> gives the kernel the whole buffer once and in order, \<open>recv\<close> fills the buffer with what the kernel gave,
    \<open>connect\<close> returns when connected, \<open>accept\<close> hands on each descriptor once; datagrams are kept whole.
  \<^item> The loop: \<open>stop\<close> reaches every thread, an entry is dispatched once, the state word counts the threads; in the composition, on each of the three platforms, a thread only calls
    objects that are suspended, every pointer the kernel holds is to a live operation of the right class, and \<open>send\<close> and \<open>recv\<close> deliver although other
    operations and threads run between their attempts.
  \<^item> SSH: the order of calls, what is awaited, the bytes written and read, the lifetime of the session.
  \<^item> The server: a response for each blank line in the order of the requests, \<open>handle\<close> waits for its responders, no connection is lost or
    handled twice, \<open>main\<close> returns when the server has left.
  \<^item> The benchmark program makes all its repetitions, stops the context from inside \<open>run\<close> and returns.

  Where the code does not do what it means to, the theorem states what it does: the address that \<open>connect\<close> loses with the copied endpoint, the
  linger option, the wake-up that \<open>schedule\<close> takes from \<open>stop\<close>, the second wait on a descriptor (an error on Linux, the loss of the
  first wait on FreeBSD), the sends on Windows and of SSH channels that send bytes again.

  \<^bold>\<open>The outside.\<close> The kernel, the C library's message and address functions and libssh2 are parameters, with what the code relies on as
  named hypotheses (\<open>epoll_ok\<close>, \<open>kqueue_ok\<close>, \<open>iocp_ok\<close>, \<open>note_ok\<close>, \<open>port_ok\<close>, \<open>wake_ok\<close>, \<open>fds_ok\<close>, \<open>register_ok\<close>, \<open>accept_ok\<close>, \<open>interrupted_at_most\<close>, ...). Each is
  instantiated by a small concrete kernel in a witness. No call is interrupted by a signal for ever; no fuel is used elsewhere, but bounds are
  stated: four steps of the producer, two after a cancellation, \<open>length q + 4\<close> accesses of an \<open>unlock\<close> with \<open>q\<close> waiters.

  \<^bold>\<open>Abstractions.\<close> Memory is sequentially consistent: the orderings given to the atomics are not modelled. In \<open>Ice_Objects\<close> a call of
  \<open>await_resume\<close> or \<open>co_await\<close> is one step, since an operation that is neither registered nor in a list of entries is touched by nobody
  else. On Windows the bytes and addresses that a pending call leaves in memory are written by the environment, and no socket is closed while an
  operation is suspended on it. In \<open>Ice_Http\<close> the mutex is the abstract lock that \<open>Ice_Mutex\<close> shows it to be.

  \<^bold>\<open>Not modelled.\<close> \<open>main\<close> of src/benchmark.cpp, which calls the benchmark library, and that library's loop beyond the number of its
  repetitions; src/test.cpp (the entry point of a test framework), res/check.cpp (it tests the compiler); the static assertions of
  src/ice/net/buffer.cpp and types.cpp, which compare the layouts of the declarations with those of the system headers at compile
  time; the empty base class optimisation of res/handle.cpp, which has no behaviour; accessors that return a member; the printing of a
  socket or endpoint to a stream beyond its text.
\<close>

end
